(* ===== verification/Prelude.thy ===== *)
theory Prelude
  imports Main "HOL-Library.Word"
begin

section \<open>Shared types, results and ordered containers\<close>

text \<open>
  What every component of the development shares: the machine integers and byte arrays of
  \<^verbatim>\<open>src/src/bitxorcore/types.h\<close>, the exceptions of \<^verbatim>\<open>exceptions.h\<close> as values of a result type, and the
  ordered containers of the C++ library (\<^verbatim>\<open>std::map\<close> and \<^verbatim>\<open>std::set\<close>) as association lists sorted by
  their comparator.  The laws of the ordered containers are proved once, in the locale
  \<open>key_order\<close>, for any strict total order on the keys; the components interpret it with the
  comparator their container declares.
\<close>

subsection \<open>Base values and byte arrays\<close>

text \<open>
  A \<^verbatim>\<open>BaseValue<uint64_t, Tag>\<close> wraps around like the integer it holds, so it is a 64-bit word.
  A byte array compares lexicographically, that is like the big-endian number its bytes spell,
  so it is a word of its size: 24 bytes for an address, 32 bytes for a hash or a key.
\<close>

type_synonym amount = "64 word"
type_synonym token_id = "64 word"
type_synonym height = "64 word"
type_synonym block_duration = "64 word"
type_synonym importance = "64 word"
type_synonym epoch = "32 word"
type_synonym hash256 = "256 word"
type_synonym key = "256 word"
type_synonym address = "192 word"

lemma word_pred_less: "x \<noteq> 0 \<Longrightarrow> x - 1 < x" for x :: "'a::len word"
  by unat_arith

lemma word_less_pred: "x \<noteq> 0 \<Longrightarrow> y < x \<Longrightarrow> y \<le> x - 1" for x y :: "'a::len word"
  by unat_arith

lemma unat_sum_list:
  assumes "(\<Sum>s \<leftarrow> xs. unat (f s)) < 2 ^ 64"
  shows "unat (\<Sum>s \<leftarrow> xs. f s :: 64 word) = (\<Sum>s \<leftarrow> xs. unat (f s))"
  using assms
proof (induction xs)
  case (Cons x xs)
  then have "unat (f x) + unat (\<Sum>s \<leftarrow> xs. f s) < 2 ^ LENGTH(64)" by simp
  then show ?case using Cons by (simp add: unat_add_lem [THEN iffD1])
qed simp

subsection \<open>Exceptions as values\<close>

datatype exn = Runtime_Error | Invalid_Argument | Out_Of_Range | Range_Error | File_Io_Error

datatype 'a result = Ok (the_ok: 'a) | Err exn

fun bind_result :: "'a result \<Rightarrow> ('a \<Rightarrow> 'b result) \<Rightarrow> 'b result" where
  "bind_result (Ok x) f = f x"
| "bind_result (Err e) f = Err e"

fun map_result :: "('a \<Rightarrow> 'b) \<Rightarrow> 'a result \<Rightarrow> 'b result" where
  "map_result f (Ok x) = Ok (f x)"
| "map_result f (Err e) = Err e"

lemma bind_result_eq_Ok [simp]:
  "bind_result r f = Ok y \<longleftrightarrow> (\<exists>x. r = Ok x \<and> f x = Ok y)"
  by (cases r) auto

lemma map_result_eq_Ok [simp]:
  "map_result f r = Ok y \<longleftrightarrow> (\<exists>x. r = Ok x \<and> y = f x)"
  by (cases r) auto

lemma bind_result_assoc:
  "bind_result (bind_result r f) g = bind_result r (\<lambda>x. bind_result (f x) g)"
  by (cases r) auto

text \<open>A range-based for loop whose body may throw: the first exception ends it.\<close>

fun fold_result :: "('a \<Rightarrow> 's \<Rightarrow> 's result) \<Rightarrow> 'a list \<Rightarrow> 's \<Rightarrow> 's result" where
  "fold_result f [] s = Ok s"
| "fold_result f (x # xs) s = bind_result (f x s) (fold_result f xs)"

lemma fold_result_append:
  "fold_result f (xs @ ys) s = bind_result (fold_result f xs s) (fold_result f ys)"
proof (induction xs arbitrary: s)
  case (Cons x xs)
  show ?case by (cases "f x s") (simp_all add: Cons.IH)
qed simp

subsection \<open>Ordered containers\<close>

text \<open>
  A \<^verbatim>\<open>std::map\<close> with comparator \<open>lt\<close> is the list of its pairs in iteration order.  \<open>om_insert\<close> is
  \<^verbatim>\<open>insert\<close> (an existing key is kept), \<open>om_assign\<close> is \<^verbatim>\<open>insert_or_assign\<close>, \<open>om_erase\<close> is
  \<^verbatim>\<open>erase\<close> by key, and \<open>om_lower_bound\<close> returns the suffix that starts at the iterator
  \<^verbatim>\<open>lower_bound\<close> returns.
\<close>

fun om_insert :: "('k \<Rightarrow> 'k \<Rightarrow> bool) \<Rightarrow> 'k \<Rightarrow> 'v \<Rightarrow> ('k \<times> 'v) list \<Rightarrow> ('k \<times> 'v) list" where
  "om_insert lt k v [] = [(k, v)]"
| "om_insert lt k v ((k', v') # xs) =
     (if lt k k' then (k, v) # (k', v') # xs
      else if lt k' k then (k', v') # om_insert lt k v xs
      else (k', v') # xs)"

fun om_assign :: "('k \<Rightarrow> 'k \<Rightarrow> bool) \<Rightarrow> 'k \<Rightarrow> 'v \<Rightarrow> ('k \<times> 'v) list \<Rightarrow> ('k \<times> 'v) list" where
  "om_assign lt k v [] = [(k, v)]"
| "om_assign lt k v ((k', v') # xs) =
     (if lt k k' then (k, v) # (k', v') # xs
      else if lt k' k then (k', v') # om_assign lt k v xs
      else (k, v) # xs)"

definition om_erase :: "'k \<Rightarrow> ('k \<times> 'v) list \<Rightarrow> ('k \<times> 'v) list" where
  "om_erase k xs = filter (\<lambda>p. fst p \<noteq> k) xs"

definition om_lower_bound :: "('k \<Rightarrow> 'k \<Rightarrow> bool) \<Rightarrow> 'k \<Rightarrow> ('k \<times> 'v) list \<Rightarrow> ('k \<times> 'v) list" where
  "om_lower_bound lt k xs = dropWhile (\<lambda>p. lt (fst p) k) xs"

text \<open>An assignment through a mutable iterator to the pair with key \<open>k\<close>.\<close>

definition om_update :: "'k \<Rightarrow> 'v \<Rightarrow> ('k \<times> 'v) list \<Rightarrow> ('k \<times> 'v) list" where
  "om_update k v xs = map (\<lambda>p. if fst p = k then (k, v) else p) xs"

abbreviation om_sorted :: "('k \<Rightarrow> 'k \<Rightarrow> bool) \<Rightarrow> ('k \<times> 'v) list \<Rightarrow> bool" where
  "om_sorted lt xs \<equiv> sorted_wrt lt (map fst xs)"

lemma map_of_om_erase: "map_of (om_erase k xs) = (map_of xs)(k := None)"
  by (induction xs) (auto simp: om_erase_def fun_eq_iff)

lemma om_erase_absent: "k \<notin> fst ` set xs \<Longrightarrow> om_erase k xs = xs"
  unfolding om_erase_def by (intro filter_True) force

lemma set_om_erase: "set (om_erase k xs) = {p \<in> set xs. fst p \<noteq> k}"
  by (auto simp: om_erase_def)

lemma om_sorted_erase: "om_sorted lt xs \<Longrightarrow> om_sorted lt (om_erase k xs)"
  unfolding om_erase_def
  by (induction xs) auto

lemma om_update_keys [simp]: "map fst (om_update k v xs) = map fst xs"
  by (simp add: om_update_def)

lemma om_update_keys_set [simp]: "fst ` set (om_update k v xs) = fst ` set xs"
  by (metis om_update_keys list.set_map)

lemma om_update_absent: "k \<notin> fst ` set xs \<Longrightarrow> om_update k v xs = xs"
  unfolding om_update_def by (intro map_idI) force

lemma map_of_om_update:
  "k \<in> fst ` set xs \<Longrightarrow> map_of (om_update k v xs) = (map_of xs)(k \<mapsto> v)"
proof (induction xs)
  case (Cons p xs)
  show ?case
  proof (cases "k \<in> fst ` set xs")
    case False
    then have "om_update k v xs = xs" by (rule om_update_absent)
    with False Cons.prems show ?thesis by (auto simp: om_update_def)
  qed (use Cons in \<open>auto simp: om_update_def\<close>)
qed simp

locale key_order =
  fixes lt :: "'k \<Rightarrow> 'k \<Rightarrow> bool"
  assumes lt_irrefl: "\<not> lt k k"
    and lt_trans: "lt a b \<Longrightarrow> lt b c \<Longrightarrow> lt a c"
    and lt_total: "a \<noteq> b \<Longrightarrow> lt a b \<or> lt b a"
begin

lemma lt_asym: "lt a b \<Longrightarrow> \<not> lt b a"
  using lt_irrefl lt_trans by blast

lemma lt_neq: "lt a b \<Longrightarrow> a \<noteq> b"
  using lt_irrefl by blast

lemma sorted_distinct: "om_sorted lt xs \<Longrightarrow> distinct (map fst xs)"
  by (induction xs) (auto dest: lt_neq)

lemma set_om_insert: "fst ` set (om_insert lt k v xs) = insert k (fst ` set xs)"
proof (induction xs)
  case (Cons p xs)
  have "k = fst p" if "\<not> lt (fst p) k" "\<not> lt k (fst p)" using that lt_total by blast
  with Cons.IH show ?case by (cases p) auto
qed simp

lemma set_om_assign: "fst ` set (om_assign lt k v xs) = insert k (fst ` set xs)"
proof (induction xs)
  case (Cons p xs)
  have "k = fst p" if "\<not> lt (fst p) k" "\<not> lt k (fst p)" using that lt_total by blast
  with Cons.IH show ?case by (cases p) auto
qed simp

lemma sorted_om_insert: "om_sorted lt xs \<Longrightarrow> om_sorted lt (om_insert lt k v xs)"
proof (induction xs)
  case (Cons p xs)
  obtain k' v' where p: "p = (k', v')" by (cases p)
  show ?case
  proof (cases "lt k k'")
    case True
    with Cons.prems p show ?thesis by (auto dest: lt_trans)
  next
    case False
    have "\<forall>x \<in> fst ` set (om_insert lt k v xs). lt k' x" if "lt k' k"
      using that Cons.prems p by (simp only: set_om_insert) auto
    with False Cons p show ?thesis by auto
  qed
qed simp

lemma sorted_om_assign: "om_sorted lt xs \<Longrightarrow> om_sorted lt (om_assign lt k v xs)"
proof (induction xs)
  case (Cons p xs)
  obtain k' v' where p: "p = (k', v')" by (cases p)
  show ?case
  proof (cases "lt k k'")
    case True
    with Cons.prems p show ?thesis by (auto dest: lt_trans)
  next
    case False
    have "\<forall>x \<in> fst ` set (om_assign lt k v xs). lt k' x" if "lt k' k"
      using that Cons.prems p by (simp only: set_om_assign) auto
    moreover have "k = k'" if "\<not> lt k' k" using that False lt_total by blast
    ultimately show ?thesis using False Cons p by auto
  qed
qed simp

lemma map_of_om_insert:
  "k \<notin> fst ` set xs \<Longrightarrow> map_of (om_insert lt k v xs) = (map_of xs)(k \<mapsto> v)"
  by (induction xs) (use lt_total in \<open>fastforce simp: fun_eq_iff\<close>)+

lemma om_insert_present: "om_sorted lt xs \<Longrightarrow> k \<in> fst ` set xs \<Longrightarrow> om_insert lt k v xs = xs"
proof (induction xs)
  case (Cons p xs)
  show ?case
  proof (cases "k = fst p")
    case False
    with Cons.prems have "lt (fst p) k" "k \<in> fst ` set xs" by auto
    with Cons lt_asym show ?thesis by (cases p) auto
  qed (use lt_irrefl in \<open>cases p, auto\<close>)
qed simp

lemma length_om_insert: "k \<notin> fst ` set xs \<Longrightarrow> length (om_insert lt k v xs) = Suc (length xs)"
  by (induction xs) (use lt_total in \<open>fastforce+\<close>)

lemma map_of_om_assign: "om_sorted lt xs \<Longrightarrow> map_of (om_assign lt k v xs) = (map_of xs)(k \<mapsto> v)"
proof (induction xs)
  case (Cons p xs)
  obtain k' v' where p: "p = (k', v')" by (cases p)
  have "k = k'" if "\<not> lt k' k" "\<not> lt k k'" using that lt_total by blast
  moreover have "\<not> lt k k" by (rule lt_irrefl)
  ultimately show ?case using Cons p by (auto simp: fun_eq_iff)
qed simp

text \<open>A sorted container is determined by the map it holds.\<close>

lemma sorted_map_of_unique:
  "om_sorted lt xs \<Longrightarrow> om_sorted lt ys \<Longrightarrow> map_of xs = map_of ys \<Longrightarrow> xs = ys"
proof (induction xs arbitrary: ys)
  case Nil
  then show ?case by (cases ys) (auto simp: fun_eq_iff split: if_splits)
next
  case (Cons p xs)
  obtain k v where p: "p = (k, v)" by (cases p)
  have "map_of ys k = Some v"
    using Cons.prems(3) p by (metis fun_upd_same map_of.simps(2) fst_conv snd_conv)
  then obtain q zs where ys: "ys = q # zs" by (cases ys) auto
  obtain k' v' where q: "q = (k', v')" by (cases q)
  have "map_of (p # xs) k' = Some v'"
    unfolding Cons.prems(3) ys q by simp
  then have "k' = k \<or> lt k k'"
    using Cons.prems(1) p by (auto dest!: map_of_SomeD split: if_splits)
  moreover have "k' = k \<or> lt k' k"
    using \<open>map_of ys k = Some v\<close> Cons.prems(2) ys q by (auto dest!: map_of_SomeD split: if_splits)
  ultimately have "k' = k" using lt_asym by blast
  then have "v' = v" using \<open>map_of ys k = Some v\<close> ys q by simp
  have "map_of xs k = None" and "map_of zs k = None"
    using Cons.prems(1,2) p q ys \<open>k' = k\<close> lt_irrefl by (auto simp: map_of_eq_None_iff)
  have "map_of xs = map_of zs"
  proof
    fix x
    show "map_of xs x = map_of zs x"
      using fun_cong [OF Cons.prems(3), of x] p q ys \<open>k' = k\<close>
        \<open>map_of xs k = None\<close> \<open>map_of zs k = None\<close> by (auto split: if_splits)
  qed
  with Cons p q ys \<open>k' = k\<close> \<open>v' = v\<close> show ?case by auto
qed

end

interpretation asc: key_order "(<) :: 'a::linorder \<Rightarrow> 'a \<Rightarrow> bool"
  by unfold_locales auto

interpretation desc: key_order "(>) :: 'a::linorder \<Rightarrow> 'a \<Rightarrow> bool"
  by unfold_locales auto

end
