(* ===== verification/Token_Map.thy ===== *)
theory Token_Map
  imports Prelude
begin

section \<open>CompactTokenMap\<close>

text \<open>
  The token map of \<^verbatim>\<open>src/src/bitxorcore/state/CompactTokenMap.{h,cpp}\<close>: one token inline (the first
  level), an array of five tokens and a \<^verbatim>\<open>std::map\<close> (the second level).  The slots of the array past
  \<open>ArraySize\<close> keep whatever the shifting loops left there, as in the code.  The main results
  describe the map by its \<open>entries\<close>, the sequence an iteration visits: every operation keeps the
  entries sorted (the optimized token first), \<open>tm_insert\<close> and \<open>tm_erase\<close> act on them as an
  ordered map does, and the iterator visits exactly them.
\<close>

subsection \<open>Storage\<close>

type_synonym token = "token_id \<times> amount"

definition Array_Size :: nat where
  "Array_Size = 5"

record second_level =
  ArrayStorage :: "token list"
  ArraySize :: nat
  pMapStorage :: "token list option"

record first_level =
  Value :: token
  pNextStorage :: "second_level option"

record token_map =
  storage :: first_level
  optimized :: token_id

definition new_second_level :: second_level where
  "new_second_level = \<lparr>ArrayStorage = replicate Array_Size (0, 0), ArraySize = 0, pMapStorage = None\<rparr>"

definition empty_token_map :: token_map where
  "empty_token_map = \<lparr>storage = \<lparr>Value = (0, 0), pNextStorage = None\<rparr>, optimized = 0\<rparr>"

definition hasValue :: "first_level \<Rightarrow> bool" where
  "hasValue s \<longleftrightarrow> 0 \<noteq> fst (Value s)"

definition hasArray :: "first_level \<Rightarrow> bool" where
  "hasArray s \<longleftrightarrow> pNextStorage s \<noteq> None"

definition hasMap :: "first_level \<Rightarrow> bool" where
  "hasMap s \<longleftrightarrow> (case pNextStorage s of None \<Rightarrow> False | Some n \<Rightarrow> pMapStorage n \<noteq> None)"

text \<open>The three accessors dereference \<open>pNextStorage\<close>; every caller checks \<open>hasArray\<close> or \<open>hasMap\<close>.\<close>

definition arraySize :: "first_level \<Rightarrow> nat" where
  "arraySize s = (case pNextStorage s of None \<Rightarrow> 0 | Some n \<Rightarrow> ArraySize n)"

definition array :: "first_level \<Rightarrow> token list" where
  "array s = (case pNextStorage s of None \<Rightarrow> [] | Some n \<Rightarrow> ArrayStorage n)"

definition token_std_map :: "first_level \<Rightarrow> token list" where
  "token_std_map s = (case pNextStorage s of None \<Rightarrow> []
     | Some n \<Rightarrow> (case pMapStorage n of None \<Rightarrow> [] | Some mp \<Rightarrow> mp))"

subsection \<open>Finding a token\<close>

datatype token_location = In_Value | In_Array nat | In_Map

fun find_in_array :: "token_id \<Rightarrow> nat \<Rightarrow> token list \<Rightarrow> nat option" where
  "find_in_array tid i [] = None"
| "find_in_array tid i (t # ts) = (if tid = fst t then Some i else find_in_array tid (Suc i) ts)"

definition tm_empty :: "token_map \<Rightarrow> bool" where
  "tm_empty m \<longleftrightarrow> \<not> hasValue (storage m)"

definition tm_size :: "token_map \<Rightarrow> nat" where
  "tm_size m =
     (let s = storage m in
      if tm_empty m then 0
      else if hasArray s then 1 + arraySize s + (if hasMap s then length (token_std_map s) else 0)
      else 1)"

definition find_location :: "token_map \<Rightarrow> token_id \<Rightarrow> token_location option" where
  "find_location m tid =
     (let s = storage m in
      if tm_empty m then None
      else if tid = fst (Value s) then Some In_Value
      else case (if hasArray s then find_in_array tid 0 (take (arraySize s) (array s)) else None) of
          Some i \<Rightarrow> Some (In_Array i)
        | None \<Rightarrow>
            if hasMap s \<and> map_of (token_std_map s) tid \<noteq> None then Some In_Map else None)"

text \<open>The token an iterator built from a location points at.\<close>

definition token_at :: "token_map \<Rightarrow> token_id \<Rightarrow> token_location \<Rightarrow> token" where
  "token_at m tid loc =
     (case loc of
        In_Value \<Rightarrow> Value (storage m)
      | In_Array i \<Rightarrow> array (storage m) ! i
      | In_Map \<Rightarrow> (tid, the (map_of (token_std_map (storage m)) tid)))"

definition tm_find :: "token_map \<Rightarrow> token_id \<Rightarrow> token option" where
  "tm_find m tid = map_option (token_at m tid) (find_location m tid)"

subsection \<open>Inserting a token\<close>

definition IsLessThan :: "token_id \<Rightarrow> token_id \<Rightarrow> token_id \<Rightarrow> bool" where
  "IsLessThan opt lhs rhs =
     (if lhs = rhs then False
      else if opt = lhs \<or> opt = rhs then opt = lhs
      else lhs < rhs)"

definition insertIntoMap :: "token \<Rightarrow> second_level \<Rightarrow> second_level" where
  "insertIntoMap p n =
     n\<lparr>pMapStorage := Some (om_insert (<) (fst p) (snd p)
         (case pMapStorage n of None \<Rightarrow> [] | Some mp \<Rightarrow> mp))\<rparr>"

text \<open>The loop \<^verbatim>\<open>for (i = size; i > index + 1; --i) array[i - 1] = array[i - 2]\<close>.\<close>

fun shift_up :: "nat \<Rightarrow> nat \<Rightarrow> 'a list \<Rightarrow> 'a list" where
  "shift_up index i a =
     (if index + 1 < i then shift_up index (i - 1) (a[i - 1 := a ! (i - 2)]) else a)"

definition insertIntoArray :: "nat \<Rightarrow> token \<Rightarrow> second_level \<Rightarrow> second_level" where
  "insertIntoArray index p n =
     (let n' = (if ArraySize n = Array_Size then insertIntoMap (last (ArrayStorage n)) n
                else n\<lparr>ArraySize := ArraySize n + 1\<rparr>)
      in n'\<lparr>ArrayStorage := (shift_up index (ArraySize n') (ArrayStorage n'))[index := p]\<rparr>)"

fun first_greater :: "token_id \<Rightarrow> nat \<Rightarrow> token list \<Rightarrow> nat" where
  "first_greater tid i [] = i"
| "first_greater tid i (t # ts) = (if tid < fst t then i else first_greater tid (Suc i) ts)"

definition set_storage :: "token \<Rightarrow> second_level option \<Rightarrow> token_map \<Rightarrow> token_map" where
  "set_storage v n m = m\<lparr>storage := \<lparr>Value = v, pNextStorage = n\<rparr>\<rparr>"

definition tm_insert :: "token_map \<Rightarrow> token \<Rightarrow> token_map result" where
  "tm_insert m p =
     (if fst p = 0 then Err Invalid_Argument
      else if find_location m (fst p) \<noteq> None then Err Invalid_Argument
      else if tm_empty m then Ok (set_storage p (pNextStorage (storage m)) m)
      else
        let v = Value (storage m);
            n = (case pNextStorage (storage m) of None \<Rightarrow> new_second_level | Some n \<Rightarrow> n)
        in
          if IsLessThan (optimized m) (fst p) (fst v)
          then Ok (set_storage p (Some (insertIntoArray 0 v n)) m)
          else
            let i = first_greater (fst p) 0 (take (ArraySize n) (ArrayStorage n)) in
              if i < Array_Size then Ok (set_storage v (Some (insertIntoArray i p n)) m)
              else Ok (set_storage v (Some (insertIntoMap p n)) m))"

subsection \<open>Erasing a token\<close>

text \<open>The loop \<^verbatim>\<open>for (i = index; i < size - 1; ++i) array[i] = array[i + 1]\<close>.\<close>

function shift_down :: "nat \<Rightarrow> nat \<Rightarrow> 'a list \<Rightarrow> 'a list" where
  "shift_down i m a = (if i < m then shift_down (Suc i) m (a[i := a ! (i + 1)]) else a)"
  by pat_completeness auto
termination
  by (relation "measure (\<lambda>(i, m, a). m - i)") auto

definition eraseFromArray :: "nat \<Rightarrow> second_level \<Rightarrow> second_level" where
  "eraseFromArray index n =
     n\<lparr>ArrayStorage := shift_down index (ArraySize n - 1) (ArrayStorage n), ArraySize := ArraySize n - 1\<rparr>"

fun compact_loop :: "token list \<Rightarrow> nat \<Rightarrow> token list \<Rightarrow> token list \<times> nat \<times> token list" where
  "compact_loop a n [] = (a, n, [])"
| "compact_loop a n (t # mp) =
     (if n < Array_Size then compact_loop (a[n := t]) (n + 1) mp else (a, n, t # mp))"

definition compact :: "second_level option \<Rightarrow> second_level option" where
  "compact next =
     (case next of
        None \<Rightarrow> None
      | Some n \<Rightarrow>
          let n' =
            (case pMapStorage n of
               None \<Rightarrow> n
             | Some mp \<Rightarrow>
                 (case compact_loop (ArrayStorage n) (ArraySize n) mp of
                    (a, sz, mp') \<Rightarrow>
                      n\<lparr>ArrayStorage := a, ArraySize := sz,
                        pMapStorage := (if mp' = [] then None else Some mp')\<rparr>))
          in if ArraySize n' = 0 then None else Some n')"

definition tm_erase :: "token_map \<Rightarrow> token_id \<Rightarrow> token_map" where
  "tm_erase m tid =
     (let s = storage m in
      case find_location m tid of
        None \<Rightarrow> m
      | Some In_Value \<Rightarrow>
          (case pNextStorage s of
             Some n \<Rightarrow> set_storage (ArrayStorage n ! 0) (compact (Some (eraseFromArray 0 n))) m
           | None \<Rightarrow> set_storage (0, 0) (compact None) m)
      | Some (In_Array i) \<Rightarrow>
          set_storage (Value s) (compact (map_option (eraseFromArray i) (pNextStorage s))) m
      | Some In_Map \<Rightarrow>
          set_storage (Value s)
            (compact (map_option (\<lambda>n. n\<lparr>pMapStorage := map_option (om_erase tid) (pMapStorage n)\<rparr>)
               (pNextStorage s))) m)"

subsection \<open>Optimizing access of a token\<close>

definition reinsert :: "token_map \<Rightarrow> token_id \<Rightarrow> token_map result" where
  "reinsert m tid =
     (case tm_find m tid of
        None \<Rightarrow> Ok m
      | Some t \<Rightarrow> tm_insert (tm_erase m (fst t)) t)"

definition tm_optimize :: "token_map \<Rightarrow> token_id \<Rightarrow> token_map result" where
  "tm_optimize m tid =
     (if tid = optimized m then Ok m
      else bind_result (reinsert (m\<lparr>optimized := tid\<rparr>) (optimized m)) (\<lambda>m'. reinsert m' tid))"

text \<open>
  \<^verbatim>\<open>iter->second = amount\<close> for a mutable iterator that \<^verbatim>\<open>find\<close> returned: the token at the location
  changes in place.
\<close>

definition tm_assign :: "token_map \<Rightarrow> token_id \<Rightarrow> amount \<Rightarrow> token_map" where
  "tm_assign m tid a =
     (let s = storage m in
      case find_location m tid of
        None \<Rightarrow> m
      | Some In_Value \<Rightarrow> m\<lparr>storage := s\<lparr>Value := (fst (Value s), a)\<rparr>\<rparr>
      | Some (In_Array i) \<Rightarrow> m\<lparr>storage := s\<lparr>pNextStorage := map_option
          (\<lambda>n. n\<lparr>ArrayStorage := (ArrayStorage n)[i := (fst (ArrayStorage n ! i), a)]\<rparr>) (pNextStorage s)\<rparr>\<rparr>
      | Some In_Map \<Rightarrow> m\<lparr>storage := s\<lparr>pNextStorage := map_option
          (\<lambda>n. n\<lparr>pMapStorage := map_option (om_update tid a) (pMapStorage n)\<rparr>) (pNextStorage s)\<rparr>\<rparr>)"

subsection \<open>Iteration\<close>

datatype stage = Start_Stage | Value_Stage | Array_Stage | Map_Stage | End_Stage

record token_iterator =
  it_stage :: stage
  it_current :: "token option"
  it_index :: nat
  it_map :: "token list"

text \<open>
  \<open>it_current\<close> is the token \<^verbatim>\<open>m_pCurrent\<close> points at; \<open>it_map\<close> is the part of the \<^verbatim>\<open>std::map\<close> from
  \<^verbatim>\<open>m_mapIterator\<close> on.
\<close>

definition setValueToken :: "first_level \<Rightarrow> token_iterator \<Rightarrow> token_iterator" where
  "setValueToken s it = it\<lparr>it_stage := Value_Stage, it_current := Some (Value s)\<rparr>"

definition setArrayToken :: "first_level \<Rightarrow> token_iterator \<Rightarrow> token_iterator" where
  "setArrayToken s it = it\<lparr>it_stage := Array_Stage, it_current := Some (array s ! it_index it)\<rparr>"

definition setMapToken :: "token_iterator \<Rightarrow> token_iterator" where
  "setMapToken it = it\<lparr>it_stage := Map_Stage, it_current := Some (hd (it_map it))\<rparr>"

definition setEnd :: "token_iterator \<Rightarrow> token_iterator" where
  "setEnd it = it\<lparr>it_stage := End_Stage, it_current := None\<rparr>"

definition advance :: "first_level \<Rightarrow> token_iterator \<Rightarrow> token_iterator" where
  "advance s it =
     (case it_stage it of
        Start_Stage \<Rightarrow> if hasValue s then setValueToken s it else setEnd it
      | Value_Stage \<Rightarrow>
          (let it' = it\<lparr>it_index := 0\<rparr>
           in if hasArray s then setArrayToken s it' else setEnd it')
      | Array_Stage \<Rightarrow>
          (let it' = it\<lparr>it_index := it_index it + 1\<rparr>
           in if it_index it' \<noteq> arraySize s then setArrayToken s it'
              else if \<not> hasMap s then setEnd it'
              else setMapToken (it'\<lparr>it_map := token_std_map s\<rparr>))
      | Map_Stage \<Rightarrow>
          (let it' = it\<lparr>it_map := tl (it_map it)\<rparr>
           in if it_map it' \<noteq> [] then setMapToken it' else setEnd it')
      | End_Stage \<Rightarrow> it)"

definition make_iterator :: "first_level \<Rightarrow> stage \<Rightarrow> token_iterator" where
  "make_iterator s stg = advance s \<lparr>it_stage = stg, it_current = None, it_index = 0, it_map = []\<rparr>"

definition isEnd :: "token_iterator \<Rightarrow> bool" where
  "isEnd it \<longleftrightarrow> it_stage it = End_Stage"

definition it_increment :: "first_level \<Rightarrow> token_iterator \<Rightarrow> token_iterator result" where
  "it_increment s it = (if isEnd it then Err Out_Of_Range else Ok (advance s it))"

definition it_dereference :: "token_iterator \<Rightarrow> token result" where
  "it_dereference it = (if isEnd it then Err Out_Of_Range else Ok (the (it_current it)))"

text \<open>
  A range-based for loop over the map: it compares the current pointer with that of \<^verbatim>\<open>end()\<close>,
  which is null.
\<close>

partial_function (option) visit :: "first_level \<Rightarrow> token_iterator \<Rightarrow> token list result option" where
  "visit s it =
     (if it_current it = it_current (make_iterator s End_Stage) then Some (Ok [])
      else case it_dereference it of
          Err e \<Rightarrow> Some (Err e)
        | Ok t \<Rightarrow> (case it_increment s it of
            Err e \<Rightarrow> Some (Err e)
          | Ok it' \<Rightarrow> Option.bind (visit s it') (\<lambda>ts. Some (map_result ((#) t) ts))))"

definition tm_tokens :: "token_map \<Rightarrow> token list result option" where
  "tm_tokens m = visit (storage m) (make_iterator (storage m) Start_Stage)"

subsection \<open>Entries and the invariant\<close>

interpretation token_order: key_order "IsLessThan opt"
  by unfold_locales (auto simp: IsLessThan_def split: if_splits)

definition second_elems :: "second_level \<Rightarrow> token list" where
  "second_elems n = take (ArraySize n) (ArrayStorage n) @ (case pMapStorage n of None \<Rightarrow> [] | Some mp \<Rightarrow> mp)"

definition entries :: "token_map \<Rightarrow> token list" where
  "entries m =
     (if hasValue (storage m)
      then Value (storage m) # (case pNextStorage (storage m) of None \<Rightarrow> [] | Some n \<Rightarrow> second_elems n)
      else [])"

text \<open>The second level without the requirement that it holds a token.\<close>

definition second_ok :: "second_level \<Rightarrow> bool" where
  "second_ok n \<longleftrightarrow>
     length (ArrayStorage n) = Array_Size \<and> ArraySize n \<le> Array_Size
     \<and> (\<forall>mp. pMapStorage n = Some mp \<longrightarrow> mp \<noteq> [] \<and> ArraySize n = Array_Size)"

definition shape_ok :: "token_map \<Rightarrow> bool" where
  "shape_ok m \<longleftrightarrow>
     (\<forall>n. pNextStorage (storage m) = Some n \<longrightarrow> second_ok n \<and> ArraySize n \<noteq> 0)
     \<and> (\<not> hasValue (storage m) \<longrightarrow> pNextStorage (storage m) = None)
     \<and> 0 \<notin> fst ` set (entries m)"

definition token_map_inv :: "token_map \<Rightarrow> bool" where
  "token_map_inv m \<longleftrightarrow> shape_ok m \<and> om_sorted (IsLessThan (optimized m)) (entries m)"

lemma length_5: "length a = Array_Size \<Longrightarrow> \<exists>v w x y z. a = [v, w, x, y, z]"
  by (simp add: Array_Size_def numeral_eq_Suc length_Suc_conv) blast

lemma less_5: "(i::nat) < 5 \<Longrightarrow> i = 0 \<or> i = 1 \<or> i = 2 \<or> i = 3 \<or> i = 4"
  by linarith

lemma om_insert_front: "\<forall>p \<in> set xs. k < fst p \<Longrightarrow> om_insert (<) (k::token_id) v xs = (k, v) # xs"
  by (cases xs) auto

lemma insertIntoArray_room:
  assumes "second_ok n" "ArraySize n < Array_Size" "i \<le> ArraySize n"
  shows "second_elems (insertIntoArray i p n) = take i (second_elems n) @ p # drop i (second_elems n)
    \<and> second_ok (insertIntoArray i p n) \<and> ArraySize (insertIntoArray i p n) = Suc (ArraySize n)"
proof -
  from assms obtain v w x y z where a: "ArrayStorage n = [v, w, x, y, z]"
    using length_5 [of "ArrayStorage n"] unfolding second_ok_def by blast
  have m: "pMapStorage n = None" using assms by (auto simp: second_ok_def)
  have "ArraySize n < 5" and "i < 5" using assms by (auto simp: Array_Size_def)
  then show ?thesis using assms(3)
    by (elim less_5 [elim_format] disjE)
      (simp_all add: insertIntoArray_def second_elems_def second_ok_def Array_Size_def a m numeral_eq_Suc)
qed

lemma insertIntoArray_full:
  assumes "second_ok n" "ArraySize n = Array_Size" "i < Array_Size" "om_sorted (<) (second_elems n)"
  shows "second_elems (insertIntoArray i p n) = take i (second_elems n) @ p # drop i (second_elems n)
    \<and> second_ok (insertIntoArray i p n) \<and> ArraySize (insertIntoArray i p n) = Array_Size"
proof -
  from assms obtain v w x y z where a: "ArrayStorage n = [v, w, x, y, z]"
    using length_5 [of "ArrayStorage n"] unfolding second_ok_def by blast
  define mp where "mp = (case pMapStorage n of None \<Rightarrow> [] | Some mp \<Rightarrow> mp)"
  have "\<forall>q \<in> set mp. fst z < fst q"
    using assms(2,4) a by (auto simp: second_elems_def Array_Size_def mp_def)
  then have m: "om_insert (<) (fst z) (snd z) mp = z # mp" by (simp add: om_insert_front)
  have "i < 5" using assms by (simp add: Array_Size_def)
  then show ?thesis using assms(2)
    by (elim less_5 [elim_format] disjE)
      (simp_all add: insertIntoArray_def insertIntoMap_def second_elems_def second_ok_def
        Array_Size_def a m mp_def [symmetric] numeral_eq_Suc)
qed


lemma insertIntoArray_elems:
  assumes "second_ok n" "i \<le> ArraySize n" "i < Array_Size" "om_sorted (<) (second_elems n)"
  shows "second_elems (insertIntoArray i p n) = take i (second_elems n) @ p # drop i (second_elems n)"
    and "second_ok (insertIntoArray i p n)"
    and "ArraySize (insertIntoArray i p n) \<noteq> 0"
  using assms insertIntoArray_room [OF assms(1) _ assms(2)] insertIntoArray_full [OF assms(1) _ assms(3,4)]
  by (cases "ArraySize n < Array_Size"; simp add: second_ok_def Array_Size_def)+

lemma length_takeWhile_eq_length: "length (takeWhile P xs) = length xs \<longleftrightarrow> (\<forall>x \<in> set xs. P x)"
proof (induction xs)
  case (Cons x xs)
  then show ?case using length_takeWhile_le [of P xs] by auto
qed simp

lemma first_greater_eq: "first_greater k j ts = j + length (takeWhile (\<lambda>t. \<not> k < fst t) ts)"
  by (induction k j ts rule: first_greater.induct) auto

lemma om_insert_not_Nil: "om_insert lt k v xs \<noteq> []"
  by (cases xs rule: list.exhaust) (auto split: prod.splits if_splits)

lemma om_insert_split:
  "k \<notin> fst ` set xs \<Longrightarrow> om_insert (<) (k::token_id) v xs
     = takeWhile (\<lambda>t. \<not> k < fst t) xs @ (k, v) # dropWhile (\<lambda>t. \<not> k < fst t) xs"
  by (induction xs) auto

lemma om_insert_append:
  "\<forall>t \<in> set xs. fst t < k \<Longrightarrow> om_insert (<) (k::token_id) v (xs @ ys) = xs @ om_insert (<) k v ys"
  by (induction xs) auto

text \<open>What inserting does to the entries: the new token goes in front of the first one, or into the rest.\<close>

fun entries_insert :: "token_id \<Rightarrow> token \<Rightarrow> token list \<Rightarrow> token list" where
  "entries_insert opt p [] = [p]"
| "entries_insert opt p (e # r) =
     (if IsLessThan opt (fst p) (fst e) then p # e # r else e # om_insert (<) (fst p) (snd p) r)"

lemma insert_rest:
  assumes ok: "second_ok n" and srt: "om_sorted (<) (second_elems n)" and new: "fst p \<notin> fst ` set (second_elems n)"
    and i: "i = first_greater (fst p) 0 (take (ArraySize n) (ArrayStorage n))"
    and n': "n' = (if i < Array_Size then insertIntoArray i p n else insertIntoMap p n)"
  shows "second_elems n' = om_insert (<) (fst p) (snd p) (second_elems n)" "second_ok n'" "ArraySize n' \<noteq> 0"
proof -
  define arr where "arr = take (ArraySize n) (ArrayStorage n)"
  define mp where "mp = (case pMapStorage n of None \<Rightarrow> [] | Some mp \<Rightarrow> mp)"
  have el: "second_elems n = arr @ mp" by (simp add: second_elems_def arr_def mp_def)
  have len: "length arr = ArraySize n" "ArraySize n \<le> Array_Size"
    using ok by (auto simp: arr_def second_ok_def)
  let ?P = "\<lambda>t. \<not> fst p < fst t"
  have iarr: "i = length (takeWhile ?P arr)" using i by (simp add: first_greater_eq arr_def)
  then have ile: "i \<le> ArraySize n" using length_takeWhile_le [of ?P arr] len by simp
  have *: "second_elems n' = om_insert (<) (fst p) (snd p) (second_elems n) \<and> second_ok n' \<and> ArraySize n' \<noteq> 0"
  proof (cases "i < Array_Size")
    case True
    have "takeWhile ?P (arr @ mp) = takeWhile ?P arr"
    proof (cases "i < length arr")
      case True
      then have "\<not> (\<forall>t \<in> set arr. ?P t)" using iarr length_takeWhile_eq_length [of ?P arr] by simp
      then show ?thesis by (auto simp: takeWhile_append1)
    next
      case False
      then have "mp = []"
        using True ile len ok by (auto simp: mp_def second_ok_def split: option.splits)
      then show ?thesis by simp
    qed
    then have "i = length (takeWhile ?P (second_elems n))" using iarr el by simp
    then have "take i (second_elems n) = takeWhile ?P (second_elems n)"
      and "drop i (second_elems n) = dropWhile ?P (second_elems n)"
      by (simp_all add: takeWhile_eq_take [symmetric] dropWhile_eq_drop [symmetric])
    then show ?thesis
      using insertIntoArray_elems [OF ok ile True srt, of p] om_insert_split [OF new] True n' by simp
  next
    case False
    then have sz: "i = length arr" "ArraySize n = Array_Size" using ile len by auto
    then have "\<forall>t \<in> set arr. ?P t" using iarr length_takeWhile_eq_length [of ?P arr] by simp
    moreover have "fst t \<noteq> fst p" if "t \<in> set arr" for t
      using that new unfolding el by (metis UnCI image_eqI set_append)
    ultimately have "\<forall>t \<in> set arr. fst t < fst p" by (metis linorder_less_linear)
    then have "om_insert (<) (fst p) (snd p) (second_elems n) = arr @ om_insert (<) (fst p) (snd p) mp"
      by (simp add: el om_insert_append)
    moreover have "om_insert (<) (fst p) (snd p) mp \<noteq> []" by (rule om_insert_not_Nil)
    ultimately show ?thesis
      using False n' ok sz by (auto simp: insertIntoMap_def second_elems_def second_ok_def arr_def mp_def Array_Size_def)
  qed
  then show "second_elems n' = om_insert (<) (fst p) (snd p) (second_elems n)" "second_ok n'" "ArraySize n' \<noteq> 0"
    by auto
qed


lemma find_in_array_None: "find_in_array k j ts = None \<longleftrightarrow> map_of ts k = None"
  by (induction k j ts rule: find_in_array.induct) auto

lemma find_in_array_Some:
  "find_in_array k j ts = Some i \<Longrightarrow> j \<le> i \<and> i - j < length ts \<and> map_of ts k = Some (snd (ts ! (i - j)))
     \<and> fst (ts ! (i - j)) = k \<and> k \<notin> fst ` set (take (i - j) ts)"
proof (induction k j ts rule: find_in_array.induct)
  case (2 k j t ts)
  show ?case
  proof (cases "k = fst t")
    case False
    with 2 have "Suc j \<le> i \<and> i - Suc j < length ts \<and> map_of ts k = Some (snd (ts ! (i - Suc j)))
      \<and> fst (ts ! (i - Suc j)) = k \<and> k \<notin> fst ` set (take (i - Suc j) ts)" by simp
    with False show ?thesis by (cases "i - j") (auto simp: Suc_diff_Suc diff_Suc)
  qed (use 2 in auto)
qed simp

lemma storage_elems: "pNextStorage s = Some n \<Longrightarrow> second_elems n = take (arraySize s) (array s) @ token_std_map s"
  by (simp add: second_elems_def arraySize_def array_def token_std_map_def)

lemma find_location_cases:
  assumes "shape_ok m"
  shows "case find_location m k of
      None \<Rightarrow> map_of (entries m) k = None
    | Some In_Value \<Rightarrow> hasValue (storage m) \<and> fst (Value (storage m)) = k
    | Some (In_Array i) \<Rightarrow> hasValue (storage m) \<and> fst (Value (storage m)) \<noteq> k
        \<and> find_in_array k 0 (take (arraySize (storage m)) (array (storage m))) = Some i
        \<and> pNextStorage (storage m) \<noteq> None
    | Some In_Map \<Rightarrow> hasValue (storage m) \<and> fst (Value (storage m)) \<noteq> k
        \<and> find_in_array k 0 (take (arraySize (storage m)) (array (storage m))) = None
        \<and> map_of (token_std_map (storage m)) k \<noteq> None \<and> pNextStorage (storage m) \<noteq> None"
proof (cases "pNextStorage (storage m)")
  case None
  then show ?thesis
    by (simp add: find_location_def entries_def tm_empty_def hasArray_def hasMap_def Let_def)
next
  case (Some n)
  have *: "\<not> hasMap (storage m) \<Longrightarrow> token_std_map (storage m) = []"
    by (auto simp: hasMap_def token_std_map_def split: option.splits)
  show ?thesis
    using Some * find_in_array_None [of k 0 "take (arraySize (storage m)) (array (storage m))"]
    by (auto simp: find_location_def entries_def tm_empty_def hasArray_def Let_def storage_elems [OF Some]
        map_add_def split: option.splits)
qed

lemma tm_find_entries:
  assumes "shape_ok m"
  shows "tm_find m k = map_option (\<lambda>a. (k, a)) (map_of (entries m) k)"
proof (cases "find_location m k")
  case None
  then show ?thesis using find_location_cases [OF assms, of k] by (simp add: tm_find_def)
next
  case (Some loc)
  show ?thesis
  proof (cases loc)
    case In_Value
    with Some show ?thesis using find_location_cases [OF assms, of k]
      by (auto simp: tm_find_def token_at_def entries_def)
  next
    case (In_Array i)
    with Some obtain n where n: "pNextStorage (storage m) = Some n"
      and h: "hasValue (storage m)" "fst (Value (storage m)) \<noteq> k"
        "find_in_array k 0 (take (arraySize (storage m)) (array (storage m))) = Some i"
      using find_location_cases [OF assms, of k] by auto
    show ?thesis
      using find_in_array_Some [OF h(3)] h n Some In_Array
      by (auto simp: tm_find_def token_at_def entries_def storage_elems [OF n] map_add_def prod_eq_iff)
  next
    case In_Map
    with Some obtain n where n: "pNextStorage (storage m) = Some n"
      and h: "hasValue (storage m)" "fst (Value (storage m)) \<noteq> k"
        "map_of (take (arraySize (storage m)) (array (storage m))) k = None"
        "map_of (token_std_map (storage m)) k \<noteq> None"
      using find_location_cases [OF assms, of k] by (auto simp: find_in_array_None)
    then show ?thesis using Some In_Map
      by (auto simp: tm_find_def token_at_def entries_def storage_elems [OF n] map_add_def)
  qed
qed

lemma find_location_None: "shape_ok m \<Longrightarrow> find_location m k = None \<longleftrightarrow> k \<notin> fst ` set (entries m)"
  using tm_find_entries [of m k] map_of_eq_None_iff [of "entries m" k]
  by (cases "find_location m k"; cases "map_of (entries m) k"; simp add: tm_find_def)

lemma entries_Nil: "shape_ok m \<Longrightarrow> entries m = [] \<longleftrightarrow> tm_empty m"
  by (simp add: entries_def tm_empty_def)

text \<open>Inserting a new token: no exception, the shape is kept and the entries change as stated.\<close>

lemma tm_insert_entries:
  assumes ok: "shape_ok m" and k: "fst p \<noteq> 0" "fst p \<notin> fst ` set (entries m)"
    and srt: "om_sorted (<) (tl (entries m))"
  shows "\<exists>m'. tm_insert m p = Ok m' \<and> shape_ok m' \<and> optimized m' = optimized m
    \<and> entries m' = entries_insert (optimized m) p (entries m)"
proof (cases "tm_empty m")
  case True
  then show ?thesis using assms
    by (auto simp: tm_insert_def find_location_None entries_def tm_empty_def shape_ok_def set_storage_def hasValue_def)
next
  case False
  define n where "n = (case pNextStorage (storage m) of None \<Rightarrow> new_second_level | Some n \<Rightarrow> n)"
  define v where "v = Value (storage m)"
  have e: "entries m = v # second_elems n"
    using False by (simp add: entries_def tm_empty_def n_def v_def second_elems_def new_second_level_def split: option.splits)
  have n_ok: "second_ok n"
    using ok by (auto simp: n_def shape_ok_def second_ok_def new_second_level_def split: option.splits)
  have v0: "fst v \<noteq> 0" using False by (simp add: tm_empty_def hasValue_def v_def)
  have zero: "0 \<notin> fst ` set (second_elems n)" using ok e by (simp add: shape_ok_def)
  note srt' = srt [unfolded e list.sel]
  have shape: "shape_ok (set_storage w (Some n') m) \<and> entries (set_storage w (Some n') m) = w # second_elems n'"
    if "fst w \<noteq> 0" "second_ok n'" "ArraySize n' \<noteq> 0" "0 \<notin> fst ` set (second_elems n')" for w n'
    using that by (auto simp: shape_ok_def entries_def set_storage_def hasValue_def)
  have new: "fst p \<notin> fst ` set (second_elems n)" using k e by simp
  have loc: "find_location m (fst p) = None" using find_location_None [OF ok] k by simp
  show ?thesis
  proof (cases "IsLessThan (optimized m) (fst p) (fst v)")
    case True
    let ?n' = "insertIntoArray 0 v n"
    have "tm_insert m p = Ok (set_storage p (Some ?n') m)"
      using k loc False True by (simp add: tm_insert_def n_def v_def Let_def)
    moreover note ins = insertIntoArray_elems [OF n_ok _ _ srt', of 0 v, simplified Array_Size_def, simplified]
    moreover have "shape_ok (set_storage p (Some ?n') m) \<and> entries (set_storage p (Some ?n') m) = p # second_elems ?n'"
      using shape [of p ?n'] ins k v0 zero by simp
    ultimately show ?thesis using e True by (simp add: set_storage_def)
  next
    case lt: False
    define i where "i = first_greater (fst p) 0 (take (ArraySize n) (ArrayStorage n))"
    define n' where "n' = (if i < Array_Size then insertIntoArray i p n else insertIntoMap p n)"
    note ins = insert_rest [OF n_ok srt' new i_def n'_def]
    have "tm_insert m p = Ok (set_storage v (Some n') m)"
      using k loc False lt by (simp add: tm_insert_def n_def v_def Let_def i_def n'_def)
    moreover have "shape_ok (set_storage v (Some n') m) \<and> entries (set_storage v (Some n') m) = v # second_elems n'"
      using shape [of v n'] ins v0 zero k by (simp add: asc.set_om_insert)
    ultimately show ?thesis using e lt ins by (simp add: set_storage_def)
  qed
qed


lemma eraseFromArray_elems:
  assumes "length (ArrayStorage n) = Array_Size" "ArraySize n \<le> Array_Size" "i < ArraySize n"
  shows "take (ArraySize n - 1) (ArrayStorage (eraseFromArray i n))
      = take i (ArrayStorage n) @ drop (Suc i) (take (ArraySize n) (ArrayStorage n))
    \<and> length (ArrayStorage (eraseFromArray i n)) = Array_Size"
proof -
  from assms obtain v w x y z where a: "ArrayStorage n = [v, w, x, y, z]"
    using length_5 [of "ArrayStorage n"] by blast
  obtain k where k: "ArraySize n = Suc k" "k < 5" using assms by (cases "ArraySize n") (auto simp: Array_Size_def)
  have "i < 5" using assms by (simp add: Array_Size_def)
  then show ?thesis using assms(3) k
    by (elim less_5 [elim_format] disjE)
      (simp_all add: eraseFromArray_def Array_Size_def a numeral_eq_Suc)
qed

lemma compact_loop_elems:
  assumes "length a = Array_Size" "n \<le> Array_Size" "compact_loop a n mp = (a', n', mp')"
  shows "take n' a' @ mp' = take n a @ mp \<and> length a' = Array_Size \<and> n' \<le> Array_Size
    \<and> (mp' \<noteq> [] \<longrightarrow> n' = Array_Size)"
  using assms
proof (induction a n mp rule: compact_loop.induct)
  case (2 a n t mp)
  show ?case
  proof (cases "n < Array_Size")
    case True
    have "take (n + 1) (a[n := t]) = take n a @ [t]"
      using True 2(2) by (simp add: take_Suc_conv_app_nth)
    with 2 True show ?thesis by auto
  qed (use 2 in auto)
qed auto

lemma compact_elems:
  assumes "length (ArrayStorage n) = Array_Size" "ArraySize n \<le> Array_Size"
  shows "case compact (Some n) of
      None \<Rightarrow> second_elems n = []
    | Some n' \<Rightarrow> second_ok n' \<and> ArraySize n' \<noteq> 0 \<and> second_elems n' = second_elems n"
proof (cases "pMapStorage n")
  case None
  with assms show ?thesis by (auto simp: compact_def second_elems_def second_ok_def)
next
  case (Some mp)
  obtain a sz mp' where c: "compact_loop (ArrayStorage n) (ArraySize n) mp = (a, sz, mp')" by (metis prod_cases3)
  show ?thesis
    using compact_loop_elems [OF assms c] Some c
    by (cases "sz = 0"; cases "mp' = []")
      (simp_all add: compact_def second_elems_def second_ok_def Array_Size_def Let_def)
qed

lemma om_erase_append: "om_erase k (xs @ ys) = om_erase k xs @ om_erase k ys"
  by (simp add: om_erase_def)

lemma om_erase_nth:
  "distinct (map fst xs) \<Longrightarrow> i < length xs \<Longrightarrow> om_erase (fst (xs ! i)) xs = take i xs @ drop (Suc i) xs"
proof (induction xs arbitrary: i)
  case (Cons x xs)
  show ?case
  proof (cases i)
    case 0
    then have "om_erase (fst x) xs = xs" using Cons.prems by (intro om_erase_absent) simp
    with 0 show ?thesis by (simp add: om_erase_def)
  next
    case (Suc j)
    then have "om_erase (fst (xs ! j)) xs = take j xs @ drop (Suc j) xs" using Cons by simp
    moreover have "fst x \<noteq> fst (xs ! j)" using Cons.prems Suc nth_mem [of j xs] by force
    ultimately show ?thesis using Suc by (simp add: om_erase_def)
  qed
qed simp


lemma erase_shape:
  assumes "length (ArrayStorage n) = Array_Size" "ArraySize n \<le> Array_Size" "fst v \<noteq> 0"
    "0 \<notin> fst ` set (second_elems n)"
  shows "shape_ok (set_storage v (compact (Some n)) m)
    \<and> entries (set_storage v (compact (Some n)) m) = v # second_elems n"
  using compact_elems [OF assms(1,2)] assms(3,4)
  by (auto simp: shape_ok_def entries_def set_storage_def hasValue_def split: option.splits)

text \<open>The second level after each kind of removal.\<close>

lemma second_erase_array:
  assumes "second_ok n" "i < ArraySize n"
  shows "second_elems (eraseFromArray i n) = take i (second_elems n) @ drop (Suc i) (second_elems n)"
    and "length (ArrayStorage (eraseFromArray i n)) = Array_Size"
    and "ArraySize (eraseFromArray i n) \<le> Array_Size"
proof -
  have len: "length (ArrayStorage n) = Array_Size" "ArraySize n \<le> Array_Size"
    using assms(1) by (auto simp: second_ok_def)
  note er = eraseFromArray_elems [OF len assms(2)]
  have sz: "ArraySize (eraseFromArray i n) = ArraySize n - 1" "pMapStorage (eraseFromArray i n) = pMapStorage n"
    by (simp_all add: eraseFromArray_def)
  show "second_elems (eraseFromArray i n) = take i (second_elems n) @ drop (Suc i) (second_elems n)"
    using er sz assms(2) len by (simp add: second_elems_def min_def)
  show "length (ArrayStorage (eraseFromArray i n)) = Array_Size" using er by blast
  show "ArraySize (eraseFromArray i n) \<le> Array_Size" using sz len by simp
qed

lemma second_elems_hd:
  assumes "second_ok n" "ArraySize n \<noteq> 0"
  shows "\<exists>r. second_elems n = ArrayStorage n ! 0 # r"
proof -
  have "ArrayStorage n \<noteq> []" using assms by (auto simp: second_ok_def Array_Size_def)
  then obtain a as where "ArrayStorage n = a # as" by (cases "ArrayStorage n") auto
  moreover obtain k where "ArraySize n = Suc k" using assms(2) by (cases "ArraySize n") auto
  ultimately show ?thesis by (simp add: second_elems_def)
qed

lemma entries_Cons:
  assumes "shape_ok m" "pNextStorage (storage m) = Some n"
  shows "entries m = Value (storage m) # second_elems n" "second_ok n" "ArraySize n \<noteq> 0"
    "fst (Value (storage m)) \<noteq> 0" "0 \<notin> fst ` set (second_elems n)"
proof -
  show e: "entries m = Value (storage m) # second_elems n"
    using assms by (auto simp: shape_ok_def entries_def)
  show "second_ok n" "ArraySize n \<noteq> 0" using assms by (auto simp: shape_ok_def)
  show "fst (Value (storage m)) \<noteq> 0" using assms by (auto simp: shape_ok_def hasValue_def)
  show "0 \<notin> fst ` set (second_elems n)" using assms(1) e by (simp add: shape_ok_def)
qed

lemma om_erase_Cons: "om_erase k (p # xs) = (if fst p = k then om_erase k xs else p # om_erase k xs)"
  by (simp add: om_erase_def)

lemma erase_value:
  assumes "shape_ok m" "distinct (map fst (entries m))" "find_location m k = Some In_Value"
  shows "shape_ok (tm_erase m k) \<and> entries (tm_erase m k) = om_erase k (entries m)"
proof (cases "pNextStorage (storage m)")
  case None
  then show ?thesis
    using assms(3) find_location_cases [OF assms(1), of k]
    by (auto simp: tm_erase_def compact_def set_storage_def shape_ok_def entries_def hasValue_def om_erase_def)
next
  case (Some n)
  note e = entries_Cons [OF assms(1) Some]
  obtain r where hd: "second_elems n = ArrayStorage n ! 0 # r" using second_elems_hd [OF e(2,3)] by blast
  have "shape_ok (tm_erase m k) \<and> entries (tm_erase m k) = ArrayStorage n ! 0 # r"
    using assms(3) Some second_erase_array [OF e(2), of 0] e(3,5) hd
      erase_shape [of "eraseFromArray 0 n" "ArrayStorage n ! 0" m]
    by (simp add: tm_erase_def)
  moreover have "fst (Value (storage m)) = k"
    using find_location_cases [OF assms(1), of k] assms(3) by simp
  then have "om_erase k (entries m) = second_elems n"
    using assms(2) e(1) om_erase_absent [of k "second_elems n"] by (simp add: om_erase_Cons)
  ultimately show ?thesis using hd by simp
qed

lemma erase_array:
  assumes "shape_ok m" "distinct (map fst (entries m))" "find_location m k = Some (In_Array i)"
  shows "shape_ok (tm_erase m k) \<and> entries (tm_erase m k) = om_erase k (entries m)"
proof -
  obtain n where n: "pNextStorage (storage m) = Some n"
    and vk: "fst (Value (storage m)) \<noteq> k"
    and fa: "find_in_array k 0 (take (ArraySize n) (ArrayStorage n)) = Some i"
    using find_location_cases [OF assms(1), of k] assms(3) by (auto simp: arraySize_def array_def)
  note e = entries_Cons [OF assms(1) n]
  have i: "i < ArraySize n" "i < length (second_elems n)" "fst (second_elems n ! i) = k"
    using find_in_array_Some [OF fa] by (auto simp: second_elems_def nth_append)
  note er = second_erase_array [OF e(2) i(1)]
  have "om_erase k (second_elems n) = second_elems (eraseFromArray i n)"
    using om_erase_nth [of "second_elems n" i] assms(2) e(1) i er(1) by simp
  moreover have "0 \<notin> fst ` set (second_elems (eraseFromArray i n))"
    using e(5) unfolding er(1) by (auto dest: in_set_takeD in_set_dropD)
  ultimately show ?thesis
    using assms(3) n er(2,3) vk e(1,4) erase_shape [of "eraseFromArray i n" "Value (storage m)" m]
    by (simp add: tm_erase_def om_erase_Cons)
qed

lemma erase_map:
  assumes "shape_ok m" "find_location m k = Some In_Map"
  shows "shape_ok (tm_erase m k) \<and> entries (tm_erase m k) = om_erase k (entries m)"
proof -
  obtain n where n: "pNextStorage (storage m) = Some n"
    and vk: "fst (Value (storage m)) \<noteq> k"
    and fa: "k \<notin> fst ` set (take (ArraySize n) (ArrayStorage n))"
    using find_location_cases [OF assms(1), of k] assms(2)
    by (auto simp: arraySize_def array_def find_in_array_None map_of_eq_None_iff)
  note e = entries_Cons [OF assms(1) n]
  let ?n' = "n\<lparr>pMapStorage := map_option (om_erase k) (pMapStorage n)\<rparr>"
  have el: "second_elems ?n' = om_erase k (second_elems n)"
    using om_erase_absent [OF fa] by (cases "pMapStorage n") (simp_all add: second_elems_def om_erase_append)
  have "0 \<notin> fst ` set (om_erase k (second_elems n))" using e(5) by (auto simp: set_om_erase)
  then show ?thesis
    using assms(2) n vk e el erase_shape [of ?n' "Value (storage m)" m]
    by (simp add: tm_erase_def om_erase_Cons second_ok_def)
qed

lemma tm_erase_entries:
  assumes ok: "shape_ok m" and dist: "distinct (map fst (entries m))"
  shows "shape_ok (tm_erase m k) \<and> entries (tm_erase m k) = om_erase k (entries m)"
proof (cases "find_location m k")
  case None
  then have "k \<notin> fst ` set (entries m)" using find_location_None [OF ok] by simp
  with None ok show ?thesis by (simp add: tm_erase_def om_erase_absent)
next
  case (Some loc)
  with assms show ?thesis by (cases loc) (simp_all add: erase_value erase_array erase_map)
qed

lemma tm_erase_optimized [simp]: "optimized (tm_erase m k) = optimized m"
  by (simp add: tm_erase_def set_storage_def Let_def split: option.splits token_location.splits)

subsection \<open>Order of the entries\<close>

lemma token_map_order:
  assumes "om_sorted (IsLessThan opt) es"
  shows "om_sorted (<) (tl es)" and "opt \<notin> fst ` set (tl es)"
proof -
  show opt: "opt \<notin> fst ` set (tl es)"
    using assms by (cases es) (auto simp: IsLessThan_def split: if_splits)
  have "om_sorted (IsLessThan opt) (tl es)" using assms by (cases es) auto
  then show "om_sorted (<) (tl es)" using opt
    by (induction "tl es" arbitrary: es) (auto simp: sorted_wrt_map IsLessThan_def elim!: sorted_wrt_mono_rel [rotated] split: if_splits)
qed

lemma sorted_IsLessThan_iff:
  "opt \<notin> fst ` set es \<Longrightarrow> om_sorted (IsLessThan opt) es \<longleftrightarrow> om_sorted (<) es"
  by (induction es) (auto simp: IsLessThan_def split: if_splits)

lemma om_insert_cong:
  "\<forall>p \<in> set xs. lt k (fst p) = lt' k (fst p) \<and> lt (fst p) k = lt' (fst p) k
    \<Longrightarrow> om_insert lt k v xs = om_insert lt' k v xs"
  by (induction xs) auto

lemma entries_insert_eq:
  assumes "om_sorted (IsLessThan opt) es" "fst p \<notin> fst ` set es"
  shows "entries_insert opt p es = om_insert (IsLessThan opt) (fst p) (snd p) es"
proof (cases es)
  case (Cons e r)
  have "opt \<notin> fst ` set r" using token_map_order(2) [OF assms(1)] Cons by simp
  then have *: "om_insert (IsLessThan opt) (fst p) (snd p) r = om_insert (<) (fst p) (snd p) r"
    if "fst p \<noteq> opt"
    using that assms(2) Cons by (intro om_insert_cong) (auto simp: IsLessThan_def)
  have "IsLessThan opt (fst p) (fst e)" if "fst p = opt"
    using that assms(2) Cons by (auto simp: IsLessThan_def)
  moreover have "IsLessThan opt (fst p) (fst e) \<or> IsLessThan opt (fst e) (fst p)"
    using token_order.lt_total assms(2) Cons by auto
  ultimately show ?thesis using * Cons by (cases e; cases "fst p = opt") auto
qed simp

lemma map_of_entries_insert:
  "fst p \<notin> fst ` set es \<Longrightarrow> map_of (entries_insert opt p es) = (map_of es)(fst p \<mapsto> snd p)"
  by (cases es) (auto simp: asc.map_of_om_insert)

text \<open>Insertion into a map that satisfies the invariant.\<close>

lemma tm_insert_inv:
  assumes "token_map_inv m" "fst p \<noteq> 0" "fst p \<notin> fst ` set (entries m)"
  shows "\<exists>m'. tm_insert m p = Ok m' \<and> token_map_inv m' \<and> optimized m' = optimized m
    \<and> entries m' = om_insert (IsLessThan (optimized m)) (fst p) (snd p) (entries m)"
proof -
  have inv: "shape_ok m" "om_sorted (IsLessThan (optimized m)) (entries m)"
    using assms(1) by (auto simp: token_map_inv_def)
  show ?thesis
    using tm_insert_entries [OF inv(1) assms(2,3) token_map_order(1) [OF inv(2)]]
      entries_insert_eq [OF inv(2) assms(3)] token_order.sorted_om_insert [OF inv(2)]
    by (auto simp: token_map_inv_def)
qed

lemma tm_insert_error:
  "token_map_inv m \<Longrightarrow> fst p = 0 \<or> fst p \<in> fst ` set (entries m) \<Longrightarrow> tm_insert m p = Err Invalid_Argument"
  by (auto simp: tm_insert_def token_map_inv_def find_location_None)

lemma tm_erase_inv:
  assumes "token_map_inv m"
  shows "token_map_inv (tm_erase m k)" "entries (tm_erase m k) = om_erase k (entries m)"
  using assms tm_erase_entries [of m k] token_order.sorted_distinct om_sorted_erase
  by (auto simp: token_map_inv_def)

subsection \<open>Optimizing\<close>

lemma reinsert_entries:
  assumes ok: "shape_ok m" and dist: "distinct (map fst (entries m))" and srt: "om_sorted (<) (tl (om_erase k (entries m)))"
    and a: "map_of (entries m) k = Some a"
  shows "\<exists>m'. reinsert m k = Ok m' \<and> shape_ok m' \<and> optimized m' = optimized m
    \<and> entries m' = entries_insert (optimized m) (k, a) (om_erase k (entries m))"
proof -
  note er = tm_erase_entries [OF ok dist, of k]
  have "k \<noteq> 0" using a ok by (force simp: shape_ok_def dest: map_of_SomeD)
  moreover have "k \<notin> fst ` set (entries (tm_erase m k))" using er by (auto simp: set_om_erase)
  ultimately show ?thesis
    using tm_insert_entries [of "tm_erase m k" "(k, a)"] er srt a
    by (simp add: reinsert_def tm_find_entries [OF ok])
qed

lemma reinsert_absent: "shape_ok m \<Longrightarrow> map_of (entries m) k = None \<Longrightarrow> reinsert m k = Ok m"
  by (simp add: reinsert_def tm_find_entries)

lemma om_erase_sorted_plain:
  "om_sorted (IsLessThan k) es \<Longrightarrow> om_sorted (<) (om_erase k es)"
  using sorted_IsLessThan_iff [of k "om_erase k es"] om_sorted_erase [of "IsLessThan k" es k]
  by (auto simp: set_om_erase)

text \<open>
  Between the two reinsertions the entries are sorted by id, unless the newly optimized token
  already comes first.
\<close>

definition semi_sorted :: "token_id \<Rightarrow> token list \<Rightarrow> bool" where
  "semi_sorted k es \<longleftrightarrow> om_sorted (<) es
     \<or> (\<exists>a r. es = (k, a) # r \<and> om_sorted (<) r \<and> k \<notin> fst ` set r)"

lemma semi_sorted_facts:
  assumes "semi_sorted k es"
  shows "distinct (map fst es)" "om_sorted (<) (om_erase k es)" "k \<notin> fst ` set es \<Longrightarrow> om_sorted (<) es"
proof -
  show "distinct (map fst es)" using assms asc.sorted_distinct by (auto simp: semi_sorted_def)
  show "k \<notin> fst ` set es \<Longrightarrow> om_sorted (<) es" using assms by (auto simp: semi_sorted_def)
  show "om_sorted (<) (om_erase k es)"
    using assms om_erase_absent om_sorted_erase by (fastforce simp: semi_sorted_def om_erase_Cons)
qed

lemma semi_sorted_insert:
  assumes "om_sorted (<) es" "fst p \<noteq> k" "fst p \<notin> fst ` set es"
  shows "semi_sorted k (entries_insert k p es)"
proof (cases es)
  case (Cons e r)
  show ?thesis
  proof (cases "fst e = k")
    case True
    then have "entries_insert k p es = e # om_insert (<) (fst p) (snd p) r"
      using Cons assms by (simp add: IsLessThan_def)
    with True Cons assms asc.sorted_om_insert [of r "fst p" "snd p"] show ?thesis
      by (cases e) (auto simp: semi_sorted_def asc.set_om_insert)
  next
    case False
    then have "entries_insert k p es = om_insert (<) (fst p) (snd p) es"
      using Cons assms by (cases e) (auto simp: IsLessThan_def)
    with assms(1) asc.sorted_om_insert show ?thesis by (auto simp: semi_sorted_def)
  qed
qed (simp add: semi_sorted_def)


lemma reinsert_previous:
  assumes "shape_ok m" "om_sorted (IsLessThan k) (entries m)" "k \<noteq> optimized m"
  shows "\<exists>m'. reinsert m k = Ok m' \<and> shape_ok m' \<and> optimized m' = optimized m
    \<and> semi_sorted (optimized m) (entries m') \<and> map_of (entries m') = map_of (entries m)"
proof (cases "map_of (entries m) k")
  case None
  then have "om_sorted (<) (entries m)"
    using assms sorted_IsLessThan_iff [of k "entries m"] by (simp add: map_of_eq_None_iff)
  then show ?thesis using None assms by (simp add: reinsert_absent semi_sorted_def)
next
  case (Some a)
  have er: "om_sorted (<) (om_erase k (entries m))" using assms(2) by (rule om_erase_sorted_plain)
  then have tl: "om_sorted (<) (tl (om_erase k (entries m)))" by (cases "om_erase k (entries m)") auto
  have k: "k \<notin> fst ` set (om_erase k (entries m))" by (auto simp: set_om_erase)
  have "map_of (entries_insert (optimized m) (k, a) (om_erase k (entries m))) = map_of (entries m)"
    using k Some by (simp add: map_of_entries_insert map_of_om_erase fun_upd_idem)
  moreover have "semi_sorted (optimized m) (entries_insert (optimized m) (k, a) (om_erase k (entries m)))"
    using semi_sorted_insert [OF er, of "(k, a)"] assms(3) k by simp
  ultimately show ?thesis
    using reinsert_entries [OF assms(1) token_order.sorted_distinct [OF assms(2)] tl Some] by auto
qed

lemma reinsert_optimized:
  assumes "shape_ok m" "semi_sorted (optimized m) (entries m)"
  shows "\<exists>m'. reinsert m (optimized m) = Ok m' \<and> token_map_inv m' \<and> optimized m' = optimized m
    \<and> map_of (entries m') = map_of (entries m)"
proof (cases "map_of (entries m) (optimized m)")
  case None
  then show ?thesis
    using assms semi_sorted_facts(3) [OF assms(2)] sorted_IsLessThan_iff [of "optimized m" "entries m"]
    by (simp add: reinsert_absent token_map_inv_def map_of_eq_None_iff)
next
  case (Some a)
  let ?k = "optimized m" and ?es = "om_erase (optimized m) (entries m)"
  have er: "om_sorted (<) ?es" using semi_sorted_facts(2) [OF assms(2)] .
  then have tl: "om_sorted (<) (tl ?es)" by (cases ?es) auto
  have k: "?k \<notin> fst ` set ?es" by (auto simp: set_om_erase)
  have srt: "om_sorted (IsLessThan ?k) ?es" using er k sorted_IsLessThan_iff by blast
  have "om_sorted (IsLessThan ?k) (entries_insert ?k (?k, a) ?es)"
    using entries_insert_eq [OF srt, of "(?k, a)"] token_order.sorted_om_insert [OF srt] k by simp
  moreover have "map_of (entries_insert ?k (?k, a) ?es) = map_of (entries m)"
    using k Some by (simp add: map_of_entries_insert map_of_om_erase fun_upd_idem)
  ultimately show ?thesis
    using reinsert_entries [OF assms(1) semi_sorted_facts(1) [OF assms(2)] tl Some]
    by (auto simp: token_map_inv_def)
qed

lemma tm_optimize_inv:
  assumes "token_map_inv m"
  shows "\<exists>m'. tm_optimize m k = Ok m' \<and> token_map_inv m' \<and> optimized m' = k
    \<and> map_of (entries m') = map_of (entries m)"
proof (cases "k = optimized m")
  case True
  with assms show ?thesis by (auto simp: tm_optimize_def)
next
  case False
  let ?m = "m\<lparr>optimized := k\<rparr>"
  have e: "entries ?m = entries m" by (simp add: entries_def)
  have "shape_ok ?m" using assms by (simp add: token_map_inv_def shape_ok_def e)
  then obtain m1 where m1: "reinsert ?m (optimized m) = Ok m1" "shape_ok m1" "optimized m1 = k"
      "semi_sorted k (entries m1)" "map_of (entries m1) = map_of (entries m)"
    using reinsert_previous [of ?m "optimized m"] assms False by (auto simp: token_map_inv_def e)
  obtain m2 where "reinsert m1 k = Ok m2" "token_map_inv m2" "optimized m2 = k"
      "map_of (entries m2) = map_of (entries m)"
    using reinsert_optimized [of m1] m1 by auto
  with m1 False show ?thesis by (simp add: tm_optimize_def)
qed

lemma optimized_first:
  assumes "token_map_inv m" "optimized m \<in> fst ` set (entries m)"
  shows "fst (hd (entries m)) = optimized m"
  using assms token_map_order(2) [of "optimized m" "entries m"]
  by (cases "entries m") (auto simp: token_map_inv_def)

lemma tm_size_entries: "shape_ok m \<Longrightarrow> tm_size m = length (entries m)"
  by (auto simp: tm_size_def tm_empty_def entries_def hasArray_def hasMap_def arraySize_def token_std_map_def
      second_elems_def shape_ok_def second_ok_def Let_def split: option.splits)

text \<open>Two maps with the same optimized token and the same contents iterate in the same order.\<close>

lemma entries_canonical:
  "token_map_inv m \<Longrightarrow> token_map_inv m' \<Longrightarrow> optimized m = optimized m'
    \<Longrightarrow> map_of (entries m) = map_of (entries m') \<Longrightarrow> entries m = entries m'"
  by (auto simp: token_map_inv_def intro: token_order.sorted_map_of_unique)

lemma empty_token_map_inv: "token_map_inv empty_token_map" "entries empty_token_map = []"
  by (simp_all add: token_map_inv_def shape_ok_def entries_def empty_token_map_def hasValue_def)

subsection \<open>The iterator visits the entries\<close>

lemma make_iterator_end [simp]: "it_current (make_iterator s End_Stage) = None"
  by (simp add: make_iterator_def advance_def)

lemma visit_end: "it_stage it = End_Stage \<Longrightarrow> it_current it = None \<Longrightarrow> visit s it = Some (Ok [])"
  by (simp add: visit.simps)

lemma visit_step:
  "it_current it = Some t \<Longrightarrow> it_stage it \<noteq> End_Stage \<Longrightarrow> visit s (advance s it) = Some (Ok ts)
    \<Longrightarrow> visit s it = Some (Ok (t # ts))"
  by (simp add: visit.simps [of s it] it_dereference_def it_increment_def isEnd_def)

lemma visit_map:
  assumes "it_stage it = Map_Stage" "it_map it = t # mp" "it_current it = Some t"
  shows "visit s it = Some (Ok (t # mp))"
  using assms
proof (induction mp arbitrary: it t)
  case Nil
  then show ?case
    by (intro visit_step) (simp_all add: advance_def setEnd_def visit_end)
next
  case (Cons u mp)
  then show ?case
    by (intro visit_step Cons.IH) (simp_all add: advance_def setMapToken_def)
qed

lemma visit_array:
  assumes n: "pNextStorage s = Some n" "second_ok n"
    and it: "it_stage it = Array_Stage" "it_index it < ArraySize n" "it_current it = Some (ArrayStorage n ! it_index it)"
  shows "visit s it = Some (Ok (drop (it_index it) (second_elems n)))"
  using it
proof (induction "ArraySize n - it_index it" arbitrary: it)
  case (Suc d)
  let ?i = "it_index it"
  have len: "?i < length (take (ArraySize n) (ArrayStorage n))" using Suc.prems(2) n(2) by (simp add: second_ok_def)
  then have d: "drop ?i (second_elems n) = ArrayStorage n ! ?i # drop (Suc ?i) (second_elems n)"
    using Suc.prems(2) by (simp add: second_elems_def Cons_nth_drop_Suc [symmetric])
  have "visit s (advance s it) = Some (Ok (drop (Suc ?i) (second_elems n)))"
  proof (cases "Suc ?i = ArraySize n")
    case False
    then show ?thesis using Suc.hyps Suc.prems n(1)
      by (subst Suc.hyps(1)) (auto simp: advance_def setArrayToken_def arraySize_def array_def Let_def)
  next
    case True
    then have "drop (Suc ?i) (second_elems n) = (case pMapStorage n of None \<Rightarrow> [] | Some mp \<Rightarrow> mp)"
      using n(2) by (simp add: second_elems_def second_ok_def)
    moreover have "visit s (advance s it) = Some (Ok (case pMapStorage n of None \<Rightarrow> [] | Some mp \<Rightarrow> mp))"
    proof (cases "pMapStorage n")
      case None
      with True Suc.prems n show ?thesis
        by (simp add: advance_def arraySize_def hasMap_def setEnd_def visit_end Let_def)
    next
      case (Some mp)
      with n(2) obtain t r where "mp = t # r" by (cases mp) (auto simp: second_ok_def)
      with True Suc.prems n Some show ?thesis
        by (simp add: advance_def arraySize_def hasMap_def setMapToken_def token_std_map_def Let_def
            visit_map)
    qed
    ultimately show ?thesis by simp
  qed
  then show ?case unfolding d using Suc.prems by (intro visit_step) simp_all
qed simp

lemma tm_tokens_entries:
  assumes "shape_ok m"
  shows "tm_tokens m = Some (Ok (entries m))"
proof (cases "hasValue (storage m)")
  case False
  then show ?thesis
    by (simp add: tm_tokens_def make_iterator_def advance_def setEnd_def visit_end entries_def)
next
  case True
  let ?s = "storage m"
  let ?it = "make_iterator ?s Start_Stage"
  have it: "it_stage ?it = Value_Stage" "it_current ?it = Some (Value ?s)"
    using True by (simp_all add: make_iterator_def advance_def setValueToken_def)
  have "visit ?s (advance ?s ?it) = Some (Ok (tl (entries m)))"
  proof (cases "pNextStorage ?s")
    case None
    with it True show ?thesis by (simp add: advance_def hasArray_def setEnd_def visit_end entries_def)
  next
    case (Some n)
    note e = entries_Cons [OF assms Some]
    have "visit ?s (advance ?s ?it) = Some (Ok (drop 0 (second_elems n)))"
      using it Some e(3) by (subst visit_array [OF Some e(2)]) (simp_all add: advance_def hasArray_def setArrayToken_def array_def)
    with e(1) show ?thesis by simp
  qed
  with it show ?thesis
    using True by (simp add: tm_tokens_def visit_step entries_def split: option.splits)
qed

subsection \<open>Assigning through an iterator\<close>

lemma om_update_Cons: "om_update k v (p # xs) = (if fst p = k then (k, v) else p) # om_update k v xs"
  by (simp add: om_update_def)

lemma om_update_append: "om_update k v (xs @ ys) = om_update k v xs @ om_update k v ys"
  by (simp add: om_update_def)

lemma om_update_nth:
  assumes "distinct (map fst xs)" "i < length xs"
  shows "om_update (fst (xs ! i)) v xs = xs[i := (fst (xs ! i), v)]"
proof (rule nth_equalityI)
  fix j
  assume "j < length (om_update (fst (xs ! i)) v xs)"
  then have j: "j < length xs" by (simp add: om_update_def)
  then have "fst (xs ! j) = fst (xs ! i) \<longleftrightarrow> j = i"
    using assms nth_eq_iff_index_eq [OF assms(1), of j i] by simp
  with j show "om_update (fst (xs ! i)) v xs ! j = xs[i := (fst (xs ! i), v)] ! j"
    by (simp add: om_update_def nth_list_update)
qed (simp add: om_update_def)

lemma assign_shape:
  assumes "shape_ok m" "pNextStorage (storage m) = Some n" "second_ok n'" "ArraySize n' = ArraySize n"
    "second_elems n' = om_update k a (second_elems n)" "fst (Value (storage m)) \<noteq> k"
  shows "shape_ok (m\<lparr>storage := (storage m)\<lparr>pNextStorage := Some n'\<rparr>\<rparr>)
    \<and> entries (m\<lparr>storage := (storage m)\<lparr>pNextStorage := Some n'\<rparr>\<rparr>) = om_update k a (entries m)"
  using assms entries_Cons [OF assms(1,2)]
  by (auto simp: shape_ok_def entries_def hasValue_def om_update_Cons)

lemma tm_assign_entries:
  assumes ok: "shape_ok m" and dist: "distinct (map fst (entries m))"
  shows "shape_ok (tm_assign m k a) \<and> entries (tm_assign m k a) = om_update k a (entries m)
    \<and> optimized (tm_assign m k a) = optimized m"
proof (cases "find_location m k")
  case None
  then have "k \<notin> fst ` set (entries m)" using find_location_None [OF ok] by simp
  with None ok show ?thesis by (simp add: tm_assign_def om_update_absent)
next
  case (Some loc)
  note loc = find_location_cases [OF ok, of k, unfolded Some]
  show ?thesis
  proof (cases loc)
    case In_Value
    have r: "fst (Value (storage m)) = k" "hasValue (storage m)" using loc In_Value by auto
    then have "k \<notin> fst ` set (tl (entries m))" using dist by (simp add: entries_def)
    then have "entries (tm_assign m k a) = om_update k a (entries m)"
      using Some In_Value r om_update_absent [of k "tl (entries m)" a]
      by (simp add: tm_assign_def entries_def hasValue_def om_update_Cons)
    with Some In_Value ok r show ?thesis by (simp add: tm_assign_def shape_ok_def hasValue_def)
  next
    case (In_Array i)
    then obtain n where n: "pNextStorage (storage m) = Some n"
      and vk: "fst (Value (storage m)) \<noteq> k"
      and fa: "find_in_array k 0 (take (ArraySize n) (ArrayStorage n)) = Some i"
      using loc by (auto simp: arraySize_def array_def)
    note e = entries_Cons [OF ok n]
    let ?n' = "n\<lparr>ArrayStorage := (ArrayStorage n)[i := (fst (ArrayStorage n ! i), a)]\<rparr>"
    have i: "i < ArraySize n" "i < length (ArrayStorage n)" "fst (ArrayStorage n ! i) = k"
        "i < length (second_elems n)" "fst (second_elems n ! i) = k"
      using find_in_array_Some [OF fa] by (auto simp: second_elems_def nth_append)
    have "second_elems ?n' = (second_elems n)[i := (k, a)]"
      using i by (simp add: second_elems_def take_update_swap list_update_append)
    also have "\<dots> = om_update k a (second_elems n)"
      using om_update_nth [of "second_elems n" i a] dist e(1) i by simp
    finally show ?thesis
      using assign_shape [OF ok n, of ?n' k a] e(2) vk Some In_Array n
      by (simp add: tm_assign_def second_ok_def)
  next
    case In_Map
    then obtain n where n: "pNextStorage (storage m) = Some n"
      and vk: "fst (Value (storage m)) \<noteq> k"
      and fa: "k \<notin> fst ` set (take (ArraySize n) (ArrayStorage n))"
      using loc by (auto simp: arraySize_def array_def find_in_array_None map_of_eq_None_iff)
    let ?n' = "n\<lparr>pMapStorage := map_option (om_update k a) (pMapStorage n)\<rparr>"
    have "second_elems ?n' = om_update k a (second_elems n)"
      using om_update_absent [OF fa] by (cases "pMapStorage n") (simp_all add: second_elems_def om_update_append)
    moreover have "second_ok ?n'"
      using entries_Cons(2) [OF ok n] by (auto simp: second_ok_def om_update_def)
    ultimately show ?thesis
      using assign_shape [OF ok n, of ?n' k a] vk Some In_Map n by (simp add: tm_assign_def)
  qed
qed

lemma tm_assign_inv:
  assumes "token_map_inv m"
  shows "token_map_inv (tm_assign m k a)" "entries (tm_assign m k a) = om_update k a (entries m)"
    "optimized (tm_assign m k a) = optimized m"
  using assms tm_assign_entries [of m k a] token_order.sorted_distinct
  by (auto simp: token_map_inv_def)

subsection \<open>The interface of the token map\<close>

text \<open>
  What a client of the map relies on: an insertion of a new token succeeds and an insertion of an
  existing or invalid one throws, an assignment and a removal change one token only.
\<close>

locale token_store =
  fixes inv :: "'s \<Rightarrow> bool"
    and look :: "'s \<Rightarrow> token_id \<Rightarrow> amount option"
    and ins :: "'s \<Rightarrow> token \<Rightarrow> 's result"
    and upd :: "'s \<Rightarrow> token_id \<Rightarrow> amount \<Rightarrow> 's"
    and era :: "'s \<Rightarrow> token_id \<Rightarrow> 's"
  assumes look_zero: "inv s \<Longrightarrow> look s 0 = None"
    and ins_new: "inv s \<Longrightarrow> k \<noteq> 0 \<Longrightarrow> look s k = None
      \<Longrightarrow> \<exists>s'. ins s (k, a) = Ok s' \<and> inv s' \<and> look s' = (look s)(k \<mapsto> a)"
    and ins_error: "inv s \<Longrightarrow> k = 0 \<or> look s k \<noteq> None \<Longrightarrow> ins s (k, a) = Err Invalid_Argument"
    and upd_existing: "inv s \<Longrightarrow> look s k = Some b \<Longrightarrow> inv (upd s k a) \<and> look (upd s k a) = (look s)(k \<mapsto> a)"
    and era_any: "inv s \<Longrightarrow> inv (era s k) \<and> look (era s k) = (look s)(k := None)"
begin

text \<open>Adding to the amount of a token, present or not, and taking from it.\<close>

lemma add_amount:
  assumes "inv s" "k \<noteq> 0"
  shows "\<exists>s'. (case look s k of None \<Rightarrow> ins s (k, a) | Some b \<Rightarrow> Ok (upd s k (b + a))) = Ok s'
    \<and> inv s' \<and> look s' = (look s)(k \<mapsto> (case look s k of None \<Rightarrow> a | Some b \<Rightarrow> b + a))"
  using ins_new [OF assms, of a] upd_existing [OF assms(1)] by (cases "look s k") auto

lemma take_amount:
  assumes "inv s" "look s k = Some b"
  shows "inv (if b - a = 0 then era (upd s k (b - a)) k else upd s k (b - a))
    \<and> look (if b - a = 0 then era (upd s k (b - a)) k else upd s k (b - a))
      = (look s)(k := if b - a = 0 then None else Some (b - a))"
  using upd_existing [OF assms, of "b - a"] era_any by auto

text \<open>A loop that inserts a sequence of tokens.\<close>

lemma insert_all:
  assumes "inv s" "distinct (map fst ts)" "0 \<notin> fst ` set ts" "\<forall>k \<in> fst ` set ts. look s k = None"
  shows "\<exists>s'. fold_result (\<lambda>t s. ins s t) ts s = Ok s' \<and> inv s' \<and> look s' = look s ++ map_of ts"
  using assms
proof (induction ts arbitrary: s)
  case (Cons t ts)
  obtain k a where t: "t = (k, a)" by (cases t)
  obtain s1 where s1: "ins s (k, a) = Ok s1" "inv s1" "look s1 = (look s)(k \<mapsto> a)"
    using ins_new [of s k a] Cons.prems t by auto
  have new: "\<forall>j \<in> fst ` set ts. look s1 j = None" using Cons.prems t s1(3) by auto
  obtain s2 where s2: "fold_result (\<lambda>t s. ins s t) ts s1 = Ok s2" "inv s2" "look s2 = look s1 ++ map_of ts"
    using Cons.IH [OF s1(2) _ _ new] Cons.prems by auto
  have "k \<notin> dom (map_of ts)" using Cons.prems t by (simp add: dom_map_of_conv_image_fst)
  then have "look s2 = look s ++ map_of (t # ts)"
    using s2(3) s1(3) t by (auto simp: fun_eq_iff map_add_def domIff split: option.splits)
  with s1(1) s2(1,2) t show ?case by (simp del: map_of.simps)
qed simp

text \<open>The loop throws as soon as it meets a token the map already holds.\<close>

lemma insert_all_error:
  assumes "inv s" "\<exists>k \<in> fst ` set ts. k = 0 \<or> look s k \<noteq> None"
  shows "fold_result (\<lambda>t s. ins s t) ts s = Err Invalid_Argument"
  using assms
proof (induction ts arbitrary: s)
  case (Cons t ts)
  obtain k a where t: "t = (k, a)" by (cases t)
  show ?case
  proof (cases "k = 0 \<or> look s k \<noteq> None")
    case True
    with Cons.prems t show ?thesis by (simp add: ins_error)
  next
    case False
    then obtain s1 where s1: "ins s (k, a) = Ok s1" "inv s1" "look s1 = (look s)(k \<mapsto> a)"
      using ins_new [of s k a] Cons.prems by auto
    have "\<exists>j \<in> fst ` set ts. j = 0 \<or> look s1 j \<noteq> None"
      using Cons.prems(2) t False s1(3) by auto
    with Cons.IH [OF s1(2)] s1 t show ?thesis by simp
  qed
qed simp

end

definition tm_lookup :: "token_map \<Rightarrow> token_id \<Rightarrow> amount option" where
  "tm_lookup m tid = map_option snd (tm_find m tid)"

lemma tm_lookup_entries: "shape_ok m \<Longrightarrow> tm_lookup m = map_of (entries m)"
  by (simp add: tm_lookup_def tm_find_entries fun_eq_iff option.map_comp comp_def option.map_ident)

lemma token_map_inv_lookup: "token_map_inv m \<Longrightarrow> tm_lookup m = map_of (entries m)"
  by (simp add: token_map_inv_def tm_lookup_entries)

text \<open>The maps a client holds that are optimized for \<open>opt\<close>.\<close>

definition token_map_for :: "token_id \<Rightarrow> token_map \<Rightarrow> bool" where
  "token_map_for opt m \<longleftrightarrow> token_map_inv m \<and> optimized m = opt"

interpretation tokens: token_store "token_map_for opt" tm_lookup tm_insert tm_assign tm_erase
proof
  fix m k a b
  assume "token_map_for opt m"
  then have inv: "token_map_inv m" and opt: "optimized m = opt" by (auto simp: token_map_for_def)
  note look = token_map_inv_lookup [OF inv]
  show "tm_lookup m 0 = None"
    using inv by (simp add: look token_map_inv_def shape_ok_def map_of_eq_None_iff)
  show "k = 0 \<or> tm_lookup m k \<noteq> None \<Longrightarrow> tm_insert m (k, a) = Err Invalid_Argument"
    using tm_insert_error [OF inv, of "(k, a)"] look by (auto simp: map_of_eq_None_iff)
  show "token_map_for opt (tm_erase m k) \<and> tm_lookup (tm_erase m k) = (tm_lookup m)(k := None)"
    using tm_erase_inv [OF inv, of k] opt by (simp add: token_map_for_def token_map_inv_lookup look map_of_om_erase)
  show "\<exists>m'. tm_insert m (k, a) = Ok m' \<and> token_map_for opt m' \<and> tm_lookup m' = (tm_lookup m)(k \<mapsto> a)"
    if "k \<noteq> 0" "tm_lookup m k = None"
    using tm_insert_inv [OF inv, of "(k, a)"] that opt
    by (auto simp: token_map_for_def look map_of_eq_None_iff token_map_inv_lookup token_order.map_of_om_insert)
  show "token_map_for opt (tm_assign m k a) \<and> tm_lookup (tm_assign m k a) = (tm_lookup m)(k \<mapsto> a)"
    if "tm_lookup m k = Some b"
    using tm_assign_inv [OF inv, of k a] that opt map_of_eq_None_iff [of "entries m" k]
    by (auto simp: token_map_for_def look token_map_inv_lookup map_of_om_update)
qed

lemma entries_length_eq:
  assumes "token_map_inv m" "token_map_inv m'" "map_of (entries m') = map_of (entries m)"
  shows "length (entries m') = length (entries m)"
proof -
  have "distinct (map fst (entries m))" "distinct (map fst (entries m'))"
    using assms(1,2) token_order.sorted_distinct by (auto simp: token_map_inv_def)
  then have "card (dom (map_of (entries m))) = length (entries m)"
      "card (dom (map_of (entries m'))) = length (entries m')"
    using distinct_card [of "map fst (entries m)"] distinct_card [of "map fst (entries m')"]
    by (simp_all add: dom_map_of_conv_image_fst)
  with assms(3) show ?thesis by simp
qed

lemma tm_size_dom: "token_map_inv m \<Longrightarrow> tm_size m = card (dom (tm_lookup m))"
  using distinct_card [of "map fst (entries m)"] token_order.sorted_distinct [of "optimized m" "entries m"]
  by (simp add: token_map_inv_def tm_size_entries tm_lookup_entries dom_map_of_conv_image_fst)

lemma tm_tokens_cong:
  assumes "token_map_inv m" "token_map_inv m'" "optimized m = optimized m'" "tm_lookup m = tm_lookup m'"
  shows "tm_tokens m = tm_tokens m'"
  using assms entries_canonical [OF assms(1-3)] tm_tokens_entries [of m] tm_tokens_entries [of m']
  by (simp add: token_map_inv_lookup) (simp add: token_map_inv_def)

lemma length_om_erase:
  "distinct (map fst xs) \<Longrightarrow> length (om_erase k xs) = (if k \<in> fst ` set xs then length xs - 1 else length xs)"
proof (induction xs)
  case (Cons p xs)
  have "length xs \<noteq> 0" if "k \<in> fst ` set xs" using that by auto
  with Cons show ?case by (cases "fst p = k") (auto simp: om_erase_Cons om_erase_absent)
qed (simp add: om_erase_def)

subsection \<open>Properties\<close>

text \<open>
  C6: \<^verbatim>\<open>insert\<close> throws exactly when the id is zero or already present; otherwise the token is found
  afterwards with its amount and every other token is found as before, wherever the storage put it.
\<close>

theorem token_map_insert:
  assumes "token_map_inv m"
  shows "case tm_insert m (k, a) of
      Err e \<Rightarrow> e = Invalid_Argument \<and> (k = 0 \<or> tm_find m k \<noteq> None)
    | Ok m' \<Rightarrow> k \<noteq> 0 \<and> tm_find m k = None \<and> token_map_inv m' \<and> tm_size m' = tm_size m + 1
        \<and> (\<forall>j. tm_find m' j = (if j = k then Some (k, a) else tm_find m j))"
proof (cases "k = 0 \<or> tm_find m k \<noteq> None")
  case True
  then have "tm_insert m (k, a) = Err Invalid_Argument"
    using assms by (intro tokens.ins_error [of "optimized m"]) (auto simp: tm_lookup_def token_map_for_def)
  with True show ?thesis by simp
next
  case False
  then have new: "k \<notin> fst ` set (entries m)"
    using assms tm_find_entries [of m k] by (auto simp: token_map_inv_def map_of_eq_None_iff)
  obtain m' where m': "tm_insert m (k, a) = Ok m'" "token_map_inv m'"
      "entries m' = om_insert (IsLessThan (optimized m)) k a (entries m)"
    using tm_insert_inv [OF assms, of "(k, a)"] False new by auto
  moreover have "tm_size m' = tm_size m + 1"
    using m' assms token_order.length_om_insert [OF new] by (simp add: token_map_inv_def tm_size_entries)
  moreover have "tm_find m' j = (if j = k then Some (k, a) else tm_find m j)" for j
    using m' assms new by (simp add: token_map_inv_def tm_find_entries token_order.map_of_om_insert)
  ultimately show ?thesis using False by (cases "tm_find m k") auto
qed

definition sample_map :: token_map where
  "sample_map = \<lparr>storage = \<lparr>Value = (9, 1), pNextStorage = Some
     \<lparr>ArrayStorage = [(1, 10), (2, 20), (3, 30), (4, 40), (5, 50)], ArraySize = 5,
      pMapStorage = Some [(6, 60), (8, 80)]\<rparr>\<rparr>, optimized = 9\<rparr>"

lemmas sample_map_eval = sample_map_def token_map_inv_def shape_ok_def second_ok_def entries_def
  second_elems_def hasValue_def IsLessThan_def Array_Size_def

lemma sample_map_inv: "token_map_inv sample_map"
  by (simp add: sample_map_eval)

theorem token_map_insert_witness:
  "token_map_inv sample_map \<and> (case tm_insert sample_map (7, 70) of Err _ \<Rightarrow> False
    | Ok m' \<Rightarrow> tm_size m' = 9 \<and> tm_find m' 7 = Some (7, 70) \<and> tm_find m' 6 = Some (6, 60))"
proof -
  have "tm_size sample_map = 8" "tm_find sample_map 6 = Some (6, 60)" "tm_find sample_map 7 = None" by code_simp+
  then show ?thesis using token_map_insert [OF sample_map_inv, of 7 70] sample_map_inv by (auto split: result.splits)
qed

text \<open>
  C8: \<^verbatim>\<open>erase\<close> removes the token and no other, and gives its slot back: the size drops by one.
  Erasing an unknown token changes nothing.
\<close>

theorem token_map_erase:
  assumes "token_map_inv m"
  shows "token_map_inv (tm_erase m k)
    \<and> (\<forall>j. tm_find (tm_erase m k) j = (if j = k then None else tm_find m j))
    \<and> tm_size (tm_erase m k) = (if tm_find m k = None then tm_size m else tm_size m - 1)"
proof -
  have ok: "shape_ok m" "shape_ok (tm_erase m k)" "distinct (map fst (entries m))"
    using assms tm_erase_inv [OF assms] token_order.sorted_distinct by (auto simp: token_map_inv_def)
  then have "tm_find (tm_erase m k) j = (if j = k then None else tm_find m j)" for j
    using tm_erase_inv [OF assms, of k] by (simp add: tm_find_entries map_of_om_erase)
  moreover have "tm_size (tm_erase m k) = (if tm_find m k = None then tm_size m else tm_size m - 1)"
    using ok tm_erase_inv(2) [OF assms, of k] length_om_erase [OF ok(3), of k]
    by (auto simp: tm_size_entries tm_find_entries map_of_eq_None_iff)
  ultimately show ?thesis using tm_erase_inv(1) [OF assms] by blast
qed

theorem token_map_erase_witness:
  "token_map_inv sample_map \<and> tm_find (tm_erase sample_map 3) 3 = None
    \<and> tm_find (tm_erase sample_map 3) 6 = Some (6, 60) \<and> tm_size (tm_erase sample_map 3) = 7"
proof -
  have "tm_size sample_map = 8" "tm_find sample_map 6 = Some (6, 60)" "tm_find sample_map 3 \<noteq> None" by code_simp+
  then show ?thesis using token_map_erase [OF sample_map_inv, of 3] sample_map_inv by simp
qed

text \<open>
  \<^verbatim>\<open>optimize\<close> never throws, keeps every token and makes a present optimized token the first
  one an iteration visits.
\<close>

theorem token_map_optimize:
  assumes "token_map_inv m"
  shows "\<exists>m'. tm_optimize m k = Ok m' \<and> token_map_inv m' \<and> optimized m' = k
    \<and> (\<forall>j. tm_find m' j = tm_find m j) \<and> tm_size m' = tm_size m
    \<and> (tm_find m k \<noteq> None \<longrightarrow> Value (storage m') = the (tm_find m k))"
proof -
  obtain m' where m': "tm_optimize m k = Ok m'" "token_map_inv m'" "optimized m' = k"
      "map_of (entries m') = map_of (entries m)"
    using tm_optimize_inv [OF assms] by blast
  have ok: "shape_ok m" "shape_ok m'" using assms m'(2) by (auto simp: token_map_inv_def)
  have find: "tm_find m' j = tm_find m j" for j using ok m'(4) by (simp add: tm_find_entries)
  have "Value (storage m') = the (tm_find m k)" if "tm_find m k \<noteq> None"
  proof -
    from that obtain a where a: "map_of (entries m') k = Some a" using m'(4) ok by (auto simp: tm_find_entries)
    then have "k \<in> fst ` set (entries m')" by (force dest: map_of_SomeD)
    then have v: "hasValue (storage m')" "fst (Value (storage m')) = k"
      using optimized_first [OF m'(2)] m'(3) by (auto simp: entries_def split: if_splits)
    then have "map_of (entries m') k = Some (snd (Value (storage m')))" by (simp add: entries_def)
    then have "tm_find m' k = Some (Value (storage m'))" using v ok by (simp add: tm_find_entries prod_eq_iff)
    with find [of k] show ?thesis by (metis option.sel)
  qed
  moreover have "tm_size m' = tm_size m"
    using entries_length_eq [OF assms m'(2)] m'(4) ok by (simp add: tm_size_entries)
  ultimately show ?thesis using m' find by blast
qed

theorem token_map_optimize_witness:
  "token_map_inv sample_map \<and> (\<exists>m'. tm_optimize sample_map 6 = Ok m' \<and> Value (storage m') = (6, 60)
    \<and> tm_find m' 9 = Some (9, 1))"
proof -
  have "tm_find sample_map 6 = Some (6, 60)" "tm_find sample_map 9 = Some (9, 1)" by code_simp+
  then show ?thesis using token_map_optimize [OF sample_map_inv, of 6] sample_map_inv by auto
qed

text \<open>
  An iteration over the map terminates without an exception and visits every token once,
  in the order the optimized token and the ids give; the storage history does not matter: two maps
  with the same optimized token and the same contents are visited in the same sequence.
\<close>

theorem token_map_iteration:
  assumes "token_map_inv m"
  shows "\<exists>ts. tm_tokens m = Some (Ok ts) \<and> om_sorted (IsLessThan (optimized m)) ts \<and> length ts = tm_size m
    \<and> (\<forall>k a. (k, a) \<in> set ts \<longleftrightarrow> tm_find m k = Some (k, a))
    \<and> (\<forall>m'. token_map_inv m' \<and> optimized m' = optimized m \<and> tm_find m' = tm_find m
          \<longrightarrow> tm_tokens m' = Some (Ok ts))"
proof (intro exI conjI allI impI)
  have ok: "shape_ok m" and srt: "om_sorted (IsLessThan (optimized m)) (entries m)"
    using assms by (auto simp: token_map_inv_def)
  show "tm_tokens m = Some (Ok (entries m))" by (rule tm_tokens_entries [OF ok])
  show "om_sorted (IsLessThan (optimized m)) (entries m)" by (rule srt)
  show "length (entries m) = tm_size m" using ok by (simp add: tm_size_entries)
  show "(k, a) \<in> set (entries m) \<longleftrightarrow> tm_find m k = Some (k, a)" for k a
    using token_order.sorted_distinct [OF srt] by (auto simp: tm_find_entries [OF ok])
  show "tm_tokens m' = Some (Ok (entries m))"
    if "token_map_inv m' \<and> optimized m' = optimized m \<and> tm_find m' = tm_find m" for m'
    using tm_tokens_cong [of m' m] that assms tm_tokens_entries [OF ok] by (simp add: tm_lookup_def fun_eq_iff)
qed

theorem token_map_iteration_witness:
  "token_map_inv sample_map \<and> (\<exists>ts. tm_tokens sample_map = Some (Ok ts) \<and> length ts = 8 \<and> (6, 60) \<in> set ts)"
proof -
  have "tm_size sample_map = 8" "tm_find sample_map 6 = Some (6, 60)" by code_simp+
  then show ?thesis using token_map_iteration [OF sample_map_inv] sample_map_inv by auto
qed

end
