(* ===== verification/Account_Balances.thy ===== *)
theory Account_Balances
  imports Token_Map
begin

section \<open>AccountBalances\<close>

text \<open>
  The balances of an account, \<^verbatim>\<open>src/src/bitxorcore/state/AccountBalances.{h,cpp}\<close>: a client of the
  token map that keeps no entry with a zero amount.  Amounts are 64-bit and wrap around, as in the
  code.  The proofs use the map only through the interface \<open>token_store\<close> and its interpretation
  \<open>tokens\<close>.
\<close>

record account_balances =
  m_balances :: token_map
  m_optimizedTokenId :: token_id

definition empty_balances :: account_balances where
  "empty_balances = \<lparr>m_balances = empty_token_map, m_optimizedTokenId = 0\<rparr>"

definition balances_size :: "account_balances \<Rightarrow> nat" where
  "balances_size b = tm_size (m_balances b)"

definition balance_get :: "account_balances \<Rightarrow> token_id \<Rightarrow> amount" where
  "balance_get b tid = (case tm_find (m_balances b) tid of None \<Rightarrow> 0 | Some t \<Rightarrow> snd t)"

definition credit :: "account_balances \<Rightarrow> token_id \<Rightarrow> amount \<Rightarrow> account_balances result" where
  "credit b tid a =
     (if a = 0 then Ok b
      else map_result (\<lambda>m. b\<lparr>m_balances := m\<rparr>)
        (case tm_find (m_balances b) tid of
           None \<Rightarrow> tm_insert (m_balances b) (tid, a)
         | Some t \<Rightarrow> Ok (tm_assign (m_balances b) tid (snd t + a))))"

definition debit :: "account_balances \<Rightarrow> token_id \<Rightarrow> amount \<Rightarrow> account_balances result" where
  "debit b tid a =
     (if a = 0 then Ok b
      else case tm_find (m_balances b) tid of
          None \<Rightarrow> Err Runtime_Error
        | Some t \<Rightarrow>
            if snd t < a then Err Runtime_Error
            else let m = tm_assign (m_balances b) tid (snd t - a)
                 in Ok (b\<lparr>m_balances := if snd t - a = 0 then tm_erase m tid else m\<rparr>))"

definition balances_optimize :: "account_balances \<Rightarrow> token_id \<Rightarrow> account_balances result" where
  "balances_optimize b tid =
     map_result (\<lambda>m. b\<lparr>m_balances := m, m_optimizedTokenId := tid\<rparr>) (tm_optimize (m_balances b) tid)"

text \<open>
  \<^verbatim>\<open>operator=(const AccountBalances&)\<close>: the destination is optimized for the same token and the
  tokens an iteration over the source visits are inserted one by one.  The destination is not
  cleared first.  The result is \<open>None\<close> only if the iteration does not end.
\<close>

definition balances_assign :: "account_balances \<Rightarrow> account_balances \<Rightarrow> account_balances result option" where
  "balances_assign dst src =
     map_option (\<lambda>r. bind_result (tm_optimize (m_balances dst) (m_optimizedTokenId src)) (\<lambda>m.
         bind_result r (\<lambda>ts.
           map_result (\<lambda>m'. dst\<lparr>m_balances := m', m_optimizedTokenId := m_optimizedTokenId src\<rparr>)
             (fold_result (\<lambda>t m. tm_insert m t) ts m))))
       (tm_tokens (m_balances src))"

definition balances_copy :: "account_balances \<Rightarrow> account_balances result option" where
  "balances_copy src = balances_assign empty_balances src"

subsection \<open>Invariant\<close>

definition balances_inv :: "account_balances \<Rightarrow> bool" where
  "balances_inv b \<longleftrightarrow> token_map_inv (m_balances b) \<and> optimized (m_balances b) = m_optimizedTokenId b"

definition no_zero_balance :: "account_balances \<Rightarrow> bool" where
  "no_zero_balance b \<longleftrightarrow> (\<forall>k. tm_lookup (m_balances b) k \<noteq> Some 0)"

lemma balance_get_lookup: "balance_get b k = (case tm_lookup (m_balances b) k of None \<Rightarrow> 0 | Some a \<Rightarrow> a)"
  by (simp add: balance_get_def tm_lookup_def split: option.splits)

lemma balance_of_lookup:
  "no_zero_balance b \<Longrightarrow> tm_lookup (m_balances b) k = (if balance_get b k = 0 then None else Some (balance_get b k))"
  by (auto simp: balance_get_lookup no_zero_balance_def split: option.splits)

lemma balances_inv_for: "balances_inv b \<longleftrightarrow> token_map_for (m_optimizedTokenId b) (m_balances b)"
  by (simp add: balances_inv_def token_map_for_def)

text \<open>The operations in terms of the interface of the map.\<close>

lemma credit_lookup:
  "a \<noteq> 0 \<Longrightarrow> credit b k a = map_result (\<lambda>m. b\<lparr>m_balances := m\<rparr>)
     (case tm_lookup (m_balances b) k of
        None \<Rightarrow> tm_insert (m_balances b) (k, a)
      | Some c \<Rightarrow> Ok (tm_assign (m_balances b) k (c + a)))"
  by (auto simp: credit_def tm_lookup_def split: option.splits)

lemma debit_lookup:
  "a \<noteq> 0 \<Longrightarrow> debit b k a = (case tm_lookup (m_balances b) k of
        None \<Rightarrow> Err Runtime_Error
      | Some c \<Rightarrow> if c < a then Err Runtime_Error
          else Ok (b\<lparr>m_balances := if c - a = 0 then tm_erase (tm_assign (m_balances b) k (c - a)) k
                                  else tm_assign (m_balances b) k (c - a)\<rparr>))"
  by (auto simp: debit_def tm_lookup_def Let_def split: option.splits)

lemma credit_ok:
  assumes "balances_inv b" "k \<noteq> 0" "a \<noteq> 0"
  shows "\<exists>b'. credit b k a = Ok b' \<and> balances_inv b' \<and> m_optimizedTokenId b' = m_optimizedTokenId b
    \<and> tm_lookup (m_balances b') = (tm_lookup (m_balances b))(k \<mapsto> balance_get b k + a)"
  using tokens.add_amount [OF assms(1) [unfolded balances_inv_for] assms(2), of a] assms
  by (auto simp: credit_lookup balances_inv_for balance_get_lookup fun_eq_iff split: option.splits)

lemma debit_ok:
  assumes "balances_inv b" "a \<noteq> 0" "a \<le> balance_get b k"
  shows "\<exists>b'. debit b k a = Ok b' \<and> balances_inv b' \<and> m_optimizedTokenId b' = m_optimizedTokenId b
    \<and> tm_lookup (m_balances b')
        = (tm_lookup (m_balances b))(k := if balance_get b k = a then None else Some (balance_get b k - a))"
proof -
  obtain c where c: "tm_lookup (m_balances b) k = Some c" "balance_get b k = c"
    using assms(2,3) by (auto simp: balance_get_lookup split: option.splits)
  show ?thesis
    using tokens.take_amount [OF assms(1) [unfolded balances_inv_for] c(1), of a] assms c
    by (simp add: debit_lookup balances_inv_for not_less)
qed

lemma debit_error:
  "balance_get b k < a \<Longrightarrow> debit b k a = Err Runtime_Error"
  by (cases "a = 0") (auto simp: debit_lookup balance_get_lookup split: option.splits)

text \<open>The copy assignment.\<close>

lemma balances_source:
  assumes "balances_inv src"
  defines "ts \<equiv> entries (m_balances src)"
  shows "tm_tokens (m_balances src) = Some (Ok ts)" "distinct (map fst ts)" "0 \<notin> fst ` set ts"
    "tm_lookup (m_balances src) = map_of ts"
  using assms tm_tokens_entries token_order.sorted_distinct tm_lookup_entries
  by (auto simp: balances_inv_def token_map_inv_def shape_ok_def)

lemma balances_reoptimized:
  "balances_inv d \<Longrightarrow> \<exists>m. tm_optimize (m_balances d) opt = Ok m \<and> token_map_for opt m
      \<and> tm_lookup m = tm_lookup (m_balances d)"
  using tm_optimize_inv [of "m_balances d" opt]
  by (auto simp: balances_inv_def token_map_for_def token_map_inv_lookup)

lemma empty_balances_inv: "balances_inv empty_balances" "tm_lookup (m_balances empty_balances) = (\<lambda>_. None)"
proof -
  show "balances_inv empty_balances"
    by (simp add: balances_inv_def empty_balances_def empty_token_map_inv) (simp add: empty_token_map_def)
  show "tm_lookup (m_balances empty_balances) = (\<lambda>_. None)"
    using empty_token_map_inv by (simp add: empty_balances_def token_map_inv_lookup)
qed

lemma balances_copy_ok:
  assumes "balances_inv src"
  shows "\<exists>c. balances_copy src = Some (Ok c) \<and> balances_inv c
      \<and> tm_tokens (m_balances c) = tm_tokens (m_balances src)"
proof -
  let ?opt = "m_optimizedTokenId src" and ?ts = "entries (m_balances src)"
  note src = balances_source [OF assms]
  obtain m where m: "tm_optimize (m_balances empty_balances) ?opt = Ok m" "token_map_for ?opt m"
      "tm_lookup m = (\<lambda>_. None)"
    using balances_reoptimized [OF empty_balances_inv(1)] empty_balances_inv(2) by metis
  obtain m' where m': "fold_result (\<lambda>t m. tm_insert m t) ?ts m = Ok m'" "token_map_for ?opt m'"
      "tm_lookup m' = tm_lookup (m_balances src)"
    using tokens.insert_all [OF m(2) src(2,3)] m(3) src(4)
    by (auto simp: map_add_def fun_eq_iff split: option.splits)
  have "tm_tokens m' = tm_tokens (m_balances src)"
    using m'(2,3) assms by (intro tm_tokens_cong) (auto simp: balances_inv_def token_map_for_def)
  then show ?thesis
    using src(1) m(1) m'(1,2) by (simp add: balances_copy_def balances_assign_def balances_inv_for)
qed

lemma balances_assign_overlap:
  assumes "balances_inv src" "balances_inv dst"
    "tm_lookup (m_balances dst) k \<noteq> None" "tm_lookup (m_balances src) k \<noteq> None"
  shows "balances_assign dst src = Some (Err Invalid_Argument)"
proof -
  let ?ts = "entries (m_balances src)"
  note src = balances_source [OF assms(1)]
  obtain d where d: "tm_optimize (m_balances dst) (m_optimizedTokenId src) = Ok d"
      "token_map_for (m_optimizedTokenId src) d" "tm_lookup d = tm_lookup (m_balances dst)"
    using balances_reoptimized [OF assms(2)] by blast
  have "k \<in> fst ` set ?ts"
    using assms(4) map_of_eq_None_iff [of ?ts k] by (auto simp: src(4))
  then have "fold_result (\<lambda>t m. tm_insert m t) ?ts d = Err Invalid_Argument"
    using tokens.insert_all_error [OF d(2), of ?ts] d(3) assms(3) by auto
  with src(1) d(1) show ?thesis by (simp add: balances_assign_def)
qed

subsection \<open>Properties\<close>

text \<open>
  C22: Debiting throws exactly when the amount exceeds the balance; otherwise the balance of the
  token drops by the amount, no other balance changes, and a balance that becomes zero leaves no
  entry behind.
\<close>

theorem balances_debit:
  assumes "balances_inv b" "no_zero_balance b"
  shows "case debit b k a of
      Err e \<Rightarrow> e = Runtime_Error \<and> balance_get b k < a
    | Ok b' \<Rightarrow> a \<le> balance_get b k \<and> balances_inv b' \<and> no_zero_balance b'
        \<and> balance_get b' = (balance_get b)(k := balance_get b k - a)
        \<and> balances_size b' = (if a \<noteq> 0 \<and> a = balance_get b k then balances_size b - 1 else balances_size b)"
proof -
  consider "balance_get b k < a" | "a = 0" | "a \<noteq> 0" "a \<le> balance_get b k" by force
  then show ?thesis
  proof cases
    case 1
    then show ?thesis by (simp add: debit_error)
  next
    case 2
    with assms show ?thesis by (simp add: debit_def)
  next
    case 3
    from debit_ok [OF assms(1) 3] obtain b' where b': "debit b k a = Ok b'" "balances_inv b'"
      "tm_lookup (m_balances b')
        = (tm_lookup (m_balances b))(k := if balance_get b k = a then None else Some (balance_get b k - a))"
      by blast
    have "tm_lookup (m_balances b) k = Some (balance_get b k)"
      using 3 by (auto simp: balance_get_lookup split: option.splits)
    with b' have "balances_size b' = (if a = balance_get b k then balances_size b - 1 else balances_size b)"
      using assms(1) by (auto simp: balances_size_def balances_inv_def tm_size_dom dom_fun_upd card_Diff_singleton_if insert_absorb domI split: if_splits)
    moreover have "balance_get b' = (balance_get b)(k := balance_get b k - a)"
      using b'(3) by (auto simp: fun_eq_iff balance_get_lookup)
    moreover have "no_zero_balance b'"
      using assms(2) b'(3) by (auto simp: no_zero_balance_def)
    ultimately show ?thesis using b'(1,2) 3 by simp
  qed
qed

definition sample_balances :: account_balances where
  "sample_balances = \<lparr>m_balances = sample_map, m_optimizedTokenId = 9\<rparr>"

lemma sample_balances_inv: "balances_inv sample_balances" "no_zero_balance sample_balances"
proof -
  show "balances_inv sample_balances"
    using sample_map_inv by (simp add: balances_inv_def sample_balances_def sample_map_def)
  show "no_zero_balance sample_balances"
    by (simp add: no_zero_balance_def sample_balances_def token_map_inv_lookup [OF sample_map_inv])
      (simp add: sample_map_eval)
qed

theorem balances_debit_witness:
  "balances_inv sample_balances \<and> (\<exists>b'. debit sample_balances 6 60 = Ok b' \<and> balance_get b' 6 = 0
    \<and> balance_get b' 8 = 80 \<and> balances_size b' = 7)"
proof -
  have "balance_get sample_balances 6 = 60" "balance_get sample_balances 8 = 80" "balances_size sample_balances = 8"
    by code_simp+
  with balances_debit [OF sample_balances_inv, of 60 6] sample_balances_inv(1) show ?thesis
    by (auto split: result.splits)
qed

lemma credit_debit:
  assumes "balances_inv b" "no_zero_balance b" "k \<noteq> 0" "unat (balance_get b k) + unat a < 2 ^ 64"
  shows "\<exists>b1 b2. credit b k a = Ok b1 \<and> balances_inv b1 \<and> no_zero_balance b1
    \<and> balance_get b1 = (balance_get b)(k := balance_get b k + a)
    \<and> debit b1 k a = Ok b2 \<and> balances_inv b2 \<and> tm_tokens (m_balances b2) = tm_tokens (m_balances b)
    \<and> balance_get b2 = balance_get b"
proof (cases "a = 0")
  case True
  with assms show ?thesis by (simp add: credit_def debit_def)
next
  case False
  let ?c = "balance_get b k"
  obtain b1 where b1: "credit b k a = Ok b1" "balances_inv b1" "m_optimizedTokenId b1 = m_optimizedTokenId b"
      "tm_lookup (m_balances b1) = (tm_lookup (m_balances b))(k \<mapsto> ?c + a)"
    using credit_ok [OF assms(1,3) False] by blast
  have sum: "unat (?c + a) = unat ?c + unat a" using assms(4) by (simp add: unat_add_lem [symmetric])
  have get1: "balance_get b1 k = ?c + a" by (simp add: balance_get_lookup b1(4))
  have le: "a \<le> balance_get b1 k" by (simp add: get1 word_le_nat_alt sum)
  obtain b2 where b2: "debit b1 k a = Ok b2" "balances_inv b2" "m_optimizedTokenId b2 = m_optimizedTokenId b1"
      "tm_lookup (m_balances b2) = (tm_lookup (m_balances b1))(k := if ?c + a = a then None else Some (?c + a - a))"
    using debit_ok [OF b1(2) False le] get1 by auto
  have same: "tm_lookup (m_balances b2) = tm_lookup (m_balances b)"
    using b2(4) b1(4) balance_of_lookup [OF assms(2), of k] by (auto simp: fun_eq_iff)
  then have "tm_tokens (m_balances b2) = tm_tokens (m_balances b)"
    using tm_tokens_cong assms(1) b1(3) b2(2,3) by (simp add: balances_inv_def)
  moreover have "?c + a \<noteq> 0"
    using sum False by (metis add_is_0 unat_eq_zero unat_0)
  then have "no_zero_balance b1" using assms(2) b1(4) by (simp add: no_zero_balance_def)
  moreover have "balance_get b1 = (balance_get b)(k := ?c + a)"
    by (auto simp: fun_eq_iff balance_get_lookup b1(4))
  moreover have "balance_get b2 = balance_get b" by (simp add: fun_eq_iff balance_get_lookup same)
  ultimately show ?thesis using b1 b2 by blast
qed

text \<open>
  Crediting a valid token adds the amount modulo \<open>2 ^ 64\<close>, and if the sum does not
  wrap around, debiting the same amount restores every balance and the sequence an iteration visits.
\<close>

theorem balances_credit_debit:
  assumes "balances_inv b" "no_zero_balance b" "k \<noteq> 0" "unat (balance_get b k) + unat a < 2 ^ 64"
  shows "\<exists>b1 b2. credit b k a = Ok b1 \<and> balances_inv b1 \<and> no_zero_balance b1
    \<and> balance_get b1 = (balance_get b)(k := balance_get b k + a)
    \<and> debit b1 k a = Ok b2 \<and> balances_inv b2 \<and> tm_tokens (m_balances b2) = tm_tokens (m_balances b)"
  using credit_debit [OF assms] by blast

theorem balances_credit_debit_witness:
  "balances_inv sample_balances \<and> (\<exists>b1 b2. credit sample_balances 7 5 = Ok b1 \<and> balance_get b1 7 = 5
    \<and> debit b1 7 5 = Ok b2 \<and> tm_tokens (m_balances b2) = tm_tokens (m_balances sample_balances))"
proof -
  have "balance_get sample_balances 7 = 0" by code_simp
  then show ?thesis using balances_credit_debit [OF sample_balances_inv, of 7 5] sample_balances_inv(1)
    by (auto simp: fun_eq_iff)
qed

text \<open>
  A copy of the balances is visited in the same sequence as the original.  The same assignment
  to balances that already hold one of the copied tokens throws instead of replacing them.
\<close>

theorem balances_assign_spec:
  assumes "balances_inv src" "balances_inv dst"
  shows "(\<exists>c. balances_copy src = Some (Ok c) \<and> balances_inv c
        \<and> tm_tokens (m_balances c) = tm_tokens (m_balances src))
    \<and> ((\<exists>k. tm_find (m_balances dst) k \<noteq> None \<and> tm_find (m_balances src) k \<noteq> None)
        \<longrightarrow> balances_assign dst src = Some (Err Invalid_Argument))"
  using balances_copy_ok [OF assms(1)] balances_assign_overlap [OF assms]
  by (auto simp: tm_lookup_def)

theorem balances_assign_spec_witness:
  "balances_inv sample_balances \<and> balances_assign sample_balances sample_balances = Some (Err Invalid_Argument)"
proof -
  have "tm_find (m_balances sample_balances) 6 \<noteq> None" by code_simp
  with balances_assign_spec [OF sample_balances_inv(1) sample_balances_inv(1)] sample_balances_inv(1)
  show ?thesis by blast
qed

end
