(* ===== verification/Height_History.thy ===== *)
theory Height_History
  imports Prelude
begin

section \<open>HeightIndexedHistoryMap and AccountHistory\<close>

text \<open>
  The histories finalization reads, \<^verbatim>\<open>src/src/bitxorcore/state/HeightIndexedHistoryMap.h\<close> and
  \<^verbatim>\<open>AccountHistory.{h,cpp}\<close>.  A history is a \<^verbatim>\<open>std::map\<close> with the comparator \<^verbatim>\<open>std::greater\<close>, so the
  list of its pairs runs from the newest height to the oldest; \<open>d\<close> is the default value
  \<^verbatim>\<open>TValue()\<close>.  The results describe a history by the function from heights to values its queries
  compute, and show that a history never holds a redundant entry.
\<close>

subsection \<open>Operations\<close>

type_synonym 'v history = "(height \<times> 'v) list"

definition hist_size :: "'v history \<Rightarrow> nat" where
  "hist_size m = length m"

definition hist_heights :: "'v history \<Rightarrow> height list" where
  "hist_heights m = map fst (rev m)"

definition hist_current :: "'v \<Rightarrow> 'v history \<Rightarrow> 'v" where
  "hist_current d m = (case m of [] \<Rightarrow> d | p # _ \<Rightarrow> snd p)"

definition hist_get :: "'v \<Rightarrow> 'v history \<Rightarrow> height \<Rightarrow> 'v" where
  "hist_get d m h = (case om_lower_bound (>) h m of [] \<Rightarrow> d | p # _ \<Rightarrow> snd p)"

definition hist_anyOf :: "('v \<Rightarrow> bool) \<Rightarrow> 'v history \<Rightarrow> bool" where
  "hist_anyOf P m \<longleftrightarrow> list_ex (\<lambda>p. P (snd p)) m"

text \<open>
  \<^verbatim>\<open>add\<close>: the entries in front of the iterator are those with a larger height, so \<^verbatim>\<open>--iter\<close> is the
  last of them.  \<^verbatim>\<open>height - Height(1)\<close> wraps around at zero.
\<close>

definition hist_add :: "'v \<Rightarrow> height \<Rightarrow> 'v \<Rightarrow> 'v history \<Rightarrow> 'v history" where
  "hist_add d h v m =
     (let m1 = om_assign (>) h v m;
          larger = takeWhile (\<lambda>p. fst p > h) m1;
          m2 = if larger \<noteq> [] \<and> snd (last larger) = v then om_erase (fst (last larger)) m1 else m1
      in if hist_get d m2 (h - 1) = v then om_erase h m2 else m2)"

definition hist_pruneLess :: "'v \<Rightarrow> height \<Rightarrow> 'v history \<Rightarrow> 'v history" where
  "hist_pruneLess d h m =
     (case om_lower_bound (>) h m of
        [] \<Rightarrow> m
      | p # _ \<Rightarrow> hist_add d h (snd p) (takeWhile (\<lambda>p. fst p > h) m))"

definition hist_pruneGreater :: "height \<Rightarrow> 'v history \<Rightarrow> 'v history" where
  "hist_pruneGreater h m = om_lower_bound (>) h m"

subsection \<open>Splitting a history at a height\<close>

abbreviation hist_sorted :: "'v history \<Rightarrow> bool" where
  "hist_sorted m \<equiv> om_sorted (>) m"

definition newer :: "height \<Rightarrow> 'v history \<Rightarrow> 'v history" where
  "newer h m = takeWhile (\<lambda>p. fst p > h) m"

definition older :: "height \<Rightarrow> 'v history \<Rightarrow> 'v history" where
  "older h m = dropWhile (\<lambda>p. fst p \<ge> h) m"

lemma hist_get_Nil [simp]: "hist_get d [] h = d"
  by (simp add: hist_get_def om_lower_bound_def)

lemma hist_get_Cons [simp]: "hist_get d (p # m) h = (if fst p > h then hist_get d m h else snd p)"
  by (simp add: hist_get_def om_lower_bound_def)

lemma hist_current_simps [simp]: "hist_current d [] = d" "hist_current d (p # m) = snd p"
  by (simp_all add: hist_current_def)

lemma newer_mem: "p \<in> set (newer h m) \<Longrightarrow> fst p > h \<and> p \<in> set m"
  by (auto simp: newer_def dest: set_takeWhileD)

lemma older_mem: "hist_sorted m \<Longrightarrow> p \<in> set (older h m) \<Longrightarrow> fst p < h \<and> p \<in> set m"
  by (induction m) (auto simp: older_def split: if_splits)

lemma hist_get_older: "\<forall>p \<in> set m. fst p \<le> h \<Longrightarrow> hist_get d m h = hist_current d m"
  by (cases m) auto

lemma hist_get_append_newer: "\<forall>p \<in> set xs. fst p > h \<Longrightarrow> hist_get d (xs @ ys) h = hist_get d ys h"
  by (induction xs) auto

lemma om_assign_split:
  "hist_sorted m \<Longrightarrow> om_assign (>) h v m = newer h m @ (h, v) # older h m"
proof (induction m)
  case (Cons p m)
  have "older h m = m" if "fst p \<le> h" using Cons.prems that by (cases m) (auto simp: older_def)
  with Cons show ?case by (cases p) (auto simp: newer_def older_def not_less)
qed (simp add: newer_def older_def)

lemma hist_get_append:
  "hist_get d (xs @ ys) q = (if \<exists>p \<in> set xs. fst p \<le> q then hist_get d xs q else hist_get d ys q)"
  by (induction xs) auto

lemma newer_append: "m = newer h m @ om_lower_bound (>) h m"
  by (simp add: newer_def om_lower_bound_def)

lemma hist_get_newer: "\<exists>p \<in> set (newer h m). fst p \<le> q \<Longrightarrow> hist_get d m q = hist_get d (newer h m) q"
  using hist_get_append [of d "newer h m" "om_lower_bound (>) h m" q] newer_append [of m h] by metis

lemma lower_bound_mem: "hist_sorted m \<Longrightarrow> p \<in> set (om_lower_bound (>) h m) \<Longrightarrow> fst p \<le> h"
  by (induction m) (auto simp: om_lower_bound_def split: if_splits)

lemma hist_get_below: "hist_sorted m \<Longrightarrow> q < h \<Longrightarrow> hist_get d (older h m) q = hist_get d m q"
  by (induction m) (auto simp: older_def)

lemma hist_get_lower_bound: "q \<le> h \<Longrightarrow> hist_get d (om_lower_bound (>) h m) q = hist_get d m q"
  by (induction m) (auto simp: om_lower_bound_def)

lemma newer_older_sorted:
  assumes "hist_sorted m"
  shows "hist_sorted (newer h m)" "hist_sorted (older h m)" "hist_sorted (newer h m @ (h, v) # older h m)"
proof -
  show all: "hist_sorted (newer h m @ (h, v) # older h m)"
    using desc.sorted_om_assign [OF assms, of h v] by (simp only: om_assign_split [OF assms])
  show "hist_sorted (newer h m)" "hist_sorted (older h m)"
    using all by (simp_all add: sorted_wrt_append)
qed

text \<open>The shape of a history after an addition at a height other than zero.\<close>

definition drop_equal :: "'v \<Rightarrow> 'v history \<Rightarrow> 'v history" where
  "drop_equal v m = (if m \<noteq> [] \<and> snd (last m) = v then butlast m else m)"

lemma drop_equal_mem: "p \<in> set (drop_equal v xs) \<Longrightarrow> p \<in> set xs"
  by (auto simp: drop_equal_def dest: in_set_butlastD split: if_splits)

lemma om_erase_last:
  assumes "hist_sorted (xs @ ys)" "xs \<noteq> []"
  shows "om_erase (fst (last xs)) (xs @ ys) = butlast xs @ ys"
proof -
  obtain zs z where xs: "xs = zs @ [z]" using assms(2) by (metis append_butlast_last_id)
  have "fst z \<notin> fst ` set zs" "fst z \<notin> fst ` set ys"
    using desc.sorted_distinct [OF assms(1)] xs by auto
  then show ?thesis using om_erase_absent [of "fst z" zs] om_erase_absent [of "fst z" ys] xs
    by (simp add: om_erase_def)
qed

lemma hist_add_shape:
  assumes srt: "hist_sorted m" and h: "h \<noteq> 0"
  shows "hist_add d h v m = drop_equal v (newer h m)
    @ (if hist_current d (older h m) = v then older h m else (h, v) # older h m)"
proof -
  let ?N = "newer h m" and ?O = "older h m"
  have m1: "om_assign (>) h v m = ?N @ (h, v) # ?O" by (rule om_assign_split [OF srt])
  have N: "\<forall>p \<in> set ?N. fst p > h" using newer_mem by blast
  have O: "\<forall>p \<in> set ?O. fst p < h" using older_mem [OF srt] by blast
  have tw: "takeWhile (\<lambda>p. fst p > h) (?N @ (h, v) # ?O) = ?N"
    using N by (simp add: takeWhile_append2)
  have m2: "(if ?N \<noteq> [] \<and> snd (last ?N) = v then om_erase (fst (last ?N)) (?N @ (h, v) # ?O) else ?N @ (h, v) # ?O)
      = drop_equal v ?N @ (h, v) # ?O"
    using om_erase_last [OF newer_older_sorted(3) [OF srt]] by (simp add: drop_equal_def)
  have N': "\<forall>p \<in> set (drop_equal v ?N). fst p > h"
    using N by (auto simp: drop_equal_def dest: in_set_butlastD)
  have pred: "h - 1 < h" "q < h \<Longrightarrow> q \<le> h - 1" for q
    using word_pred_less [OF h] word_less_pred [OF h] by auto
  have "hist_get d (drop_equal v ?N @ (h, v) # ?O) (h - 1) = hist_get d ?O (h - 1)"
    using N' pred(1) by (subst hist_get_append_newer) auto
  also have "\<dots> = hist_current d ?O" using O pred(2) by (intro hist_get_older) auto
  finally have get: "hist_get d (drop_equal v ?N @ (h, v) # ?O) (h - 1) = hist_current d ?O" .
  have er: "om_erase h (drop_equal v ?N @ (h, v) # ?O) = drop_equal v ?N @ ?O"
    using N' O om_erase_absent [of h "drop_equal v ?N"] om_erase_absent [of h ?O]
    by (force simp: om_erase_def)
  show ?thesis unfolding hist_add_def Let_def m1 tw m2 get er by simp
qed

text \<open>
  A history is canonical when no entry repeats the value of the one before it and the oldest does
  not repeat the default value.
\<close>

fun hist_canonical :: "'v \<Rightarrow> 'v history \<Rightarrow> bool" where
  "hist_canonical d [] \<longleftrightarrow> True"
| "hist_canonical d (p # m) \<longleftrightarrow> snd p \<noteq> hist_current d m \<and> hist_canonical d m"

lemma hist_canonical_append:
  "hist_canonical d (xs @ ys) \<longleftrightarrow> hist_canonical (hist_current d ys) xs \<and> hist_canonical d ys"
proof (induction xs)
  case (Cons p xs)
  then show ?case by (cases xs) auto
qed simp

lemma hist_canonical_default:
  "hist_canonical d xs \<Longrightarrow> hist_canonical v (drop_equal v xs)"
proof (cases xs rule: rev_cases)
  case (snoc ys p)
  assume "hist_canonical d xs"
  with snoc show ?thesis by (auto simp: drop_equal_def hist_canonical_append)
qed (simp add: drop_equal_def)

lemma hist_canonical_parts:
  assumes "hist_canonical d m"
  shows "hist_canonical (hist_current d (om_lower_bound (>) h m)) (newer h m)" "hist_canonical d (older h m)"
    "hist_canonical d (om_lower_bound (>) h m)"
proof -
  have "hist_canonical d (newer h m @ om_lower_bound (>) h m)"
    using assms by (simp only: newer_append [symmetric])
  then show "hist_canonical (hist_current d (om_lower_bound (>) h m)) (newer h m)"
      "hist_canonical d (om_lower_bound (>) h m)"
    by (simp_all only: hist_canonical_append)
  have "hist_canonical d (takeWhile (\<lambda>p. fst p \<ge> h) m @ older h m)"
    using assms by (simp only: older_def takeWhile_dropWhile_id)
  then show "hist_canonical d (older h m)" by (simp only: hist_canonical_append)
qed

lemma newer_set: "hist_sorted m \<Longrightarrow> set (newer h m) = {p \<in> set m. fst p > h}"
  by (induction m) (auto simp: newer_def)

lemma hist_get_drop_equal:
  assumes "hist_get d ys q = v"
  shows "hist_get d (drop_equal v xs @ ys) q = (if \<exists>p \<in> set xs. fst p \<le> q then hist_get d xs q else v)"
proof (cases xs rule: rev_cases)
  case (snoc zs z)
  then show ?thesis using assms by (auto simp: drop_equal_def hist_get_append)
qed (simp add: drop_equal_def assms)

lemma history_add_sorted: "hist_sorted m \<Longrightarrow> hist_sorted (hist_add d h v m)"
  using desc.sorted_om_assign [of m h v] by (auto simp: hist_add_def Let_def om_sorted_erase)

lemma history_add_canonical:
  assumes "hist_sorted m" "h \<noteq> 0" "hist_canonical d m"
  shows "hist_canonical d (hist_add d h v m)"
  using hist_canonical_parts [OF assms(3), of h] hist_canonical_default
  by (auto simp: hist_add_shape [OF assms(1,2)] hist_canonical_append)

lemma history_add_get:
  assumes srt: "hist_sorted m" and h: "h \<noteq> 0"
  shows "hist_get d (hist_add d h v m) q
    = (if h \<le> q \<and> (\<forall>k \<in> fst ` set m. k \<le> h \<or> q < k) then v else hist_get d m q)"
proof (cases "q < h")
  case True
  let ?N = "newer h m"
  have "\<not> (\<exists>p \<in> set (drop_equal v ?N). fst p \<le> q)"
    using True by (auto dest!: drop_equal_mem newer_mem)
  with True show ?thesis
    by (auto simp: hist_add_shape [OF srt h] hist_get_append hist_get_below [OF srt])
next
  case False
  let ?N = "newer h m" and ?O = "if hist_current d (older h m) = v then older h m else (h, v) # older h m"
  have "\<forall>p \<in> set ?O. fst p \<le> q" using False by (auto dest!: older_mem [OF srt])
  then have O': "hist_get d ?O q = v" using hist_get_older [of ?O q d] by simp
  have "hist_get d (hist_add d h v m) q
      = (if \<exists>p \<in> set ?N. fst p \<le> q then hist_get d ?N q else v)"
    unfolding hist_add_shape [OF srt h] using O' by (rule hist_get_drop_equal)
  moreover have "(\<exists>p \<in> set ?N. fst p \<le> q) \<longleftrightarrow> \<not> (\<forall>k \<in> fst ` set m. k \<le> h \<or> q < k)"
    using newer_set [OF srt, of h] by (force simp: not_less)
  moreover have "hist_get d m q = hist_get d ?N q" if "\<exists>p \<in> set ?N. fst p \<le> q"
    using that by (rule hist_get_newer)
  ultimately show ?thesis using False by auto
qed


text \<open>
  Adding a value at a height other than zero changes the value of every height from there up to
  the next recorded change and of no other height, and the history stays canonical.
\<close>

theorem history_add:
  assumes "hist_sorted m" "h \<noteq> 0"
  shows "hist_sorted (hist_add d h v m)
    \<and> (hist_canonical d m \<longrightarrow> hist_canonical d (hist_add d h v m))
    \<and> hist_get d (hist_add d h v m) q
        = (if h \<le> q \<and> (\<forall>k \<in> fst ` set m. k \<le> h \<or> q < k) then v else hist_get d m q)"
  using history_add_sorted [OF assms(1)] history_add_canonical [OF assms] history_add_get [OF assms] by blast

theorem history_add_witness:
  "hist_sorted [(9, 3), (5, 7), (2, 1 :: amount)] \<and> hist_get 0 (hist_add 0 4 7 [(9, 3), (5, 7), (2, 1)]) 6 = (7 :: amount)
    \<and> hist_get 0 (hist_add 0 4 7 [(9, 3), (5, 7), (2, 1)]) 4 = (7 :: amount)
    \<and> hist_get 0 (hist_add 0 4 7 [(9, 3), (5, 7), (2, 1)]) 3 = (1 :: amount)"
  using history_add [of "[(9, 3), (5, 7), (2, 1 :: amount)]" 4 0 7 6]
    history_add [of "[(9, 3), (5, 7), (2, 1 :: amount)]" 4 0 7 4]
    history_add [of "[(9, 3), (5, 7), (2, 1 :: amount)]" 4 0 7 3]
  by simp

lemma hist_get_newer_prefix:
  assumes "hist_sorted m" "h \<le> q" "\<forall>k \<in> fst ` set (newer h m). q < k"
  shows "hist_get d m q = hist_current d (om_lower_bound (>) h m)"
proof -
  have "hist_get d m q = hist_get d (newer h m @ om_lower_bound (>) h m) q" by (simp only: newer_append [symmetric])
  also have "\<dots> = hist_get d (om_lower_bound (>) h m) q" using assms(3) by (simp add: hist_get_append_newer)
  also have "\<dots> = hist_current d (om_lower_bound (>) h m)"
    using lower_bound_mem [OF assms(1)] assms(2) by (intro hist_get_older) (metis order_trans)
  finally show ?thesis .
qed

text \<open>
  Pruning below a height other than zero leaves every query at or after the height unchanged,
  keeps at most one entry at or below the height and keeps the history canonical.
\<close>

theorem history_prune_less:
  assumes srt: "hist_sorted m" and h: "h \<noteq> 0"
  shows "hist_sorted (hist_pruneLess d h m)
    \<and> (hist_canonical d m \<longrightarrow> hist_canonical d (hist_pruneLess d h m))
    \<and> (\<forall>k \<in> fst ` set (hist_pruneLess d h m). h \<le> k)
    \<and> (\<forall>q \<ge> h. hist_get d (hist_pruneLess d h m) q = hist_get d m q)"
proof (cases "om_lower_bound (>) h m")
  case Nil
  then have "m = newer h m" using newer_append [of m h] by simp
  then have "\<forall>k \<in> fst ` set m. h \<le> k" using newer_mem [of _ h m] by fastforce
  with Nil srt show ?thesis by (simp add: hist_pruneLess_def)
next
  case (Cons p ps)
  let ?N = "newer h m" and ?v = "snd p"
  have eq: "hist_pruneLess d h m = hist_add d h ?v ?N" using Cons by (simp add: hist_pruneLess_def newer_def)
  have N: "hist_sorted ?N" "newer h ?N = ?N" "older h ?N = []"
    using newer_older_sorted(1) [OF srt] newer_mem [of _ h m]
    by (auto simp: newer_def older_def dropWhile_eq_Nil_conv dest!: set_takeWhileD)
  have can: "hist_canonical ?v ?N" if "hist_canonical d m"
    using hist_canonical_parts(1) [OF that, of h] Cons by simp
  have keys: "k \<in> fst ` set (hist_add d h ?v ?N) \<Longrightarrow> h \<le> k" for k
    by (auto simp: hist_add_shape [OF N(1) h] N dest!: drop_equal_mem newer_mem split: if_splits)
  have "hist_canonical d (hist_add d h ?v ?N)" if "hist_canonical d m"
    using hist_canonical_default [OF can [OF that], of ?v]
    by (auto simp: hist_add_shape [OF N(1) h] N hist_canonical_append)
  moreover have "hist_get d (hist_add d h ?v ?N) q = hist_get d m q" if "q \<ge> h" for q
  proof (cases "\<forall>k \<in> fst ` set ?N. q < k")
    case True
    then show ?thesis
      using history_add_get [OF N(1) h] that hist_get_newer_prefix [OF srt that True] Cons by auto
  next
    case False
    then have "\<exists>p \<in> set ?N. fst p \<le> q" by (auto simp: not_less)
    then have "hist_get d m q = hist_get d ?N q" by (rule hist_get_newer)
    moreover have "\<not> (\<forall>k \<in> fst ` set ?N. k \<le> h \<or> q < k)" using False by (force dest: newer_mem)
    ultimately show ?thesis using history_add_get [OF N(1) h, of d ?v q] by (simp only: if_False simp_thms)
  qed
  ultimately show ?thesis using history_add_sorted [OF N(1)] keys by (auto simp: eq)
qed

theorem history_prune_less_witness:
  "hist_sorted [(9, 3), (5, 7), (2, 1 :: amount)]
    \<and> hist_get 0 (hist_pruneLess 0 6 [(9, 3), (5, 7), (2, 1)]) 6 = (7 :: amount)
    \<and> hist_get 0 (hist_pruneLess 0 6 [(9, 3), (5, 7), (2, 1)]) 10 = (3 :: amount)"
  using history_prune_less [of "[(9, 3), (5, 7), (2, 1 :: amount)]" 6 0] by simp

text \<open>
  Pruning above a height undoes every later addition: queries up to the height are unchanged,
  later ones return the value at the height, and a value added above every recorded height
  disappears without a trace.
\<close>

theorem history_prune_greater:
  assumes "hist_sorted m"
  shows "(\<forall>q. hist_get d (hist_pruneGreater h m) q = hist_get d m (min q h))
    \<and> (hist_canonical d m \<longrightarrow> hist_canonical d (hist_pruneGreater h m))
    \<and> (\<forall>h' v. h < h' \<and> (\<forall>k \<in> fst ` set m. k \<le> h) \<longrightarrow> hist_pruneGreater h (hist_add d h' v m) = m)"
proof (intro conjI allI impI)
  show "hist_get d (hist_pruneGreater h m) q = hist_get d m (min q h)" for q
  proof (cases "q \<le> h")
    case True
    then show ?thesis by (simp add: hist_pruneGreater_def hist_get_lower_bound min_def)
  next
    case False
    then have "\<forall>p \<in> set (om_lower_bound (>) h m). fst p \<le> q"
      using lower_bound_mem [OF assms] by (force dest: less_imp_le simp: not_le)
    then show ?thesis using False hist_get_older [of "om_lower_bound (>) h m"] lower_bound_mem [OF assms]
        hist_get_lower_bound [of h h d m]
      by (simp add: hist_pruneGreater_def min_def)
  qed
  show "hist_canonical d (hist_pruneGreater h m)" if "hist_canonical d m"
    using hist_canonical_parts(3) [OF that] by (simp add: hist_pruneGreater_def)
  show "hist_pruneGreater h (hist_add d h' v m) = m" if "h < h' \<and> (\<forall>k \<in> fst ` set m. k \<le> h)" for h' v
  proof -
    have "newer h' m = []" "older h' m = m" using that by (cases m; force simp: newer_def older_def)+
    moreover have "om_lower_bound (>) h m = m" using that by (cases m) (auto simp: om_lower_bound_def)
    moreover have "h' \<noteq> 0" using that by auto
    ultimately show ?thesis using that assms
      by (simp add: hist_add_shape hist_pruneGreater_def drop_equal_def) (simp add: om_lower_bound_def)
  qed
qed

theorem history_prune_greater_witness:
  "hist_sorted [(5, 7), (2, 1 :: amount)]
    \<and> hist_pruneGreater 6 (hist_add 0 8 9 [(5, 7), (2, 1 :: amount)]) = [(5, 7), (2, 1)]"
  using history_prune_greater [of "[(5, 7), (2, 1 :: amount)]" 0 6] by simp

end
