(* ===== verification/Array_Stack.thy ===== *)
theory Array_Stack
  imports Prelude
begin

section \<open>CompactArrayStack, AccountImportanceSnapshots and AccountActivityBuckets\<close>

text \<open>
  The fixed-depth stack of \<^verbatim>\<open>src/src/bitxorcore/state/CompactArrayStack.h\<close> and its two clients, the
  importance snapshots and the activity buckets of an account.  The array exists only while the
  stack is not empty; a push on a full stack drops the oldest value.  \<open>d\<close> is the default
  value \<^verbatim>\<open>T()\<close> and \<open>N\<close> the depth of the stack.
\<close>

subsection \<open>The stack\<close>

record 'a array_stack =
  m_pArray :: "'a list option"
  m_size :: nat

definition empty_stack :: "'a array_stack" where
  "empty_stack = \<lparr>m_pArray = None, m_size = 0\<rparr>"

fun shiftLeft_loop :: "nat \<Rightarrow> nat \<Rightarrow> 'a list \<Rightarrow> 'a list" where
  "shiftLeft_loop i 0 a = a"
| "shiftLeft_loop i (Suc n) a = shiftLeft_loop (Suc i) n (a[i := a ! Suc i])"

fun shiftRight_loop :: "nat \<Rightarrow> 'a list \<Rightarrow> 'a list" where
  "shiftRight_loop 0 a = a"
| "shiftRight_loop (Suc i) a = shiftRight_loop i (a[Suc i := a ! i])"

definition shiftLeft :: "'a array_stack \<Rightarrow> 'a array_stack result" where
  "shiftLeft s = (case m_pArray s of
     None \<Rightarrow> Err Out_Of_Range
   | Some a \<Rightarrow> Ok (s\<lparr>m_pArray := Some (shiftLeft_loop 0 (length a - 1) a)\<rparr>))"

definition shiftRight :: "'a array_stack \<Rightarrow> 'a array_stack" where
  "shiftRight s = (case m_pArray s of
     None \<Rightarrow> s
   | Some a \<Rightarrow> s\<lparr>m_pArray := Some (shiftRight_loop (length a - 1) a)\<rparr>)"

definition stack_push :: "nat \<Rightarrow> 'a \<Rightarrow> 'a \<Rightarrow> 'a array_stack \<Rightarrow> 'a array_stack" where
  "stack_push N d v s =
     (let s1 = shiftRight s;
          a = (case m_pArray s1 of None \<Rightarrow> replicate N d | Some a \<Rightarrow> a)
      in \<lparr>m_pArray = Some (a[0 := v]), m_size = if m_size s1 < N then m_size s1 + 1 else m_size s1\<rparr>)"

definition stack_pop :: "'a \<Rightarrow> 'a array_stack \<Rightarrow> 'a array_stack result" where
  "stack_pop d s =
     map_result (\<lambda>s1.
         let s2 = s1\<lparr>m_pArray := map_option (\<lambda>a. a[length a - 1 := d]) (m_pArray s1), m_size := m_size s1 - 1\<rparr>
         in if m_size s2 = 0 then s2\<lparr>m_pArray := None\<rparr> else s2)
       (shiftLeft s)"

definition stack_peek :: "'a array_stack \<Rightarrow> 'a result" where
  "stack_peek s = (if m_size s = 0 then Err Out_Of_Range else Ok (the (m_pArray s) ! 0))"

text \<open>\<^verbatim>\<open>peek()\<close> on a mutable stack followed by an assignment to what it returns.\<close>

definition stack_modify_top :: "('a \<Rightarrow> 'a) \<Rightarrow> 'a array_stack \<Rightarrow> 'a array_stack result" where
  "stack_modify_top f s =
     (if m_size s = 0 then Err Out_Of_Range
      else Ok (s\<lparr>m_pArray := map_option (\<lambda>a. a[0 := f (a ! 0)]) (m_pArray s)\<rparr>))"

text \<open>The values an iteration from \<^verbatim>\<open>begin()\<close> to \<^verbatim>\<open>end()\<close> returns: always \<open>N\<close> of them.\<close>

definition stack_values :: "nat \<Rightarrow> 'a \<Rightarrow> 'a array_stack \<Rightarrow> 'a list" where
  "stack_values N d s = map (\<lambda>i. case m_pArray s of None \<Rightarrow> d | Some a \<Rightarrow> a ! i) [0..<N]"

definition stack_assign :: "'a array_stack \<Rightarrow> 'a array_stack \<Rightarrow> 'a array_stack" where
  "stack_assign dst src =
     \<lparr>m_pArray = (case m_pArray src of None \<Rightarrow> m_pArray dst | Some a \<Rightarrow> Some a), m_size = m_size src\<rparr>"

text \<open>The move assignment returns the new destination and the source it leaves behind.\<close>

definition stack_move_assign :: "'a array_stack \<Rightarrow> 'a array_stack \<Rightarrow> 'a array_stack \<times> 'a array_stack" where
  "stack_move_assign dst src = (\<lparr>m_pArray = m_pArray src, m_size = m_size src\<rparr>, \<lparr>m_pArray = None, m_size = 0\<rparr>)"

subsection \<open>AccountImportanceSnapshots\<close>

definition Rollback_Buffer_Size :: nat where
  "Rollback_Buffer_Size = 2"

definition Importance_History_Size :: nat where
  "Importance_History_Size = 1 + Rollback_Buffer_Size"

definition Activity_Bucket_History_Size :: nat where
  "Activity_Bucket_History_Size = 5 + Rollback_Buffer_Size"

record importance_snapshot =
  snap_Importance :: importance
  snap_Height :: height

definition no_snapshot :: importance_snapshot where
  "no_snapshot = \<lparr>snap_Importance = 0, snap_Height = 0\<rparr>"

type_synonym snapshots = "importance_snapshot array_stack"

abbreviation snapshot_values :: "snapshots \<Rightarrow> importance_snapshot list" where
  "snapshot_values \<equiv> stack_values Importance_History_Size no_snapshot"

definition snapshots_empty :: "snapshots \<Rightarrow> bool" where
  "snapshots_empty s \<longleftrightarrow> list_all (\<lambda>x. snap_Height x = 0) (snapshot_values s)"

definition importance_height :: "snapshots \<Rightarrow> height" where
  "importance_height s = snap_Height (snapshot_values s ! 0)"

definition importance_active :: "snapshots \<Rightarrow> bool" where
  "importance_active s \<longleftrightarrow> importance_height s \<noteq> 0"

definition importance_current :: "snapshots \<Rightarrow> importance" where
  "importance_current s = snap_Importance (snapshot_values s ! 0)"

definition importance_get :: "snapshots \<Rightarrow> height \<Rightarrow> importance" where
  "importance_get s h = (case find (\<lambda>x. snap_Height x = h) (snapshot_values s) of
     None \<Rightarrow> 0 | Some x \<Rightarrow> snap_Importance x)"

definition importance_set :: "importance \<Rightarrow> height \<Rightarrow> snapshots \<Rightarrow> snapshots result" where
  "importance_set i h s =
     (let lastHeight = importance_height s in
      if lastHeight \<noteq> 0 \<and> lastHeight \<ge> h then Err Runtime_Error
      else Ok (stack_push Importance_History_Size no_snapshot \<lparr>snap_Importance = i, snap_Height = h\<rparr> s))"

definition importance_push :: "snapshots \<Rightarrow> snapshots" where
  "importance_push s = stack_push Importance_History_Size no_snapshot no_snapshot s"

definition importance_pop :: "snapshots \<Rightarrow> snapshots result" where
  "importance_pop s = stack_pop no_snapshot s"

subsection \<open>AccountActivityBuckets\<close>

record activity_bucket =
  TotalFeesPaid :: amount
  BeneficiaryCount :: "32 word"
  RawScore :: "64 word"
  StartHeight :: height

definition no_bucket :: activity_bucket where
  "no_bucket = \<lparr>TotalFeesPaid = 0, BeneficiaryCount = 0, RawScore = 0, StartHeight = 0\<rparr>"

type_synonym buckets = "activity_bucket array_stack"

abbreviation bucket_values :: "buckets \<Rightarrow> activity_bucket list" where
  "bucket_values \<equiv> stack_values Activity_Bucket_History_Size no_bucket"

definition buckets_empty :: "buckets \<Rightarrow> bool" where
  "buckets_empty s \<longleftrightarrow> list_all (\<lambda>x. StartHeight x = 0) (bucket_values s)"

definition bucket_get :: "buckets \<Rightarrow> height \<Rightarrow> activity_bucket" where
  "bucket_get s h = (case find (\<lambda>x. StartHeight x = h) (bucket_values s) of None \<Rightarrow> no_bucket | Some x \<Rightarrow> x)"

text \<open>
  The private \<^verbatim>\<open>tryUpdate\<close>.  The consumer changes the fields of the bucket other than its start
  height, which the base class \<^verbatim>\<open>HeightDetachedActivityBucket\<close> does not have.
\<close>

definition tryUpdate_create :: "height \<Rightarrow> (activity_bucket \<Rightarrow> activity_bucket) \<Rightarrow> bool \<Rightarrow> buckets \<Rightarrow> (buckets \<times> bool) result" where
  "tryUpdate_create h consumer shouldCreateNewBucket s =
     (let lastHeight = StartHeight (bucket_values s ! 0) in
      if lastHeight \<noteq> 0 \<and> lastHeight > h then Err Runtime_Error
      else if lastHeight < h \<and> \<not> shouldCreateNewBucket then Ok (s, False)
      else let s1 = if lastHeight < h then stack_push Activity_Bucket_History_Size no_bucket (no_bucket\<lparr>StartHeight := h\<rparr>) s else s
           in map_result (\<lambda>s2. (s2, True))
                (stack_modify_top (\<lambda>b. (consumer b)\<lparr>StartHeight := StartHeight b\<rparr>) s1))"

definition bucket_update :: "height \<Rightarrow> (activity_bucket \<Rightarrow> activity_bucket) \<Rightarrow> buckets \<Rightarrow> buckets result" where
  "bucket_update h consumer s = map_result fst (tryUpdate_create h consumer True s)"

definition bucket_tryUpdate :: "height \<Rightarrow> (activity_bucket \<Rightarrow> activity_bucket) \<Rightarrow> buckets \<Rightarrow> (buckets \<times> bool) result" where
  "bucket_tryUpdate h consumer s = tryUpdate_create h consumer False s"

definition bucket_push :: "buckets \<Rightarrow> buckets" where
  "bucket_push s = stack_push Activity_Bucket_History_Size no_bucket no_bucket s"

definition bucket_pop :: "buckets \<Rightarrow> buckets result" where
  "bucket_pop s = stack_pop no_bucket s"

subsection \<open>The stack as a list of fixed length\<close>

definition stack_ok :: "nat \<Rightarrow> 'a \<Rightarrow> 'a array_stack \<Rightarrow> bool" where
  "stack_ok N d s \<longleftrightarrow> m_size s \<le> N \<and> (m_pArray s = None \<longleftrightarrow> m_size s = 0)
     \<and> (\<forall>a. m_pArray s = Some a \<longrightarrow> length a = N \<and> drop (m_size s) a = replicate (N - m_size s) d)"

lemma shiftLeft_loop_length [simp]: "length (shiftLeft_loop i n a) = length a"
  by (induction i n a rule: shiftLeft_loop.induct) auto

lemma shiftLeft_loop_nth:
  "i + n < length a \<Longrightarrow> j < length a \<Longrightarrow>
    shiftLeft_loop i n a ! j = (if i \<le> j \<and> j < i + n then a ! Suc j else a ! j)"
  by (induction i n a rule: shiftLeft_loop.induct) (auto simp: nth_list_update)

lemma shiftRight_loop_length [simp]: "length (shiftRight_loop i a) = length a"
  by (induction i a rule: shiftRight_loop.induct) auto

lemma shiftRight_loop_nth:
  "i < length a \<Longrightarrow> j < length a \<Longrightarrow>
    shiftRight_loop i a ! j = (if 0 < j \<and> j \<le> i then a ! (j - 1) else a ! j)"
  by (induction i a rule: shiftRight_loop.induct) (auto simp: nth_list_update less_Suc_eq_le le_Suc_eq)

lemma shiftLeft_list: "a \<noteq> [] \<Longrightarrow> (shiftLeft_loop 0 (length a - 1) a)[length a - 1 := d] = tl a @ [d]"
  by (rule nth_equalityI) (auto simp: nth_list_update shiftLeft_loop_nth nth_append nth_tl)

lemma shiftRight_list: "a \<noteq> [] \<Longrightarrow> (shiftRight_loop (length a - 1) a)[0 := v] = v # butlast a"
  by (rule nth_equalityI) (auto simp: nth_list_update shiftRight_loop_nth nth_Cons nth_butlast split: nat.splits)

lemma stack_values_length [simp]: "length (stack_values N d s) = N"
  by (simp add: stack_values_def)

lemma stack_values_ok:
  "stack_ok N d s \<Longrightarrow> stack_values N d s = (case m_pArray s of None \<Rightarrow> replicate N d | Some a \<Rightarrow> a)"
  by (rule nth_equalityI) (auto simp: stack_ok_def stack_values_def split: option.splits)

lemma stack_size_values:
  "stack_ok N d s \<Longrightarrow> drop (m_size s) (stack_values N d s) = replicate (N - m_size s) d"
  by (cases "m_pArray s") (auto simp: stack_values_ok stack_ok_def)

lemma stack_ok_unique:
  "stack_ok N d s \<Longrightarrow> stack_ok N d t \<Longrightarrow> stack_values N d s = stack_values N d t \<Longrightarrow> m_size s = m_size t \<Longrightarrow> s = t"
  by (cases "m_pArray s"; cases "m_pArray t") (auto simp: stack_values_ok stack_ok_def)

lemma butlast_replicate_Suc: "butlast (d # replicate n d) = replicate n d"
  by (metis butlast_snoc replicate_append_same)

lemma butlast_replicate_minus: "butlast (replicate n d) = replicate (n - 1) d"
  by (cases n) (simp_all only: replicate_Suc butlast_replicate_Suc, simp_all)

lemma stack_push_values:
  assumes "stack_ok N d s" "N \<noteq> 0"
  shows "stack_ok N d (stack_push N d v s)" "stack_values N d (stack_push N d v s) = v # butlast (stack_values N d s)"
    "m_size (stack_push N d v s) = min N (m_size s + 1)"
proof -
  let ?x = "stack_values N d s"
  have len: "length ?x = N" by simp
  have a: "m_pArray (stack_push N d v s) = Some (v # butlast ?x)"
  proof (cases "m_pArray s")
    case None
    with assms show ?thesis
      by (cases N) (simp_all add: stack_push_def shiftRight_def stack_values_ok butlast_replicate_Suc del: butlast.simps)
  next
    case (Some a)
    with assms have "a \<noteq> []" by (auto simp: stack_ok_def)
    with Some assms shiftRight_list [of a v] show ?thesis
      by (simp add: stack_push_def shiftRight_def stack_values_ok Let_def)
  qed
  show sz: "m_size (stack_push N d v s) = min N (m_size s + 1)"
    using assms by (auto simp: stack_push_def shiftRight_def stack_ok_def Let_def split: option.splits)
  have "drop (m_size s) (butlast ?x) = replicate (N - 1 - m_size s) d"
    using stack_size_values [OF assms(1)] by (simp add: drop_butlast butlast_replicate_minus)
  then show ok: "stack_ok N d (stack_push N d v s)"
    using sz a assms(2) len by (auto simp: stack_ok_def min_def)
  show "stack_values N d (stack_push N d v s) = v # butlast ?x"
    using stack_values_ok [OF ok] a by simp
qed

lemma stack_pop_values:
  assumes "stack_ok N d s" "m_size s \<noteq> 0"
  shows "\<exists>s'. stack_pop d s = Ok s' \<and> stack_ok N d s' \<and> m_size s' = m_size s - 1
    \<and> stack_values N d s' = tl (stack_values N d s) @ [d]"
proof -
  obtain a where a: "m_pArray s = Some a" "length a = N" "drop (m_size s) a = replicate (N - m_size s) d" "m_size s \<le> N"
    using assms by (cases "m_pArray s") (auto simp: stack_ok_def)
  then have "a \<noteq> []" using assms(2) by auto
  let ?b = "tl a @ [d]"
  have len: "length ?b = N" using a(2) \<open>a \<noteq> []\<close> by (cases a) auto
  have "drop (m_size s - 1) ?b = drop (m_size s) a @ [d]"
    using a(2,4) assms(2) \<open>a \<noteq> []\<close> by (cases a; cases "m_size s") auto
  then have dr: "drop (m_size s - 1) ?b = replicate (N - (m_size s - 1)) d"
    using a(3,4) assms(2) replicate_append_same [of "N - m_size s" d]
    by (cases "m_size s") (simp_all add: Suc_diff_Suc [symmetric] del: append_assoc)
  let ?s = "if m_size s - 1 = 0 then \<lparr>m_pArray = None, m_size = 0\<rparr> else \<lparr>m_pArray = Some ?b, m_size = m_size s - 1\<rparr>"
  have pop: "stack_pop d s = Ok ?s"
    using shiftLeft_list [OF \<open>a \<noteq> []\<close>, of d] a(1) by (simp add: stack_pop_def shiftLeft_def Let_def)
  have ok: "stack_ok N d ?s" using dr len a(4) by (auto simp: stack_ok_def)
  have "stack_values N d ?s = ?b" using stack_values_ok [OF ok] dr by auto
  with pop ok show ?thesis using stack_values_ok [OF assms(1)] a(1) by auto
qed

lemma stack_push_pop:
  assumes "stack_ok N d s" "N \<noteq> 0"
  shows "\<exists>s'. stack_pop d (stack_push N d v s) = Ok s' \<and> stack_ok N d s'
    \<and> stack_values N d s' = (stack_values N d s)[N - 1 := d] \<and> m_size s' = min (N - 1) (m_size s)
    \<and> (m_size s < N \<longrightarrow> s' = s)"
proof -
  note p = stack_push_values [OF assms, of v]
  obtain s' where s': "stack_pop d (stack_push N d v s) = Ok s'" "stack_ok N d s'"
      "m_size s' = min N (m_size s + 1) - 1" "stack_values N d s' = butlast (stack_values N d s) @ [d]"
    using stack_pop_values [OF p(1), unfolded p(2,3)] assms(2) by auto
  have v: "butlast xs @ [d] = xs[length xs - 1 := d]" if "xs \<noteq> []" for xs
    using that by (metis append_butlast_last_id length_butlast list_update_length)
  have vs: "stack_values N d s' = (stack_values N d s)[N - 1 := d]"
    using s'(4) v [of "stack_values N d s"] assms(2) by (metis length_0_conv stack_values_length)
  have "s' = s" if "m_size s < N"
  proof (rule stack_ok_unique [OF s'(2) assms(1)])
    have "stack_values N d s ! (N - 1) = drop (m_size s) (stack_values N d s) ! (N - 1 - m_size s)"
      using that by simp
    also have "\<dots> = d" using that by (subst stack_size_values [OF assms(1)]) simp
    finally show "stack_values N d s' = stack_values N d s" using vs list_update_id [of "stack_values N d s" "N - 1"] by simp
    show "m_size s' = m_size s" using s'(3) that by simp
  qed
  with s' vs show ?thesis using assms by (auto simp: min_def stack_ok_def)
qed

lemma find_butlast: "\<exists>x \<in> set (butlast xs). P x \<Longrightarrow> find P (butlast xs) = find P xs"
  by (induction xs) (auto split: if_splits)

lemma stack_modify_top_values:
  assumes "stack_ok N d s" "m_size s \<noteq> 0"
  shows "\<exists>s'. stack_modify_top f s = Ok s' \<and> stack_ok N d s' \<and> m_size s' = m_size s
    \<and> stack_values N d s' = (stack_values N d s)[0 := f (stack_values N d s ! 0)]"
proof -
  obtain a where a: "m_pArray s = Some a" "length a = N" using assms by (cases "m_pArray s") (auto simp: stack_ok_def)
  let ?s = "s\<lparr>m_pArray := Some (a[0 := f (a ! 0)])\<rparr>"
  have ok: "stack_ok N d ?s" using assms a by (simp add: stack_ok_def)
  then have "stack_values N d ?s = a[0 := f (a ! 0)]" "stack_values N d s = a"
    using stack_values_ok [OF ok] stack_values_ok [OF assms(1)] a by simp_all
  with ok a assms show ?thesis by (simp add: stack_modify_top_def)
qed

subsection \<open>Properties\<close>

text \<open>
  A pop after a push restores the stack exactly, unless the push dropped the oldest value of a
  full stack: then only that value is lost.  A pop of an empty stack throws.
\<close>

theorem stack_rollback:
  assumes "stack_ok N d s" "N \<noteq> 0"
  shows "(\<exists>s'. stack_pop d (stack_push N d v s) = Ok s' \<and> stack_ok N d s'
        \<and> stack_values N d s' = (stack_values N d s)[N - 1 := d] \<and> (m_size s < N \<longrightarrow> s' = s))
    \<and> (stack_pop d s = Err Out_Of_Range \<longleftrightarrow> m_size s = 0)"
proof -
  have "stack_pop d s = Err Out_Of_Range \<longleftrightarrow> m_size s = 0"
  proof (cases "m_size s = 0")
    case True
    with assms(1) show ?thesis by (simp add: stack_ok_def stack_pop_def shiftLeft_def)
  next
    case False
    with stack_pop_values [OF assms(1) False] show ?thesis by fastforce
  qed
  with stack_push_pop [OF assms, of v] show ?thesis by blast
qed

theorem stack_rollback_witness:
  "stack_ok 3 0 \<lparr>m_pArray = Some [7, 5, 0 :: nat], m_size = 2\<rparr>
    \<and> stack_pop 0 (stack_push 3 0 9 \<lparr>m_pArray = Some [7, 5, 0 :: nat], m_size = 2\<rparr>) = Ok \<lparr>m_pArray = Some [7, 5, 0], m_size = 2\<rparr>"
proof -
  have ok: "stack_ok 3 0 \<lparr>m_pArray = Some [7, 5, 0 :: nat], m_size = 2\<rparr>" by (simp add: stack_ok_def)
  from stack_rollback [OF ok, of 9] ok show ?thesis by auto
qed

text \<open>
  Setting an importance throws exactly when the height does not exceed the last one set;
  otherwise the new importance is current and found at its height, the older snapshots the
  stack still holds are found as before, and a pop restores what was current.
\<close>

theorem importance_set_spec:
  assumes "stack_ok Importance_History_Size no_snapshot s"
  shows "case importance_set i h s of
      Err e \<Rightarrow> e = Runtime_Error \<and> importance_height s \<noteq> 0 \<and> h \<le> importance_height s
    | Ok s' \<Rightarrow> (importance_height s = 0 \<or> importance_height s < h)
        \<and> stack_ok Importance_History_Size no_snapshot s'
        \<and> importance_current s' = i \<and> importance_height s' = h \<and> importance_get s' h = i
        \<and> (\<forall>h'. h' \<noteq> h \<and> h' \<in> snap_Height ` set (butlast (snapshot_values s)) \<longrightarrow> importance_get s' h' = importance_get s h')
        \<and> (\<exists>s''. importance_pop s' = Ok s'' \<and> importance_current s'' = importance_current s
              \<and> importance_height s'' = importance_height s)"
proof (cases "importance_height s \<noteq> 0 \<and> importance_height s \<ge> h")
  case True
  then show ?thesis by (simp add: importance_set_def)
next
  case False
  let ?N = Importance_History_Size and ?v = "\<lparr>snap_Importance = i, snap_Height = h\<rparr>"
  have N: "?N \<noteq> 0" by (simp add: Importance_History_Size_def)
  note p = stack_push_values [OF assms N, of ?v]
  obtain s'' where s'': "stack_pop no_snapshot (stack_push ?N no_snapshot ?v s) = Ok s''"
      "snapshot_values s'' = (snapshot_values s)[?N - 1 := no_snapshot]"
    using stack_push_pop [OF assms N, of ?v] by blast
  have "snapshot_values s'' ! 0 = snapshot_values s ! 0"
    unfolding s''(2) by (simp add: Importance_History_Size_def Rollback_Buffer_Size_def)
  moreover have "importance_get (stack_push ?N no_snapshot ?v s) h' = importance_get s h'"
    if "h' \<noteq> h" "h' \<in> snap_Height ` set (butlast (snapshot_values s))" for h'
  proof -
    have "\<exists>x \<in> set (butlast (snapshot_values s)). snap_Height x = h'" using that(2) by auto
    from find_butlast [OF this] that(1) show ?thesis by (simp add: importance_get_def p(2))
  qed
  moreover have "importance_set i h s = Ok (stack_push ?N no_snapshot ?v s)"
    using False by (auto simp: importance_set_def Let_def)
  moreover have "importance_current (stack_push ?N no_snapshot ?v s) = i"
      "importance_height (stack_push ?N no_snapshot ?v s) = h" "importance_get (stack_push ?N no_snapshot ?v s) h = i"
    by (simp_all add: importance_current_def importance_height_def importance_get_def p(2))
  ultimately show ?thesis using False s''(1) p(1)
    by (auto simp: importance_pop_def importance_current_def [of s''] importance_height_def [of s'']
        importance_current_def [of s] importance_height_def [of s] not_le)
qed

theorem importance_set_spec_witness:
  "stack_ok Importance_History_Size no_snapshot empty_stack
    \<and> (\<exists>s'. importance_set 50 4 empty_stack = Ok s' \<and> importance_current s' = 50 \<and> importance_height s' = 4)"
proof -
  have ok: "stack_ok Importance_History_Size no_snapshot empty_stack" by (simp add: stack_ok_def empty_stack_def)
  have "importance_height empty_stack = 0"
    by (simp add: importance_height_def stack_values_def empty_stack_def no_snapshot_def Importance_History_Size_def Rollback_Buffer_Size_def
        del: upt_Suc)
  with importance_set_spec [OF ok, of 4 50] ok show ?thesis by (auto split: result.splits)
qed

abbreviation last_bucket_height :: "buckets \<Rightarrow> height" where
  "last_bucket_height s \<equiv> StartHeight (bucket_values s ! 0)"

lemmas bucket_update_defs = bucket_update_def bucket_tryUpdate_def tryUpdate_create_def Let_def

lemma bucket_update_create:
  assumes "stack_ok Activity_Bucket_History_Size no_bucket s" "last_bucket_height s < h"
  shows "\<exists>s'. bucket_update h consumer s = Ok s' \<and> stack_ok Activity_Bucket_History_Size no_bucket s'
    \<and> bucket_values s' = (consumer (no_bucket\<lparr>StartHeight := h\<rparr>))\<lparr>StartHeight := h\<rparr> # butlast (bucket_values s)"
proof -
  let ?N = Activity_Bucket_History_Size
  have N: "?N \<noteq> 0" by (simp add: Activity_Bucket_History_Size_def)
  note p = stack_push_values [OF assms(1) N, of "no_bucket\<lparr>StartHeight := h\<rparr>"]
  have "m_size (stack_push ?N no_bucket (no_bucket\<lparr>StartHeight := h\<rparr>) s) \<noteq> 0" using p(3) N by simp
  from stack_modify_top_values [OF p(1) this, of "\<lambda>b. (consumer b)\<lparr>StartHeight := StartHeight b\<rparr>"] assms(2)
  show ?thesis by (auto simp: bucket_update_defs p(2))
qed

lemma bucket_update_existing:
  assumes "stack_ok Activity_Bucket_History_Size no_bucket s" "last_bucket_height s = h" "h \<noteq> 0"
  shows "\<exists>s'. bucket_update h consumer s = Ok s' \<and> bucket_tryUpdate h consumer s = Ok (s', True)
    \<and> stack_ok Activity_Bucket_History_Size no_bucket s'
    \<and> bucket_values s' = (consumer (bucket_values s ! 0))\<lparr>StartHeight := h\<rparr> # tl (bucket_values s)"
proof -
  have N: "Activity_Bucket_History_Size \<noteq> 0" by (simp add: Activity_Bucket_History_Size_def)
  then have ne: "bucket_values s \<noteq> []" by (metis length_0_conv stack_values_length)
  have "m_size s \<noteq> 0"
    using assms stack_values_ok [OF assms(1)] N by (auto simp: stack_ok_def no_bucket_def)
  from stack_modify_top_values [OF assms(1) this, of "\<lambda>b. (consumer b)\<lparr>StartHeight := StartHeight b\<rparr>"] assms(2) ne
  show ?thesis by (cases "bucket_values s") (auto simp: bucket_update_defs)
qed

text \<open>
  Updating the bucket of a height at or after the newest one applies the consumer to that
  height's bucket (a fresh one if there is none) and leaves the buckets of other heights alone;
  \<^verbatim>\<open>tryUpdate\<close> does the same, but never creates a bucket; an older height throws.
\<close>

theorem bucket_update_spec:
  assumes "stack_ok Activity_Bucket_History_Size no_bucket s" "h \<noteq> 0"
  shows "(last_bucket_height s > h
        \<longrightarrow> bucket_update h consumer s = Err Runtime_Error \<and> bucket_tryUpdate h consumer s = Err Runtime_Error)
    \<and> (last_bucket_height s < h \<longrightarrow> bucket_tryUpdate h consumer s = Ok (s, False)
        \<and> (\<exists>s'. bucket_update h consumer s = Ok s' \<and> stack_ok Activity_Bucket_History_Size no_bucket s'
            \<and> bucket_values s' = (consumer (no_bucket\<lparr>StartHeight := h\<rparr>))\<lparr>StartHeight := h\<rparr> # butlast (bucket_values s)))
    \<and> (last_bucket_height s = h
        \<longrightarrow> (\<exists>s'. bucket_update h consumer s = Ok s' \<and> bucket_tryUpdate h consumer s = Ok (s', True)
            \<and> stack_ok Activity_Bucket_History_Size no_bucket s'
            \<and> bucket_values s' = (consumer (bucket_values s ! 0))\<lparr>StartHeight := h\<rparr> # tl (bucket_values s)))"
  using bucket_update_create [OF assms(1)] bucket_update_existing [OF assms(1) _ assms(2)]
  by (auto simp: bucket_update_defs)

theorem bucket_update_spec_witness:
  "stack_ok Activity_Bucket_History_Size no_bucket empty_stack
    \<and> (\<exists>s'. bucket_update 8 (\<lambda>b. b\<lparr>TotalFeesPaid := TotalFeesPaid b + 3\<rparr>) empty_stack = Ok s'
        \<and> TotalFeesPaid (bucket_values s' ! 0) = 3 \<and> StartHeight (bucket_values s' ! 0) = 8)"
proof -
  have ok: "stack_ok Activity_Bucket_History_Size no_bucket empty_stack" by (simp add: stack_ok_def empty_stack_def)
  have "last_bucket_height empty_stack = 0"
    by (simp add: stack_values_def empty_stack_def no_bucket_def Activity_Bucket_History_Size_def del: upt_Suc)
  then show ?thesis using bucket_update_spec [OF ok, of 8 "\<lambda>b. b\<lparr>TotalFeesPaid := TotalFeesPaid b + 3\<rparr>"] ok
    by (auto simp: no_bucket_def)
qed

text \<open>
  An assignment copies the source exactly when the source is not empty or the destination
  holds only default values: assigning an empty stack leaves the values of the destination visible to
  an iteration although its size is zero.
\<close>

theorem stack_assign_spec:
  assumes "stack_ok N d src" "stack_ok N d dst"
  shows "stack_values N d (stack_assign dst src) = stack_values N d src
    \<longleftrightarrow> m_size src \<noteq> 0 \<or> stack_values N d dst = replicate N d"
proof (cases "m_pArray src")
  case None
  then have "stack_values N d (stack_assign dst src) = stack_values N d dst"
    by (simp add: stack_values_def stack_assign_def)
  with None assms(1) show ?thesis using stack_values_ok [OF assms(1)] by (simp add: stack_ok_def)
next
  case (Some a)
  with assms(1) show ?thesis by (simp add: stack_values_def stack_assign_def stack_ok_def)
qed

theorem stack_assign_spec_witness:
  "stack_ok 2 0 (empty_stack :: nat array_stack) \<and> stack_ok 2 0 \<lparr>m_pArray = Some [7, 0 :: nat], m_size = 1\<rparr>
    \<and> stack_values 2 0 (stack_assign \<lparr>m_pArray = Some [7, 0 :: nat], m_size = 1\<rparr> empty_stack) \<noteq> stack_values 2 0 empty_stack"
proof -
  have ok: "stack_ok 2 0 (empty_stack :: nat array_stack)" "stack_ok 2 0 \<lparr>m_pArray = Some [7, 0 :: nat], m_size = 1\<rparr>"
    by (simp_all add: stack_ok_def empty_stack_def)
  have "stack_values 2 0 \<lparr>m_pArray = Some [7, 0 :: nat], m_size = 1\<rparr> \<noteq> replicate 2 0"
    using stack_values_ok [OF ok(2)] by (simp add: numeral_2_eq_2)
  then show ?thesis using stack_assign_spec [OF ok] ok by (simp add: empty_stack_def)
qed

end
