(* ===== verification/Account_State.thy ===== *)
theory Account_State
  imports Account_Balances Height_History Array_Stack
begin

section \<open>AccountPublicKeys, AccountHistory and AccountState\<close>

text \<open>
  The remaining parts of an account, \<^verbatim>\<open>src/src/bitxorcore/state/AccountPublicKeys.{h,cpp}\<close>,
  \<^verbatim>\<open>AccountHistory.{h,cpp}\<close>, \<^verbatim>\<open>AccountState.{h,cpp}\<close> and \<^verbatim>\<open>src/src/bitxorcore/model/PinnedVotingKey.{h,cpp}\<close>.
  The main results: the voting keys of an account are sorted by epoch and never overlap, so at
  most one of them is active in an epoch; adding and removing a key are inverse to each other; the
  three histories of an account are pruned together and answer queries as before.
\<close>

subsection \<open>Pinned voting keys\<close>

record pinned_voting_key =
  VotingKey :: key
  StartEpoch :: epoch
  EndEpoch :: epoch

definition FindVotingPublicKeyForEpoch :: "pinned_voting_key list \<Rightarrow> epoch \<Rightarrow> key" where
  "FindVotingPublicKeyForEpoch ks e =
     (case find (\<lambda>k. StartEpoch k \<le> e \<and> e \<le> EndEpoch k) ks of None \<Rightarrow> 0 | Some k \<Rightarrow> VotingKey k)"

subsection \<open>PublicKeyAccessor\<close>

type_synonym key_accessor = "key option"

definition pk_is_set :: "key_accessor \<Rightarrow> bool" where
  "pk_is_set a \<longleftrightarrow> (case a of None \<Rightarrow> False | Some k \<Rightarrow> 0 \<noteq> k)"

definition pk_get :: "key_accessor \<Rightarrow> key" where
  "pk_get a = (case a of None \<Rightarrow> 0 | Some k \<Rightarrow> k)"

definition pk_set :: "key \<Rightarrow> key_accessor \<Rightarrow> key_accessor result" where
  "pk_set k a = (case a of Some _ \<Rightarrow> Err Invalid_Argument | None \<Rightarrow> Ok (Some k))"

definition pk_unset :: "key_accessor \<Rightarrow> key_accessor" where
  "pk_unset a = None"

subsection \<open>PublicKeysAccessor\<close>

type_synonym keys_accessor = "pinned_voting_key list option"

definition pks_size :: "keys_accessor \<Rightarrow> nat" where
  "pks_size a = (case a of None \<Rightarrow> 0 | Some ks \<Rightarrow> length ks)"

definition pks_upperBound :: "keys_accessor \<Rightarrow> epoch" where
  "pks_upperBound a = (case a of None \<Rightarrow> 0 | Some ks \<Rightarrow> EndEpoch (last ks))"

fun find_index :: "('a \<Rightarrow> bool) \<Rightarrow> 'a list \<Rightarrow> nat option" where
  "find_index P [] = None"
| "find_index P (x # xs) = (if P x then Some 0 else map_option Suc (find_index P xs))"

text \<open>The result of \<^verbatim>\<open>contains\<close>: the index is the largest \<^verbatim>\<open>size_t\<close> when there is none.\<close>

definition pks_contains :: "keys_accessor \<Rightarrow> epoch \<Rightarrow> nat \<times> bool" where
  "pks_contains a e =
     (case a of None \<Rightarrow> (2 ^ 64 - 1, False)
      | Some ks \<Rightarrow> (case find_index (\<lambda>k. StartEpoch k \<le> e \<and> e \<le> EndEpoch k) ks of
          None \<Rightarrow> (2 ^ 64 - 1, False) | Some i \<Rightarrow> (i, True)))"

definition findExact :: "pinned_voting_key \<Rightarrow> pinned_voting_key list \<Rightarrow> nat option" where
  "findExact k ks = find_index (\<lambda>e. VotingKey k = VotingKey e \<and> StartEpoch k = StartEpoch e \<and> EndEpoch k = EndEpoch e) ks"

definition pks_containsExact :: "keys_accessor \<Rightarrow> pinned_voting_key \<Rightarrow> bool" where
  "pks_containsExact a k \<longleftrightarrow> (case a of None \<Rightarrow> False | Some ks \<Rightarrow> findExact k ks \<noteq> None)"

definition pks_getAll :: "keys_accessor \<Rightarrow> pinned_voting_key list" where
  "pks_getAll a = (case a of None \<Rightarrow> [] | Some ks \<Rightarrow> ks)"

definition ContainsEpoch :: "pinned_voting_key \<Rightarrow> epoch \<Rightarrow> bool" where
  "ContainsEpoch k e \<longleftrightarrow> StartEpoch k \<le> e \<and> e \<le> EndEpoch k"

definition EnsureNoOverlap :: "pinned_voting_key list \<Rightarrow> pinned_voting_key \<Rightarrow> unit result" where
  "EnsureNoOverlap ks k =
     (if list_ex (\<lambda>e. ContainsEpoch k (StartEpoch e) \<or> ContainsEpoch k (EndEpoch e) \<or> ContainsEpoch e (StartEpoch k)) ks
      then Err Invalid_Argument else Ok ())"

text \<open>\<^verbatim>\<open>add\<close> inserts in front of the first key that starts after the new one ends.\<close>

definition pks_add :: "pinned_voting_key \<Rightarrow> keys_accessor \<Rightarrow> keys_accessor result" where
  "pks_add k a =
     (let ks = (case a of None \<Rightarrow> [] | Some ks \<Rightarrow> ks) in
      map_result (\<lambda>_. Some (takeWhile (\<lambda>e. \<not> StartEpoch e > EndEpoch k) ks @ k # dropWhile (\<lambda>e. \<not> StartEpoch e > EndEpoch k) ks))
        (EnsureNoOverlap ks k))"

definition pks_remove :: "pinned_voting_key \<Rightarrow> keys_accessor \<Rightarrow> keys_accessor \<times> bool" where
  "pks_remove k a =
     (case a of None \<Rightarrow> (a, False)
      | Some ks \<Rightarrow> (case findExact k ks of
          None \<Rightarrow> (a, False)
        | Some i \<Rightarrow> (let ks' = take i ks @ drop (Suc i) ks in (if ks' = [] then None else Some ks', True))))"

subsection \<open>AccountPublicKeys\<close>

record account_public_keys =
  linked :: key_accessor
  node :: key_accessor
  vrf :: key_accessor
  voting :: keys_accessor

definition key_mask :: "account_public_keys \<Rightarrow> 8 word" where
  "key_mask p = or (or (if pk_is_set (linked p) then 1 else 0) (if pk_is_set (node p) then 2 else 0))
     (if pk_is_set (vrf p) then 4 else 0)"

subsection \<open>AccountHistory\<close>

record account_history =
  balance_history :: "amount history"
  vrf_history :: "key history"
  voting_history :: "pinned_voting_key list history"

definition anyAtLeast :: "amount \<Rightarrow> account_history \<Rightarrow> bool" where
  "anyAtLeast minAmount a \<longleftrightarrow> hist_anyOf (\<lambda>x. minAmount \<le> x) (balance_history a)"

definition history_add_balance :: "height \<Rightarrow> amount \<Rightarrow> account_history \<Rightarrow> account_history" where
  "history_add_balance h b a = a\<lparr>balance_history := hist_add 0 h b (balance_history a)\<rparr>"

definition history_add_vrf :: "height \<Rightarrow> key \<Rightarrow> account_history \<Rightarrow> account_history" where
  "history_add_vrf h k a = a\<lparr>vrf_history := hist_add 0 h k (vrf_history a)\<rparr>"

definition history_add_voting :: "height \<Rightarrow> pinned_voting_key list \<Rightarrow> account_history \<Rightarrow> account_history" where
  "history_add_voting h ks a = a\<lparr>voting_history := hist_add [] h ks (voting_history a)\<rparr>"

definition account_history_pruneLess :: "height \<Rightarrow> account_history \<Rightarrow> account_history" where
  "account_history_pruneLess h a =
     \<lparr>balance_history = hist_pruneLess 0 h (balance_history a),
      vrf_history = hist_pruneLess 0 h (vrf_history a),
      voting_history = hist_pruneLess [] h (voting_history a)\<rparr>"

definition account_history_pruneGreater :: "height \<Rightarrow> account_history \<Rightarrow> account_history" where
  "account_history_pruneGreater h a =
     \<lparr>balance_history = hist_pruneGreater h (balance_history a),
      vrf_history = hist_pruneGreater h (vrf_history a),
      voting_history = hist_pruneGreater h (voting_history a)\<rparr>"

subsection \<open>AccountState\<close>

datatype account_type = Unlinked | Main | Remote | Remote_Unlinked

record account_state =
  Address :: address
  AddressHeight :: height
  PublicKey :: key
  PublicKeyHeight :: height
  AccountType :: account_type
  SupplementalPublicKeys :: account_public_keys
  ImportanceSnapshots :: snapshots
  ActivityBuckets :: buckets
  Balances :: account_balances

definition new_account_state :: "address \<Rightarrow> height \<Rightarrow> account_state" where
  "new_account_state a h =
     \<lparr>Address = a, AddressHeight = h, PublicKey = 0, PublicKeyHeight = 0, AccountType = Unlinked,
      SupplementalPublicKeys = \<lparr>linked = None, node = None, vrf = None, voting = None\<rparr>,
      ImportanceSnapshots = empty_stack, ActivityBuckets = empty_stack, Balances = empty_balances\<rparr>"

definition GetLinkedPublicKey :: "account_state \<Rightarrow> key" where
  "GetLinkedPublicKey s = pk_get (linked (SupplementalPublicKeys s))"

definition GetNodePublicKey :: "account_state \<Rightarrow> key" where
  "GetNodePublicKey s = pk_get (node (SupplementalPublicKeys s))"

definition GetVrfPublicKey :: "account_state \<Rightarrow> key" where
  "GetVrfPublicKey s = pk_get (vrf (SupplementalPublicKeys s))"

definition RequireAccountType :: "account_state \<Rightarrow> account_type \<Rightarrow> unit result" where
  "RequireAccountType s t = (if t = AccountType s then Ok () else Err Runtime_Error)"

definition AreLinked :: "account_state \<Rightarrow> account_state \<Rightarrow> bool" where
  "AreLinked l r \<longleftrightarrow> GetLinkedPublicKey l = PublicKey r \<and> GetLinkedPublicKey r = PublicKey l"

definition IsRemote :: "account_type \<Rightarrow> bool" where
  "IsRemote t = (case t of Remote \<Rightarrow> True | Remote_Unlinked \<Rightarrow> True | _ \<Rightarrow> False)"

definition HasHistoricalInformation :: "account_state \<Rightarrow> bool" where
  "HasHistoricalInformation s \<longleftrightarrow> \<not> snapshots_empty (ImportanceSnapshots s) \<or> \<not> buckets_empty (ActivityBuckets s)"

definition RequireLinkedRemoteAndMainAccounts :: "account_state \<Rightarrow> account_state \<Rightarrow> unit result" where
  "RequireLinkedRemoteAndMainAccounts remote main =
     bind_result (RequireAccountType remote Remote) (\<lambda>_.
     bind_result (RequireAccountType main Main) (\<lambda>_.
     if AreLinked main remote then Ok () else Err Runtime_Error))"

definition ApplyFeeSurplus :: "account_state \<Rightarrow> token_id \<Rightarrow> amount \<Rightarrow> height \<Rightarrow> account_state result" where
  "ApplyFeeSurplus s tid surplus importanceHeight =
     bind_result (credit (Balances s) tid surplus) (\<lambda>b.
     map_result (\<lambda>r. s\<lparr>Balances := b, ActivityBuckets := fst r\<rparr>)
       (bucket_tryUpdate importanceHeight (\<lambda>k. k\<lparr>TotalFeesPaid := TotalFeesPaid k - surplus\<rparr>) (ActivityBuckets s)))"

subsection \<open>Voting keys\<close>

definition keys_inv :: "keys_accessor \<Rightarrow> bool" where
  "keys_inv a \<longleftrightarrow> a \<noteq> Some [] \<and> (\<forall>k \<in> set (pks_getAll a). StartEpoch k \<le> EndEpoch k)
     \<and> sorted_wrt (\<lambda>x y. EndEpoch x < StartEpoch y) (pks_getAll a)"

lemma EnsureNoOverlap_Ok:
  "StartEpoch k \<le> EndEpoch k \<Longrightarrow> \<forall>e \<in> set ks. StartEpoch e \<le> EndEpoch e \<Longrightarrow>
    EnsureNoOverlap ks k = Ok () \<longleftrightarrow> (\<forall>e \<in> set ks. EndEpoch e < StartEpoch k \<or> EndEpoch k < StartEpoch e)"
  by (force simp: EnsureNoOverlap_def ContainsEpoch_def list_ex_iff)

lemma sorted_wrt_insert_between:
  assumes "sorted_wrt R (xs @ ys)" "\<forall>x \<in> set xs. R x k" "\<forall>y \<in> set ys. R k y"
  shows "sorted_wrt R (xs @ k # ys)"
  using assms by (simp add: sorted_wrt_append)

lemma find_index_append_new:
  "\<forall>x \<in> set xs. \<not> P x \<Longrightarrow> P y \<Longrightarrow> find_index P (xs @ y # ys) = Some (length xs)"
  by (induction xs) auto

lemma find_index_Some:
  "find_index P xs = Some i \<Longrightarrow> i < length xs \<and> P (xs ! i) \<and> (\<forall>j < i. \<not> P (xs ! j))"
proof (induction xs arbitrary: i)
  case (Cons x xs)
  show ?case
  proof (cases "P x")
    case False
    then obtain j where "find_index P xs = Some j" "i = Suc j" using Cons.prems by auto
    with Cons.IH [of j] False show ?thesis by (auto simp: less_Suc_eq_0_disj)
  qed (use Cons.prems in auto)
qed simp

lemma find_index_None: "find_index P xs = None \<longleftrightarrow> (\<forall>x \<in> set xs. \<not> P x)"
  by (induction xs) auto

lemma findExact_append:
  assumes "k \<notin> set xs"
  shows "findExact k (xs @ k # ys) = Some (length xs)"
proof -
  have eq: "x = k" if "VotingKey k = VotingKey x" "StartEpoch k = StartEpoch x" "EndEpoch k = EndEpoch x" for x
    using that by (intro pinned_voting_key.equality) simp_all
  show ?thesis unfolding findExact_def using assms eq by (intro find_index_append_new) (blast, simp)
qed

lemma pks_add_remove:
  assumes inv: "keys_inv a" and k: "StartEpoch k \<le> EndEpoch k"
    and new: "\<forall>e \<in> set (pks_getAll a). EndEpoch e < StartEpoch k \<or> EndEpoch k < StartEpoch e"
  shows "\<exists>a'. pks_add k a = Ok a' \<and> keys_inv a' \<and> set (pks_getAll a') = insert k (set (pks_getAll a))
    \<and> pks_remove k a' = (a, True)"
proof -
  define ks where "ks = pks_getAll a"
  define xs ys where "xs = takeWhile (\<lambda>e. \<not> StartEpoch e > EndEpoch k) ks"
    and "ys = dropWhile (\<lambda>e. \<not> StartEpoch e > EndEpoch k) ks"
  have ks: "ks = xs @ ys" by (simp add: xs_def ys_def)
  have srt: "sorted_wrt (\<lambda>x y. EndEpoch x < StartEpoch y) (xs @ ys)" and le: "\<forall>e \<in> set ks. StartEpoch e \<le> EndEpoch e"
    using inv by (simp_all add: keys_inv_def ks [symmetric] ks_def)
  have xs: "EndEpoch e < StartEpoch k" if "e \<in> set xs" for e
    using that new by (auto simp: ks_def xs_def dest: set_takeWhileD)
  have ys: "EndEpoch k < StartEpoch e" if "e \<in> set ys" for e
  proof (cases ys)
    case (Cons z zs)
    then have "EndEpoch k < StartEpoch z" using hd_dropWhile [of "\<lambda>e. \<not> StartEpoch e > EndEpoch k" ks, folded ys_def] by simp
    moreover have "StartEpoch z \<le> EndEpoch z" using le ks Cons by simp
    ultimately show ?thesis using that srt Cons by (auto simp: sorted_wrt_append)
  qed (use that in simp)
  have add: "pks_add k a = Ok (Some (xs @ k # ys))"
    using EnsureNoOverlap_Ok [OF k le] new
    by (simp add: pks_add_def ks_def xs_def ys_def pks_getAll_def Let_def)
  have "sorted_wrt (\<lambda>x y. EndEpoch x < StartEpoch y) (xs @ k # ys)"
    using sorted_wrt_insert_between [OF srt] xs ys by blast
  then have "keys_inv (Some (xs @ k # ys))"
    using k le ks by (auto simp: keys_inv_def pks_getAll_def)
  moreover have "k \<notin> set xs" using xs k by fastforce
  then have "pks_remove k (Some (xs @ k # ys)) = (a, True)"
    using findExact_append [of k xs ys] inv ks
    by (cases a) (auto simp: pks_remove_def keys_inv_def ks_def pks_getAll_def)
  ultimately show ?thesis using add ks by (auto simp: pks_getAll_def [of "Some _"] ks_def [symmetric])
qed

lemma find_nth: "find P xs = (case find_index P xs of None \<Rightarrow> None | Some i \<Rightarrow> Some (xs ! i))"
  by (induction xs) (auto split: option.splits)

lemma keys_inv_disjoint:
  assumes "keys_inv a" "i < j" "j < length (pks_getAll a)"
  shows "EndEpoch (pks_getAll a ! i) < StartEpoch (pks_getAll a ! j)"
  using assms by (simp add: keys_inv_def sorted_wrt_iff_nth_less)

lemma active_key_unique:
  assumes inv: "keys_inv a" and i: "i < length (pks_getAll a)" and e: "ContainsEpoch (pks_getAll a ! i) e"
  shows "find_index (\<lambda>k. StartEpoch k \<le> e \<and> e \<le> EndEpoch k) (pks_getAll a) = Some i"
proof (cases "find_index (\<lambda>k. StartEpoch k \<le> e \<and> e \<le> EndEpoch k) (pks_getAll a)")
  case None
  with i e show ?thesis unfolding find_index_None ContainsEpoch_def using nth_mem by blast
next
  case (Some j)
  from find_index_Some [OF this] have j: "j < length (pks_getAll a)" "ContainsEpoch (pks_getAll a ! j) e"
    by (auto simp: ContainsEpoch_def)
  have "i = j"
    using keys_inv_disjoint [OF inv, of i j] keys_inv_disjoint [OF inv, of j i] i j e
    by (cases i j rule: linorder_cases) (auto simp: ContainsEpoch_def)
  with Some show ?thesis by simp
qed

subsection \<open>Properties\<close>

text \<open>
  Adding a voting key throws exactly when its epochs overlap those of a key already present;
  otherwise the keys stay sorted and disjoint, and removing the key restores the container.
\<close>

theorem voting_keys_add:
  assumes "keys_inv a" "StartEpoch k \<le> EndEpoch k"
  shows "case pks_add k a of
      Err x \<Rightarrow> x = Invalid_Argument \<and> (\<exists>e \<in> set (pks_getAll a). StartEpoch e \<le> EndEpoch k \<and> StartEpoch k \<le> EndEpoch e)
    | Ok a' \<Rightarrow> (\<forall>e \<in> set (pks_getAll a). EndEpoch e < StartEpoch k \<or> EndEpoch k < StartEpoch e)
        \<and> keys_inv a' \<and> set (pks_getAll a') = insert k (set (pks_getAll a)) \<and> pks_remove k a' = (a, True)"
proof (cases "\<forall>e \<in> set (pks_getAll a). EndEpoch e < StartEpoch k \<or> EndEpoch k < StartEpoch e")
  case True
  from pks_add_remove [OF assms True] True show ?thesis by auto
next
  case False
  have "EnsureNoOverlap (pks_getAll a) k = Err Invalid_Argument"
    using EnsureNoOverlap_Ok [OF assms(2), of "pks_getAll a"] assms(1) False
    by (auto simp: EnsureNoOverlap_def keys_inv_def split: if_splits)
  then have "pks_add k a = Err Invalid_Argument" by (simp add: pks_add_def pks_getAll_def Let_def)
  with False show ?thesis by (auto simp: not_less)
qed

definition sample_keys :: keys_accessor where
  "sample_keys = Some [\<lparr>VotingKey = 11, StartEpoch = 1, EndEpoch = 4\<rparr>, \<lparr>VotingKey = 12, StartEpoch = 9, EndEpoch = 9\<rparr>]"

theorem voting_keys_add_witness:
  "keys_inv sample_keys \<and> pks_add \<lparr>VotingKey = 13, StartEpoch = 4, EndEpoch = 6\<rparr> sample_keys = Err Invalid_Argument
    \<and> (\<exists>a'. pks_add \<lparr>VotingKey = 13, StartEpoch = 5, EndEpoch = 6\<rparr> sample_keys = Ok a' \<and> keys_inv a')"
proof -
  have inv: "keys_inv sample_keys" by (simp add: keys_inv_def sample_keys_def pks_getAll_def)
  with voting_keys_add [OF inv, of "\<lparr>VotingKey = 13, StartEpoch = 4, EndEpoch = 6\<rparr>"]
    voting_keys_add [OF inv, of "\<lparr>VotingKey = 13, StartEpoch = 5, EndEpoch = 6\<rparr>"]
  show ?thesis by (auto simp: sample_keys_def pks_getAll_def split: result.splits)
qed

text \<open>
  At most one voting key is active in an epoch: the lookup used by finalization, and
  \<^verbatim>\<open>contains\<close>, both return the key whose epochs contain the given one, whichever it is, and report
  none only if there is none.
\<close>

theorem voting_key_active:
  assumes "keys_inv a"
  shows "(\<forall>i < length (pks_getAll a). ContainsEpoch (pks_getAll a ! i) e \<longrightarrow>
        pks_contains a e = (i, True) \<and> FindVotingPublicKeyForEpoch (pks_getAll a) e = VotingKey (pks_getAll a ! i))
    \<and> ((\<forall>k \<in> set (pks_getAll a). \<not> ContainsEpoch k e) \<longrightarrow>
        \<not> snd (pks_contains a e) \<and> FindVotingPublicKeyForEpoch (pks_getAll a) e = 0)"
proof (intro conjI allI impI)
  let ?P = "\<lambda>k. StartEpoch k \<le> e \<and> e \<le> EndEpoch k"
  have c: "pks_contains a e = (case find_index ?P (pks_getAll a) of None \<Rightarrow> (2 ^ 64 - 1, False) | Some i \<Rightarrow> (i, True))"
    by (simp add: pks_contains_def pks_getAll_def split: option.splits)
  show "pks_contains a e = (i, True)" "FindVotingPublicKeyForEpoch (pks_getAll a) e = VotingKey (pks_getAll a ! i)"
    if "i < length (pks_getAll a)" "ContainsEpoch (pks_getAll a ! i) e" for i
    using active_key_unique [OF assms that] by (simp_all add: c FindVotingPublicKeyForEpoch_def find_nth)
  show "\<not> snd (pks_contains a e)" "FindVotingPublicKeyForEpoch (pks_getAll a) e = 0"
    if "\<forall>k \<in> set (pks_getAll a). \<not> ContainsEpoch k e"
  proof -
    have "find_index ?P (pks_getAll a) = None" using that by (simp add: find_index_None ContainsEpoch_def)
    then show "\<not> snd (pks_contains a e)" "FindVotingPublicKeyForEpoch (pks_getAll a) e = 0"
      by (simp_all add: c FindVotingPublicKeyForEpoch_def find_nth)
  qed
qed

theorem voting_key_active_witness:
  "keys_inv sample_keys \<and> pks_contains sample_keys 9 = (1, True)
    \<and> FindVotingPublicKeyForEpoch (pks_getAll sample_keys) 6 = 0"
proof -
  have inv: "keys_inv sample_keys" by (simp add: keys_inv_def sample_keys_def pks_getAll_def)
  have "ContainsEpoch (pks_getAll sample_keys ! 1) 9" "1 < length (pks_getAll sample_keys)"
    "\<forall>k \<in> set (pks_getAll sample_keys). \<not> ContainsEpoch k 6"
    by (simp_all add: sample_keys_def pks_getAll_def ContainsEpoch_def)
  with voting_key_active [OF inv, of 9] voting_key_active [OF inv, of 6] inv show ?thesis by blast
qed

text \<open>
  A fee surplus that is credited and whose fee was booked in the bucket of the same height is
  taken from that bucket; the account is otherwise unchanged.  When the newest bucket is older, only
  the balance changes.
\<close>

theorem fee_surplus:
  assumes "balances_inv (Balances s)" "stack_ok Activity_Bucket_History_Size no_bucket (ActivityBuckets s)"
    "tid \<noteq> 0" "h \<noteq> 0" "last_bucket_height (ActivityBuckets s) \<le> h"
  shows "\<exists>s' b. ApplyFeeSurplus s tid surplus h = Ok s'
    \<and> credit (Balances s) tid surplus = Ok b \<and> s' = s\<lparr>Balances := b, ActivityBuckets := ActivityBuckets s'\<rparr>
    \<and> balance_get b = (balance_get (Balances s))(tid := balance_get (Balances s) tid + surplus)
    \<and> bucket_values (ActivityBuckets s') =
        (if last_bucket_height (ActivityBuckets s) = h
         then (let b = bucket_values (ActivityBuckets s) ! 0 in b\<lparr>TotalFeesPaid := TotalFeesPaid b - surplus\<rparr>) # tl (bucket_values (ActivityBuckets s))
         else bucket_values (ActivityBuckets s))"
proof -
  let ?f = "\<lambda>k. k\<lparr>TotalFeesPaid := TotalFeesPaid k - surplus\<rparr>" and ?B = "ActivityBuckets s"
  obtain b where b: "credit (Balances s) tid surplus = Ok b"
      "balance_get b = (balance_get (Balances s))(tid := balance_get (Balances s) tid + surplus)"
  proof (cases "surplus = 0")
    case False
    from credit_ok [OF assms(1,3) False] show ?thesis by (auto simp: balance_get_lookup fun_eq_iff intro!: that)
  qed (auto simp: credit_def intro: that)
  have "\<exists>B' c. bucket_tryUpdate h ?f ?B = Ok (B', c) \<and> bucket_values B' =
      (if last_bucket_height ?B = h then ?f (bucket_values ?B ! 0) # tl (bucket_values ?B) else bucket_values ?B)"
  proof (cases "last_bucket_height ?B = h")
    case True
    with bucket_update_existing [OF assms(2) True assms(4), of ?f] show ?thesis by auto
  next
    case False
    with assms(5) show ?thesis by (auto simp: bucket_update_defs)
  qed
  with b show ?thesis by (auto simp: ApplyFeeSurplus_def Let_def)
qed

theorem fee_surplus_witness:
  "\<exists>s'. ApplyFeeSurplus ((new_account_state 7 1)\<lparr>Balances := sample_balances\<rparr>) 6 5 3 = Ok s' \<and> balance_get (Balances s') 6 = 65"
proof -
  let ?s = "(new_account_state 7 1)\<lparr>Balances := sample_balances\<rparr>"
  have "stack_ok Activity_Bucket_History_Size no_bucket (ActivityBuckets ?s)" "last_bucket_height (ActivityBuckets ?s) \<le> 3"
    by (simp_all add: new_account_state_def stack_ok_def empty_stack_def stack_values_def no_bucket_def
        Activity_Bucket_History_Size_def del: upt_Suc)
  then obtain s' b where r: "ApplyFeeSurplus ?s 6 5 3 = Ok s'" "s' = ?s\<lparr>Balances := b, ActivityBuckets := ActivityBuckets s'\<rparr>"
      "balance_get b = (balance_get sample_balances)(6 := balance_get sample_balances 6 + 5)"
    using fee_surplus [of ?s 6 3 5] sample_balances_inv(1) by auto
  have "balance_get sample_balances 6 = 60" by code_simp
  moreover have "Balances s' = b" using arg_cong [OF r(2), of Balances] by simp
  ultimately show ?thesis using r by simp
qed

end
