(* ===== verification/Tree_Path.thy ===== *)
theory Tree_Path
  imports Prelude
begin

section \<open>TreeNodePath\<close>

text \<open>
  The paths of the state tree, \<^verbatim>\<open>src/src/bitxorcore/tree/TreeNodePath.{h,cpp}\<close>, and the encoding of a path
  that is hashed with a node (\<^verbatim>\<open>UpdateEncodedKey\<close> of \<^verbatim>\<open>TreeNode.cpp\<close>).  A path packs two nibbles into a
  byte and may start at the second nibble of its first byte.  The results: every operation acts on
  the list of nibbles of its arguments as the list operation of the same meaning does (so the tree
  is modelled on lists of nibbles), the buffered encoding produces the hex-prefix encoding of that
  list, and the encoding determines the path.
\<close>

unbundle bit_operations_syntax

subsection \<open>Paths\<close>

type_synonym byte = "8 word"
type_synonym nibbles = "nat list"

record tree_path =
  tp_size :: nat
  tp_adjustment :: nat
  tp_bytes :: "byte list"

definition CalculateByteSize :: "nat \<Rightarrow> nat \<Rightarrow> nat" where
  "CalculateByteSize offset sz = sz div 2 + (if 0 = offset mod 2 \<and> 0 = sz mod 2 then 0 else 1)"

definition empty_path :: tree_path where
  "empty_path = \<lparr>tp_size = 0, tp_adjustment = 0, tp_bytes = []\<rparr>"

text \<open>The path of a key that is a byte array.\<close>

definition key_path :: "byte list \<Rightarrow> tree_path" where
  "key_path key = \<lparr>tp_size = 2 * length key, tp_adjustment = 0, tp_bytes = key\<rparr>"

definition make_path :: "byte list \<Rightarrow> nat \<Rightarrow> nat \<Rightarrow> tree_path" where
  "make_path path offset sz =
     \<lparr>tp_size = sz, tp_adjustment = offset mod 2,
      tp_bytes = (if sz = 0 then replicate (CalculateByteSize offset sz) 0
                  else take (CalculateByteSize offset sz) (drop (offset div 2) path))\<rparr>"

definition path_empty :: "tree_path \<Rightarrow> bool" where
  "path_empty p \<longleftrightarrow> 0 = tp_size p"

definition nibbleAt :: "tree_path \<Rightarrow> nat \<Rightarrow> byte" where
  "nibbleAt p i =
     (let j = i + tp_adjustment p; b = tp_bytes p ! (j div 2)
      in if 0 = j mod 2 then drop_bit 4 (b AND 0xF0) else b AND 0x0F)"

function difference_loop :: "tree_path \<Rightarrow> tree_path \<Rightarrow> nat \<Rightarrow> nat" where
  "difference_loop l r i =
     (if i < tp_size l \<and> i < tp_size r \<and> nibbleAt l i = nibbleAt r i then difference_loop l r (i + 1) else i)"
  by auto
termination by (relation "measure (\<lambda>(l, r, i). tp_size l - i)") auto

definition FindFirstDifferenceIndex :: "tree_path \<Rightarrow> tree_path \<Rightarrow> nat" where
  "FindFirstDifferenceIndex l r = difference_loop l r 0"

definition path_equal :: "tree_path \<Rightarrow> tree_path \<Rightarrow> bool" where
  "path_equal l r \<longleftrightarrow> tp_size l = tp_size r \<and> tp_size l = FindFirstDifferenceIndex l r"

definition subpath_size :: "tree_path \<Rightarrow> nat \<Rightarrow> nat \<Rightarrow> tree_path" where
  "subpath_size p offset sz = make_path (tp_bytes p) (offset + tp_adjustment p) sz"

definition subpath :: "tree_path \<Rightarrow> nat \<Rightarrow> tree_path" where
  "subpath p offset = subpath_size p offset (tp_size p - offset)"

text \<open>The builder: the index of the next nibble and the bytes, all zero at first.\<close>

type_synonym join_builder = "nat \<times> byte list"

definition addNibble :: "byte \<Rightarrow> join_builder \<Rightarrow> join_builder" where
  "addNibble nibble b = (case b of (i, path) \<Rightarrow>
     (i + 1, path[i div 2 := path ! (i div 2) OR (if 0 \<noteq> i mod 2 then nibble AND 0x0F else push_bit 4 nibble)]))"

definition addNibbles :: "tree_path \<Rightarrow> join_builder \<Rightarrow> join_builder" where
  "addNibbles p b = fold (\<lambda>i. addNibble (nibbleAt p i)) [0..<tp_size p] b"

definition path_Join :: "tree_path \<Rightarrow> tree_path \<Rightarrow> tree_path" where
  "path_Join l r =
     (let sz = tp_size l + tp_size r; b = (0, replicate ((sz + 1) div 2) 0)
      in make_path (snd (addNibbles r (addNibbles l b))) 0 sz)"

definition path_Join_nibble :: "tree_path \<Rightarrow> byte \<Rightarrow> tree_path \<Rightarrow> tree_path" where
  "path_Join_nibble l n r =
     (let sz = tp_size l + 1 + tp_size r; b = (0, replicate ((sz + 1) div 2) 0)
      in make_path (snd (addNibbles r (addNibble n (addNibbles l b)))) 0 sz)"

subsection \<open>The encoded key of a node\<close>

text \<open>
  \<^verbatim>\<open>UpdateEncodedKey\<close>: the bytes are collected in a buffer of eight bytes that is flushed to the hash
  builder when it is full; \<open>out\<close> is what the builder received.
\<close>

function encode_loop :: "tree_path \<Rightarrow> nat \<Rightarrow> byte list \<Rightarrow> nat \<Rightarrow> byte list \<Rightarrow> byte list" where
  "encode_loop p i buffer counter out =
     (if i < tp_size p then
        (let buffer' = buffer[counter := push_bit 4 (nibbleAt p i) + nibbleAt p (i + 1)]
         in if length buffer' = counter + 1 then encode_loop p (i + 2) buffer' 0 (out @ buffer')
            else encode_loop p (i + 2) buffer' (counter + 1) out)
      else if 0 \<noteq> counter then out @ take counter buffer else out)"
  by auto
termination by (relation "measure (\<lambda>(p, i, b, c, out). tp_size p - i)") auto

definition UpdateEncodedKey :: "tree_path \<Rightarrow> bool \<Rightarrow> byte list" where
  "UpdateEncodedKey p isLeaf =
     (let flag = (if isLeaf then 0x20 else 0);
          buffer = replicate 8 0
      in if tp_size p mod 2 = 1 then encode_loop p 1 (buffer[0 := flag OR 0x10 OR nibbleAt p 0]) 1 []
         else encode_loop p 0 (buffer[0 := flag]) 1 [])"

subsection \<open>Paths as lists of nibbles\<close>

declare difference_loop.simps [simp del] encode_loop.simps [simp del]

definition nibbles_of :: "tree_path \<Rightarrow> nibbles" where
  "nibbles_of p = map (\<lambda>i. unat (nibbleAt p i)) [0..<tp_size p]"

definition path_ok :: "tree_path \<Rightarrow> bool" where
  "path_ok p \<longleftrightarrow> tp_adjustment p \<le> 1 \<and> length (tp_bytes p) = (tp_adjustment p + tp_size p + 1) div 2"

lemma length_nibbles_of [simp]: "length (nibbles_of p) = tp_size p"
  by (simp add: nibbles_of_def)

lemma nth_nibbles_of: "i < tp_size p \<Longrightarrow> nibbles_of p ! i = unat (nibbleAt p i)"
  by (simp add: nibbles_of_def)

lemma CalculateByteSize_eq: "CalculateByteSize offset sz = (offset mod 2 + sz + 1) div 2"
  unfolding CalculateByteSize_def by (cases "even offset"; cases "even sz") (auto elim!: evenE oddE)

lemma nibble_low: "b AND 0x0F = take_bit 4 b" for b :: byte
  by (simp add: take_bit_eq_mask mask_eq_exp_minus_1)

lemma nibble_high: "drop_bit 4 (b AND 0xF0) = drop_bit 4 b" for b :: byte
proof -
  have "drop_bit 4 (b AND 0xF0) = drop_bit 4 b AND 0x0F" by (simp add: drop_bit_and)
  also have "\<dots> = drop_bit 4 (take_bit 8 b)" by (simp add: nibble_low take_bit_drop_bit)
  finally show ?thesis by (simp add: take_bit_length_eq [where 'a = 8, simplified])
qed

lemma nibbleAt_bits:
  "nibbleAt p i = (let j = i + tp_adjustment p; b = tp_bytes p ! (j div 2) in if even j then drop_bit 4 b else take_bit 4 b)"
  unfolding nibbleAt_def nibble_high nibble_low Let_def even_iff_mod_2_eq_zero by (simp only: eq_commute [of 0])

lemma nibble_bound: "unat (drop_bit 4 b) < 16" "unat (take_bit 4 b) < 16" for b :: byte
proof -
  have "unat b < 256" using unsigned_less [of b, where ?'a = nat] by simp
  then show "unat (drop_bit 4 b) < 16" by (simp add: unsigned_drop_bit_eq drop_bit_eq_div [where 'a = nat] take_bit_nat_eq_self)
  show "unat (take_bit 4 b) < 16" by (simp add: unsigned_take_bit_eq take_bit_eq_mod [where 'a = nat])
qed

lemma nibbleAt_bound: "unat (nibbleAt p i) < 16"
  by (simp add: nibbleAt_bits Let_def nibble_bound)

lemma nibbles_of_bound: "n \<in> set (nibbles_of p) \<Longrightarrow> n < 16"
  using nibbleAt_bound by (auto simp: nibbles_of_def)

text \<open>The constructor and the subpaths.\<close>

lemma make_path_ok:
  assumes "(offset + sz + 1) div 2 \<le> length bs"
  shows "path_ok (make_path bs offset sz)"
proof -
  have "offset div 2 + (offset mod 2 + sz + 1) div 2 = (offset + sz + 1) div 2"
    by presburger
  then have "min (length bs - offset div 2) ((offset mod 2 + sz + 1) div 2) = (offset mod 2 + sz + 1) div 2"
    using assms by simp
  moreover have "offset mod 2 \<le> 1" by simp
  ultimately show ?thesis by (simp add: path_ok_def make_path_def CalculateByteSize_eq)
qed

lemma make_path_nibbleAt:
  assumes "i < sz" "(offset + sz + 1) div 2 \<le> length bs"
  shows "nibbleAt (make_path bs offset sz) i
    = (let j = offset + i; b = bs ! (j div 2) in if even j then drop_bit 4 b else take_bit 4 b)"
proof -
  have "(i + offset mod 2) div 2 < CalculateByteSize offset sz"
    using assms by (simp add: CalculateByteSize_eq)
  moreover have "offset div 2 + (i + offset mod 2) div 2 = (offset + i) div 2"
    by presburger
  moreover have "even (i + offset mod 2) \<longleftrightarrow> even (offset + i)" by presburger
  moreover have "take n (drop m bs) ! k = bs ! (m + k)" if "k < n" "m + k < length bs" for n m k
    using that by simp
  ultimately show ?thesis using assms
    by (simp add: nibbleAt_bits make_path_def Let_def)
qed

lemma key_path_ok: "path_ok (key_path key)"
  by (simp add: path_ok_def key_path_def)

lemma subpath_size_nibbles:
  assumes "path_ok p" "offset + sz \<le> tp_size p"
  shows "path_ok (subpath_size p offset sz)"
    and "nibbles_of (subpath_size p offset sz) = take sz (drop offset (nibbles_of p))"
proof -
  have len: "(offset + tp_adjustment p + sz + 1) div 2 \<le> length (tp_bytes p)"
    using assms by (simp add: path_ok_def div_le_mono)
  then show "path_ok (subpath_size p offset sz)" unfolding subpath_size_def by (rule make_path_ok)
  show "nibbles_of (subpath_size p offset sz) = take sz (drop offset (nibbles_of p))"
  proof (rule nth_equalityI)
    show "length (nibbles_of (subpath_size p offset sz)) = length (take sz (drop offset (nibbles_of p)))"
      using assms(2) by (simp add: subpath_size_def make_path_def)
    fix i assume "i < length (nibbles_of (subpath_size p offset sz))"
    then have i: "i < sz" by (simp add: subpath_size_def make_path_def)
    then have "nibbleAt (subpath_size p offset sz) i = nibbleAt p (offset + i)"
      unfolding subpath_size_def using len by (subst make_path_nibbleAt) (simp_all add: nibbleAt_bits ac_simps)
    with i assms(2) show "nibbles_of (subpath_size p offset sz) ! i = take sz (drop offset (nibbles_of p)) ! i"
      by (simp add: nth_nibbles_of subpath_size_def make_path_def)
  qed
qed

lemma take_bit_word_eq_self_iff_unat: "take_bit 4 b = b \<longleftrightarrow> unat b < 16" for b :: byte
  by (simp add: word_unat_eq_iff unsigned_take_bit_eq take_bit_nat_eq_self_iff)

text \<open>The first difference of two paths.\<close>

lemma unat_inject: "unat x = unat y \<longleftrightarrow> x = y" for x y :: "'a::len word"
  by (simp add: word_unat_eq_iff)

fun common_prefix :: "'a list \<Rightarrow> 'a list \<Rightarrow> nat" where
  "common_prefix (x # xs) (y # ys) = (if x = y then Suc (common_prefix xs ys) else 0)"
| "common_prefix _ _ = 0"

lemma common_prefix_step:
  "common_prefix xs ys = (if xs \<noteq> [] \<and> ys \<noteq> [] \<and> hd xs = hd ys then Suc (common_prefix (tl xs) (tl ys)) else 0)"
  by (cases xs; cases ys) auto

lemma difference_loop_prefix:
  "difference_loop l r i = i + common_prefix (drop i (nibbles_of l)) (drop i (nibbles_of r))"
proof (induction l r i rule: difference_loop.induct)
  case (1 l r i)
  show ?case
  proof (cases "i < tp_size l \<and> i < tp_size r")
    case True
    then have "drop i (nibbles_of l) = unat (nibbleAt l i) # drop (Suc i) (nibbles_of l)"
        "drop i (nibbles_of r) = unat (nibbleAt r i) # drop (Suc i) (nibbles_of r)"
      by (simp_all add: Cons_nth_drop_Suc [symmetric] nth_nibbles_of)
    with 1 True show ?thesis by (auto simp: difference_loop.simps [of l r i] unat_inject)
  qed (auto simp: difference_loop.simps [of l r i] common_prefix_step)
qed

lemma FindFirstDifferenceIndex_prefix:
  "FindFirstDifferenceIndex l r = common_prefix (nibbles_of l) (nibbles_of r)"
  by (simp add: FindFirstDifferenceIndex_def difference_loop_prefix)

lemma common_prefix_le: "common_prefix xs ys \<le> length xs" "common_prefix xs ys \<le> length ys"
  by (induction xs ys rule: common_prefix.induct) auto

lemma common_prefix_full: "length xs = length ys \<Longrightarrow> common_prefix xs ys = length xs \<longleftrightarrow> xs = ys"
  by (induction xs ys rule: common_prefix.induct) auto

lemma path_equal_nibbles: "path_equal l r \<longleftrightarrow> nibbles_of l = nibbles_of r"
  unfolding path_equal_def FindFirstDifferenceIndex_prefix
  by (metis common_prefix_full length_nibbles_of)

text \<open>Joining: after \<open>i\<close> nibbles the builder holds them in front of zero nibbles.\<close>

definition builder_nibble :: "byte list \<Rightarrow> nat \<Rightarrow> byte" where
  "builder_nibble bs i = (if even i then drop_bit 4 (bs ! (i div 2)) else take_bit 4 (bs ! (i div 2)))"

definition builder_ok :: "byte list \<Rightarrow> nat \<Rightarrow> byte list \<Rightarrow> bool" where
  "builder_ok ns sz bs \<longleftrightarrow> length ns \<le> sz \<and> length bs = (sz + 1) div 2
     \<and> (\<forall>i < 2 * length bs. builder_nibble bs i = (if i < length ns then ns ! i else 0))"

lemma nibble_push: "drop_bit 4 (push_bit 4 n) = take_bit 4 n" for n :: byte
  by (rule bit_word_eqI) (auto simp: bit_simps)

lemma nibble_or:
  "drop_bit 4 (a OR push_bit 4 n) = drop_bit 4 a OR take_bit 4 n" "take_bit 4 (a OR push_bit 4 n) = take_bit 4 a"
  "drop_bit 4 (a OR (n AND 0x0F)) = drop_bit 4 a" "take_bit 4 (a OR (n AND 0x0F)) = take_bit 4 a OR take_bit 4 n"
  for a n :: byte
proof -
  have "drop_bit 4 (take_bit 4 n) = 0" for n :: byte
    by (rule bit_word_eqI) (auto simp: bit_simps)
  then show "drop_bit 4 (a OR push_bit 4 n) = drop_bit 4 a OR take_bit 4 n" "take_bit 4 (a OR push_bit 4 n) = take_bit 4 a"
      "drop_bit 4 (a OR (n AND 0x0F)) = drop_bit 4 a" "take_bit 4 (a OR (n AND 0x0F)) = take_bit 4 a OR take_bit 4 n"
    by (simp_all add: nibble_low nibble_push drop_bit_or take_bit_or take_bit_push_bit)
qed

lemma addNibble_ok:
  assumes "builder_ok ns sz bs" "length ns < sz" "take_bit 4 n = n"
  shows "\<exists>bs'. addNibble n (length ns, bs) = (length (ns @ [n]), bs') \<and> builder_ok (ns @ [n]) sz bs'"
proof -
  let ?i = "length ns"
  define bs' where "bs' = bs[?i div 2 := bs ! (?i div 2) OR (if even ?i then push_bit 4 n else n AND 0x0F)]"
  have lt: "?i div 2 < length bs" using assms(1,2) by (simp add: builder_ok_def)
  have old: "builder_nibble bs i = (if i < ?i then ns ! i else 0)" if "i < 2 * length bs" for i
    using assms(1) that by (simp add: builder_ok_def)
  have "builder_nibble bs' i = (if i < Suc ?i then (ns @ [n]) ! i else 0)" if i: "i < 2 * length bs" for i
  proof (cases "i = ?i")
    case True
    have "builder_nibble bs' ?i = n"
      using old [of ?i] lt assms(3) i True by (cases "even ?i") (simp_all add: builder_nibble_def bs'_def nibble_push nibble_low)
    with True show ?thesis by simp
  next
    case False
    have "builder_nibble bs' i = builder_nibble bs i"
    proof (cases "i div 2 = ?i div 2")
      case True
      then have "even i \<noteq> even ?i" using False by presburger
      with True lt show ?thesis by (cases "even i") (simp_all add: builder_nibble_def bs'_def nibble_or take_bit_push_bit)
    qed (simp add: builder_nibble_def bs'_def)
    with False old [OF i] show ?thesis by (auto simp: nth_append)
  qed
  then have "builder_ok (ns @ [n]) sz bs'" using assms by (simp add: builder_ok_def bs'_def)
  moreover have "addNibble n (?i, bs) = (length (ns @ [n]), bs')"
    by (simp add: addNibble_def bs'_def even_iff_mod_2_eq_zero)
  ultimately show ?thesis by blast
qed

lemma addNibbles_ok:
  assumes "builder_ok ns sz bs" "length ns + tp_size p \<le> sz"
  shows "\<exists>bs'. addNibbles p (length ns, bs) = (length ns + tp_size p, bs')
    \<and> builder_ok (ns @ map (nibbleAt p) [0..<tp_size p]) sz bs'"
proof -
  have n4: "take_bit 4 (nibbleAt p i) = nibbleAt p i" for i
    using nibbleAt_bound [of p i] by (simp add: take_bit_word_eq_self_iff_unat)
  have "\<exists>bs'. fold (\<lambda>i. addNibble (nibbleAt p i)) [0..<k] (length ns, bs) = (length ns + k, bs')
      \<and> builder_ok (ns @ map (nibbleAt p) [0..<k]) sz bs'" if "k \<le> tp_size p" for k
    using that
  proof (induction k)
    case (Suc k)
    then obtain bs1 where b: "fold (\<lambda>i. addNibble (nibbleAt p i)) [0..<k] (length ns, bs) = (length ns + k, bs1)"
        "builder_ok (ns @ map (nibbleAt p) [0..<k]) sz bs1" by auto
    from addNibble_ok [OF b(2) _ n4 [of k]] Suc.prems assms(2) b(1) show ?case by simp
  qed (use assms(1) in simp)
  then show ?thesis unfolding addNibbles_def by blast
qed

lemma builder_start: "builder_ok [] sz (replicate ((sz + 1) div 2) 0)"
  by (simp add: builder_ok_def builder_nibble_def)

lemma builder_path:
  assumes "builder_ok ns sz bs" "length ns = sz"
  shows "path_ok (make_path bs 0 sz)" "nibbles_of (make_path bs 0 sz) = map unat ns"
proof -
  have len: "(0 + sz + 1) div 2 \<le> length bs" using assms by (simp add: builder_ok_def)
  then show "path_ok (make_path bs 0 sz)" by (rule make_path_ok)
  show "nibbles_of (make_path bs 0 sz) = map unat ns"
  proof (rule nth_equalityI)
    show "length (nibbles_of (make_path bs 0 sz)) = length (map unat ns)" using assms(2) by (simp add: make_path_def)
    fix i assume "i < length (nibbles_of (make_path bs 0 sz))"
    then have i: "i < sz" by (simp add: make_path_def)
    have "nibbleAt (make_path bs 0 sz) i = builder_nibble bs i"
      using make_path_nibbleAt [OF i len] by (simp add: builder_nibble_def Let_def)
    with assms i show "nibbles_of (make_path bs 0 sz) ! i = map unat ns ! i"
      by (simp add: nth_nibbles_of builder_ok_def make_path_def)
  qed
qed

lemma map_unat_nibbles: "map (\<lambda>i. unat (nibbleAt p i)) [0..<tp_size p] = nibbles_of p"
  by (simp add: nibbles_of_def)

lemma path_Join_nibbles:
  "path_ok (path_Join l r)" "nibbles_of (path_Join l r) = nibbles_of l @ nibbles_of r"
proof -
  let ?sz = "tp_size l + tp_size r"
  obtain b1 where b1: "addNibbles l (0, replicate ((?sz + 1) div 2) 0) = (tp_size l, b1)"
      "builder_ok (map (nibbleAt l) [0..<tp_size l]) ?sz b1"
    using addNibbles_ok [OF builder_start [of ?sz], of l] by auto
  obtain b2 where b2: "addNibbles r (tp_size l, b1) = (?sz, b2)"
      "builder_ok (map (nibbleAt l) [0..<tp_size l] @ map (nibbleAt r) [0..<tp_size r]) ?sz b2"
    using addNibbles_ok [OF b1(2), of r] by auto
  show "path_ok (path_Join l r)" "nibbles_of (path_Join l r) = nibbles_of l @ nibbles_of r"
    using builder_path [OF b2(2)] b1(1) b2(1) by (simp_all add: path_Join_def map_unat_nibbles comp_def)
qed

lemma path_Join_nibble_nibbles:
  assumes "n < 16"
  shows "path_ok (path_Join_nibble l (of_nat n) r)"
    "nibbles_of (path_Join_nibble l (of_nat n) r) = nibbles_of l @ n # nibbles_of r"
proof -
  let ?sz = "tp_size l + 1 + tp_size r" and ?n = "of_nat n :: byte"
  have n: "unat ?n = n" using assms by (simp add: unat_of_nat)
  have n4: "take_bit 4 ?n = ?n" using assms n by (simp add: take_bit_word_eq_self_iff_unat)
  obtain b1 where b1: "addNibbles l (0, replicate ((?sz + 1) div 2) 0) = (tp_size l, b1)"
      "builder_ok (map (nibbleAt l) [0..<tp_size l]) ?sz b1"
    using addNibbles_ok [OF builder_start [of ?sz], of l] by auto
  obtain b2 where b2: "addNibble ?n (tp_size l, b1) = (tp_size l + 1, b2)"
      "builder_ok (map (nibbleAt l) [0..<tp_size l] @ [?n]) ?sz b2"
    using addNibble_ok [OF b1(2) _ n4] by auto
  obtain b3 where b3: "addNibbles r (tp_size l + 1, b2) = (?sz, b3)"
      "builder_ok ((map (nibbleAt l) [0..<tp_size l] @ [?n]) @ map (nibbleAt r) [0..<tp_size r]) ?sz b3"
    using addNibbles_ok [OF b2(2), of r] by auto
  show "path_ok (path_Join_nibble l ?n r)" "nibbles_of (path_Join_nibble l ?n r) = nibbles_of l @ n # nibbles_of r"
    using builder_path [OF b3(2)] b1(1) b2(1) b3(1) n by (simp_all add: path_Join_nibble_def map_unat_nibbles comp_def)
qed

subsection \<open>The encoding\<close>

text \<open>The hex-prefix encoding: a flag byte, with the first nibble of an odd path, then pairs.\<close>

fun nibble_pairs :: "nibbles \<Rightarrow> byte list" where
  "nibble_pairs (a # b # ns) = of_nat (16 * a + b) # nibble_pairs ns"
| "nibble_pairs _ = []"

definition hex_prefix :: "bool \<Rightarrow> nibbles \<Rightarrow> byte list" where
  "hex_prefix isLeaf ns =
     (if even (length ns) then (if isLeaf then 32 else 0) # nibble_pairs ns
      else of_nat ((if isLeaf then 48 else 16) + hd ns) # nibble_pairs (tl ns))"

lemma pair_byte:
  "push_bit 4 (nibbleAt p i) + nibbleAt p j = of_nat (16 * unat (nibbleAt p i) + unat (nibbleAt p j))"
  by (simp add: push_bit_eq_mult)

lemma encode_loop_pairs:
  assumes "even (tp_size p - i)" "length buffer = 8" "counter < 8"
  shows "encode_loop p i buffer counter out = out @ take counter buffer @ nibble_pairs (drop i (nibbles_of p))"
  using assms
proof (induction p i buffer counter out rule: encode_loop.induct)
  case (1 p i buffer counter out)
  show ?case
  proof (cases "i < tp_size p")
    case True
    then have i1: "Suc i < tp_size p" using 1(3) by presburger
    let ?b = "push_bit 4 (nibbleAt p i) + nibbleAt p (i + 1)"
    have dr: "drop i (nibbles_of p) = unat (nibbleAt p i) # unat (nibbleAt p (Suc i)) # drop (i + 2) (nibbles_of p)"
      using i1 by (simp add: Cons_nth_drop_Suc [symmetric] nth_nibbles_of)
    have ev: "even (tp_size p - (i + 2))" using 1(3) i1 by simp
    have len: "length (buffer[counter := ?b]) = 8" using 1(4) by simp
    have tk: "take (Suc counter) (buffer[counter := ?b]) = take counter buffer @ [?b]"
      using 1(4,5) by (simp add: take_Suc_conv_app_nth)
    show ?thesis
    proof (cases "8 = counter + 1")
      case full: True
      then have "buffer[counter := ?b] = take counter buffer @ [?b]" using tk len by simp
      with 1(1) True full ev len dr show ?thesis
        by (subst encode_loop.simps) (simp add: pair_byte)
    next
      case False
      with 1(2) True ev len dr tk 1(5) show ?thesis
        by (subst encode_loop.simps) (simp add: pair_byte)
    qed
  qed (simp add: encode_loop.simps [of p i])
qed

lemma flag_byte: "n < 16 \<Longrightarrow> (if isLeaf then 0x20 else 0) OR 0x10 OR of_nat n = (of_nat ((if isLeaf then 48 else 16) + n) :: byte)"
proof -
  assume "n < 16"
  then have "n \<in> set [0..<16]" by simp
  moreover have "\<forall>n \<in> set [0..<16]. (if isLeaf then 0x20 else 0) OR 0x10 OR of_nat n = (of_nat ((if isLeaf then 48 else 16) + n) :: byte)"
    by (cases isLeaf; simp only: if_True if_False; code_simp)
  ultimately show ?thesis by blast
qed

lemma buffer_start: "take (Suc 0) ((replicate 8 x)[0 := y]) = [y]"
  by (simp add: numeral_eq_Suc)

lemma UpdateEncodedKey_hex_prefix: "UpdateEncodedKey p isLeaf = hex_prefix isLeaf (nibbles_of p)"
proof (cases "even (tp_size p)")
  case True
  then show ?thesis
    using encode_loop_pairs [of p 0 "(replicate 8 0)[0 := _]" 1 "[]"]
    by (simp add: UpdateEncodedKey_def hex_prefix_def buffer_start even_iff_mod_2_eq_zero)
next
  case False
  then obtain n ns where ns: "nibbles_of p = n # ns" by (cases "nibbles_of p") (auto simp: length_nibbles_of [symmetric] simp del: length_nibbles_of)
  have n: "n = unat (nibbleAt p 0)" "n < 16"
    using ns False nth_nibbles_of [of 0 p] nibbles_of_bound [of n p] by (auto simp: odd_pos)
  have "UpdateEncodedKey p isLeaf = ((if isLeaf then 0x20 else 0) OR 0x10 OR nibbleAt p 0) # nibble_pairs ns"
    using False ns encode_loop_pairs [of p 1 "(replicate 8 0)[0 := _]" 1 "[]"]
    by (simp add: UpdateEncodedKey_def buffer_start odd_iff_mod_2_eq_one)
  moreover have "nibbleAt p 0 = of_nat n" using n(1) by simp
  moreover have "even (length ns)" using False arg_cong [OF ns, of length] by simp
  ultimately show ?thesis using False ns n(2) by (simp add: hex_prefix_def flag_byte)
qed

lemma byte_nat: "n < 256 \<Longrightarrow> unat (of_nat n :: byte) = n"
  by (simp add: unat_of_nat)

lemma nibble_pairs_inject:
  "\<lbrakk>nibble_pairs xs = nibble_pairs ys; even (length xs); even (length ys); \<forall>n \<in> set xs. n < 16; \<forall>n \<in> set ys. n < 16\<rbrakk> \<Longrightarrow> xs = ys"
proof (induction xs arbitrary: ys rule: nibble_pairs.induct)
  case (1 a b ns)
  then obtain c d ms where ys: "ys = c # d # ms" by (cases ys rule: nibble_pairs.cases) auto
  have "16 * a + b < 256" "16 * c + d < 256" using 1 ys by auto
  moreover have "(of_nat (16 * a + b) :: byte) = of_nat (16 * c + d)"
    using 1(2) by (simp only: ys nibble_pairs.simps list.inject)
  then have "unat (of_nat (16 * a + b) :: byte) = unat (of_nat (16 * c + d) :: byte)" by (rule arg_cong)
  ultimately have sum: "16 * a + b = 16 * c + d" by (simp only: byte_nat)
  have "b < 16" "d < 16" using 1(5,6) ys by simp_all
  then have "(16 * a + b) div 16 = a" "(16 * c + d) div 16 = c" by simp_all
  with sum have "a = c" by simp
  moreover from this sum have "b = d" by simp
  moreover have "nibble_pairs ns = nibble_pairs ms" using 1(2) by (simp only: ys nibble_pairs.simps list.inject)
  then have "ns = ms" using 1(1) [of ms] 1(3-6) ys by simp
  ultimately show ?case using ys by simp
next
  case "2_1"
  then show ?case by (cases ys rule: nibble_pairs.cases) auto
qed simp

lemma hex_prefix_inject:
  assumes "hex_prefix l xs @ v = hex_prefix m ys @ w" "length v = length w" "\<forall>n \<in> set xs. n < 16" "\<forall>n \<in> set ys. n < 16"
  shows "l = m \<and> xs = ys \<and> v = w"
proof -
  have eq: "hex_prefix l xs = hex_prefix m ys" "v = w" using assms(1,2) by (auto simp: append_eq_append_conv)
  define f where "f b ns = (if even (length ns) then (if b then 32 else 0) else (if b then 48 else 16) + hd ns :: nat)" for b and ns :: nibbles
  have hd: "hd (hex_prefix b ns) = of_nat (f b ns)" for b ns by (simp add: hex_prefix_def f_def)
  have bound: "f b ns < 256 \<and> (odd (length ns) \<longrightarrow> hd ns < 16)" if "\<forall>n \<in> set ns. n < 16" for b and ns :: nibbles
    using that by (cases ns) (auto simp: f_def)
  have "f l xs = f m ys"
    using eq(1) hd bound [OF assms(3), of l] bound [OF assms(4), of m] byte_nat by metis
  then have lm: "l = m" "even (length xs) = even (length ys)" "odd (length xs) \<Longrightarrow> hd xs = hd ys"
    using bound [OF assms(3), of l] bound [OF assms(4), of m] by (auto simp: f_def split: if_splits)
  have "xs = ys"
  proof (cases "even (length xs)")
    case True
    then show ?thesis using nibble_pairs_inject [of xs ys] eq(1) lm assms(3,4) by (simp add: hex_prefix_def)
  next
    case False
    then obtain x xs' y ys' where "xs = x # xs'" "ys = y # ys'" using lm(2) by (cases xs; cases ys) auto
    then show ?thesis using False nibble_pairs_inject [of xs' ys'] eq(1) lm assms(3,4) by (simp add: hex_prefix_def)
  qed
  with lm eq show ?thesis by simp
qed

subsection \<open>Properties\<close>

text \<open>
  The packed representation refines lists of nibbles: the subpath, the two joins, the
  comparison and the first difference compute on packed paths what the list operations compute on
  their nibbles, wherever the paths start within a byte.
\<close>

theorem path_refinement:
  assumes "path_ok p" "offset + sz \<le> tp_size p" "n < 16"
  shows "nibbles_of (subpath_size p offset sz) = take sz (drop offset (nibbles_of p))
    \<and> nibbles_of (subpath p offset) = drop offset (nibbles_of p)
    \<and> nibbles_of (path_Join p q) = nibbles_of p @ nibbles_of q
    \<and> nibbles_of (path_Join_nibble p (of_nat n) q) = nibbles_of p @ n # nibbles_of q
    \<and> FindFirstDifferenceIndex p q = common_prefix (nibbles_of p) (nibbles_of q)
    \<and> (path_equal p q \<longleftrightarrow> nibbles_of p = nibbles_of q)
    \<and> path_ok (subpath_size p offset sz) \<and> path_ok (path_Join p q)"
  using subpath_size_nibbles [OF assms(1,2)] subpath_size_nibbles(2) [OF assms(1), of offset "tp_size p - offset"]
    assms(2,3) path_Join_nibbles [of p q] path_Join_nibble_nibbles(2) [OF assms(3)] FindFirstDifferenceIndex_prefix path_equal_nibbles
  by (simp add: subpath_def)

theorem path_refinement_witness:
  "path_ok (subpath (key_path [0x12, 0x34, 0x56]) 1)
    \<and> nibbles_of (subpath_size (subpath (key_path [0x12, 0x34, 0x56]) 1) 1 3) = [3, 4, 5]"
proof -
  have ok: "path_ok (subpath (key_path [0x12, 0x34, 0x56]) 1)" by code_simp
  have n: "nibbles_of (subpath (key_path [0x12, 0x34, 0x56]) 1) = [2, 3, 4, 5, 6]" by code_simp
  have "1 + 3 \<le> tp_size (subpath (key_path [0x12, 0x34, 0x56]) 1)" by code_simp
  from path_refinement [OF ok this, of 0] ok n show ?thesis by simp
qed

text \<open>
  The buffered encoder feeds the hash with the hex-prefix encoding of the nibbles of the path,
  and that encoding, followed by data of known length, determines the kind of the node, the path and the data.
\<close>

theorem encoded_key:
  "UpdateEncodedKey p isLeaf = hex_prefix isLeaf (nibbles_of p)
    \<and> (UpdateEncodedKey p isLeaf @ v = UpdateEncodedKey q isLeaf' @ w \<and> length v = length w
        \<longrightarrow> isLeaf = isLeaf' \<and> nibbles_of p = nibbles_of q \<and> v = w)"
  using hex_prefix_inject [of isLeaf "nibbles_of p" v isLeaf' "nibbles_of q" w] nibbles_of_bound
  by (auto simp: UpdateEncodedKey_hex_prefix)

theorem encoded_key_witness:
  "UpdateEncodedKey (key_path [0x12]) True @ [7] = UpdateEncodedKey (key_path [0x12]) True @ [7]
    \<and> hex_prefix True [1, 2] = [0x20, 0x12]"
proof -
  have "nibbles_of (key_path [0x12]) = [1, 2]" "UpdateEncodedKey (key_path [0x12]) True = [0x20, 0x12]" by code_simp+
  with encoded_key [of "key_path [0x12]" True "[7]" "key_path [0x12]" True "[7]"] show ?thesis by simp
qed

end
