(* ===== verification/Patricia_Tree.thy ===== *)
theory Patricia_Tree
  imports Tree_Path
begin

section \<open>TreeNode and PatriciaTree\<close>

text \<open>
  The state tree, \<^verbatim>\<open>src/src/bitxorcore/tree/TreeNode.{h,cpp}\<close>, \<^verbatim>\<open>PatriciaTree.h\<close>, \<^verbatim>\<open>MemoryDataSource.{h,cpp}\<close> and
  \<^verbatim>\<open>ReadThroughMemoryDataSource.h\<close>.  Paths are lists of nibbles (see \<open>Tree_Path\<close>).  The hash
  function is the parameter \<open>H\<close>, the data source a tree reads from the parameter \<open>get\<close>; a
  branch links to a child by its hash, by the child itself in memory, or both, as in the code.  The
  cached hashes are not stored: a hash is a function of the node.  Reading a nibble past the end of
  a path, undefined in the code, is the result \<open>None\<close>.  The results: on trees whose keys have one
  length, \<open>tree_set\<close>, \<open>tree_unset\<close> and \<open>tree_lookup\<close> read and update the map from keys to values
  that the tree holds, and the root hash depends on that map alone.
\<close>

subsection \<open>Nodes\<close>

datatype tree_node =
  Empty_Node
| Leaf_Node nibbles hash256
| Branch_Node nibbles "hash256 list" "tree_node option list" "bool list"

text \<open>
  The fields of a branch: its path, \<^verbatim>\<open>m_links\<close>, \<^verbatim>\<open>m_linkedNodes\<close> and \<^verbatim>\<open>m_linkSet\<close>, each with one entry for
  each of the sixteen nibbles.
\<close>

definition Max_Links :: nat where
  "Max_Links = 16"

definition new_branch :: "nibbles \<Rightarrow> tree_node" where
  "new_branch p = Branch_Node p (replicate Max_Links 0) (replicate Max_Links None) (replicate Max_Links False)"

fun node_path :: "tree_node \<Rightarrow> nibbles" where
  "node_path Empty_Node = []"
| "node_path (Leaf_Node p v) = p"
| "node_path (Branch_Node p ls ns bs) = p"

fun isBranch :: "tree_node \<Rightarrow> bool" where
  "isBranch (Branch_Node p ls ns bs) = True"
| "isBranch _ = False"

definition hash_bytes :: "hash256 \<Rightarrow> byte list" where
  "hash_bytes h = map (\<lambda>i. ucast (drop_bit (8 * (31 - i)) h)) [0..<32]"

primrec node_hash :: "(byte list \<Rightarrow> hash256) \<Rightarrow> tree_node \<Rightarrow> hash256" where
  "node_hash H Empty_Node = 0"
| "node_hash H (Leaf_Node p v) = H (hex_prefix True p @ hash_bytes v)"
| "node_hash H (Branch_Node p ls ns bs) =
     H (hex_prefix False p @ concat (map hash_bytes
       (map2 (\<lambda>l n. case n of None \<Rightarrow> l | Some h \<Rightarrow> h) ls (map (map_option (node_hash H)) ns))))"

fun hasLink :: "tree_node \<Rightarrow> nat \<Rightarrow> bool" where
  "hasLink (Branch_Node p ls ns bs) i = bs ! i"
| "hasLink _ i = False"

fun numLinks :: "tree_node \<Rightarrow> nat" where
  "numLinks (Branch_Node p ls ns bs) = length (filter id bs)"
| "numLinks _ = 0"

fun hasLinkedNode :: "tree_node \<Rightarrow> nat \<Rightarrow> bool" where
  "hasLinkedNode (Branch_Node p ls ns bs) i = (ns ! i \<noteq> None)"
| "hasLinkedNode _ i = False"

fun link :: "(byte list \<Rightarrow> hash256) \<Rightarrow> tree_node \<Rightarrow> nat \<Rightarrow> hash256" where
  "link H (Branch_Node p ls ns bs) i = (case ns ! i of Some n \<Rightarrow> node_hash H n | None \<Rightarrow> ls ! i)"
| "link H _ i = 0"

fun linkedNode :: "tree_node \<Rightarrow> nat \<Rightarrow> tree_node" where
  "linkedNode (Branch_Node p ls ns bs) i = (case ns ! i of Some n \<Rightarrow> n | None \<Rightarrow> Empty_Node)"
| "linkedNode _ i = Empty_Node"

text \<open>The binary logarithm of the link set read as a number: its highest member.\<close>

fun highestLinkIndex :: "tree_node \<Rightarrow> nat" where
  "highestLinkIndex (Branch_Node p ls ns bs) = last (filter (\<lambda>i. bs ! i) [0..<Max_Links])"
| "highestLinkIndex _ = 0"

fun setPath :: "tree_node \<Rightarrow> nibbles \<Rightarrow> tree_node result" where
  "setPath Empty_Node p' = Err Runtime_Error"
| "setPath (Leaf_Node p v) p' = Ok (Leaf_Node p' v)"
| "setPath (Branch_Node p ls ns bs) p' = Ok (Branch_Node p' ls ns bs)"

fun setLink_hash :: "tree_node \<Rightarrow> hash256 \<Rightarrow> nat \<Rightarrow> tree_node" where
  "setLink_hash (Branch_Node p ls ns bs) h i = Branch_Node p (ls[i := h]) (ns[i := None]) (bs[i := True])"
| "setLink_hash n h i = n"

fun setLink_node :: "tree_node \<Rightarrow> tree_node \<Rightarrow> nat \<Rightarrow> tree_node" where
  "setLink_node (Branch_Node p ls ns bs) n i = Branch_Node p ls (ns[i := Some n]) (bs[i := True])"
| "setLink_node m n i = m"

fun resetLink :: "tree_node \<Rightarrow> nat \<Rightarrow> tree_node" where
  "resetLink (Branch_Node p ls ns bs) i = Branch_Node p ls ns (bs[i := False])"
| "resetLink n i = n"

definition clearLink :: "tree_node \<Rightarrow> nat \<Rightarrow> tree_node" where
  "clearLink b i = resetLink (setLink_hash b 0 i) i"

fun compactLinks :: "(byte list \<Rightarrow> hash256) \<Rightarrow> tree_node \<Rightarrow> tree_node" where
  "compactLinks H (Branch_Node p ls ns bs) =
     Branch_Node p (map2 (\<lambda>l n. case n of None \<Rightarrow> l | Some c \<Rightarrow> node_hash H c) ls ns) (map (\<lambda>_. None) ns) bs"
| "compactLinks H n = n"

subsection \<open>Data sources\<close>

record memory_data_source =
  m_leafNodes :: "hash256 \<rightharpoonup> tree_node"
  m_branchNodes :: "hash256 \<rightharpoonup> tree_node"

definition mds_get :: "memory_data_source \<Rightarrow> hash256 \<Rightarrow> tree_node" where
  "mds_get ds h = (case m_leafNodes ds h of Some n \<Rightarrow> n
     | None \<Rightarrow> (case m_branchNodes ds h of Some n \<Rightarrow> n | None \<Rightarrow> Empty_Node))"

definition emplace :: "hash256 \<Rightarrow> tree_node \<Rightarrow> (hash256 \<rightharpoonup> tree_node) \<Rightarrow> (hash256 \<rightharpoonup> tree_node)" where
  "emplace h n m = (case m h of None \<Rightarrow> m(h \<mapsto> n) | Some _ \<Rightarrow> m)"

definition mds_set_leaf :: "(byte list \<Rightarrow> hash256) \<Rightarrow> tree_node \<Rightarrow> memory_data_source \<Rightarrow> memory_data_source" where
  "mds_set_leaf H n ds = ds\<lparr>m_leafNodes := emplace (node_hash H n) n (m_leafNodes ds)\<rparr>"

definition mds_set_branch :: "(byte list \<Rightarrow> hash256) \<Rightarrow> tree_node \<Rightarrow> memory_data_source \<Rightarrow> memory_data_source" where
  "mds_set_branch H n ds = ds\<lparr>m_branchNodes := emplace (node_hash H n) n (m_branchNodes ds)\<rparr>"

definition mds_clear :: "memory_data_source \<Rightarrow> memory_data_source" where
  "mds_clear ds = \<lparr>m_leafNodes = Map.empty, m_branchNodes = Map.empty\<rparr>"

text \<open>A memory data source in front of a backing one.\<close>

definition read_through_get :: "(hash256 \<Rightarrow> tree_node) \<Rightarrow> memory_data_source \<Rightarrow> hash256 \<Rightarrow> tree_node" where
  "read_through_get backing ds h = (case mds_get ds h of Empty_Node \<Rightarrow> backing h | n \<Rightarrow> n)"

subsection \<open>Setting a value\<close>

definition getLinkedNode :: "(byte list \<Rightarrow> hash256) \<Rightarrow> (hash256 \<Rightarrow> tree_node) \<Rightarrow> tree_node \<Rightarrow> nat \<Rightarrow> tree_node" where
  "getLinkedNode H get b i = (let n = linkedNode b i in if n \<noteq> Empty_Node then n else get (link H b i))"

definition branchLeafNode :: "nibbles \<Rightarrow> hash256 \<Rightarrow> nibbles \<Rightarrow> hash256 \<Rightarrow> tree_node option" where
  "branchLeafNode lp lv key v =
     (let d = common_prefix lp key in
      if d < length lp \<and> d < length key then
        (let b1 = setLink_node (new_branch (take d lp)) (Leaf_Node (drop (d + 1) lp) lv) (lp ! d)
         in Some (setLink_node b1 (Leaf_Node (drop (d + 1) key) v) (key ! d)))
      else None)"

function tree_set :: "(byte list \<Rightarrow> hash256) \<Rightarrow> (hash256 \<Rightarrow> tree_node) \<Rightarrow> tree_node \<Rightarrow> nibbles \<Rightarrow> hash256 \<Rightarrow> tree_node option"
  and updateBranchLink :: "(byte list \<Rightarrow> hash256) \<Rightarrow> (hash256 \<Rightarrow> tree_node) \<Rightarrow> tree_node \<Rightarrow> nibbles \<Rightarrow> hash256 \<Rightarrow> tree_node option"
  and insertNewPairIntoBranch :: "(byte list \<Rightarrow> hash256) \<Rightarrow> (hash256 \<Rightarrow> tree_node) \<Rightarrow> tree_node \<Rightarrow> nibbles \<Rightarrow> nat \<Rightarrow> nibbles \<Rightarrow> hash256 \<Rightarrow> tree_node option" where
  "tree_set H get node key v =
     (case node of
        Empty_Node \<Rightarrow> Some (Leaf_Node key v)
      | Leaf_Node lp lv \<Rightarrow> if lp = key then Some (Leaf_Node key v) else branchLeafNode lp lv key v
      | Branch_Node _ _ _ _ \<Rightarrow> updateBranchLink H get node key v)"
| "updateBranchLink H get b key v =
     (let branchPath = node_path b; d = common_prefix branchPath key in
      if branchPath \<noteq> [] \<and> d = length branchPath
      then insertNewPairIntoBranch H get b [] 0 (drop d key) v
      else insertNewPairIntoBranch H get b branchPath d key v)"
| "insertNewPairIntoBranch H get b branchPath d key v =
     (if d < length key then
        (case tree_set H get (if branchPath = [] then getLinkedNode H get b (key ! 0) else Empty_Node) (drop (d + 1) key) v of
           None \<Rightarrow> None
         | Some updatedNextNode \<Rightarrow>
             if branchPath = [] then Some (setLink_node b updatedNextNode (key ! 0))
             else if d < length branchPath then
               (let newBranchNode = setLink_node (new_branch (take d branchPath)) updatedNextNode (key ! d)
                in case setPath b (drop (d + 1) branchPath) of
                     Err _ \<Rightarrow> None
                   | Ok b' \<Rightarrow> Some (setLink_node newBranchNode b' (branchPath ! d)))
             else None)
      else None)"
  by pat_completeness auto
termination
  by (relation "measure (\<lambda>x. case x of Inl (H, get, node, key, v) \<Rightarrow> 3 * length key + 2
    | Inr (Inl (H, get, b, key, v)) \<Rightarrow> 3 * length key + 1
    | Inr (Inr (H, get, b, bp, d, key, v)) \<Rightarrow> 3 * length key)") auto

subsection \<open>Removing and finding a value\<close>

definition unsetBranchLink :: "(byte list \<Rightarrow> hash256) \<Rightarrow> (hash256 \<Rightarrow> tree_node) \<Rightarrow> tree_node \<Rightarrow> nat \<Rightarrow> tree_node result" where
  "unsetBranchLink H get b i =
     (let b1 = clearLink b i in
      if 1 \<noteq> numLinks b1 then Ok b1
      else let j = highestLinkIndex b1; referencedNode = getLinkedNode H get b1 j
           in setPath referencedNode (node_path b1 @ j # node_path referencedNode))"

datatype unset_result = Not_Found | Unset tree_node bool

text \<open>
  \<^verbatim>\<open>unset\<close> returns whether it found the key and, through its reference arguments, the updated node and
  \<^verbatim>\<open>canMerge\<close>.
\<close>

function tree_unset :: "(byte list \<Rightarrow> hash256) \<Rightarrow> (hash256 \<Rightarrow> tree_node) \<Rightarrow> tree_node \<Rightarrow> nibbles \<Rightarrow> bool \<Rightarrow> unset_result result" where
  "tree_unset H get node key canMerge =
     (if node = Empty_Node then Ok Not_Found
      else let d = common_prefix (node_path node) key in
        if d = length key then Ok (Unset Empty_Node canMerge)
        else if \<not> isBranch node then Ok Not_Found
        else let nextNode = getLinkedNode H get node (key ! d) in
          if nextNode = Empty_Node then Ok Not_Found
          else bind_result (tree_unset H get nextNode (drop (d + 1) key) canMerge) (\<lambda>r.
            case r of
              Not_Found \<Rightarrow> Ok Not_Found
            | Unset updatedNextNode canMerge' \<Rightarrow>
                map_result (\<lambda>n. Unset n False)
                  (if canMerge' then unsetBranchLink H get node (key ! d)
                   else Ok (setLink_node node updatedNextNode (key ! d)))))"
  by pat_completeness auto
termination
  by (relation "measure (\<lambda>(H, get, node, key, c). length key)")
    (use common_prefix_le(2) le_neq_implies_less in \<open>fastforce simp: Let_def\<close>)+

function tree_lookup :: "(byte list \<Rightarrow> hash256) \<Rightarrow> (hash256 \<Rightarrow> tree_node) \<Rightarrow> tree_node \<Rightarrow> nibbles \<Rightarrow> ((hash256 \<times> bool) \<times> tree_node list) option" where
  "tree_lookup H get node key =
     (if node = Empty_Node then Some ((0, False), [])
      else let d = common_prefix (node_path node) key in
        case node of
          Leaf_Node _ v \<Rightarrow> Some (if d = length key then (v, True) else (0, False), [node])
        | _ \<Rightarrow>
          if d < length key then
            (let nextNode = getLinkedNode H get node (key ! d) in
             if nextNode = Empty_Node then Some ((0, False), [node])
             else map_option (\<lambda>r. (fst r, node # snd r)) (tree_lookup H get nextNode (drop (d + 1) key)))
          else None)"
  by pat_completeness auto
termination by (relation "measure (\<lambda>(H, get, node, key). length key)") auto

subsection \<open>Saving and loading\<close>

text \<open>\<^verbatim>\<open>saveAll\<close> of a node: its linked nodes first, then the node with hash links only.\<close>

primrec tree_save :: "(byte list \<Rightarrow> hash256) \<Rightarrow> tree_node \<Rightarrow> memory_data_source \<Rightarrow> memory_data_source result" where
  "tree_save H Empty_Node = (\<lambda>ds. Err Runtime_Error)"
| "tree_save H (Leaf_Node p v) = (\<lambda>ds. Ok (mds_set_leaf H (Leaf_Node p v) ds))"
| "tree_save H (Branch_Node p ls ns bs) = (\<lambda>ds.
     map_result (mds_set_branch H (compactLinks H (Branch_Node p ls ns bs)))
       (fold_result (\<lambda>f ds. case f of None \<Rightarrow> Ok ds | Some g \<Rightarrow> g ds) (map (map_option (tree_save H)) ns) ds))"

definition tree_saveAll :: "(byte list \<Rightarrow> hash256) \<Rightarrow> tree_node \<Rightarrow> memory_data_source \<Rightarrow> memory_data_source result" where
  "tree_saveAll H rootNode ds = (if rootNode = Empty_Node then Ok ds else tree_save H rootNode ds)"

definition tree_tryLoad :: "(hash256 \<Rightarrow> tree_node) \<Rightarrow> hash256 \<Rightarrow> tree_node \<Rightarrow> tree_node \<times> bool" where
  "tree_tryLoad get rootHash rootNode =
     (let n = get rootHash in if n = Empty_Node then (rootNode, False) else (n, True))"

declare tree_set.simps [simp del] updateBranchLink.simps [simp del] insertNewPairIntoBranch.simps [simp del]
  tree_unset.simps [simp del] tree_lookup.simps [simp del]

subsection \<open>The map a tree holds\<close>

text \<open>The value of a key, found by following links only where the path of the branch matches the key.\<close>

function tree_find :: "(byte list \<Rightarrow> hash256) \<Rightarrow> (hash256 \<Rightarrow> tree_node) \<Rightarrow> tree_node \<Rightarrow> nibbles \<Rightarrow> hash256 option" where
  "tree_find H get node key =
     (case node of
        Empty_Node \<Rightarrow> None
      | Leaf_Node p v \<Rightarrow> if p = key then Some v else None
      | Branch_Node p ls ns bs \<Rightarrow>
          if length p < length key \<and> take (length p) key = p
          then tree_find H get (getLinkedNode H get node (key ! length p)) (drop (length p + 1) key)
          else None)"
  by pat_completeness auto
termination by (relation "measure (\<lambda>(H, get, node, key). length key)") auto

declare tree_find.simps [simp del]

lemma tree_find_simps [simp]:
  "tree_find H get Empty_Node key = None"
  "tree_find H get (Leaf_Node p v) key = (if p = key then Some v else None)"
  "tree_find H get (Branch_Node p ls ns bs) key =
     (if length p < length key \<and> take (length p) key = p
      then tree_find H get (getLinkedNode H get (Branch_Node p ls ns bs) (key ! length p)) (drop (length p + 1) key)
      else None)"
  by (simp_all add: tree_find.simps [of H get _ key])

lemma tree_set_simps [simp]:
  "tree_set H get Empty_Node key v = Some (Leaf_Node key v)"
  "tree_set H get (Leaf_Node lp lv) key v = (if lp = key then Some (Leaf_Node key v) else branchLeafNode lp lv key v)"
  "tree_set H get (Branch_Node p ls ns bs) key v = updateBranchLink H get (Branch_Node p ls ns bs) key v"
  by (simp_all add: tree_set.simps [of H get _ key])

definition branch_shape :: "nibbles \<Rightarrow> hash256 list \<Rightarrow> tree_node option list \<Rightarrow> bool list \<Rightarrow> bool" where
  "branch_shape p ls ns bs \<longleftrightarrow> length ls = Max_Links \<and> length ns = Max_Links \<and> length bs = Max_Links
     \<and> (\<forall>x \<in> set p. x < Max_Links) \<and> Some Empty_Node \<notin> set ns
     \<and> (\<forall>i < Max_Links. \<not> bs ! i \<longrightarrow> ls ! i = 0 \<and> ns ! i = None)"

text \<open>
  A tree of depth \<open>n\<close>: all its keys have \<open>n\<close> nibbles, every branch has at least two links
  and every link leads to a tree of the remaining depth.
\<close>

inductive tree_ok :: "(byte list \<Rightarrow> hash256) \<Rightarrow> (hash256 \<Rightarrow> tree_node) \<Rightarrow> nat \<Rightarrow> tree_node \<Rightarrow> bool"
  for H :: "byte list \<Rightarrow> hash256" and get :: "hash256 \<Rightarrow> tree_node" where
  leaf_ok: "\<forall>x \<in> set p. x < Max_Links \<Longrightarrow> tree_ok H get (length p) (Leaf_Node p v)"
| branch_ok: "branch_shape p ls ns bs \<Longrightarrow> 2 \<le> length (filter id bs)
    \<Longrightarrow> (\<And>i. i < Max_Links \<Longrightarrow> bs ! i \<Longrightarrow> tree_ok H get k (getLinkedNode H get (Branch_Node p ls ns bs) i))
    \<Longrightarrow> tree_ok H get (length p + 1 + k) (Branch_Node p ls ns bs)"

inductive_cases tree_ok_leafE: "tree_ok H get n (Leaf_Node p v)"
inductive_cases tree_ok_branchE: "tree_ok H get n (Branch_Node p ls ns bs)"

lemma tree_ok_not_empty: "tree_ok H get n node \<Longrightarrow> node \<noteq> Empty_Node"
  by (auto elim: tree_ok.cases)

definition links :: "bool list \<Rightarrow> nat set" where
  "links bs = {i. i < length bs \<and> bs ! i}"

lemma numLinks_card: "length (filter id bs) = card (links bs)"
  by (simp add: length_filter_conv_card links_def)

lemma links_update: "i < length bs \<Longrightarrow> links (bs[i := True]) = insert i (links bs)"
  "i < length bs \<Longrightarrow> links (bs[i := False]) = links bs - {i}"
  by (auto simp: links_def nth_list_update)

lemma finite_links: "finite (links bs)"
  by (simp add: links_def)

lemma common_prefix_take: "take (common_prefix xs ys) xs = take (common_prefix xs ys) ys"
  by (induction xs ys rule: common_prefix.induct) auto

lemma common_prefix_nth:
  "common_prefix xs ys < length xs \<Longrightarrow> common_prefix xs ys < length ys \<Longrightarrow> xs ! common_prefix xs ys \<noteq> ys ! common_prefix xs ys"
  by (induction xs ys rule: common_prefix.induct) auto

lemma common_prefix_less: "length xs = length ys \<Longrightarrow> xs \<noteq> ys \<Longrightarrow> common_prefix xs ys < length xs"
  using common_prefix_full [of xs ys] common_prefix_le(1) [of xs ys] by linarith

lemma common_prefix_eq_length: "common_prefix xs ys = length xs \<longleftrightarrow> take (length xs) ys = xs"
  by (induction xs ys rule: common_prefix.induct) auto

lemma list_split_eq:
  "d < length xs \<Longrightarrow> d < length ys \<Longrightarrow>
    xs = ys \<longleftrightarrow> take d xs = take d ys \<and> xs ! d = ys ! d \<and> drop (d + 1) xs = drop (d + 1) ys"
  by (metis Suc_eq_plus1 id_take_nth_drop)

text \<open>The interface of a data source: what it returns has the requested hash, and nothing has the zero hash.\<close>

locale data_source =
  fixes H :: "byte list \<Rightarrow> hash256" and get :: "hash256 \<Rightarrow> tree_node"
  assumes get_hash: "get h \<noteq> Empty_Node \<Longrightarrow> node_hash H (get h) = h"
    and get_zero: "get 0 = Empty_Node"
begin

lemma no_link:
  assumes "branch_shape p ls ns bs" "i < Max_Links" "\<not> bs ! i"
  shows "getLinkedNode H get (Branch_Node p ls ns bs) i = Empty_Node"
  using assms by (simp add: branch_shape_def getLinkedNode_def get_zero)

lemma linked_setLink:
  assumes "branch_shape p ls ns bs" "i < Max_Links" "j < Max_Links" "n \<noteq> Empty_Node"
  shows "getLinkedNode H get (setLink_node (Branch_Node p ls ns bs) n i) j
    = (if j = i then n else getLinkedNode H get (Branch_Node p ls ns bs) j)"
  using assms by (auto simp: branch_shape_def getLinkedNode_def nth_list_update Let_def split: option.splits)

lemma linked_setPath: "getLinkedNode H get (Branch_Node p' ls ns bs) j = getLinkedNode H get (Branch_Node p ls ns bs) j"
  by (simp add: getLinkedNode_def Let_def split: option.splits)

lemma shape_setLink:
  assumes "branch_shape p ls ns bs" "i < Max_Links" "n \<noteq> Empty_Node"
  shows "branch_shape p ls (ns[i := Some n]) (bs[i := True])"
proof -
  have "Some Empty_Node \<notin> set (ns[i := Some n])"
    using assms set_update_subset_insert [of ns i "Some n"] by (auto simp: branch_shape_def)
  with assms show ?thesis by (auto simp: branch_shape_def nth_list_update)
qed

lemma tree_ok_setLink:
  assumes ok: "branch_shape p ls ns bs" "card (links (bs[i := True])) \<ge> 2" "i < Max_Links"
    and children: "\<And>j. j < Max_Links \<Longrightarrow> bs ! j \<Longrightarrow> j \<noteq> i \<Longrightarrow> tree_ok H get k (getLinkedNode H get (Branch_Node p ls ns bs) j)"
    and n: "tree_ok H get k n"
  shows "tree_ok H get (length p + 1 + k) (setLink_node (Branch_Node p ls ns bs) n i)"
proof -
  have ne: "n \<noteq> Empty_Node" using tree_ok_not_empty [OF n] .
  have len: "length bs = Max_Links" using ok(1) by (simp add: branch_shape_def)
  have "tree_ok H get k (getLinkedNode H get (Branch_Node p ls (ns[i := Some n]) (bs[i := True])) j)"
    if "j < Max_Links" "bs[i := True] ! j" for j
    using linked_setLink [OF ok(1,3) that(1) ne] children [OF that(1)] n that len by (cases "j = i") auto
  then show ?thesis
    using tree_ok.branch_ok [OF shape_setLink [OF ok(1,3) ne]] ok(2) by (simp add: numLinks_card)
qed

lemma find_setLink:
  assumes "branch_shape p ls ns bs" "i < Max_Links" "n \<noteq> Empty_Node" "\<forall>x \<in> set key. x < Max_Links"
  shows "tree_find H get (setLink_node (Branch_Node p ls ns bs) n i) key =
    (if length p < length key \<and> take (length p) key = p \<and> key ! length p = i then tree_find H get n (drop (length p + 1) key)
     else tree_find H get (Branch_Node p ls ns bs) key)"
proof (cases "length p < length key \<and> take (length p) key = p")
  case True
  then have "key ! length p < Max_Links" using assms(4) by simp
  from linked_setLink [OF assms(1,2) this assms(3)] True show ?thesis
    by simp
qed auto

lemma new_branch_shape: "\<forall>x \<in> set p. x < Max_Links \<Longrightarrow>
    branch_shape p (replicate Max_Links 0) (replicate Max_Links None) (replicate Max_Links False)"
  by (simp add: branch_shape_def)

text \<open>A new branch with two links.\<close>

lemma two_links:
  assumes p: "\<forall>x \<in> set p. x < Max_Links" and ij: "i < Max_Links" "j < Max_Links" "i \<noteq> j"
    and ok: "tree_ok H get k m" "tree_ok H get k n"
  defines "b \<equiv> setLink_node (setLink_node (new_branch p) m i) n j"
  shows "tree_ok H get (length p + 1 + k) b"
    and "\<forall>x \<in> set key. x < Max_Links \<Longrightarrow> tree_find H get b key =
      (if length p < length key \<and> take (length p) key = p then
         (if key ! length p = i then tree_find H get m (drop (length p + 1) key)
          else if key ! length p = j then tree_find H get n (drop (length p + 1) key) else None)
       else None)"
proof -
  note ne = tree_ok_not_empty [OF ok(1)] tree_ok_not_empty [OF ok(2)]
  let ?ls = "replicate Max_Links 0" and ?ns = "replicate Max_Links None" and ?bs = "replicate Max_Links False"
  note s0 = new_branch_shape [OF p]
  note s1 = shape_setLink [OF s0 ij(1) ne(1)]
  have no: "getLinkedNode H get (Branch_Node p ?ls ?ns ?bs) x = Empty_Node" if "x < Max_Links" for x
    using no_link [OF s0 that] that by simp
  have l0: "links ?bs = {}" by (auto simp: links_def)
  have c1: "getLinkedNode H get (Branch_Node p ?ls (?ns[i := Some m]) (?bs[i := True])) x = (if x = i then m else Empty_Node)"
    if "x < Max_Links" for x
    using linked_setLink [OF s0 ij(1) that ne(1)] no [OF that] by simp
  have card: "card (links (?bs[i := True, j := True])) = 2" using l0 ij by (simp add: links_update)
  have ch: "tree_ok H get k (getLinkedNode H get (Branch_Node p ?ls (?ns[i := Some m]) (?bs[i := True])) x)"
    if "x < Max_Links" "?bs[i := True] ! x" "x \<noteq> j" for x
    using c1 [OF that(1)] that ok(1) by (simp add: nth_list_update split: if_splits)
  show "tree_ok H get (length p + 1 + k) b"
    unfolding b_def new_branch_def using tree_ok_setLink [OF s1 _ ij(2) ch ok(2)] card by simp
  show "tree_find H get b key =
      (if length p < length key \<and> take (length p) key = p then
         (if key ! length p = i then tree_find H get m (drop (length p + 1) key)
          else if key ! length p = j then tree_find H get n (drop (length p + 1) key) else None)
       else None)" if "\<forall>x \<in> set key. x < Max_Links"
    using find_setLink [OF s1 ij(2) ne(2) that] that c1 ij(3)
    unfolding b_def new_branch_def
    by auto
qed

lemma branch_ok_setPath:
  assumes "tree_ok H get (length p + 1 + k) (Branch_Node p ls ns bs)" "\<forall>x \<in> set p'. x < Max_Links"
  shows "tree_ok H get (length p' + 1 + k) (Branch_Node p' ls ns bs)"
proof -
  from assms(1) have b: "branch_shape p ls ns bs" "2 \<le> length (filter id bs)"
      "\<And>i. i < Max_Links \<Longrightarrow> bs ! i \<Longrightarrow> tree_ok H get k (getLinkedNode H get (Branch_Node p ls ns bs) i)"
    by (auto elim: tree_ok_branchE)
  have sh: "branch_shape p' ls ns bs" using b(1) assms(2) by (simp add: branch_shape_def)
  have "tree_ok H get k (getLinkedNode H get (Branch_Node p' ls ns bs) i)" if "i < Max_Links" "bs ! i" for i
    using b(3) [OF that] linked_setPath [of p' ls ns bs i p] by simp
  with sh b(2) show ?thesis by (rule tree_ok.branch_ok)
qed

lemma set_leaf:
  assumes lp: "\<forall>x \<in> set lp. x < Max_Links" and key: "\<forall>x \<in> set key. x < Max_Links" "length key = length lp"
  shows "\<exists>node'. tree_set H get (Leaf_Node lp lv) key v = Some node' \<and> tree_ok H get (length lp) node'
    \<and> (\<forall>k. length k = length lp \<and> (\<forall>x \<in> set k. x < Max_Links)
          \<longrightarrow> tree_find H get node' k = (if k = key then Some v else tree_find H get (Leaf_Node lp lv) k))"
proof (cases "lp = key")
  case True
  have "tree_ok H get (length key) (Leaf_Node key v)" using key(1) by (rule tree_ok.leaf_ok)
  with True show ?thesis by auto
next
  case False
  let ?d = "common_prefix lp key"
  have d: "?d < length lp" using common_prefix_less [OF key(2) [symmetric] False] .
  note cp = common_prefix_take [of lp key] common_prefix_nth [OF d d [folded key(2)]]
  let ?m = "Leaf_Node (drop (?d + 1) lp) lv" and ?n = "Leaf_Node (drop (?d + 1) key) v"
  let ?b = "setLink_node (setLink_node (new_branch (take ?d lp)) ?m (lp ! ?d)) ?n (key ! ?d)"
  have ij: "lp ! ?d < Max_Links" "key ! ?d < Max_Links" "lp ! ?d \<noteq> key ! ?d" using d key lp cp by simp_all
  have p: "\<forall>x \<in> set (take ?d lp). x < Max_Links" using lp by (auto dest: in_set_takeD)
  have ok: "tree_ok H get (length lp - ?d - 1) ?m" "tree_ok H get (length lp - ?d - 1) ?n"
    using tree_ok.leaf_ok [of "drop (?d + 1) lp" H get lv] tree_ok.leaf_ok [of "drop (?d + 1) key" H get v] lp key
    by (auto dest: in_set_dropD)
  note two = two_links [OF p ij ok]
  have set: "tree_set H get (Leaf_Node lp lv) key v = Some ?b"
    using False d key(2) by (simp add: branchLeafNode_def Let_def)
  have "tree_find H get ?b k = (if k = key then Some v else tree_find H get (Leaf_Node lp lv) k)"
    if k: "length k = length lp" "\<forall>x \<in> set k. x < Max_Links" for k
  proof -
    have kd: "?d < length k" "?d < length key" using d k(1) key(2) by simp_all
    have e1: "(lp = k) = (take ?d k = take ?d lp \<and> k ! ?d = lp ! ?d \<and> drop (?d + 1) k = drop (?d + 1) lp)"
      using list_split_eq [OF kd(1) d] by (simp only: eq_commute [of lp k])
    have e2: "(k = key) = (take ?d k = take ?d lp \<and> k ! ?d = key ! ?d \<and> drop (?d + 1) k = drop (?d + 1) key)"
      unfolding cp(1) by (rule list_split_eq [OF kd])
    have len: "length (take ?d lp) = ?d" using d by simp
    show ?thesis unfolding two(2) [OF k(2)] len tree_find_simps e1 e2 using ij(3) kd(1) by auto
  qed
  moreover have "length (take ?d lp) + 1 + (length lp - ?d - 1) = length lp" using d by simp
  ultimately show ?thesis using set two(1) by metis
qed

lemma replace_child:
  assumes ok: "tree_ok H get (length p + 1 + k) (Branch_Node p ls ns bs)" and i: "i < Max_Links" and n: "tree_ok H get k n"
  shows "tree_ok H get (length p + 1 + k) (setLink_node (Branch_Node p ls ns bs) n i)"
    and "length x = length p + 1 + k \<Longrightarrow> \<forall>y \<in> set x. y < Max_Links \<Longrightarrow>
      tree_find H get (setLink_node (Branch_Node p ls ns bs) n i) x
        = (if take (length p) x = p \<and> x ! length p = i then tree_find H get n (drop (length p + 1) x)
           else tree_find H get (Branch_Node p ls ns bs) x)"
proof -
  from ok have b: "branch_shape p ls ns bs" "2 \<le> card (links bs)"
      "\<And>i. i < Max_Links \<Longrightarrow> bs ! i \<Longrightarrow> tree_ok H get k (getLinkedNode H get (Branch_Node p ls ns bs) i)"
    by (auto elim: tree_ok_branchE simp: numLinks_card)
  have "length bs = Max_Links" using b(1) by (simp add: branch_shape_def)
  then have "2 \<le> card (links (bs[i := True]))"
    using b(2) i card_mono [of "insert i (links bs)" "links bs"] finite_links [of bs] by (simp add: links_update subset_insertI)
  then show "tree_ok H get (length p + 1 + k) (setLink_node (Branch_Node p ls ns bs) n i)"
    using tree_ok_setLink [OF b(1) _ i _ n] b(3) by blast
  show "tree_find H get (setLink_node (Branch_Node p ls ns bs) n i) x
        = (if take (length p) x = p \<and> x ! length p = i then tree_find H get n (drop (length p + 1) x)
           else tree_find H get (Branch_Node p ls ns bs) x)"
    if x: "length x = length p + 1 + k" "\<forall>y \<in> set x. y < Max_Links"
    unfolding find_setLink [OF b(1) i tree_ok_not_empty [OF n] x(2)] using x(1) by simp
qed

lemma set_branch_descend:
  assumes ok: "tree_ok H get (length p + 1 + k) (Branch_Node p ls ns bs)" and i: "i < Max_Links"
    and n: "tree_ok H get k n"
    and find: "\<And>x. length x = k \<Longrightarrow> \<forall>y \<in> set x. y < Max_Links \<Longrightarrow> tree_find H get n x
      = (if x = rest then Some v else tree_find H get (getLinkedNode H get (Branch_Node p ls ns bs) i) x)"
  shows "tree_ok H get (length p + 1 + k) (setLink_node (Branch_Node p ls ns bs) n i)"
    and "length x = length p + 1 + k \<Longrightarrow> \<forall>y \<in> set x. y < Max_Links \<Longrightarrow>
      tree_find H get (setLink_node (Branch_Node p ls ns bs) n i) x
        = (if x = p @ i # rest then Some v else tree_find H get (Branch_Node p ls ns bs) x)"
proof -
  note rc = replace_child [OF ok i n]
  show "tree_ok H get (length p + 1 + k) (setLink_node (Branch_Node p ls ns bs) n i)" by (rule rc(1))
  show "tree_find H get (setLink_node (Branch_Node p ls ns bs) n i) x
        = (if x = p @ i # rest then Some v else tree_find H get (Branch_Node p ls ns bs) x)"
    if x: "length x = length p + 1 + k" "\<forall>y \<in> set x. y < Max_Links"
  proof -
    have "(x = p @ i # rest) = (take (length p) x = p \<and> x ! length p = i \<and> drop (length p + 1) x = rest)"
      using x(1) id_take_nth_drop [of "length p" x] by auto
    moreover have "length (drop (length p + 1) x) = k" "\<forall>y \<in> set (drop (length p + 1) x). y < Max_Links"
      using x by (auto dest: in_set_dropD)
    ultimately show ?thesis unfolding rc(2) [OF x] using find [of "drop (length p + 1) x"] x(1) by auto
  qed
qed

lemma find_branch_split:
  assumes "d < length p" "d < length x"
  shows "tree_find H get (Branch_Node p ls ns bs) x =
    (if take d x = take d p \<and> x ! d = p ! d then tree_find H get (Branch_Node (drop (d + 1) p) ls ns bs) (drop (d + 1) x) else None)"
proof -
  let ?p' = "drop (d + 1) p" and ?x' = "drop (d + 1) x"
  have len: "length p = d + 1 + length ?p'" "length x = d + 1 + length ?x'" using assms by auto
  have tk: "take (length p) x = p \<longleftrightarrow> take d x = take d p \<and> x ! d = p ! d \<and> take (length ?p') ?x' = ?p'"
  proof (cases "length p \<le> length x")
    case True
    have "take (length p) x = p \<longleftrightarrow> take d (take (length p) x) = take d p \<and> take (length p) x ! d = p ! d
        \<and> drop (d + 1) (take (length p) x) = drop (d + 1) p"
      by (rule list_split_eq) (use assms True in auto)
    then show ?thesis using assms by (simp add: drop_take min_def)
  next
    case False
    then have "length (take (length p) x) \<noteq> length p" "length (take (length ?p') ?x') \<noteq> length ?p'"
      using assms by (simp_all add: min_def)
    then show ?thesis by metis
  qed
  have "length p < length x \<longleftrightarrow> length ?p' < length ?x'" using len by linarith
  moreover have "?x' ! length ?p' = x ! length p" if "length p < length x" using that assms by (cases p) auto
  moreover have "drop (length ?p' + 1) ?x' = drop (length p + 1) x" using assms by (cases p) auto
  ultimately show ?thesis using tk linked_setPath [of ?p' ls ns bs "x ! length p" p] by auto
qed

lemma set_branch_split:
  assumes ok: "tree_ok H get (length p + 1 + k) (Branch_Node p ls ns bs)"
    and key: "length key = length p + 1 + k" "\<forall>x \<in> set key. x < Max_Links" and d: "common_prefix p key < length p"
  shows "\<exists>node'. tree_set H get (Branch_Node p ls ns bs) key v = Some node' \<and> tree_ok H get (length p + 1 + k) node'
    \<and> (\<forall>x. length x = length p + 1 + k \<and> (\<forall>y \<in> set x. y < Max_Links) \<longrightarrow> tree_find H get node' x
          = (if x = key then Some v else tree_find H get (Branch_Node p ls ns bs) x))"
proof -
  let ?d = "common_prefix p key" and ?b = "Branch_Node p ls ns bs"
  let ?p' = "drop (?d + 1) p" and ?l = "Leaf_Node (drop (?d + 1) key) v"
  let ?b' = "Branch_Node ?p' ls ns bs"
  let ?node = "setLink_node (setLink_node (new_branch (take ?d p)) ?l (key ! ?d)) ?b' (p ! ?d)"
  have pn: "\<forall>x \<in> set p. x < Max_Links" using ok by (auto elim: tree_ok_branchE simp: branch_shape_def)
  have dk: "?d < length key" using d key(1) by simp
  note cp = common_prefix_take [of p key] common_prefix_nth [OF d dk]
  have p: "\<forall>x \<in> set (take ?d p). x < Max_Links" using pn by (auto dest: in_set_takeD)
  have ij: "key ! ?d < Max_Links" "p ! ?d < Max_Links" "key ! ?d \<noteq> p ! ?d" using d dk key(2) pn cp(2) by auto
  have "tree_ok H get (length (drop (?d + 1) key)) ?l"
    using key(2) by (intro tree_ok.leaf_ok) (auto dest: in_set_dropD)
  then have ok1: "tree_ok H get (length p + k - ?d) ?l" using key(1) by simp
  have "tree_ok H get (length ?p' + 1 + k) ?b'" by (rule branch_ok_setPath [OF ok]) (use pn in \<open>auto dest: in_set_dropD\<close>)
  moreover have "length ?p' + 1 + k = length p + k - ?d" using d by simp
  ultimately have ok2: "tree_ok H get (length p + k - ?d) ?b'" by (simp only:)
  note two = two_links [OF p ij ok1 ok2]
  have "updateBranchLink H get ?b key v = insertNewPairIntoBranch H get ?b p ?d key v"
    using d by (simp add: updateBranchLink.simps Let_def)
  then have set: "tree_set H get ?b key v = Some ?node"
    using d dk by (auto simp: insertNewPairIntoBranch.simps Let_def)
  have "tree_find H get ?node x = (if x = key then Some v else tree_find H get ?b x)"
    if x: "length x = length p + 1 + k" "\<forall>y \<in> set x. y < Max_Links" for x
  proof -
    have xd: "?d < length x" "?d < length key" using x(1) d dk by auto
    have e: "(drop (?d + 1) key = drop (?d + 1) x) = (drop (?d + 1) x = drop (?d + 1) key)" by auto
    have e1: "(x = key) = (take ?d x = take ?d p \<and> x ! ?d = key ! ?d \<and> drop (?d + 1) x = drop (?d + 1) key)"
      unfolding cp(1) by (rule list_split_eq [OF xd])
    have len: "length (take ?d p) = ?d" using d by simp
    have "tree_find H get ?b x = (if take ?d x = take ?d p \<and> x ! ?d = p ! ?d then tree_find H get ?b' (drop (?d + 1) x) else None)"
      using find_branch_split [OF d xd(1)] by simp
    then show ?thesis unfolding two(2) [OF x(2)] len e1 using ij(3) xd(1) by (auto simp: e)
  qed
  moreover have "length (take ?d p) + 1 + (length p + k - ?d) = length p + 1 + k" using d by simp
  ultimately show ?thesis using set two(1) by metis
qed

lemma set_branch:
  assumes ok: "tree_ok H get (length p + 1 + k) (Branch_Node p ls ns bs)"
    and IH: "\<And>i rest. i < Max_Links \<Longrightarrow> bs ! i \<Longrightarrow> length rest = k \<Longrightarrow> \<forall>x \<in> set rest. x < Max_Links \<Longrightarrow>
      \<exists>n. tree_set H get (getLinkedNode H get (Branch_Node p ls ns bs) i) rest v = Some n \<and> tree_ok H get k n
        \<and> (\<forall>x. length x = k \<and> (\<forall>y \<in> set x. y < Max_Links) \<longrightarrow> tree_find H get n x
              = (if x = rest then Some v else tree_find H get (getLinkedNode H get (Branch_Node p ls ns bs) i) x))"
    and key: "length key = length p + 1 + k" "\<forall>x \<in> set key. x < Max_Links" and d: "take (length p) key = p"
  shows "\<exists>node'. tree_set H get (Branch_Node p ls ns bs) key v = Some node' \<and> tree_ok H get (length p + 1 + k) node'
    \<and> (\<forall>x. length x = length p + 1 + k \<and> (\<forall>y \<in> set x. y < Max_Links) \<longrightarrow> tree_find H get node' x
          = (if x = key then Some v else tree_find H get (Branch_Node p ls ns bs) x))"
proof -
  let ?b = "Branch_Node p ls ns bs" and ?i = "key ! length p" and ?rest = "drop (length p + 1) key"
  have i: "?i < Max_Links" using key by simp
  have rest: "length ?rest = k" "\<forall>x \<in> set ?rest. x < Max_Links" using key by (auto dest: in_set_dropD)
  have shape: "branch_shape p ls ns bs" using ok by (auto elim: tree_ok_branchE)
  obtain n where n: "tree_set H get (getLinkedNode H get ?b ?i) ?rest v = Some n" "tree_ok H get k n"
      "\<And>x. length x = k \<Longrightarrow> \<forall>y \<in> set x. y < Max_Links \<Longrightarrow>
        tree_find H get n x = (if x = ?rest then Some v else tree_find H get (getLinkedNode H get ?b ?i) x)"
  proof (cases "bs ! ?i")
    case True
    with IH [OF i True rest] that show ?thesis by blast
  next
    case False
    have "tree_ok H get (length ?rest) (Leaf_Node ?rest v)" using rest(2) by (rule tree_ok.leaf_ok)
    with no_link [OF shape i False] rest(1) show ?thesis by (intro that [of "Leaf_Node ?rest v"]) auto
  qed
  have cp: "common_prefix p key = length p" using d by (simp add: common_prefix_eq_length)
  have "updateBranchLink H get ?b key v = insertNewPairIntoBranch H get ?b [] 0 (drop (length p) key) v"
    using cp by (cases "p = []") (simp_all add: updateBranchLink.simps Let_def)
  then have set: "tree_set H get ?b key v = Some (setLink_node ?b n ?i)"
    using n(1) key(1) by (simp add: insertNewPairIntoBranch.simps add.commute)
  have "key = p @ ?i # ?rest" using id_take_nth_drop [of "length p" key] key(1) d by simp
  with set set_branch_descend [OF ok i n(2,3)] show ?thesis by auto
qed

lemma tree_set_ok:
  assumes "tree_ok H get n node" "length key = n" "\<forall>x \<in> set key. x < Max_Links"
  shows "\<exists>node'. tree_set H get node key v = Some node' \<and> tree_ok H get n node'
    \<and> (\<forall>x. length x = n \<and> (\<forall>y \<in> set x. y < Max_Links) \<longrightarrow> tree_find H get node' x
          = (if x = key then Some v else tree_find H get node x))"
  using assms
proof (induction arbitrary: key rule: tree_ok.induct)
  case (leaf_ok p w)
  then show ?case by (intro set_leaf)
next
  case (branch_ok p ls ns bs k)
  have ok: "tree_ok H get (length p + 1 + k) (Branch_Node p ls ns bs)"
    using branch_ok.hyps by (rule tree_ok.branch_ok)
  show ?case
  proof (cases "common_prefix p key < length p")
    case True
    with set_branch_split [OF ok branch_ok.prems] show ?thesis by blast
  next
    case False
    then have "take (length p) key = p" using common_prefix_le(1) [of p key] common_prefix_eq_length [of p key] by linarith
    with set_branch [OF ok branch_ok.IH branch_ok.prems] show ?thesis by blast
  qed
qed

text \<open>
  A key that diverges inside the path of a branch is followed along a wrong link, but then more
  nibbles of it remain than the depth of the subtree, so no leaf can match.
\<close>

lemma lookup_long:
  assumes "tree_ok H get n node" "n < length key" "\<forall>x \<in> set key. x < Max_Links"
  shows "\<exists>ns. tree_lookup H get node key = Some ((0, False), ns)"
  using assms
proof (induction arbitrary: key rule: tree_ok.induct)
  case (leaf_ok p w)
  then show ?case using common_prefix_le(1) [of p key] by (auto simp: tree_lookup.simps [of H get _ key])
next
  case (branch_ok p ls ns bs k)
  let ?b = "Branch_Node p ls ns bs" and ?d = "common_prefix p key"
  have d: "?d \<le> length p" "?d < length key" using common_prefix_le(1) [of p key] branch_ok.prems(1) by auto
  then have i: "key ! ?d < Max_Links" using branch_ok.prems(2) by simp
  show ?case
  proof (cases "bs ! (key ! ?d)")
    case True
    have "k < length (drop (?d + 1) key)" "\<forall>x \<in> set (drop (?d + 1) key). x < Max_Links"
      using d branch_ok.prems by (auto dest: in_set_dropD)
    then obtain ns' where "tree_lookup H get (getLinkedNode H get ?b (key ! ?d)) (drop (?d + 1) key) = Some ((0, False), ns')"
      using branch_ok.IH [OF i True] by blast
    with d show ?thesis by (auto simp: tree_lookup.simps [of H get ?b key] Let_def)
  next
    case False
    with no_link [OF branch_ok.hyps(1) i False] d show ?thesis by (auto simp: tree_lookup.simps [of H get ?b key] Let_def)
  qed
qed

lemma tree_lookup_ok:
  assumes "tree_ok H get n node" "length key = n" "\<forall>x \<in> set key. x < Max_Links"
  shows "\<exists>ns. tree_lookup H get node key = Some (case tree_find H get node key of None \<Rightarrow> (0, False) | Some v \<Rightarrow> (v, True), ns)"
  using assms
proof (induction arbitrary: key rule: tree_ok.induct)
  case (leaf_ok p w)
  then show ?case using common_prefix_full [of p key] by (auto simp: tree_lookup.simps [of H get _ key])
next
  case (branch_ok p ls ns bs k)
  let ?b = "Branch_Node p ls ns bs" and ?d = "common_prefix p key"
  have d: "?d \<le> length p" "?d < length key" using common_prefix_le(1) [of p key] branch_ok.prems(1) by auto
  then have i: "key ! ?d < Max_Links" using branch_ok.prems(2) by simp
  let ?n = "getLinkedNode H get ?b (key ! ?d)"
  have rest: "length (drop (?d + 1) key) = length p + k - ?d" "\<forall>x \<in> set (drop (?d + 1) key). x < Max_Links"
    using d branch_ok.prems by (auto dest: in_set_dropD)
  show ?case
  proof (cases "bs ! (key ! ?d)")
    case False
    with no_link [OF branch_ok.hyps(1) i False] d show ?thesis
      using common_prefix_eq_length [of p key] by (auto simp: tree_lookup.simps [of H get ?b key] Let_def)
  next
    case True
    note ok = branch_ok.hyps(3) [OF i True]
    have step: "tree_lookup H get ?b key = map_option (\<lambda>r. (fst r, ?b # snd r)) (tree_lookup H get ?n (drop (?d + 1) key))"
      using d tree_ok_not_empty [OF ok] by (simp add: tree_lookup.simps [of H get ?b key] Let_def)
    show ?thesis
    proof (cases "?d = length p")
      case True
      then have "length (drop (?d + 1) key) = k" using rest(1) by simp
      from branch_ok.IH [OF i \<open>bs ! (key ! ?d)\<close> this rest(2)] obtain ns' where
        "tree_lookup H get ?n (drop (?d + 1) key)
          = Some (case tree_find H get ?n (drop (?d + 1) key) of None \<Rightarrow> (0, False) | Some v \<Rightarrow> (v, True), ns')" by blast
      moreover have "tree_find H get ?b key = tree_find H get ?n (drop (?d + 1) key)"
        using True branch_ok.prems(1) common_prefix_eq_length [of p key] by simp
      ultimately show ?thesis using step by (intro exI [of _ "?b # ns'"]) (simp del: tree_find_simps)
    next
      case False
      then have "k < length (drop (?d + 1) key)" using rest(1) d by simp
      from lookup_long [OF ok this rest(2)] show ?thesis
        using False step common_prefix_eq_length [of p key] by auto
    qed
  qed
qed

lemma unset_long:
  assumes "tree_ok H get n node" "n < length key" "\<forall>x \<in> set key. x < Max_Links"
  shows "tree_unset H get node key c = Ok Not_Found"
  using assms
proof (induction arbitrary: key rule: tree_ok.induct)
  case (leaf_ok p w)
  then show ?case using common_prefix_le(1) [of p key] by (auto simp: tree_unset.simps [of H get _ key])
next
  case (branch_ok p ls ns bs k)
  let ?b = "Branch_Node p ls ns bs" and ?d = "common_prefix p key"
  have d: "?d \<le> length p" "?d < length key" using common_prefix_le(1) [of p key] branch_ok.prems(1) by auto
  then have i: "key ! ?d < Max_Links" using branch_ok.prems(2) by simp
  show ?case
  proof (cases "bs ! (key ! ?d)")
    case True
    have "k < length (drop (?d + 1) key)" "\<forall>x \<in> set (drop (?d + 1) key). x < Max_Links"
      using d branch_ok.prems by (auto dest: in_set_dropD)
    with branch_ok.IH [OF i True] d show ?thesis by (auto simp: tree_unset.simps [of H get ?b key] Let_def)
  next
    case False
    with no_link [OF branch_ok.hyps(1) i False] d show ?thesis by (auto simp: tree_unset.simps [of H get ?b key] Let_def)
  qed
qed

text \<open>Removing the last but one link merges the branch with its remaining child.\<close>

lemma setPath_join:
  assumes ok: "tree_ok H get k r" and p: "\<forall>x \<in> set p. x < Max_Links" and j: "j < Max_Links"
  shows "\<exists>r'. setPath r (p @ j # node_path r) = Ok r' \<and> tree_ok H get (length p + 1 + k) r'
    \<and> (\<forall>x. tree_find H get r' x = (if length p < length x \<and> take (length p) x = p \<and> x ! length p = j
          then tree_find H get r (drop (length p + 1) x) else None))"
  using ok
proof cases
  case (leaf_ok q v)
  have "tree_ok H get (length (p @ j # q)) (Leaf_Node (p @ j # q) v)"
    using leaf_ok p j by (intro tree_ok.leaf_ok) auto
  moreover have "(p @ j # q = x) = (length p < length x \<and> take (length p) x = p \<and> x ! length p = j \<and> q = drop (length p + 1) x)" for x
    using id_take_nth_drop [of "length p" x] by auto
  ultimately show ?thesis using leaf_ok by (simp add: add.commute)
next
  case (branch_ok q ls ns bs m)
  let ?r' = "Branch_Node (p @ j # q) ls ns bs"
  have q: "\<forall>x \<in> set (p @ j # q). x < Max_Links" using branch_ok p j by (auto simp: branch_shape_def)
  have "tree_ok H get (length (p @ j # q) + 1 + m) ?r'"
    using branch_ok_setPath [OF _ q] ok branch_ok(1,2) by simp
  moreover have "tree_find H get ?r' x = (if length p < length x \<and> take (length p) x = p \<and> x ! length p = j
      then tree_find H get r (drop (length p + 1) x) else None)" for x
  proof (cases "length p < length x")
    case True
    then show ?thesis using find_branch_split [of "length p" "p @ j # q" x ls ns bs] branch_ok(2) by (simp del: tree_find_simps)
  qed simp
  ultimately show ?thesis using branch_ok(1,2) by (simp add: add.assoc del: tree_find_simps)
qed

lemma highestLinkIndex_unique:
  assumes "links bs = {j}" "length bs = Max_Links"
  shows "highestLinkIndex (Branch_Node p ls ns bs) = j"
proof -
  let ?xs = "filter (\<lambda>i. bs ! i) [0..<Max_Links]"
  have s: "set ?xs = {j}" using assms by (auto simp: links_def)
  then have "?xs \<noteq> []" by (metis empty_set insert_not_empty)
  from last_in_set [OF this] s have "last ?xs = j" by (metis singletonD)
  then show ?thesis by simp
qed

lemma cleared_branch:
  assumes shape: "branch_shape p ls ns bs" and i: "i < Max_Links"
  defines "b1 \<equiv> Branch_Node p (ls[i := 0]) (ns[i := None]) (bs[i := False])"
  shows "clearLink (Branch_Node p ls ns bs) i = b1"
    and "branch_shape p (ls[i := 0]) (ns[i := None]) (bs[i := False])"
    and "j < Max_Links \<Longrightarrow> getLinkedNode H get b1 j = (if j = i then Empty_Node else getLinkedNode H get (Branch_Node p ls ns bs) j)"
proof -
  show "clearLink (Branch_Node p ls ns bs) i = b1" by (simp add: clearLink_def b1_def)
  have "Some Empty_Node \<notin> set (ns[i := None])"
    using shape set_update_subset_insert [of ns i None] by (auto simp: branch_shape_def)
  then show sh: "branch_shape p (ls[i := 0]) (ns[i := None]) (bs[i := False])"
    using shape i by (auto simp: branch_shape_def nth_list_update)
  show "getLinkedNode H get b1 j = (if j = i then Empty_Node else getLinkedNode H get (Branch_Node p ls ns bs) j)"
    if "j < Max_Links"
    using that i shape get_zero
    by (auto simp: b1_def getLinkedNode_def branch_shape_def nth_list_update Let_def split: option.splits)
qed

lemma unset_branch_link:
  assumes ok: "tree_ok H get (length p + 1 + k) (Branch_Node p ls ns bs)" and i: "i < Max_Links" "bs ! i"
  shows "\<exists>node'. unsetBranchLink H get (Branch_Node p ls ns bs) i = Ok node' \<and> tree_ok H get (length p + 1 + k) node'
    \<and> (\<forall>x. length x = length p + 1 + k \<and> (\<forall>y \<in> set x. y < Max_Links) \<longrightarrow> tree_find H get node' x
          = (if take (length p) x = p \<and> x ! length p = i then None else tree_find H get (Branch_Node p ls ns bs) x))"
proof -
  let ?b = "Branch_Node p ls ns bs" and ?bs = "bs[i := False]"
  let ?b1 = "Branch_Node p (ls[i := 0]) (ns[i := None]) ?bs"
  from ok have b: "branch_shape p ls ns bs" "2 \<le> card (links bs)"
      "\<And>i. i < Max_Links \<Longrightarrow> bs ! i \<Longrightarrow> tree_ok H get k (getLinkedNode H get ?b i)"
    by (auto elim: tree_ok_branchE simp: numLinks_card)
  have len: "length bs = Max_Links" and pn: "\<forall>x \<in> set p. x < Max_Links" using b(1) by (simp_all add: branch_shape_def)
  note cl = cleared_branch [OF b(1) i(1)]
  have l1: "links ?bs = links bs - {i}" "card (links ?bs) = card (links bs) - 1"
    using i len by (simp_all add: links_update finite_links) (simp add: links_def)
  show ?thesis
  proof (cases "card (links ?bs) = 1")
    case False
    then have "2 \<le> length (filter id ?bs)" using b(2) l1(2) by (simp add: numLinks_card)
    moreover have "tree_ok H get k (getLinkedNode H get ?b1 j)" if "j < Max_Links" "?bs ! j" for j
      using cl(3) [OF that(1)] b(3) [OF that(1)] that i(1) len by (cases "j = i") simp_all
    ultimately have "tree_ok H get (length p + 1 + k) ?b1" using cl(2) by (intro tree_ok.branch_ok)
    moreover have "unsetBranchLink H get ?b i = Ok ?b1" using False cl(1) by (simp add: unsetBranchLink_def numLinks_card)
    ultimately show ?thesis using cl(3) by auto
  next
    case True
    then obtain j where j: "links ?bs = {j}" by (meson card_1_singletonE)
    have jb: "j < Max_Links" "bs ! j" "j \<noteq> i" using j l1(1) len by (auto simp: links_def)
    have only: "x = i \<or> x = j" if "x < Max_Links" "bs ! x" for x using that j l1(1) len by (auto simp: links_def)
    let ?r = "getLinkedNode H get ?b j"
    obtain r' where r': "setPath ?r (p @ j # node_path ?r) = Ok r'" "tree_ok H get (length p + 1 + k) r'"
        "\<And>x. tree_find H get r' x = (if length p < length x \<and> take (length p) x = p \<and> x ! length p = j
            then tree_find H get ?r (drop (length p + 1) x) else None)"
      using setPath_join [OF b(3) [OF jb(1,2)] pn jb(1)] by blast
    have "unsetBranchLink H get ?b i = Ok r'"
      using True cl(1) cl(3) [OF jb(1)] jb(3) r'(1) highestLinkIndex_unique [OF j] len
      by (simp add: unsetBranchLink_def numLinks_card Let_def)
    moreover have "tree_find H get r' x = (if take (length p) x = p \<and> x ! length p = i then None else tree_find H get ?b x)"
      if x: "length x = length p + 1 + k" "\<forall>y \<in> set x. y < Max_Links" for x
    proof -
      have xp: "x ! length p < Max_Links" using x by simp
      then show ?thesis using r'(3) [of x] x(1) jb(3) only [OF xp] no_link [OF b(1) xp]
        by (cases "bs ! (x ! length p)") auto
    qed
    ultimately show ?thesis using r'(2) by blast
  qed
qed

text \<open>What \<open>tree_unset\<close> returns on a tree of the right depth when nothing was merged yet.\<close>

definition unset_spec :: "nat \<Rightarrow> tree_node \<Rightarrow> nibbles \<Rightarrow> unset_result result \<Rightarrow> bool" where
  "unset_spec n node key r \<longleftrightarrow>
     (case tree_find H get node key of
        None \<Rightarrow> r = Ok Not_Found
      | Some v \<Rightarrow>
          if isBranch node then
            \<exists>node'. r = Ok (Unset node' False) \<and> tree_ok H get n node'
              \<and> (\<forall>x. length x = n \<and> (\<forall>y \<in> set x. y < Max_Links)
                    \<longrightarrow> tree_find H get node' x = (if x = key then None else tree_find H get node x))
          else r = Ok (Unset Empty_Node True))"

lemma unset_branch:
  assumes ok: "tree_ok H get (length p + 1 + k) (Branch_Node p ls ns bs)"
    and key: "length key = length p + 1 + k" "\<forall>x \<in> set key. x < Max_Links" and d: "take (length p) key = p"
    and bit: "bs ! (key ! length p)"
    and IH: "unset_spec k (getLinkedNode H get (Branch_Node p ls ns bs) (key ! length p)) (drop (length p + 1) key)
      (tree_unset H get (getLinkedNode H get (Branch_Node p ls ns bs) (key ! length p)) (drop (length p + 1) key) True)"
  shows "unset_spec (length p + 1 + k) (Branch_Node p ls ns bs) key (tree_unset H get (Branch_Node p ls ns bs) key True)"
proof -
  let ?b = "Branch_Node p ls ns bs" and ?i = "key ! length p" and ?rest = "drop (length p + 1) key"
  let ?n = "getLinkedNode H get ?b ?i"
  have i: "?i < Max_Links" using key by simp
  have n: "tree_ok H get k ?n" using ok i bit by (auto elim!: tree_ok_branchE)
  have keyeq: "(x = key) = (take (length p) x = p \<and> x ! length p = ?i \<and> drop (length p + 1) x = ?rest)"
    if "length x = length p + 1 + k" for x
    using list_split_eq [of "length p" x key] that key(1) d by simp
  have fb: "tree_find H get ?b x = (if take (length p) x = p then tree_find H get (getLinkedNode H get ?b (x ! length p)) (drop (length p + 1) x) else None)"
    if "length x = length p + 1 + k" for x using that by simp
  have step: "tree_unset H get ?b key True = bind_result (tree_unset H get ?n ?rest True) (\<lambda>r. case r of
      Not_Found \<Rightarrow> Ok Not_Found
    | Unset u c \<Rightarrow> map_result (\<lambda>n. Unset n False) (if c then unsetBranchLink H get ?b ?i else Ok (setLink_node ?b u ?i)))"
    using tree_ok_not_empty [OF n] d key(1) common_prefix_eq_length [of p key]
    by (simp add: tree_unset.simps [of H get ?b key] Let_def)
  show ?thesis
  proof (cases "tree_find H get ?n ?rest")
    case None
    with IH step fb [OF key(1)] d show ?thesis by (simp add: unset_spec_def del: tree_find_simps)
  next
    case (Some v)
    then have found: "tree_find H get ?b key = Some v" using fb [OF key(1)] d by simp
    show ?thesis
    proof (cases "isBranch ?n")
      case True
      then obtain n' where n': "tree_unset H get ?n ?rest True = Ok (Unset n' False)" "tree_ok H get k n'"
          "\<And>x. length x = k \<Longrightarrow> \<forall>y \<in> set x. y < Max_Links
            \<Longrightarrow> tree_find H get n' x = (if x = ?rest then None else tree_find H get ?n x)"
        using IH Some by (auto simp: unset_spec_def)
      note sl = replace_child [OF ok i n'(2)]
      have "tree_find H get (setLink_node ?b n' ?i) x = (if x = key then None else tree_find H get ?b x)"
        if x: "length x = length p + 1 + k" "\<forall>y \<in> set x. y < Max_Links" for x
      proof -
        have "length (drop (length p + 1) x) = k" "\<forall>y \<in> set (drop (length p + 1) x). y < Max_Links"
          using x by (auto dest: in_set_dropD)
        from n'(3) [OF this] show ?thesis unfolding sl(2) [OF x] keyeq [OF x(1)] fb [OF x(1)] by auto
      qed
      with sl(1) step n'(1) found show ?thesis by (simp add: unset_spec_def del: tree_find_simps)
    next
      case False
      then obtain w where leaf: "?n = Leaf_Node ?rest w"
        using Some n by (cases ?n) (auto simp del: tree_find_simps(3) split: if_splits)
      obtain node' where u: "unsetBranchLink H get ?b ?i = Ok node'" "tree_ok H get (length p + 1 + k) node'"
          "\<And>x. length x = length p + 1 + k \<Longrightarrow> \<forall>y \<in> set x. y < Max_Links \<Longrightarrow> tree_find H get node' x
            = (if take (length p) x = p \<and> x ! length p = ?i then None else tree_find H get ?b x)"
        using unset_branch_link [OF ok i bit] by blast
      have "tree_find H get node' x = (if x = key then None else tree_find H get ?b x)"
        if x: "length x = length p + 1 + k" "\<forall>y \<in> set x. y < Max_Links" for x
        unfolding u(3) [OF x] keyeq [OF x(1)] fb [OF x(1)] using leaf by auto
      moreover have "tree_unset H get ?n ?rest True = Ok (Unset Empty_Node True)"
        using IH Some False by (simp add: unset_spec_def)
      ultimately show ?thesis using step u(1,2) found by (simp add: unset_spec_def del: tree_find_simps)
    qed
  qed
qed

lemma tree_unset_ok:
  assumes "tree_ok H get n node" "length key = n" "\<forall>x \<in> set key. x < Max_Links"
  shows "unset_spec n node key (tree_unset H get node key True)"
  using assms
proof (induction arbitrary: key rule: tree_ok.induct)
  case (leaf_ok p w)
  then show ?case using common_prefix_full [of p key] by (auto simp: tree_unset.simps [of H get _ key] unset_spec_def)
next
  case (branch_ok p ls ns bs k)
  let ?b = "Branch_Node p ls ns bs" and ?d = "common_prefix p key"
  have ok: "tree_ok H get (length p + 1 + k) ?b" using branch_ok.hyps by (rule tree_ok.branch_ok)
  have d: "?d \<le> length p" "?d < length key" using common_prefix_le(1) [of p key] branch_ok.prems(1) by auto
  then have i: "key ! ?d < Max_Links" using branch_ok.prems(2) by simp
  let ?n = "getLinkedNode H get ?b (key ! ?d)"
  have rest: "length (drop (?d + 1) key) = length p + k - ?d" "\<forall>x \<in> set (drop (?d + 1) key). x < Max_Links"
    using d branch_ok.prems by (auto dest: in_set_dropD)
  show ?case
  proof (cases "bs ! (key ! ?d)")
    case False
    with no_link [OF branch_ok.hyps(1) i False] d show ?thesis
      using common_prefix_eq_length [of p key] by (auto simp: tree_unset.simps [of H get ?b key] unset_spec_def Let_def)
  next
    case True
    note child = branch_ok.hyps(3) [OF i True]
    show ?thesis
    proof (cases "?d = length p")
      case eq: True
      then have "length (drop (?d + 1) key) = k" using rest(1) by simp
      from branch_ok.IH [OF i True this rest(2)] True eq show ?thesis
        using unset_branch [OF ok branch_ok.prems] common_prefix_eq_length [of p key] by simp
    next
      case False
      then have "k < length (drop (?d + 1) key)" using rest(1) d by simp
      from unset_long [OF child this rest(2)] show ?thesis
        using False d tree_ok_not_empty [OF child] common_prefix_eq_length [of p key]
        by (auto simp: tree_unset.simps [of H get ?b key] unset_spec_def Let_def)
    qed
  qed
qed

text \<open>A tree holds a key, and a branch holds two keys that differ right after its path.\<close>

lemma tree_nonempty:
  "tree_ok H get n node \<Longrightarrow> \<exists>x. length x = n \<and> (\<forall>y \<in> set x. y < Max_Links) \<and> tree_find H get node x \<noteq> None"
proof (induction rule: tree_ok.induct)
  case (leaf_ok p v)
  then show ?case by (intro exI [of _ p]) auto
next
  case (branch_ok p ls ns bs k)
  have "links bs \<noteq> {}" using branch_ok.hyps(2) by (auto simp: numLinks_card)
  then obtain i where i: "i < Max_Links" "bs ! i" using branch_ok.hyps(1) by (auto simp: links_def branch_shape_def)
  obtain x where x: "length x = k" "\<forall>y \<in> set x. y < Max_Links"
      "tree_find H get (getLinkedNode H get (Branch_Node p ls ns bs) i) x \<noteq> None"
    using branch_ok.IH [OF i] by blast
  moreover have "\<forall>y \<in> set p. y < Max_Links" using branch_ok.hyps(1) by (simp add: branch_shape_def)
  ultimately show ?case using i by (intro exI [of _ "p @ i # x"]) auto
qed

lemma branch_two_keys:
  assumes "tree_ok H get n (Branch_Node p ls ns bs)"
  shows "\<exists>x y. length x = n \<and> length y = n \<and> (\<forall>z \<in> set x. z < Max_Links) \<and> (\<forall>z \<in> set y. z < Max_Links)
    \<and> tree_find H get (Branch_Node p ls ns bs) x \<noteq> None \<and> tree_find H get (Branch_Node p ls ns bs) y \<noteq> None
    \<and> length p < n \<and> x ! length p \<noteq> y ! length p"
proof -
  from assms obtain k where b: "n = length p + 1 + k" "branch_shape p ls ns bs" "2 \<le> card (links bs)"
      "\<And>i. i < Max_Links \<Longrightarrow> bs ! i \<Longrightarrow> tree_ok H get k (getLinkedNode H get (Branch_Node p ls ns bs) i)"
    by (auto elim: tree_ok_branchE simp: numLinks_card)
  have "\<not> card (links bs) \<le> Suc 0" using b(3) by simp
  then obtain i j where ij: "i \<in> links bs" "j \<in> links bs" "i \<noteq> j"
    unfolding card_le_Suc0_iff_eq [OF finite_links] by blast
  have len: "length bs = Max_Links" and pn: "\<forall>y \<in> set p. y < Max_Links" using b(2) by (simp_all add: branch_shape_def)
  have "\<exists>x. length x = n \<and> (\<forall>y \<in> set x. y < Max_Links) \<and> tree_find H get (Branch_Node p ls ns bs) x \<noteq> None \<and> x ! length p = i"
    if "i \<in> links bs" for i
  proof -
    have i: "i < Max_Links" "bs ! i" using that len by (auto simp: links_def)
    obtain x where x: "length x = k" "\<forall>y \<in> set x. y < Max_Links"
        "tree_find H get (getLinkedNode H get (Branch_Node p ls ns bs) i) x \<noteq> None"
      using tree_nonempty [OF b(4) [OF i]] by blast
    then show ?thesis using pn i b(1) by (intro exI [of _ "p @ i # x"]) auto
  qed
  from this [OF ij(1)] this [OF ij(2)] obtain x y where
    "length x = n" "\<forall>y \<in> set x. y < Max_Links" "tree_find H get (Branch_Node p ls ns bs) x \<noteq> None" "x ! length p = i"
    "length y = n" "\<forall>z \<in> set y. z < Max_Links" "tree_find H get (Branch_Node p ls ns bs) y \<noteq> None" "y ! length p = j"
    by blast
  moreover have "length p < n" using b(1) by simp
  ultimately show ?thesis using ij(3) by blast
qed

lemma link_hash:
  assumes "tree_ok H get n (Branch_Node p ls ns bs)" "i < Max_Links"
  shows "link H (Branch_Node p ls ns bs) i = node_hash H (getLinkedNode H get (Branch_Node p ls ns bs) i)"
proof -
  from assms(1) have b: "branch_shape p ls ns bs"
      "bs ! i \<Longrightarrow> getLinkedNode H get (Branch_Node p ls ns bs) i \<noteq> Empty_Node"
    using assms(2) tree_ok_not_empty by (auto elim!: tree_ok_branchE)
  show ?thesis
  proof (cases "bs ! i")
    case True
    then show ?thesis using b(2) get_hash by (auto simp: getLinkedNode_def Let_def split: option.splits)
  next
    case False
    then show ?thesis using no_link [OF b(1) assms(2) False] b(1) assms(2) by (simp add: branch_shape_def)
  qed
qed

end

lemma node_hash_links:
  assumes "branch_shape p ls ns bs"
  shows "node_hash H (Branch_Node p ls ns bs)
    = H (hex_prefix False p @ concat (map hash_bytes (map (link H (Branch_Node p ls ns bs)) [0..<Max_Links])))"
proof -
  have "map2 (\<lambda>l n. case n of None \<Rightarrow> l | Some h \<Rightarrow> h) ls (map (map_option (node_hash H)) ns)
      = map (link H (Branch_Node p ls ns bs)) [0..<Max_Links]"
    using assms by (intro nth_equalityI) (auto simp: branch_shape_def split: option.splits)
  then show ?thesis by simp
qed

text \<open>The hash of a tree is a function of the map it holds.\<close>

lemma branch_paths_equal:
  assumes ds: "data_source H get" "data_source H get'"
    and a: "tree_ok H get n (Branch_Node p ls ns bs)" and b: "tree_ok H get' n (Branch_Node p' ls' ns' bs')"
    and eq: "\<And>x. length x = n \<Longrightarrow> \<forall>y \<in> set x. y < Max_Links \<Longrightarrow>
      tree_find H get (Branch_Node p ls ns bs) x = tree_find H get' (Branch_Node p' ls' ns' bs') x"
  shows "p = p'"
proof -
  obtain x y where xy: "length x = n" "length y = n" "\<forall>z \<in> set x. z < Max_Links" "\<forall>z \<in> set y. z < Max_Links"
      "tree_find H get (Branch_Node p ls ns bs) x \<noteq> None" "tree_find H get (Branch_Node p ls ns bs) y \<noteq> None"
      "length p < n" "x ! length p \<noteq> y ! length p"
    using data_source.branch_two_keys [OF ds(1) a] by blast
  obtain u v where uv: "length u = n" "length v = n" "\<forall>z \<in> set u. z < Max_Links" "\<forall>z \<in> set v. z < Max_Links"
      "tree_find H get' (Branch_Node p' ls' ns' bs') u \<noteq> None" "tree_find H get' (Branch_Node p' ls' ns' bs') v \<noteq> None"
      "length p' < n" "u ! length p' \<noteq> v ! length p'"
    using data_source.branch_two_keys [OF ds(2) b] by blast
  have pre: "take (length p) w = p \<and> take (length p') w = p'"
    if "length w = n" "\<forall>z \<in> set w. z < Max_Links" "tree_find H get (Branch_Node p ls ns bs) w \<noteq> None" for w
    using that eq [OF that(1,2)] by (auto split: if_splits)
  have "\<not> length p < length p'"
    using pre [OF xy(1,3,5)] pre [OF xy(2,4,6)] xy(8) by (metis nth_take)
  moreover have "\<not> length p' < length p"
    using pre [OF uv(1,3)] pre [OF uv(2,4)] uv eq by (metis nth_take)
  ultimately have "length p = length p'" by simp
  with pre [OF xy(1,3,5)] show ?thesis by metis
qed

lemma same_links:
  assumes ds: "data_source H get" "data_source H get'"
    and a: "tree_ok H get (length p + 1 + k) (Branch_Node p ls ns bs)" and b: "tree_ok H get' (length p + 1 + k) (Branch_Node p ls' ns' bs')"
    and i: "i < Max_Links"
    and eq: "\<And>x. length x = k \<Longrightarrow> \<forall>y \<in> set x. y < Max_Links \<Longrightarrow>
      tree_find H get (getLinkedNode H get (Branch_Node p ls ns bs) i) x
        = tree_find H get' (getLinkedNode H get' (Branch_Node p ls' ns' bs') i) x"
  shows "bs' ! i = bs ! i \<and> (bs ! i \<longrightarrow> tree_ok H get' k (getLinkedNode H get' (Branch_Node p ls' ns' bs') i))"
proof -
  from a have A: "branch_shape p ls ns bs" "bs ! i \<Longrightarrow> tree_ok H get k (getLinkedNode H get (Branch_Node p ls ns bs) i)"
    using i by (auto elim: tree_ok_branchE)
  from b have B: "branch_shape p ls' ns' bs'" "bs' ! i \<Longrightarrow> tree_ok H get' k (getLinkedNode H get' (Branch_Node p ls' ns' bs') i)"
    using i by (auto elim: tree_ok_branchE)
  have "bs' ! i" if "bs ! i"
    using data_source.tree_nonempty [OF ds(1) A(2) [OF that]] eq data_source.no_link [OF ds(2) B(1) i] by fastforce
  moreover have "bs ! i" if "bs' ! i"
    using data_source.tree_nonempty [OF ds(2) B(2) [OF that]] eq data_source.no_link [OF ds(1) A(1) i] by fastforce
  ultimately show ?thesis using B(2) by blast
qed

lemma hash_contents:
  assumes ds: "data_source H get" "data_source H get'"
  shows "tree_ok H get n a \<Longrightarrow> tree_ok H get' n b \<Longrightarrow>
    (\<And>x. length x = n \<Longrightarrow> \<forall>y \<in> set x. y < Max_Links \<Longrightarrow> tree_find H get a x = tree_find H get' b x)
    \<Longrightarrow> node_hash H a = node_hash H b"
proof (induction arbitrary: b rule: tree_ok.induct)
  case (leaf_ok p v)
  from leaf_ok.prems(1) show ?case
  proof cases
    case (leaf_ok q w)
    have "tree_find H get' b p = Some v" using leaf_ok.prems(2) [of p] \<open>\<forall>x \<in> set p. x < Max_Links\<close> by simp
    with leaf_ok(2) show ?thesis by (simp split: if_splits)
  next
    case (branch_ok q ls ns bs k)
    then obtain x y where "length x = length p" "length y = length p" "\<forall>z \<in> set x. z < Max_Links" "\<forall>z \<in> set y. z < Max_Links"
      "tree_find H get' b x \<noteq> None" "tree_find H get' b y \<noteq> None" "x \<noteq> y"
      using data_source.branch_two_keys [OF ds(2), of "length p" q ls ns bs] leaf_ok.prems(1) by metis
    with leaf_ok.prems(2) [of x] leaf_ok.prems(2) [of y] show ?thesis by (auto split: if_splits)
  qed
next
  case (branch_ok p ls ns bs k)
  let ?a = "Branch_Node p ls ns bs" and ?n = "length p + 1 + k"
  have a: "tree_ok H get ?n ?a" using branch_ok.hyps by (rule tree_ok.branch_ok)
  show ?case
  proof (cases b)
    case (Leaf_Node q w)
    from data_source.branch_two_keys [OF ds(1) a] obtain x y where
      "length x = ?n" "length y = ?n" "\<forall>z \<in> set x. z < Max_Links" "\<forall>z \<in> set y. z < Max_Links"
      "tree_find H get ?a x \<noteq> None" "tree_find H get ?a y \<noteq> None" "x \<noteq> y" by metis
    with branch_ok.prems(2) [of x] branch_ok.prems(2) [of y] Leaf_Node show ?thesis by (auto split: if_splits)
  next
    case (Branch_Node p' ls' ns' bs')
    note b = branch_ok.prems(1) [unfolded Branch_Node]
    have p: "p' = p" using branch_paths_equal [OF ds a b] branch_ok.prems(2) Branch_Node by blast
    have shape: "branch_shape p ls' ns' bs'" using b p by (auto elim: tree_ok_branchE)
    let ?b = "Branch_Node p ls' ns' bs'"
    have b': "tree_ok H get' ?n ?b" using b p by simp
    have pn: "\<forall>y \<in> set p. y < Max_Links" using branch_ok.hyps(1) by (simp add: branch_shape_def)
    have "node_hash H (getLinkedNode H get ?a i) = node_hash H (getLinkedNode H get' ?b i)" if i: "i < Max_Links" for i
    proof -
      have eq: "tree_find H get (getLinkedNode H get ?a i) x = tree_find H get' (getLinkedNode H get' ?b i) x"
        if "length x = k" "\<forall>y \<in> set x. y < Max_Links" for x
        using branch_ok.prems(2) [of "p @ i # x"] that i pn Branch_Node p by (simp add: ball_Un)
      have "bs' ! i = bs ! i \<and> (bs ! i \<longrightarrow> tree_ok H get' k (getLinkedNode H get' ?b i))"
        by (rule same_links [OF ds a b' i eq])
      then show ?thesis
        using branch_ok.IH [OF i _ _ eq] data_source.no_link [OF ds(1) branch_ok.hyps(1) i]
          data_source.no_link [OF ds(2) shape i] by (cases "bs ! i") auto
    qed
    then have "link H ?a i = link H ?b i" if "i < Max_Links" for i
      using data_source.link_hash [OF ds(1) a that] data_source.link_hash [OF ds(2) b' that] that by simp
    then show ?thesis
      unfolding Branch_Node p node_hash_links [OF branch_ok.hyps(1)] node_hash_links [OF shape]
      by (auto intro!: arg_cong [where f = H] arg_cong [where f = concat])
  next
    case Empty_Node
    with branch_ok.prems(1) tree_ok_not_empty show ?thesis by blast
  qed
qed

subsection \<open>Memory data sources\<close>

text \<open>Every node is stored under its own hash, which is not the zero hash of an empty node.\<close>

definition mds_ok :: "(byte list \<Rightarrow> hash256) \<Rightarrow> memory_data_source \<Rightarrow> bool" where
  "mds_ok H ds \<longleftrightarrow> (\<forall>h n. m_leafNodes ds h = Some n \<or> m_branchNodes ds h = Some n
     \<longrightarrow> n \<noteq> Empty_Node \<and> node_hash H n = h \<and> h \<noteq> 0)"

lemma mds_source: "mds_ok H ds \<Longrightarrow> data_source H (mds_get ds)"
  unfolding data_source_def mds_ok_def mds_get_def by (metis (no_types, lifting) not_Some_eq option.case_eq_if option.sel)

locale memory_source =
  fixes H :: "byte list \<Rightarrow> hash256" and ds :: memory_data_source
  assumes source_ok: "mds_ok H ds"

sublocale memory_source \<subseteq> data_source H "mds_get ds"
  using source_ok by (rule mds_source)

interpretation cleared: memory_source H "mds_clear ds"
  by unfold_locales (simp add: mds_ok_def mds_clear_def)

lemma read_through_source:
  assumes "data_source H backing" "mds_ok H ds"
  shows "data_source H (read_through_get backing ds)"
proof -
  have "read_through_get backing ds h = (if mds_get ds h = Empty_Node then backing h else mds_get ds h)" for h
    by (simp add: read_through_get_def split: tree_node.splits)
  with assms(1) mds_source [OF assms(2)] show ?thesis by (simp add: data_source_def)
qed

lemma compactLinks_hash: "node_hash H (compactLinks H n) = node_hash H n"
proof (cases n)
  case (Branch_Node p ls ns bs)
  have "map2 (\<lambda>l n. case n of None \<Rightarrow> l | Some h \<Rightarrow> h) (map2 (\<lambda>l n. case n of None \<Rightarrow> l | Some c \<Rightarrow> node_hash H c) ls ns)
      (map (map_option (node_hash H)) (map (\<lambda>_. None) ns))
    = map2 (\<lambda>l n. case n of None \<Rightarrow> l | Some h \<Rightarrow> h) ls (map (map_option (node_hash H)) ns)"
    by (rule nth_equalityI) (auto split: option.splits)
  with Branch_Node show ?thesis by simp
qed simp_all

lemma emplace_ok: "emplace h n m h' = Some n' \<Longrightarrow> (h' = h \<and> n' = n) \<or> m h' = Some n'"
  by (auto simp: emplace_def split: option.splits if_splits)

lemma compactLinks_not_empty: "compactLinks H n = Empty_Node \<longleftrightarrow> n = Empty_Node"
  by (cases n) simp_all

lemma mds_set_ok:
  assumes "mds_ok H ds" "n \<noteq> Empty_Node" "node_hash H n \<noteq> 0"
  shows "mds_ok H (mds_set_leaf H n ds)" "mds_ok H (mds_set_branch H n ds)"
  using assms by (auto simp: mds_ok_def mds_set_leaf_def mds_set_branch_def dest!: emplace_ok)

lemma tree_save_ok:
  assumes "\<And>x. H x \<noteq> 0"
  shows "mds_ok H ds \<Longrightarrow> tree_save H node ds = Ok ds' \<Longrightarrow> mds_ok H ds'"
proof (induction node arbitrary: ds ds')
  case (Leaf_Node p v)
  then show ?case using mds_set_ok(1) [of H ds "Leaf_Node p v"] assms by auto
next
  case (Branch_Node p ls ns bs)
  let ?f = "\<lambda>f ds. case f of None \<Rightarrow> Ok ds | Some g \<Rightarrow> g ds"
  have children: "mds_ok H ds \<Longrightarrow> fold_result ?f (map (map_option (tree_save H)) xs) ds = Ok ds' \<Longrightarrow> mds_ok H ds'"
    if "set xs \<subseteq> set ns" for xs ds ds'
    using that
  proof (induction xs arbitrary: ds)
    case (Cons x xs)
    from Cons.prems obtain ds1 where ds1: "?f (map_option (tree_save H) x) ds = Ok ds1"
        "fold_result ?f (map (map_option (tree_save H)) xs) ds1 = Ok ds'" by auto
    have "mds_ok H ds1" using ds1(1) Cons.prems Branch_Node.IH by (cases x) auto
    with Cons.IH ds1(2) Cons.prems(3) show ?case by auto
  qed simp
  obtain ds1 where ds1: "fold_result ?f (map (map_option (tree_save H)) ns) ds = Ok ds1"
      "ds' = mds_set_branch H (compactLinks H (Branch_Node p ls ns bs)) ds1"
    using Branch_Node.prems(2) by auto
  have "mds_ok H ds1" using children [of ns] Branch_Node.prems(1) ds1(1) by blast
  then show ?case unfolding ds1(2) using assms compactLinks_hash [of H "Branch_Node p ls ns bs"]
    by (intro mds_set_ok(2)) (auto simp del: compactLinks.simps simp add: compactLinks_not_empty)
qed simp

subsection \<open>Properties\<close>

text \<open>
  C7: Setting a key in a tree of the right depth succeeds, keeps the tree well formed and changes
  the value of that key only, whether it adds a leaf, splits a leaf or splits a branch.
\<close>

theorem patricia_set:
  assumes "data_source H get" "node = Empty_Node \<or> tree_ok H get n node" "length key = n" "\<forall>x \<in> set key. x < 16"
  shows "\<exists>node'. tree_set H get node key v = Some node' \<and> tree_ok H get n node'
    \<and> (\<forall>x. length x = n \<and> (\<forall>y \<in> set x. y < 16) \<longrightarrow>
          tree_find H get node' x = (if x = key then Some v else tree_find H get node x))"
proof (cases "node = Empty_Node")
  case True
  have "tree_ok H get (length key) (Leaf_Node key v)" using assms(4) by (intro tree_ok.leaf_ok) (simp add: Max_Links_def)
  with True assms(3) show ?thesis by auto
next
  case False
  with assms show ?thesis
    using data_source.tree_set_ok [OF assms(1), of n node key v] by (simp add: Max_Links_def)
qed

definition sample_tree :: tree_node where
  "sample_tree = setLink_node (setLink_node (new_branch [1]) (Leaf_Node [2, 3] 10) 0) (Leaf_Node [4, 5] 20) 7"

definition no_nodes :: "hash256 \<Rightarrow> tree_node" where
  "no_nodes h = Empty_Node"

definition sample_hash :: "byte list \<Rightarrow> hash256" where
  "sample_hash bs = 2 * fold (\<lambda>b h. 257 * h + ucast b) bs 1 + 1"

lemma sample_hash_nonzero: "sample_hash bs \<noteq> 0"
proof -
  have "2 * w + 1 \<noteq> 0" for w :: hash256 by (metis bit_0 even_mult_iff even_plus_one_iff even_numeral even_zero)
  then show ?thesis by (simp add: sample_hash_def)
qed

lemma sample_source: "data_source sample_hash no_nodes"
  by unfold_locales (simp_all add: no_nodes_def)

lemma sample_tree_ok: "tree_ok sample_hash no_nodes 4 sample_tree"
proof -
  have l: "tree_ok sample_hash no_nodes 2 (Leaf_Node [2, 3] 10)" "tree_ok sample_hash no_nodes 2 (Leaf_Node [4, 5] 20)"
    using tree_ok.leaf_ok [of "[2, 3]" sample_hash no_nodes 10] tree_ok.leaf_ok [of "[4, 5]" sample_hash no_nodes 20]
    by (simp_all add: Max_Links_def numeral_2_eq_2)
  show ?thesis
    using data_source.two_links(1) [OF sample_source _ _ _ _ l, of "[1]" 0 7]
    by (simp add: sample_tree_def Max_Links_def numeral_eq_Suc)
qed

theorem patricia_set_witness:
  "tree_ok sample_hash no_nodes 4 sample_tree \<and> (\<exists>node'. tree_set sample_hash no_nodes sample_tree [1, 7, 4, 6] 30 = Some node'
    \<and> tree_find sample_hash no_nodes node' [1, 7, 4, 6] = Some 30)"
  using patricia_set [OF sample_source, of sample_tree 4 "[1, 7, 4, 6]" 30] sample_tree_ok by auto

text \<open>
  C9: Removing a key that the tree holds removes that key only and collapses a branch left with one
  link, so the tree stays well formed (or becomes empty); for any other key nothing is found.
\<close>

theorem patricia_unset:
  assumes "data_source H get" "tree_ok H get n node" "length key = n" "\<forall>x \<in> set key. x < 16"
  shows "case tree_find H get node key of
      None \<Rightarrow> tree_unset H get node key True = Ok Not_Found
    | Some v \<Rightarrow> \<exists>node' c. tree_unset H get node key True = Ok (Unset node' c) \<and> (node' = Empty_Node \<or> tree_ok H get n node')
        \<and> (\<forall>x. length x = n \<and> (\<forall>y \<in> set x. y < 16) \<longrightarrow>
              tree_find H get node' x = (if x = key then None else tree_find H get node x))"
proof -
  have spec: "data_source.unset_spec H get n node key (tree_unset H get node key True)"
    using data_source.tree_unset_ok [OF assms(1-3)] assms(4) by (simp add: Max_Links_def)
  show ?thesis
  proof (cases "isBranch node")
    case True
    with spec show ?thesis
      unfolding data_source.unset_spec_def [OF assms(1)] by (auto simp: Max_Links_def split: option.splits)
  next
    case False
    with assms(2) obtain p v where "node = Leaf_Node p v" by (auto elim: tree_ok.cases)
    with spec show ?thesis
      unfolding data_source.unset_spec_def [OF assms(1)] by (auto split: option.splits if_splits)
  qed
qed

theorem patricia_unset_witness:
  "tree_ok sample_hash no_nodes 4 sample_tree \<and> (\<exists>node' c. tree_unset sample_hash no_nodes sample_tree [1, 0, 2, 3] True = Ok (Unset node' c)
    \<and> tree_find sample_hash no_nodes node' [1, 0, 2, 3] = None \<and> tree_find sample_hash no_nodes node' [1, 7, 4, 5] = Some 20)"
proof -
  have "tree_find sample_hash no_nodes sample_tree [1, 0, 2, 3] = Some 10" "tree_find sample_hash no_nodes sample_tree [1, 7, 4, 5] = Some 20"
    by code_simp+
  with patricia_unset [OF sample_source sample_tree_ok, of "[1, 0, 2, 3]"] obtain node' c where
    "tree_unset sample_hash no_nodes sample_tree [1, 0, 2, 3] True = Ok (Unset node' c)"
    "\<forall>x. length x = 4 \<and> (\<forall>y \<in> set x. y < 16) \<longrightarrow> tree_find sample_hash no_nodes node' x
      = (if x = [1, 0, 2, 3] then None else tree_find sample_hash no_nodes sample_tree x)" by auto
  moreover from this(2) have "tree_find sample_hash no_nodes node' [1, 0, 2, 3] = None"
      "tree_find sample_hash no_nodes node' [1, 7, 4, 5] = tree_find sample_hash no_nodes sample_tree [1, 7, 4, 5]"
    by (simp_all del: tree_find_simps)
  ultimately show ?thesis using sample_tree_ok \<open>tree_find sample_hash no_nodes sample_tree [1, 7, 4, 5] = Some 20\<close> by auto
qed

text \<open>
  What a client that knows a root hash learns from the nodes a lookup visited: nothing if the first node does not have
  the hash, otherwise the value of the key, or that there is none, by following the links of the nodes.
\<close>

fun path_proof :: "(byte list \<Rightarrow> hash256) \<Rightarrow> hash256 \<Rightarrow> nibbles \<Rightarrow> tree_node list \<Rightarrow> hash256 option option" where
  "path_proof H h key [] = None"
| "path_proof H h key (node # nodes) =
     (if node_hash H node \<noteq> h then None
      else case node of
        Empty_Node \<Rightarrow> None
      | Leaf_Node p v \<Rightarrow> if nodes = [] then Some (if p = key then Some v else None) else None
      | Branch_Node p ls ns bs \<Rightarrow>
          if length key \<le> length p then None
          else if take (length p) key \<noteq> p then Some None
          else if \<not> bs ! (key ! length p) then if nodes = [] then Some None else None
          else path_proof H (link H node (key ! length p)) (drop (length p + 1) key) nodes)"

context data_source
begin

lemma linked_node_hash:
  assumes "getLinkedNode H get (Branch_Node p ls ns bs) i \<noteq> Empty_Node"
  shows "node_hash H (getLinkedNode H get (Branch_Node p ls ns bs) i) = link H (Branch_Node p ls ns bs) i"
  using assms get_hash by (auto simp: getLinkedNode_def Let_def split: option.splits if_splits)

lemma lookup_chain:
  "tree_lookup H get node key = Some (r, nodes) \<Longrightarrow> node \<noteq> Empty_Node
   \<Longrightarrow> nodes \<noteq> [] \<and> hd nodes = node \<and> successively (\<lambda>a b. \<exists>i. link H a i = node_hash H b) nodes"
proof (induction key arbitrary: node r nodes rule: measure_induct_rule [of length])
  case (less key)
  show ?case
  proof (cases node)
    case (Branch_Node p ls ns bs)
    let ?d = "common_prefix p key"
    let ?n = "getLinkedNode H get node (key ! ?d)"
    from less.prems(1) have d: "?d < length key" by (auto simp: Branch_Node tree_lookup.simps [of H get _ key] Let_def split: if_splits)
    show ?thesis
    proof (cases "?n = Empty_Node")
      case True
      with d less.prems(1) show ?thesis by (auto simp: Branch_Node tree_lookup.simps [of H get _ key] Let_def)
    next
      case False
      with d less.prems(1) obtain rest where rest: "tree_lookup H get ?n (drop (?d + 1) key) = Some (r, rest)" "nodes = node # rest"
        by (auto simp: Branch_Node tree_lookup.simps [of H get "Branch_Node p ls ns bs" key] Let_def)
      with less.IH [OF _ rest(1) False] d have "rest \<noteq> []" "hd rest = ?n" "successively (\<lambda>a b. \<exists>i. link H a i = node_hash H b) rest" by auto
      moreover have "link H node (key ! ?d) = node_hash H ?n" using linked_node_hash False unfolding Branch_Node by simp
      ultimately show ?thesis by (cases rest) (auto simp: rest(2))
    qed
  qed (use less.prems in \<open>auto simp: tree_lookup.simps [of H get _ key] Let_def\<close>)
qed

lemma lookup_path:
  assumes "tree_ok H get n node" "length key = n" "\<forall>x \<in> set key. x < Max_Links" "tree_lookup H get node key = Some (r, nodes)"
  shows "path_proof H (node_hash H node) key nodes = Some (tree_find H get node key)"
  using assms
proof (induction arbitrary: key r nodes rule: tree_ok.induct)
  case (leaf_ok p w)
  then show ?case by (auto simp: tree_lookup.simps [of H get _ key] Let_def)
next
  case (branch_ok p ls ns bs k)
  let ?b = "Branch_Node p ls ns bs" and ?d = "common_prefix p key"
  have d: "?d \<le> length p" "?d < length key" using common_prefix_le(1) [of p key] branch_ok.prems(1) by auto
  let ?n = "getLinkedNode H get ?b (key ! ?d)"
  from branch_ok.prems(3) d obtain rest where nodes: "nodes = ?b # rest"
    by (auto simp: tree_lookup.simps [of H get ?b key] Let_def split: if_splits)
  show ?case
  proof (cases "?d = length p")
    case False
    then show ?thesis using d branch_ok.prems(1) common_prefix_eq_length [of p key] by (auto simp: nodes)
  next
    case True
    then have p: "take (length p) key = p" using common_prefix_eq_length [of p key] by simp
    have i: "key ! length p < Max_Links" using d True branch_ok.prems(2) by simp
    show ?thesis
    proof (cases "bs ! (key ! length p)")
      case False
      from no_link [OF branch_ok.hyps(1) i False] have "rest = []"
        using branch_ok.prems(3) True d by (auto simp: nodes tree_lookup.simps [of H get ?b key] Let_def)
      with False p no_link [OF branch_ok.hyps(1) i False] branch_ok.prems(1) show ?thesis by (simp add: nodes)
    next
      case link: True
      note ok = branch_ok.hyps(3) [OF i link]
      have ne: "?n \<noteq> Empty_Node" using tree_ok_not_empty [OF ok] True by simp
      then have "tree_lookup H get ?n (drop (length p + 1) key) = Some (r, rest)"
        using branch_ok.prems(3) True d by (auto simp: nodes tree_lookup.simps [of H get ?b key] Let_def)
      moreover have "length (drop (length p + 1) key) = k" "\<forall>x \<in> set (drop (length p + 1) key). x < Max_Links"
        using branch_ok.prems by (auto dest: in_set_dropD)
      ultimately have "path_proof H (node_hash H ?n) (drop (length p + 1) key) rest = Some (tree_find H get ?n (drop (length p + 1) key))"
        using branch_ok.IH [OF i link] True by simp
      with link p branch_ok.prems(1) True linked_node_hash ne show ?thesis by (simp add: nodes)
    qed
  qed
qed

end

text \<open>
  C23: a lookup returns the value the tree holds for the key, or reports that there is none, although
  it follows links without comparing the path of a branch to its end.  The nodes it visited start with the root, each is linked
  by its predecessor, and they prove the answer to a client that knows only the root hash: following
  the key through them gives the value, or shows that the tree has none.
\<close>

theorem patricia_lookup:
  assumes "data_source H get" "tree_ok H get n node" "length key = n" "\<forall>x \<in> set key. x < 16"
  shows "\<exists>nodePath. tree_lookup H get node key
      = Some (case tree_find H get node key of None \<Rightarrow> (0, False) | Some v \<Rightarrow> (v, True), nodePath)
    \<and> path_proof H (node_hash H node) key nodePath = Some (tree_find H get node key)
    \<and> hd nodePath = node \<and> successively (\<lambda>a b. \<exists>i. link H a i = node_hash H b) nodePath"
proof -
  have key: "\<forall>x \<in> set key. x < Max_Links" using assms(4) by (simp add: Max_Links_def)
  from data_source.tree_lookup_ok [OF assms(1-3) key] obtain nodePath where
    run: "tree_lookup H get node key = Some (case tree_find H get node key of None \<Rightarrow> (0, False) | Some v \<Rightarrow> (v, True), nodePath)" ..
  with data_source.lookup_path [OF assms(1-3) key run] data_source.lookup_chain [OF assms(1) run] tree_ok_not_empty [OF assms(2)]
  show ?thesis by blast
qed

theorem patricia_lookup_witness:
  "\<exists>nodePath. tree_lookup sample_hash no_nodes sample_tree [1, 7, 4, 5] = Some ((20, True), nodePath)
    \<and> path_proof sample_hash (node_hash sample_hash sample_tree) [1, 7, 4, 5] nodePath = Some (Some 20) \<and> length nodePath = 2"
proof -
  have "tree_find sample_hash no_nodes sample_tree [1, 7, 4, 5] = Some 20"
    "map_option (\<lambda>r. length (snd r)) (tree_lookup sample_hash no_nodes sample_tree [1, 7, 4, 5]) = Some 2" by code_simp+
  with patricia_lookup [OF sample_source sample_tree_ok, of "[1, 7, 4, 5]"] show ?thesis by auto
qed

text \<open>
  C16: The root hash is a function of the contents: two trees that hold the same map have the same
  root, whatever operations built them and wherever their nodes are stored.
\<close>

theorem patricia_root_canonical:
  assumes "data_source H get" "data_source H get'" "tree_ok H get n a" "tree_ok H get' n b"
    "\<forall>x. length x = n \<and> (\<forall>y \<in> set x. y < 16) \<longrightarrow> tree_find H get a x = tree_find H get' b x"
  shows "node_hash H a = node_hash H b"
  using hash_contents [OF assms(1-4)] assms(5) by (simp add: Max_Links_def)

theorem patricia_root_canonical_witness:
  "\<exists>node' node'' c. tree_set sample_hash no_nodes sample_tree [1, 7, 4, 6] 30 = Some node'
    \<and> tree_unset sample_hash no_nodes node' [1, 7, 4, 6] True = Ok (Unset node'' c)
    \<and> node_hash sample_hash node'' = node_hash sample_hash sample_tree"
proof -
  let ?key = "[1, 7, 4, 6]" and ?find = "tree_find sample_hash no_nodes"
  have key: "length ?key = 4" "\<forall>x \<in> set ?key. x < Max_Links" by (simp_all add: Max_Links_def)
  obtain node' where n': "tree_set sample_hash no_nodes sample_tree ?key 30 = Some node'" "tree_ok sample_hash no_nodes 4 node'"
      "\<And>x. length x = 4 \<Longrightarrow> \<forall>y \<in> set x. y < Max_Links \<Longrightarrow> ?find node' x = (if x = ?key then Some 30 else ?find sample_tree x)"
    using data_source.tree_set_ok [OF sample_source sample_tree_ok key, of 30] by blast
  have b: "isBranch node'"
  proof (cases node')
    case (Leaf_Node p v)
    have "?find sample_tree [1, 0, 2, 3] = Some 10" by code_simp
    with n'(3) [OF key] n'(3) [of "[1, 0, 2, 3]"] Leaf_Node show ?thesis
      by (simp add: Max_Links_def split: if_splits)
  qed (use tree_ok_not_empty [OF n'(2)] in simp_all)
  have "?find node' ?key = Some 30" using n'(3) [OF key] by (simp del: tree_find_simps)
  then obtain node'' where n'': "tree_unset sample_hash no_nodes node' ?key True = Ok (Unset node'' False)"
      "tree_ok sample_hash no_nodes 4 node''"
      "\<And>x. length x = 4 \<Longrightarrow> \<forall>y \<in> set x. y < Max_Links \<Longrightarrow> ?find node'' x = (if x = ?key then None else ?find node' x)"
    using data_source.tree_unset_ok [OF sample_source n'(2) key] b
    unfolding data_source.unset_spec_def [OF sample_source] by (auto simp del: tree_find_simps)
  have "?find sample_tree ?key = None" by code_simp
  then have "?find node'' x = ?find sample_tree x" if "length x = 4" "\<forall>y \<in> set x. y < 16" for x
    using n'(3) [of x] n''(3) [of x] that by (auto simp: Max_Links_def simp del: tree_find_simps)
  with patricia_root_canonical [OF sample_source sample_source n''(2) sample_tree_ok] n'(1) n''(1) show ?thesis by blast
qed

text \<open>
  Saving a tree stores every node under its own hash: if no input hashes to zero, a consistent
  data source stays consistent, and so does a source that reads through it to a backing one.
\<close>

theorem patricia_save:
  assumes "\<And>x. H x \<noteq> 0" "mds_ok H ds" "tree_save H node ds = Ok ds'" "data_source H backing"
  shows "data_source H (mds_get ds') \<and> data_source H (read_through_get backing ds')"
  using tree_save_ok [OF assms(1-3)] mds_source read_through_source [OF assms(4)] by blast

theorem patricia_save_witness:
  "\<exists>ds'. tree_save sample_hash sample_tree (mds_clear undefined) = Ok ds' \<and> data_source sample_hash (mds_get ds')"
proof -
  have ok: "mds_ok sample_hash (mds_clear undefined)" by (simp add: mds_ok_def mds_clear_def)
  obtain ds' where "tree_save sample_hash sample_tree (mds_clear undefined) = Ok ds'"
    by (simp add: sample_tree_def new_branch_def Max_Links_def numeral_eq_Suc)
  with patricia_save [OF _ ok this sample_source] show ?thesis by (auto simp: sample_hash_nonzero)
qed

end
