(* ===== verification/Delta_Set.thy ===== *)
theory Delta_Set
  imports Prelude "HOL-Library.Finite_Map"
begin

section \<open>BaseSet and BaseSetDelta\<close>

text \<open>
  The copy-on-write containers below every cache, \<^verbatim>\<open>src/src/bitxorcore/deltaset\<close>: a \<^verbatim>\<open>BaseSet\<close> and
  the \<^verbatim>\<open>BaseSetDelta\<close> that records what was added, removed and copied on top of it, with the
  generation in which each key was last touched.  Containers are finite maps from keys to values;
  an element is given by its key (\<^verbatim>\<open>ToKey\<close>) and its value, which together are its storage
  (\<^verbatim>\<open>ToStorage\<close>).  The two mutability tags of the template are two families of operations.  The
  results: under an invariant all operations act on the contents of the delta (its \<open>view\<close>) as on
  a plain map, the size is the size of the view, and a commit makes the view the new base set.
\<close>

subsection \<open>The delta\<close>

datatype InsertResult = Insert_Unremoved | Insert_Updated | Insert_Redundant | Insert_Inserted

datatype RemoveResult = Remove_None | Remove_Unmodified_And_Removed | Remove_Uninserted | Remove_Redundant | Remove_Removed

record ('k, 'v) base_set_delta =
  originalElements :: "('k, 'v) fmap"
  addedElements :: "('k, 'v) fmap"
  removedElements :: "('k, 'v) fmap"
  copiedElements :: "('k, 'v) fmap"
  m_generationId :: "32 word"
  keyGenerationIdMap :: "('k, 32 word) fmap"

definition new_delta :: "('k, 'v) fmap \<Rightarrow> ('k, 'v) base_set_delta" where
  "new_delta orig = \<lparr>originalElements = orig, addedElements = fmempty, removedElements = fmempty,
     copiedElements = fmempty, m_generationId = 1, keyGenerationIdMap = fmempty\<rparr>"

definition Contains :: "('k, 'v) fmap \<Rightarrow> 'k \<Rightarrow> bool" where
  "Contains m k \<longleftrightarrow> fmlookup m k \<noteq> None"

abbreviation fmsize :: "('k, 'v) fmap \<Rightarrow> nat" where
  "fmsize m \<equiv> fcard (fmdom m)"

text \<open>\<^verbatim>\<open>size_t\<close> arithmetic: under the invariant the subtraction does not wrap around.\<close>

definition delta_size :: "('k, 'v) base_set_delta \<Rightarrow> 64 word" where
  "delta_size s = of_nat (fmsize (originalElements s)) - of_nat (fmsize (removedElements s)) + of_nat (fmsize (addedElements s))"

definition delta_empty :: "('k, 'v) base_set_delta \<Rightarrow> bool" where
  "delta_empty s \<longleftrightarrow> 0 = delta_size s"

definition delta_contains :: "('k, 'v) base_set_delta \<Rightarrow> 'k \<Rightarrow> bool" where
  "delta_contains s k \<longleftrightarrow> \<not> Contains (removedElements s) k \<and> (Contains (addedElements s) k \<or> Contains (originalElements s) k)"

definition markKey :: "'k \<Rightarrow> ('k, 'v) base_set_delta \<Rightarrow> ('k, 'v) base_set_delta" where
  "markKey k s = s\<lparr>keyGenerationIdMap := fmupd k (m_generationId s) (keyGenerationIdMap s)\<rparr>"

definition clearKey :: "'k \<Rightarrow> ('k, 'v) base_set_delta \<Rightarrow> ('k, 'v) base_set_delta" where
  "clearKey k s = s\<lparr>keyGenerationIdMap := fmdrop k (keyGenerationIdMap s)\<rparr>"

subsection \<open>Finding\<close>

text \<open>
  The const \<^verbatim>\<open>find\<close>.  The lookup among the original elements prefers the copy of a mutable element.
\<close>

definition find_original_const :: "('k, 'v) base_set_delta \<Rightarrow> 'k \<Rightarrow> 'v option" where
  "find_original_const s k = (case fmlookup (copiedElements s) k of
     Some v \<Rightarrow> Some v | None \<Rightarrow> fmlookup (originalElements s) k)"

definition delta_find :: "('k, 'v) base_set_delta \<Rightarrow> 'k \<Rightarrow> 'v option" where
  "delta_find s k =
     (if Contains (removedElements s) k then None
      else case find_original_const s k of
          Some v \<Rightarrow> Some v
        | None \<Rightarrow> fmlookup (addedElements s) k)"

text \<open>The same lookup for immutable elements, which are never copied.\<close>

definition delta_find_immutable :: "('k, 'v) base_set_delta \<Rightarrow> 'k \<Rightarrow> 'v option" where
  "delta_find_immutable s k =
     (if Contains (removedElements s) k then None
      else case fmlookup (originalElements s) k of
          Some v \<Rightarrow> Some v
        | None \<Rightarrow> fmlookup (addedElements s) k)"

text \<open>
  The non-const \<^verbatim>\<open>find\<close> of a mutable element copies an original element first, so that the caller may
  change the copy; the key counts as touched.
\<close>

definition find_original_copy :: "'k \<Rightarrow> ('k, 'v) base_set_delta \<Rightarrow> ('k, 'v) base_set_delta \<times> 'v option" where
  "find_original_copy k s =
     (case fmlookup (copiedElements s) k of
        Some v \<Rightarrow> (s, Some v)
      | None \<Rightarrow> (case fmlookup (originalElements s) k of
          None \<Rightarrow> (s, None)
        | Some v \<Rightarrow> (s\<lparr>copiedElements := fmupd k v (copiedElements s)\<rparr>, Some v)))"

definition delta_find_mutable :: "'k \<Rightarrow> ('k, 'v) base_set_delta \<Rightarrow> ('k, 'v) base_set_delta \<times> 'v option" where
  "delta_find_mutable k s =
     (let (s', r) =
        (if Contains (removedElements s) k then (s, None)
         else case find_original_copy k s of
             (s', Some v) \<Rightarrow> (s', Some v)
           | (s', None) \<Rightarrow> (s', fmlookup (addedElements s') k))
      in case r of None \<Rightarrow> (s', None) | Some v \<Rightarrow> (markKey k s', Some v))"

text \<open>An assignment through the iterator the non-const \<^verbatim>\<open>find\<close> returned.\<close>

definition delta_write :: "'k \<Rightarrow> 'v \<Rightarrow> ('k, 'v) base_set_delta \<Rightarrow> ('k, 'v) base_set_delta" where
  "delta_write k v s =
     (if Contains (copiedElements s) k then s\<lparr>copiedElements := fmupd k v (copiedElements s)\<rparr>
      else s\<lparr>addedElements := fmupd k v (addedElements s)\<rparr>)"

subsection \<open>Inserting and removing\<close>

definition insert_mutable :: "'k \<Rightarrow> 'v \<Rightarrow> ('k, 'v) base_set_delta \<Rightarrow> ('k, 'v) base_set_delta \<times> InsertResult" where
  "insert_mutable k v s0 =
     (let s = markKey k s0;
          into_added = (\<lambda>s. s\<lparr>addedElements := fmupd k v (fmdrop k (addedElements s))\<rparr>);
          into_copied = (\<lambda>s. s\<lparr>copiedElements := fmupd k v (fmdrop k (copiedElements s))\<rparr>)
      in if Contains (removedElements s) k then
           (let s' = s\<lparr>removedElements := fmdrop k (removedElements s)\<rparr>
            in (if Contains (addedElements s') k then into_added s' else into_copied s', Insert_Unremoved))
         else if Contains (originalElements s) k then (into_copied s, Insert_Updated)
         else (into_added s, if Contains (addedElements s) k then Insert_Updated else Insert_Inserted))"

definition insert_immutable :: "'k \<Rightarrow> 'v \<Rightarrow> ('k, 'v) base_set_delta \<Rightarrow> ('k, 'v) base_set_delta \<times> InsertResult" where
  "insert_immutable k v s =
     (if Contains (removedElements s) k then
        (let s' = (if Contains (addedElements s) k then markKey k s else clearKey k s)
         in (s'\<lparr>removedElements := fmdrop k (removedElements s')\<rparr>, Insert_Unremoved))
      else if Contains (originalElements s) k \<or> Contains (addedElements s) k then (s, Insert_Redundant)
      else (let s' = markKey k s in (s'\<lparr>addedElements := fmupd k v (addedElements s')\<rparr>, Insert_Inserted)))"

definition remove_untagged :: "'k \<Rightarrow> ('k, 'v) base_set_delta \<Rightarrow> ('k, 'v) base_set_delta \<times> RemoveResult" where
  "remove_untagged k s =
     (case fmlookup (addedElements s) k of
        Some v \<Rightarrow> ((markKey k s)\<lparr>removedElements := fmupd k v (removedElements s)\<rparr>, Remove_Uninserted)
      | None \<Rightarrow> (case fmlookup (originalElements s) k of
          Some v \<Rightarrow> ((markKey k s)\<lparr>removedElements := fmupd k v (removedElements s)\<rparr>, Remove_Removed)
        | None \<Rightarrow> (s, Remove_None)))"

definition remove_immutable :: "'k \<Rightarrow> ('k, 'v) base_set_delta \<Rightarrow> ('k, 'v) base_set_delta \<times> RemoveResult" where
  "remove_immutable k s = (if Contains (removedElements s) k then (s, Remove_Redundant) else remove_untagged k s)"

definition remove_mutable :: "'k \<Rightarrow> ('k, 'v) base_set_delta \<Rightarrow> ('k, 'v) base_set_delta \<times> RemoveResult" where
  "remove_mutable k s =
     (if Contains (removedElements s) k then (s, Remove_Redundant)
      else case fmlookup (copiedElements s) k of
          Some v \<Rightarrow> ((markKey k s)\<lparr>removedElements := fmupd k v (removedElements s),
                       copiedElements := fmdrop k (copiedElements s)\<rparr>, Remove_Unmodified_And_Removed)
        | None \<Rightarrow> remove_untagged k s)"

definition delta_reset :: "('k, 'v) base_set_delta \<Rightarrow> ('k, 'v) base_set_delta" where
  "delta_reset s = s\<lparr>addedElements := fmempty, removedElements := fmempty, copiedElements := fmempty,
     m_generationId := 1, keyGenerationIdMap := fmempty\<rparr>"

definition key_generationId :: "('k, 'v) base_set_delta \<Rightarrow> 'k \<Rightarrow> 32 word" where
  "key_generationId s k = (case fmlookup (keyGenerationIdMap s) k of None \<Rightarrow> 0 | Some g \<Rightarrow> g)"

definition incrementGenerationId :: "('k, 'v) base_set_delta \<Rightarrow> ('k, 'v) base_set_delta" where
  "incrementGenerationId s = s\<lparr>m_generationId := m_generationId s + 1\<rparr>"

subsection \<open>BaseSetUtils\<close>

text \<open>The three templates work on any container, given by the operation they call.\<close>

definition ContainsAny :: "('s \<Rightarrow> 'k \<Rightarrow> bool) \<Rightarrow> 's \<Rightarrow> 'k list \<Rightarrow> bool" where
  "ContainsAny contains s ks \<longleftrightarrow> list_ex (contains s) ks"

definition InsertAll :: "('k \<Rightarrow> 'v \<Rightarrow> 's \<Rightarrow> 's \<times> 'r) \<Rightarrow> ('k \<times> 'v) list \<Rightarrow> 's \<Rightarrow> 's" where
  "InsertAll ins es s = fold (\<lambda>e s. fst (ins (fst e) (snd e) s)) es s"

definition RemoveAll :: "('k \<Rightarrow> 's \<Rightarrow> 's \<times> 'r) \<Rightarrow> 'k list \<Rightarrow> 's \<Rightarrow> 's" where
  "RemoveAll rem ks s = fold (\<lambda>k s. fst (rem k s)) ks s"

subsection \<open>The base set and its commit policy\<close>

text \<open>
  \<^verbatim>\<open>UpdateSet\<close> loops over the three containers of the delta, each given as the sequence in which it is
  visited.  An insertion of a range skips the keys that are present.
\<close>

definition UpdateSet :: "('k \<times> 'v) list \<Rightarrow> ('k \<times> 'v) list \<Rightarrow> ('k \<times> 'v) list \<Rightarrow> ('k, 'v) fmap \<Rightarrow> ('k, 'v) fmap result" where
  "UpdateSet added copied removed elements =
     (let e1 = fold (\<lambda>p e. if Contains e (fst p) then e else fmupd (fst p) (snd p) e) added elements
      in map_result (\<lambda>e2. fold (\<lambda>p e. fmdrop (fst p) e) removed e2)
           (fold_result (\<lambda>p e. if \<not> Contains e (fst p) then Err Invalid_Argument
                               else Ok (fmupd (fst p) (snd p) (fmdrop (fst p) e))) copied e1))"

text \<open>A base set with the delta its weak pointer refers to, while somebody holds that delta.\<close>

record ('k, 'v) base_set =
  m_elements :: "('k, 'v) fmap"
  m_pWeakDelta :: "('k, 'v) base_set_delta option"

definition base_empty :: "('k, 'v) base_set \<Rightarrow> bool" where
  "base_empty b \<longleftrightarrow> fmsize (m_elements b) = 0"

definition base_size :: "('k, 'v) base_set \<Rightarrow> nat" where
  "base_size b = fmsize (m_elements b)"

definition base_find :: "('k, 'v) base_set \<Rightarrow> 'k \<Rightarrow> 'v option" where
  "base_find b k = fmlookup (m_elements b) k"

definition base_contains :: "('k, 'v) base_set \<Rightarrow> 'k \<Rightarrow> bool" where
  "base_contains b k \<longleftrightarrow> Contains (m_elements b) k"

definition rebase :: "('k, 'v) base_set \<Rightarrow> ('k, 'v) base_set result" where
  "rebase b = (case m_pWeakDelta b of
     Some _ \<Rightarrow> Err Runtime_Error
   | None \<Rightarrow> Ok (b\<lparr>m_pWeakDelta := Some (new_delta (m_elements b))\<rparr>))"

definition rebaseDetached :: "('k, 'v) base_set \<Rightarrow> ('k, 'v) base_set_delta" where
  "rebaseDetached b = new_delta (m_elements b)"

text \<open>
  \<open>enum\<close> returns the sequence in which a container is visited.  The delta refers to the
  elements of the base set, so after the commit it is a delta of the new elements.
\<close>

definition commit :: "(('k, 'v) fmap \<Rightarrow> ('k \<times> 'v) list) \<Rightarrow> ('k, 'v) base_set \<Rightarrow> ('k, 'v) base_set result" where
  "commit enum b = (case m_pWeakDelta b of
     None \<Rightarrow> Err Runtime_Error
   | Some d \<Rightarrow> map_result (\<lambda>e. \<lparr>m_elements = e, m_pWeakDelta = Some (delta_reset (d\<lparr>originalElements := e\<rparr>))\<rparr>)
       (UpdateSet (enum (addedElements d)) (enum (copiedElements d)) (enum (removedElements d)) (m_elements b)))"

subsection \<open>Invariant and contents\<close>

definition delta_inv :: "('k, 'v) base_set_delta \<Rightarrow> bool" where
  "delta_inv s \<longleftrightarrow>
     (\<forall>k. Contains (addedElements s) k \<longrightarrow> \<not> Contains (originalElements s) k)
     \<and> (\<forall>k. Contains (copiedElements s) k \<longrightarrow> Contains (originalElements s) k \<and> \<not> Contains (removedElements s) k)
     \<and> (\<forall>k. Contains (removedElements s) k \<longrightarrow> Contains (originalElements s) k \<or> Contains (addedElements s) k)"

definition delta_inv_immutable :: "('k, 'v) base_set_delta \<Rightarrow> bool" where
  "delta_inv_immutable s \<longleftrightarrow> delta_inv s \<and> copiedElements s = fmempty"

lemmas delta_ops = delta_find_def find_original_const_def Contains_def markKey_def clearKey_def

lemma delta_find_markKey [simp]: "delta_find (markKey k s) = delta_find s" "delta_inv (markKey k s) = delta_inv s"
  "delta_find (clearKey k s) = delta_find s" "delta_inv (clearKey k s) = delta_inv s"
  by (auto simp: fun_eq_iff delta_ops delta_inv_def split: option.splits)

lemma delta_find_immutable_eq: "copiedElements s = fmempty \<Longrightarrow> delta_find_immutable s = delta_find s"
  by (simp add: fun_eq_iff delta_find_immutable_def delta_find_def find_original_const_def)

lemma new_delta_inv: "delta_inv_immutable (new_delta m)" "delta_find (new_delta m) = fmlookup m"
  by (auto simp: delta_inv_immutable_def delta_inv_def new_delta_def delta_ops fun_eq_iff split: option.splits)

lemma delta_contains_find: "delta_inv s \<Longrightarrow> delta_contains s k \<longleftrightarrow> delta_find s k \<noteq> None"
  by (auto simp: delta_contains_def delta_inv_def delta_ops split: option.splits)

lemma insert_mutable_find:
  assumes "delta_inv s"
  shows "delta_inv (fst (insert_mutable k v s))" "delta_find (fst (insert_mutable k v s)) = (delta_find s)(k \<mapsto> v)"
proof -
  show "delta_inv (fst (insert_mutable k v s))"
    using assms by (auto simp: insert_mutable_def Let_def delta_inv_def Contains_def markKey_def)
  show "delta_find (fst (insert_mutable k v s)) = (delta_find s)(k \<mapsto> v)"
  proof
    fix j
    show "delta_find (fst (insert_mutable k v s)) j = ((delta_find s)(k \<mapsto> v)) j"
      using assms by (auto simp: insert_mutable_def Let_def delta_inv_def delta_ops split: option.splits)
  qed
qed

lemma insert_mutable_result:
  assumes "delta_inv s"
  shows "snd (insert_mutable k v s) = (if Contains (removedElements s) k then Insert_Unremoved
    else if delta_find s k \<noteq> None then Insert_Updated else Insert_Inserted)"
  using assms by (auto simp: insert_mutable_def Let_def delta_inv_def delta_ops split: option.splits)

lemma remove_untagged_find:
  assumes "delta_inv s" "\<not> Contains (removedElements s) k" "\<not> Contains (copiedElements s) k"
  shows "delta_inv (fst (remove_untagged k s))" "delta_find (fst (remove_untagged k s)) = (delta_find s)(k := None)"
    "snd (remove_untagged k s) = (if delta_find s k = None then Remove_None
      else if Contains (addedElements s) k then Remove_Uninserted else Remove_Removed)"
    "copiedElements (fst (remove_untagged k s)) = copiedElements s"
  using assms
  by (auto simp: remove_untagged_def delta_inv_def delta_ops fun_eq_iff split: option.splits)

lemma remove_mutable_find:
  assumes "delta_inv s"
  shows "delta_inv (fst (remove_mutable k s))" "delta_find (fst (remove_mutable k s)) = (delta_find s)(k := None)"
proof -
  consider "Contains (removedElements s) k" | v where "\<not> Contains (removedElements s) k" "fmlookup (copiedElements s) k = Some v"
    | "\<not> Contains (removedElements s) k" "fmlookup (copiedElements s) k = None" by (cases "fmlookup (copiedElements s) k") auto
  then have "delta_inv (fst (remove_mutable k s)) \<and> delta_find (fst (remove_mutable k s)) = (delta_find s)(k := None)"
  proof cases
    case 1
    with assms show ?thesis by (auto simp: remove_mutable_def delta_find_def fun_eq_iff)
  next
    case 2
    with assms show ?thesis
      by (auto simp: remove_mutable_def delta_inv_def delta_ops fun_eq_iff split: option.splits)
  next
    case 3
    with remove_untagged_find [OF assms, of k] show ?thesis
      by (simp add: remove_mutable_def) (simp add: Contains_def)
  qed
  then show "delta_inv (fst (remove_mutable k s))" "delta_find (fst (remove_mutable k s)) = (delta_find s)(k := None)"
    by auto
qed

lemma remove_immutable_find:
  assumes "delta_inv_immutable s"
  shows "delta_inv_immutable (fst (remove_immutable k s))"
    "delta_find (fst (remove_immutable k s)) = (delta_find s)(k := None)"
  using assms remove_untagged_find [of s k]
  by (auto simp: remove_immutable_def delta_inv_immutable_def Contains_def) (auto simp: delta_find_def fun_eq_iff Contains_def)

lemma insert_immutable_find:
  assumes "delta_inv_immutable s"
  shows "delta_inv_immutable (fst (insert_immutable k v s))"
    "dom (delta_find (fst (insert_immutable k v s))) = insert k (dom (delta_find s))"
    "j \<noteq> k \<Longrightarrow> delta_find (fst (insert_immutable k v s)) j = delta_find s j"
    "delta_find s k = Some w \<Longrightarrow> delta_find (fst (insert_immutable k v s)) k = Some w"
  using assms
  by (auto simp: insert_immutable_def Let_def delta_inv_immutable_def delta_inv_def delta_ops dom_def split: option.splits if_splits)

lemma delta_find_mutable_spec:
  assumes "delta_inv s"
  shows "snd (delta_find_mutable k s) = delta_find s k" "delta_inv (fst (delta_find_mutable k s))"
    "delta_find (fst (delta_find_mutable k s)) = delta_find s"
    "delta_find s k \<noteq> None \<Longrightarrow> key_generationId (fst (delta_find_mutable k s)) k = m_generationId s"
    "delta_find s k \<noteq> None \<Longrightarrow> delta_inv (delta_write k v (fst (delta_find_mutable k s)))
      \<and> delta_find (delta_write k v (fst (delta_find_mutable k s))) = (delta_find s)(k \<mapsto> v)"
  using assms
  by (auto simp: delta_find_mutable_def find_original_copy_def delta_inv_def delta_ops fun_eq_iff Let_def
      key_generationId_def delta_write_def split: option.splits if_splits)

subsection \<open>The interface of a set of elements\<close>

text \<open>
  What the callers of a delta rely on, for both kinds of elements: an insertion makes the key
  present and changes no other one, a removal makes it absent.  The helpers of \<^verbatim>\<open>BaseSetUtils.h\<close> are
  verified once against this interface.
\<close>

locale element_store =
  fixes inv :: "'s \<Rightarrow> bool"
    and view :: "'s \<Rightarrow> 'k \<Rightarrow> 'v option"
    and ins :: "'k \<Rightarrow> 'v \<Rightarrow> 's \<Rightarrow> 's \<times> 'r"
    and rem :: "'k \<Rightarrow> 's \<Rightarrow> 's \<times> 'q"
  assumes ins_inv: "inv s \<Longrightarrow> inv (fst (ins k v s))"
    and ins_dom: "inv s \<Longrightarrow> dom (view (fst (ins k v s))) = insert k (dom (view s))"
    and ins_other: "inv s \<Longrightarrow> j \<noteq> k \<Longrightarrow> view (fst (ins k v s)) j = view s j"
    and rem_inv: "inv s \<Longrightarrow> inv (fst (rem k s))"
    and rem_view: "inv s \<Longrightarrow> view (fst (rem k s)) = (view s)(k := None)"
begin

lemma InsertAll_keys:
  "inv s \<Longrightarrow> inv (InsertAll ins es s) \<and> dom (view (InsertAll ins es s)) = dom (view s) \<union> fst ` set es
    \<and> (\<forall>j. j \<notin> fst ` set es \<longrightarrow> view (InsertAll ins es s) j = view s j)"
proof (induction es arbitrary: s)
  case (Cons e es)
  let ?s = "fst (ins (fst e) (snd e) s)"
  note IH = Cons.IH [OF ins_inv [OF Cons.prems], of "fst e" "snd e"]
  have "InsertAll ins (e # es) s = InsertAll ins es ?s" by (simp add: InsertAll_def)
  with IH ins_dom [OF Cons.prems] ins_other [OF Cons.prems] show ?case by auto
qed (simp add: InsertAll_def)

lemma RemoveAll_view:
  "inv s \<Longrightarrow> inv (RemoveAll rem ks s) \<and> view (RemoveAll rem ks s) = (\<lambda>j. if j \<in> set ks then None else view s j)"
proof (induction ks arbitrary: s)
  case (Cons k ks)
  note IH = Cons.IH [OF rem_inv [OF Cons.prems], of k]
  have "RemoveAll rem (k # ks) s = RemoveAll rem ks (fst (rem k s))" by (simp add: RemoveAll_def)
  with IH rem_view [OF Cons.prems, of k] show ?case by (auto simp: fun_eq_iff)
qed (simp add: RemoveAll_def)

text \<open>Inserting new elements and removing them again restores the contents.\<close>

lemma InsertAll_RemoveAll:
  assumes "inv s" "\<forall>e \<in> set es. view s (fst e) = None"
  shows "view (RemoveAll rem (map fst es) (InsertAll ins es s)) = view s"
proof
  fix j
  have i: "inv (InsertAll ins es s)" "j \<notin> fst ` set es \<Longrightarrow> view (InsertAll ins es s) j = view s j"
    using InsertAll_keys [OF assms(1), of es] by auto
  show "view (RemoveAll rem (map fst es) (InsertAll ins es s)) j = view s j"
    using RemoveAll_view [OF i(1), of "map fst es"] i(2) assms(2) by auto
qed

end

locale mutable_element_store = element_store +
  assumes ins_value: "inv s \<Longrightarrow> view (fst (ins k v s)) k = Some v"
begin

lemma InsertAll_view:
  "inv s \<Longrightarrow> view (InsertAll ins es s) = view s ++ map_of (rev es)"
proof (induction es arbitrary: s)
  case (Cons e es)
  have "view (fst (ins (fst e) (snd e) s)) = (view s)(fst e \<mapsto> snd e)"
    using ins_other [OF Cons.prems] ins_value [OF Cons.prems] by (auto simp: fun_eq_iff)
  with Cons.IH [OF ins_inv [OF Cons.prems], of "fst e" "snd e"] show ?case
    by (auto simp: InsertAll_def fun_eq_iff map_add_def split: option.splits)
qed (simp add: InsertAll_def)

end

interpretation mutable_delta: mutable_element_store delta_inv delta_find insert_mutable remove_mutable
  by unfold_locales (simp_all add: insert_mutable_find remove_mutable_find dom_fun_upd)

interpretation immutable_delta: element_store delta_inv_immutable delta_find insert_immutable remove_immutable
  by unfold_locales (simp_all add: insert_immutable_find remove_immutable_find)

subsection \<open>Size and commit\<close>

lemma delta_size_view:
  assumes "delta_inv s"
  shows "delta_size s = of_nat (card (dom (delta_find s)))"
proof -
  let ?O = "fset (fmdom (originalElements s))" and ?A = "fset (fmdom (addedElements s))" and ?R = "fset (fmdom (removedElements s))"
  have c: "Contains m k \<longleftrightarrow> k \<in> fset (fmdom m)" for m :: "('a, 'b) fmap" and k
    by (simp add: Contains_def fmlookup_dom_iff)
  have "dom (delta_find s) = (?O \<union> ?A) - ?R"
    using delta_contains_find [OF assms] by (auto simp: dom_def delta_contains_def c)
  moreover have "?R \<subseteq> ?O \<union> ?A" "?O \<inter> ?A = {}" using assms by (auto simp: delta_inv_def c)
  then have "card ((?O \<union> ?A) - ?R) + card ?R = card ?O + card ?A"
    by (metis card_Un_disjoint card_mono card_Diff_subset finite_Un finite_fset finite_subset le_add_diff_inverse2)
  ultimately have "of_nat (card (dom (delta_find s))) + of_nat (fmsize (removedElements s))
      = (of_nat (fmsize (originalElements s)) + of_nat (fmsize (addedElements s)) :: 64 word)"
    unfolding fcard.rep_eq by (metis of_nat_add)
  then show ?thesis unfolding delta_size_def by (simp add: algebra_simps)
qed

text \<open>A sequence in which a container may be visited.\<close>

definition enumerates :: "('k \<times> 'v) list \<Rightarrow> ('k, 'v) fmap \<Rightarrow> bool" where
  "enumerates xs m \<longleftrightarrow> distinct (map fst xs) \<and> map_of xs = fmlookup m"

lemma insert_range_lookup:
  "fmlookup (fold (\<lambda>p e. if Contains e (fst p) then e else fmupd (fst p) (snd p) e) xs e) = map_of xs ++ fmlookup e"
proof (induction xs arbitrary: e)
  case (Cons p xs)
  then show ?case by (auto simp: fun_eq_iff map_add_def Contains_def split: option.splits)
qed simp

lemma update_copied:
  assumes "\<forall>p \<in> set xs. Contains e (fst p)" "distinct (map fst xs)"
  shows "\<exists>e'. fold_result (\<lambda>p e. if \<not> Contains e (fst p) then Err Invalid_Argument
      else Ok (fmupd (fst p) (snd p) (fmdrop (fst p) e))) xs e = Ok e' \<and> fmlookup e' = fmlookup e ++ map_of xs"
  using assms
proof (induction xs arbitrary: e)
  case (Cons p xs)
  let ?e = "fmupd (fst p) (snd p) (fmdrop (fst p) e)"
  have "\<forall>q \<in> set xs. Contains ?e (fst q)" using Cons.prems by (auto simp: Contains_def)
  then obtain e' where e': "fold_result (\<lambda>p e. if \<not> Contains e (fst p) then Err Invalid_Argument
      else Ok (fmupd (fst p) (snd p) (fmdrop (fst p) e))) xs ?e = Ok e'" "fmlookup e' = fmlookup ?e ++ map_of xs"
    using Cons.IH [of ?e] Cons.prems(2) by (metis (no_types, lifting) distinct.simps(2) list.simps(9))
  have "map_of xs (fst p) = None" using Cons.prems(2) by (simp add: map_of_eq_None_iff)
  then have "fmlookup e' = fmlookup e ++ map_of (p # xs)"
    using e'(2) by (auto simp: fun_eq_iff map_add_def split: option.splits)
  with e'(1) Cons.prems(1) show ?case by (simp del: map_of.simps)
qed simp

lemma erase_range_lookup:
  "fmlookup (fold (\<lambda>p e. fmdrop (fst p) e) xs e) = (\<lambda>k. if k \<in> fst ` set xs then None else fmlookup e k)"
  by (induction xs arbitrary: e) (auto simp: fun_eq_iff)

lemma UpdateSet_delta:
  assumes inv: "delta_inv d" and a: "enumerates as (addedElements d)" and c: "enumerates cs (copiedElements d)"
    and r: "enumerates rs (removedElements d)"
  shows "\<exists>e. UpdateSet as cs rs (originalElements d) = Ok e \<and> fmlookup e = delta_find d"
proof -
  define e1 where "e1 = fold (\<lambda>p e. if Contains e (fst p) then e else fmupd (fst p) (snd p) e) as (originalElements d)"
  have e1: "fmlookup e1 = fmlookup (addedElements d) ++ fmlookup (originalElements d)"
    using a by (simp add: e1_def insert_range_lookup enumerates_def)
  have "\<forall>p \<in> set cs. Contains (originalElements d) (fst p)"
  proof
    fix p assume "p \<in> set cs"
    then have "map_of cs (fst p) \<noteq> None" by (auto simp: map_of_eq_None_iff)
    with inv c show "Contains (originalElements d) (fst p)" by (auto simp: enumerates_def delta_inv_def Contains_def)
  qed
  then have "\<forall>p \<in> set cs. Contains e1 (fst p)" by (auto simp: Contains_def e1)
  then obtain e2 where e2: "fold_result (\<lambda>p e. if \<not> Contains e (fst p) then Err Invalid_Argument
      else Ok (fmupd (fst p) (snd p) (fmdrop (fst p) e))) cs e1 = Ok e2" "fmlookup e2 = fmlookup e1 ++ map_of cs"
    using update_copied [of cs e1] c by (auto simp: enumerates_def)
  have rem: "k \<in> fst ` set rs \<longleftrightarrow> Contains (removedElements d) k" for k
    using r map_of_eq_None_iff [of rs k] by (auto simp: enumerates_def Contains_def)
  have "fmlookup (fold (\<lambda>p e. fmdrop (fst p) e) rs e2) = delta_find d"
    using inv c by (auto simp: erase_range_lookup rem e2(2) e1 fun_eq_iff delta_inv_def delta_ops map_add_def enumerates_def split: option.splits)
  with e2(1) show ?thesis by (simp add: UpdateSet_def Let_def e1_def)
qed

text \<open>A base set and its attached delta.\<close>

definition base_inv :: "('k, 'v) base_set \<Rightarrow> bool" where
  "base_inv b \<longleftrightarrow> (\<forall>d. m_pWeakDelta b = Some d \<longrightarrow> originalElements d = m_elements b \<and> delta_inv d)"

subsection \<open>Properties\<close>

text \<open>
  Inserting a mutable element overwrites or adds its key in the contents of the delta and
  changes no other key; the result tells whether the element was pending removal, visible or new.
\<close>

theorem delta_insert_mutable:
  assumes "delta_inv s"
  shows "delta_inv (fst (insert_mutable k v s))
    \<and> delta_find (fst (insert_mutable k v s)) = (delta_find s)(k \<mapsto> v)
    \<and> snd (insert_mutable k v s) = (if Contains (removedElements s) k then Insert_Unremoved
        else if delta_contains s k then Insert_Updated else Insert_Inserted)
    \<and> key_generationId (fst (insert_mutable k v s)) k = m_generationId s"
  using insert_mutable_find [OF assms] insert_mutable_result [OF assms] delta_contains_find [OF assms]
  by (simp add: insert_mutable_def Let_def key_generationId_def markKey_def)

definition sample_delta :: "(nat, nat) base_set_delta" where
  "sample_delta = \<lparr>originalElements = fmap_of_list [(1, 10), (2, 20)], addedElements = fmap_of_list [(3, 30)],
     removedElements = fmap_of_list [(1, 10)], copiedElements = fmap_of_list [(2, 25)], m_generationId = 4,
     keyGenerationIdMap = fmempty\<rparr>"

lemma sample_delta_inv: "delta_inv sample_delta"
  by (simp add: delta_inv_def sample_delta_def Contains_def fmlookup_of_list)

theorem delta_insert_mutable_witness:
  "delta_inv sample_delta \<and> delta_find (fst (insert_mutable 1 11 sample_delta)) 1 = Some 11
    \<and> snd (insert_mutable 1 11 sample_delta) = Insert_Unremoved"
  using delta_insert_mutable [OF sample_delta_inv, of 1 11] sample_delta_inv
  by (simp add: sample_delta_def Contains_def fmlookup_of_list)

text \<open>
  Removing a key, of a mutable or an immutable element, makes it absent and changes no other
  key; whatever was inserted in bulk before can be removed again.
\<close>

theorem delta_remove:
  assumes "delta_inv s"
  shows "delta_inv (fst (remove_mutable k s))
    \<and> delta_find (fst (remove_mutable k s)) = (delta_find s)(k := None)
    \<and> (snd (remove_mutable k s) \<in> {Remove_None, Remove_Redundant} \<longleftrightarrow> \<not> delta_contains s k)
    \<and> (\<forall>es. (\<forall>e \<in> set es. \<not> delta_contains s (fst e)) \<longrightarrow>
        delta_find (RemoveAll remove_mutable (map fst es) (InsertAll insert_mutable es s)) = delta_find s)"
proof (intro conjI allI impI)
  show "delta_inv (fst (remove_mutable k s))" "delta_find (fst (remove_mutable k s)) = (delta_find s)(k := None)"
    by (rule remove_mutable_find [OF assms])+
  show "snd (remove_mutable k s) \<in> {Remove_None, Remove_Redundant} \<longleftrightarrow> \<not> delta_contains s k"
    using assms by (auto simp: remove_mutable_def remove_untagged_def delta_contains_def delta_inv_def Contains_def split: option.splits)
  show "delta_find (RemoveAll remove_mutable (map fst es) (InsertAll insert_mutable es s)) = delta_find s"
    if "\<forall>e \<in> set es. \<not> delta_contains s (fst e)" for es
    using mutable_delta.InsertAll_RemoveAll [OF assms, of es] that delta_contains_find [OF assms] by simp
qed

theorem delta_remove_witness:
  "delta_inv sample_delta \<and> delta_find (fst (remove_mutable 2 sample_delta)) 2 = None
    \<and> delta_find (fst (remove_mutable 2 sample_delta)) 3 = delta_find sample_delta 3"
  using delta_remove [OF sample_delta_inv, of 2] sample_delta_inv by simp

text \<open>
  The size a delta reports is the number of elements a lookup can find, although an element
  that was added and removed again is counted in both containers.
\<close>

theorem delta_size_spec:
  assumes "delta_inv s"
  shows "delta_size s = of_nat (card {k. delta_contains s k}) \<and> (\<forall>k. delta_contains s k \<longleftrightarrow> delta_find s k \<noteq> None)"
proof -
  have "{k. delta_contains s k} = dom (delta_find s)" using delta_contains_find [OF assms] by (auto simp: dom_def)
  with delta_size_view [OF assms] delta_contains_find [OF assms] show ?thesis by simp
qed

theorem delta_size_spec_witness: "delta_inv sample_delta \<and> delta_size sample_delta = of_nat (card {k. delta_contains sample_delta k})"
  using delta_size_spec [OF sample_delta_inv] sample_delta_inv by simp

text \<open>
  C31: A commit never throws while a delta is attached; it makes the contents of the delta the
  elements of the base set, in whatever order the containers are visited, and leaves an empty delta
  over the new elements.
\<close>

theorem commit_spec:
  assumes "base_inv b" "m_pWeakDelta b = Some d" "\<And>m. enumerates (enum m) m"
  shows "\<exists>b'. commit enum b = Ok b' \<and> base_inv b' \<and> base_find b' = delta_find d
    \<and> (\<exists>d'. m_pWeakDelta b' = Some d' \<and> delta_find d' = delta_find d \<and> m_generationId d' = 1
        \<and> addedElements d' = fmempty \<and> removedElements d' = fmempty \<and> copiedElements d' = fmempty)"
proof -
  have d: "originalElements d = m_elements b" "delta_inv d" using assms(1,2) by (auto simp: base_inv_def)
  obtain e where e: "UpdateSet (enum (addedElements d)) (enum (copiedElements d)) (enum (removedElements d)) (m_elements b) = Ok e"
      "fmlookup e = delta_find d"
    using UpdateSet_delta [OF d(2) assms(3) assms(3) assms(3)] d(1) by auto
  let ?d = "delta_reset (d\<lparr>originalElements := e\<rparr>)"
  have d': "delta_inv ?d" "delta_find ?d = fmlookup e"
    by (auto simp: delta_inv_def delta_reset_def delta_ops fun_eq_iff split: option.splits)
  show ?thesis using e d' assms(2)
    by (auto simp: commit_def base_inv_def base_find_def fun_eq_iff) (auto simp: delta_reset_def)
qed

text \<open>A base set of one element with an attached delta, and a way to visit its containers.\<close>

definition sample_base :: "(nat, nat) base_set" where
  "sample_base = \<lparr>m_elements = fmap_of_list [(1, 10), (2, 20)], m_pWeakDelta = Some sample_delta\<rparr>"

definition visit_sorted :: "(nat, nat) fmap \<Rightarrow> (nat \<times> nat) list" where
  "visit_sorted m = map (\<lambda>k. (k, the (fmlookup m k))) (sorted_list_of_set (fset (fmdom m)))"

lemma visit_sorted_enumerates: "enumerates (visit_sorted m) m"
proof -
  have "map_of (visit_sorted m) = fmlookup m"
  proof
    fix k
    show "map_of (visit_sorted m) k = fmlookup m k"
      by (cases "fmlookup m k") (simp_all add: visit_sorted_def map_of_map_restrict restrict_map_def fmlookup_dom_iff)
  qed
  then show ?thesis by (simp add: enumerates_def visit_sorted_def comp_def)
qed

theorem commit_spec_witness:
  "base_inv sample_base \<and> (\<exists>b'. commit visit_sorted sample_base = Ok b' \<and> base_find b' 2 = Some 25 \<and> base_find b' 1 = None)"
proof -
  have inv: "base_inv sample_base" "m_pWeakDelta sample_base = Some sample_delta"
    using sample_delta_inv by (simp_all add: base_inv_def sample_base_def) (simp add: sample_delta_def)
  have "delta_find sample_delta 2 = Some 25" "delta_find sample_delta 1 = None"
    by (simp_all add: sample_delta_def delta_ops fmlookup_of_list)
  with commit_spec [OF inv visit_sorted_enumerates] inv(1) show ?thesis by auto
qed

end
