(* ===== verification/Cache.thy ===== *)
theory Cache
  imports Delta_Set
begin

section \<open>Caches over delta sets\<close>

text \<open>
  The mixins from which a cache delta is put together, \<^verbatim>\<open>src/src/bitxorcore/cache/CacheMixins.h\<close>:
  insertion and removal that throw unless they change the contents, and accessors whose iterator
  throws if it points nowhere.  They are given twice: on a \<open>base_set_delta\<close>, as the code has them, and
  on the map of its contents, which is the view the plugins have of a cache.  The locale
  \<open>cache_store\<close> states what a plugin relies on, and its interpretation shows that the mixins
  over a delta set provide it.
\<close>

definition mixin_insert :: "'k \<Rightarrow> 'v \<Rightarrow> ('k, 'v) base_set_delta \<Rightarrow> ('k, 'v) base_set_delta result" where
  "mixin_insert k v s = (case insert_mutable k v s of (s', r) \<Rightarrow>
     if Insert_Inserted = r \<or> Insert_Unremoved = r then Ok s' else Err Invalid_Argument)"

definition mixin_remove :: "'k \<Rightarrow> ('k, 'v) base_set_delta \<Rightarrow> ('k, 'v) base_set_delta result" where
  "mixin_remove k s = (case remove_mutable k s of (s', r) \<Rightarrow>
     if Remove_None \<noteq> r \<and> Remove_Redundant \<noteq> r then Ok s' else Err Invalid_Argument)"

definition mixin_get :: "('k, 'v) base_set_delta \<Rightarrow> 'k \<Rightarrow> 'v result" where
  "mixin_get s k = (case delta_find s k of None \<Rightarrow> Err Invalid_Argument | Some v \<Rightarrow> Ok v)"

text \<open>A change through the reference that the iterator of a mutable \<^verbatim>\<open>find\<close> returns.\<close>

definition mixin_modify :: "'k \<Rightarrow> ('v \<Rightarrow> 'v) \<Rightarrow> ('k, 'v) base_set_delta \<Rightarrow> ('k, 'v) base_set_delta result" where
  "mixin_modify k f s = (case delta_find_mutable k s of
     (s', None) \<Rightarrow> Err Invalid_Argument
   | (s', Some v) \<Rightarrow> Ok (delta_write k (f v) s'))"

subsection \<open>The contents of a cache\<close>

definition cache_insert :: "'k \<Rightarrow> 'v \<Rightarrow> ('k \<rightharpoonup> 'v) \<Rightarrow> ('k \<rightharpoonup> 'v) result" where
  "cache_insert k v c = (case c k of None \<Rightarrow> Ok (c(k \<mapsto> v)) | Some _ \<Rightarrow> Err Invalid_Argument)"

definition cache_remove :: "'k \<Rightarrow> ('k \<rightharpoonup> 'v) \<Rightarrow> ('k \<rightharpoonup> 'v) result" where
  "cache_remove k c = (case c k of None \<Rightarrow> Err Invalid_Argument | Some _ \<Rightarrow> Ok (c(k := None)))"

definition cache_get :: "('k \<rightharpoonup> 'v) \<Rightarrow> 'k \<Rightarrow> 'v result" where
  "cache_get c k = (case c k of None \<Rightarrow> Err Invalid_Argument | Some v \<Rightarrow> Ok v)"

definition cache_modify :: "'k \<Rightarrow> ('v \<Rightarrow> 'v) \<Rightarrow> ('k \<rightharpoonup> 'v) \<Rightarrow> ('k \<rightharpoonup> 'v) result" where
  "cache_modify k f c = (case c k of None \<Rightarrow> Err Invalid_Argument | Some v \<Rightarrow> Ok (c(k \<mapsto> f v)))"

lemma cache_insert_Ok [simp]: "cache_insert k v c = Ok c' \<longleftrightarrow> c k = None \<and> c' = c(k \<mapsto> v)"
  by (auto simp: cache_insert_def split: option.splits)

lemma cache_remove_Ok [simp]: "cache_remove k c = Ok c' \<longleftrightarrow> c k \<noteq> None \<and> c' = c(k := None)"
  by (auto simp: cache_remove_def split: option.splits)

lemma cache_get_Ok [simp]: "cache_get c k = Ok v \<longleftrightarrow> c k = Some v"
  by (auto simp: cache_get_def split: option.splits)

lemma cache_modify_Ok [simp]: "cache_modify k f c = Ok c' \<longleftrightarrow> (\<exists>v. c k = Some v \<and> c' = c(k \<mapsto> f v))"
  by (auto simp: cache_modify_def split: option.splits)

locale cache_store =
  fixes inv :: "'s \<Rightarrow> bool" and contents :: "'s \<Rightarrow> 'k \<rightharpoonup> 'v"
    and ins :: "'k \<Rightarrow> 'v \<Rightarrow> 's \<Rightarrow> 's result" and rem :: "'k \<Rightarrow> 's \<Rightarrow> 's result"
    and get :: "'s \<Rightarrow> 'k \<Rightarrow> 'v result" and modify :: "'k \<Rightarrow> ('v \<Rightarrow> 'v) \<Rightarrow> 's \<Rightarrow> 's result"
  assumes ins_contents: "inv s \<Longrightarrow> map_result contents (ins k v s) = cache_insert k v (contents s)"
    and rem_contents: "inv s \<Longrightarrow> map_result contents (rem k s) = cache_remove k (contents s)"
    and get_contents: "inv s \<Longrightarrow> get s k = cache_get (contents s) k"
    and modify_contents: "inv s \<Longrightarrow> map_result contents (modify k f s) = cache_modify k f (contents s)"
    and ins_inv: "inv s \<Longrightarrow> ins k v s = Ok s' \<Longrightarrow> inv s'"
    and rem_inv: "inv s \<Longrightarrow> rem k s = Ok s' \<Longrightarrow> inv s'"
    and modify_inv: "inv s \<Longrightarrow> modify k f s = Ok s' \<Longrightarrow> inv s'"
begin

text \<open>A sequence of changes acts on the contents as the same sequence on a map.\<close>

lemma sequence_contents:
  assumes "inv s" and "\<And>x s. inv s \<Longrightarrow> map_result contents (f x s) = g x (contents s)"
    and "\<And>x s s'. inv s \<Longrightarrow> f x s = Ok s' \<Longrightarrow> inv s'"
  shows "map_result contents (fold_result f xs s) = fold_result g xs (contents s)"
  using assms(1)
proof (induction xs arbitrary: s)
  case (Cons x xs)
  show ?case
  proof (cases "f x s")
    case (Ok s')
    with assms(2) [OF Cons.prems, of x] have "g x (contents s) = Ok (contents s')" by simp
    with Ok Cons.IH assms(3) [OF Cons.prems Ok] show ?thesis by simp
  next
    case (Err e)
    with assms(2) [OF Cons.prems, of x] have "g x (contents s) = Err e" by simp
    with Err show ?thesis by simp
  qed
qed simp

lemma insert_sequence:
  "inv s \<Longrightarrow> map_result contents (fold_result (\<lambda>e. ins (fst e) (snd e)) es s)
     = fold_result (\<lambda>e. cache_insert (fst e) (snd e)) es (contents s)"
  by (rule sequence_contents) (auto simp: ins_contents intro: ins_inv)

lemma remove_sequence:
  "inv s \<Longrightarrow> map_result contents (fold_result rem ks s) = fold_result cache_remove ks (contents s)"
  by (rule sequence_contents) (auto simp: rem_contents intro: rem_inv)

end

interpretation delta_cache: cache_store delta_inv delta_find mixin_insert mixin_remove mixin_get mixin_modify
proof
  fix s s' :: "('k, 'v) base_set_delta" and k v f
  assume inv: "delta_inv s"
  have ins: "mixin_insert k v s = (if delta_find s k = None then Ok (fst (insert_mutable k v s)) else Err Invalid_Argument)"
    using insert_mutable_result [OF inv, of k v]
    by (auto simp: mixin_insert_def delta_find_def split: prod.splits if_splits)
  show "map_result delta_find (mixin_insert k v s) = cache_insert k v (delta_find s)"
    using insert_mutable_find(2) [OF inv, of k v] by (auto simp: ins cache_insert_def split: option.splits)
  show "mixin_insert k v s = Ok s' \<Longrightarrow> delta_inv s'"
    using insert_mutable_find(1) [OF inv, of k v] by (auto simp: ins split: if_splits)
  have rem: "mixin_remove k s = (if delta_find s k \<noteq> None then Ok (fst (remove_mutable k s)) else Err Invalid_Argument)"
    using inv unfolding mixin_remove_def remove_mutable_def remove_untagged_def delta_inv_def delta_ops
    by (auto split: option.splits)
  show "map_result delta_find (mixin_remove k s) = cache_remove k (delta_find s)"
    using remove_mutable_find(2) [OF inv, of k] by (auto simp: rem cache_remove_def split: option.splits)
  show "mixin_remove k s = Ok s' \<Longrightarrow> delta_inv s'"
    using remove_mutable_find(1) [OF inv, of k] by (auto simp: rem split: if_splits)
  show "mixin_get s k = cache_get (delta_find s) k"
    by (simp add: mixin_get_def cache_get_def)
  note find = delta_find_mutable_spec [OF inv]
  show "map_result delta_find (mixin_modify k f s) = cache_modify k f (delta_find s)"
    using find(1) [of k] find(5) [of k]
    by (auto simp: mixin_modify_def cache_modify_def split: prod.splits option.splits)
  show "mixin_modify k f s = Ok s' \<Longrightarrow> delta_inv s'"
    using find(1) [of k] find(5) [of k]
    by (auto simp: mixin_modify_def split: prod.splits option.splits)
qed

text \<open>
  C32: A cache over a delta set behaves as a map: inserting throws exactly for a present key and
  otherwise adds it, removing, modifying and reading throw exactly for an absent key, and bulk
  insertions and removals act on the contents as the same sequence of operations on a map.
\<close>

theorem cache_refinement:
  assumes "delta_inv s"
  shows "map_result delta_find (mixin_insert k v s) = cache_insert k v (delta_find s)
    \<and> map_result delta_find (mixin_remove k s) = cache_remove k (delta_find s)
    \<and> map_result delta_find (mixin_modify k f s) = cache_modify k f (delta_find s)
    \<and> mixin_get s k = cache_get (delta_find s) k
    \<and> map_result delta_find (fold_result (\<lambda>e. mixin_insert (fst e) (snd e)) es s)
        = fold_result (\<lambda>e. cache_insert (fst e) (snd e)) es (delta_find s)
    \<and> map_result delta_find (fold_result mixin_remove ks s) = fold_result cache_remove ks (delta_find s)"
  using assms by (intro conjI delta_cache.ins_contents delta_cache.rem_contents delta_cache.modify_contents
      delta_cache.get_contents delta_cache.insert_sequence delta_cache.remove_sequence)

theorem cache_refinement_witness:
  "map_result delta_find (mixin_insert 3 30 (new_delta (fmempty :: (nat, nat) fmap))) = Ok [3 \<mapsto> 30]
    \<and> map_result delta_find (mixin_remove 3 (new_delta (fmempty :: (nat, nat) fmap))) = Err Invalid_Argument"
proof -
  have inv: "delta_inv (new_delta (fmempty :: (nat, nat) fmap))"
    using new_delta_inv(1) [of "fmempty :: (nat, nat) fmap"] by (simp add: delta_inv_immutable_def)
  have "fmlookup (fmempty :: (nat, nat) fmap) = Map.empty" by (simp add: fun_eq_iff)
  with cache_refinement [OF inv, of 3 30] show ?thesis
    by (auto simp: new_delta_inv(2) cache_insert_def cache_remove_def)
qed

end
