(* ===== verification/Multisig.thy ===== *)
theory Multisig
  imports Cache
begin

section \<open>The multisig plugin\<close>

text \<open>
  The plugin \<^verbatim>\<open>src/plugins/txes/multisig\<close>: the entries of the multisig cache, the notifications that a
  modification transaction publishes, the validators that guard them, and the observers that
  execute them or roll them back.  A cache is the map of its contents (see theory \<open>Cache\<close>).  The
  resolver context of the code, which turns an unresolved address into an address, is the argument
  \<open>resolve\<close>; public keys are turned into addresses by the argument \<open>toAddress\<close>.  The searches through
  the graph of cosignatories take fuel; the depth that the validators enforce is enough.
\<close>

subsection \<open>Entries\<close>

type_synonym unresolved_address = "192 word"

text \<open>A \<^verbatim>\<open>std::set<Address>\<close> is the strictly increasing list of its elements.\<close>

type_synonym address_set = "address list"

definition set_insert :: "address \<Rightarrow> address_set \<Rightarrow> address_set" where
  "set_insert a xs = insort_insert a xs"

definition set_erase :: "address \<Rightarrow> address_set \<Rightarrow> address_set" where
  "set_erase a xs = remove1 a xs"

record multisig_entry =
  entry_address :: address
  minApproval :: "32 word"
  minRemoval :: "32 word"
  cosignatoryAddresses :: address_set
  multisigAddresses :: address_set

definition new_entry :: "address \<Rightarrow> multisig_entry" where
  "new_entry a = \<lparr>entry_address = a, minApproval = 0, minRemoval = 0, cosignatoryAddresses = [], multisigAddresses = []\<rparr>"

definition hasCosignatory :: "multisig_entry \<Rightarrow> address \<Rightarrow> bool" where
  "hasCosignatory e a \<longleftrightarrow> a \<in> set (cosignatoryAddresses e)"

type_synonym multisig_cache = "address \<rightharpoonup> multisig_entry"

subsection \<open>Notifications and results\<close>

record cosignatories_notification =
  cn_Multisig :: address
  AddressAdditions :: "unresolved_address list"
  AddressDeletions :: "unresolved_address list"

record new_cosignatory_notification =
  nn_Multisig :: address
  Cosignatory :: unresolved_address

record settings_notification =
  sn_Multisig :: address
  MinRemovalDelta :: "8 word"
  MinApprovalDelta :: "8 word"

datatype notify_mode = Commit_Mode | Rollback_Mode

datatype multisig_result =
    Success
  | Account_In_Both_Sets
  | Multiple_Deletes
  | Redundant_Modification
  | Unknown_Multisig_Account
  | Not_A_Cosignatory
  | Already_A_Cosignatory
  | Min_Setting_Out_Of_Range
  | Min_Setting_Larger_Than_Num_Cosignatories
  | Max_Cosigned_Accounts
  | Max_Cosignatories
  | Multisig_Loop
  | Max_Multisig_Depth
  | Operation_Prohibited_By_Account
  | Ineligible_Cosignatories
  | Missing_Cosignatures

subsection \<open>The observers\<close>

definition GetMultisigEntry :: "address \<Rightarrow> multisig_cache \<Rightarrow> multisig_cache result" where
  "GetMultisigEntry a c = (if c a = None then cache_insert a (new_entry a) c else Ok c)"

definition removeIfEmpty :: "address \<Rightarrow> multisig_cache \<Rightarrow> multisig_cache result" where
  "removeIfEmpty a c = bind_result (cache_get c a)
     (\<lambda>e. if cosignatoryAddresses e = [] \<and> multisigAddresses e = [] then cache_remove a c else Ok c)"

text \<open>
  The facade holds a reference to the entry of the multisig account \<open>ms\<close>, so a change through it
  changes the entry of that key.  Were the entry gone, the reference would dangle; the model then
  ends with an exception.
\<close>

definition addCosignatory :: "address \<Rightarrow> address \<Rightarrow> multisig_cache \<Rightarrow> multisig_cache result" where
  "addCosignatory ms a c =
     bind_result (GetMultisigEntry a c) (\<lambda>c.
     bind_result (cache_modify a (\<lambda>e. e\<lparr>multisigAddresses := set_insert ms (multisigAddresses e)\<rparr>) c)
       (cache_modify ms (\<lambda>e. e\<lparr>cosignatoryAddresses := set_insert a (cosignatoryAddresses e)\<rparr>)))"

definition removeCosignatory :: "address \<Rightarrow> address \<Rightarrow> multisig_cache \<Rightarrow> multisig_cache result" where
  "removeCosignatory ms a c =
     bind_result (cache_modify ms (\<lambda>e. e\<lparr>cosignatoryAddresses := set_erase a (cosignatoryAddresses e)\<rparr>) c) (\<lambda>c.
     bind_result (cache_modify a (\<lambda>e. e\<lparr>multisigAddresses := set_erase ms (multisigAddresses e)\<rparr>) c)
       (removeIfEmpty a))"

definition AddAll :: "(unresolved_address \<Rightarrow> address) \<Rightarrow> address \<Rightarrow> unresolved_address list \<Rightarrow> bool \<Rightarrow> multisig_cache \<Rightarrow> multisig_cache result" where
  "AddAll resolve ms as shouldAdd c =
     fold_result (\<lambda>a. if shouldAdd then addCosignatory ms (resolve a) else removeCosignatory ms (resolve a)) as c"

definition MultisigCosignatoriesObserver ::
  "(unresolved_address \<Rightarrow> address) \<Rightarrow> notify_mode \<Rightarrow> cosignatories_notification \<Rightarrow> multisig_cache \<Rightarrow> multisig_cache result" where
  "MultisigCosignatoriesObserver resolve mode n c =
     bind_result (GetMultisigEntry (cn_Multisig n) c) (\<lambda>c.
     bind_result (AddAll resolve (cn_Multisig n) (AddressAdditions n) (mode = Commit_Mode) c) (\<lambda>c.
     bind_result (AddAll resolve (cn_Multisig n) (AddressDeletions n) (mode \<noteq> Commit_Mode) c)
       (removeIfEmpty (cn_Multisig n))))"

text \<open>The product of two \<^verbatim>\<open>int8_t\<close> is an \<^verbatim>\<open>int\<close>, the sum is taken on 32 bits.\<close>

definition AddDelta :: "32 word \<Rightarrow> int \<Rightarrow> 8 word \<Rightarrow> 32 word" where
  "AddDelta v direction delta = v + word_of_int (direction * sint delta)"

definition MultisigSettingsObserver :: "notify_mode \<Rightarrow> settings_notification \<Rightarrow> multisig_cache \<Rightarrow> multisig_cache result" where
  "MultisigSettingsObserver mode n c =
     (let ms = sn_Multisig n; isNotContained = (c ms = None);
          direction = (if mode = Commit_Mode then 1 else -1)
      in if isNotContained \<and> mode = Commit_Mode then Ok c
         else bind_result (if isNotContained then cache_insert ms (new_entry ms) c else Ok c)
                (cache_modify ms (\<lambda>e. e\<lparr>minApproval := AddDelta (minApproval e) direction (MinApprovalDelta n),
                                        minRemoval := AddDelta (minRemoval e) direction (MinRemovalDelta n)\<rparr>)))"

subsection \<open>Searching the graph of cosignatories\<close>

fun FindAll_loop :: "(address \<Rightarrow> address set \<Rightarrow> (nat \<times> address set) option) \<Rightarrow> address list \<Rightarrow> nat \<Rightarrow> address set \<Rightarrow> (nat \<times> address set) option" where
  "FindAll_loop findAll [] numLevels s = Some (numLevels, s)"
| "FindAll_loop findAll (a # as) numLevels s =
     (case findAll a (insert a s) of
        None \<Rightarrow> None
      | Some (n, s') \<Rightarrow> FindAll_loop findAll as (max numLevels (n + 1)) s')"

primrec FindAll :: "(multisig_entry \<Rightarrow> address_set) \<Rightarrow> multisig_cache \<Rightarrow> nat \<Rightarrow> address \<Rightarrow> address set \<Rightarrow> (nat \<times> address set) option" where
  "FindAll GetAddresses c 0 = (\<lambda>a s. None)"
| "FindAll GetAddresses c (Suc fuel) = (\<lambda>a s. case c a of
       None \<Rightarrow> Some (0, s)
     | Some e \<Rightarrow> FindAll_loop (FindAll GetAddresses c fuel) (GetAddresses e) 0 s)"

definition FindAncestors :: "multisig_cache \<Rightarrow> nat \<Rightarrow> address \<Rightarrow> address set \<Rightarrow> (nat \<times> address set) option" where
  "FindAncestors = FindAll multisigAddresses"

definition FindDescendants :: "multisig_cache \<Rightarrow> nat \<Rightarrow> address \<Rightarrow> address set \<Rightarrow> (nat \<times> address set) option" where
  "FindDescendants = FindAll cosignatoryAddresses"

subsection \<open>The validators\<close>

definition MultisigCosignatoriesValidator :: "cosignatories_notification \<Rightarrow> multisig_result" where
  "MultisigCosignatoriesValidator n =
     (if 1 < length (AddressDeletions n) then Multiple_Deletes
      else let additions = set (AddressAdditions n); deletions = set (AddressDeletions n)
      in if length (AddressAdditions n) \<noteq> card additions then Redundant_Modification
         else if \<exists>a \<in> additions. a \<in> deletions then Account_In_Both_Sets
         else Success)"

definition MultisigInvalidCosignatoriesValidator :: "(unresolved_address \<Rightarrow> address) \<Rightarrow> multisig_cache \<Rightarrow> cosignatories_notification \<Rightarrow> multisig_result" where
  "MultisigInvalidCosignatoriesValidator resolve c n =
     (case c (cn_Multisig n) of
        None \<Rightarrow> if 0 = length (AddressDeletions n) then Success else Unknown_Multisig_Account
      | Some e \<Rightarrow>
          if list_ex (\<lambda>a. hasCosignatory e (resolve a)) (AddressAdditions n) then Already_A_Cosignatory
          else if list_ex (\<lambda>a. \<not> hasCosignatory e (resolve a)) (AddressDeletions n) then Not_A_Cosignatory
          else Success)"

text \<open>The sums are taken on \<^verbatim>\<open>int64_t\<close>, where they cannot overflow.\<close>

definition MultisigInvalidSettingsValidator :: "multisig_cache \<Rightarrow> settings_notification \<Rightarrow> multisig_result" where
  "MultisigInvalidSettingsValidator c n =
     (case c (sn_Multisig n) of
        None \<Rightarrow> if -1 \<noteq> sint (MinRemovalDelta n) \<or> -1 \<noteq> sint (MinApprovalDelta n) then Min_Setting_Out_Of_Range else Success
      | Some e \<Rightarrow>
          let newMinRemoval = uint (minRemoval e) + sint (MinRemovalDelta n);
              newMinApproval = uint (minApproval e) + sint (MinApprovalDelta n);
              maxValue = int (length (cosignatoryAddresses e))
          in if 1 > newMinRemoval \<or> 1 > newMinApproval then Min_Setting_Out_Of_Range
             else if newMinRemoval > maxValue \<or> newMinApproval > maxValue then Min_Setting_Larger_Than_Num_Cosignatories
             else Success)"

definition LoopAndLevelChecker_validate :: "multisig_cache \<Rightarrow> nat \<Rightarrow> 8 word \<Rightarrow> address \<Rightarrow> address \<Rightarrow> multisig_result option" where
  "LoopAndLevelChecker_validate c fuel maxMultisigDepth topAddress bottomAddress =
     (case (FindAncestors c fuel topAddress {topAddress}, FindDescendants c fuel bottomAddress {bottomAddress}) of
        (Some (numTopLevels, ancestors), Some (numBottomLevels, descendants)) \<Rightarrow>
          Some (if numTopLevels + numBottomLevels + 1 > unat maxMultisigDepth then Max_Multisig_Depth
                else if \<exists>a \<in> ancestors. a \<in> descendants then Multisig_Loop
                else Success)
      | _ \<Rightarrow> None)"

definition MultisigLoopAndLevelValidator ::
  "8 word \<Rightarrow> nat \<Rightarrow> (unresolved_address \<Rightarrow> address) \<Rightarrow> multisig_cache \<Rightarrow> new_cosignatory_notification \<Rightarrow> multisig_result option" where
  "MultisigLoopAndLevelValidator maxMultisigDepth fuel resolve c n =
     LoopAndLevelChecker_validate c fuel maxMultisigDepth (nn_Multisig n) (resolve (Cosignatory n))"

text \<open>
  The difference of the two counts is an \<^verbatim>\<open>int\<close> that is converted to \<^verbatim>\<open>size_t\<close>, so the sum is taken modulo
  two to the 64.
\<close>

definition MultisigMaxCosignatoriesValidator :: "32 word \<Rightarrow> multisig_cache \<Rightarrow> cosignatories_notification \<Rightarrow> multisig_result" where
  "MultisigMaxCosignatoriesValidator maxCosignatoriesPerAccount c n =
     (let numCosignatories = (case c (cn_Multisig n) of None \<Rightarrow> 0 | Some e \<Rightarrow> of_nat (length (cosignatoryAddresses e))) :: 64 word;
          sum = numCosignatories + word_of_int (int (length (AddressAdditions n)) - int (length (AddressDeletions n)))
      in if sum > ucast maxCosignatoriesPerAccount then Max_Cosignatories else Success)"

definition MultisigMaxCosignedAccountsValidator ::
  "32 word \<Rightarrow> (unresolved_address \<Rightarrow> address) \<Rightarrow> multisig_cache \<Rightarrow> new_cosignatory_notification \<Rightarrow> multisig_result" where
  "MultisigMaxCosignedAccountsValidator maxCosignedAccountsPerAccount resolve c n =
     (case c (resolve (Cosignatory n)) of
        None \<Rightarrow> Success
      | Some e \<Rightarrow> if length (multisigAddresses e) \<ge> unat maxCosignedAccountsPerAccount then Max_Cosigned_Accounts else Success)"

definition MultisigPermittedOperationValidator :: "multisig_cache \<Rightarrow> address \<Rightarrow> multisig_result" where
  "MultisigPermittedOperationValidator c sender =
     (case c sender of
        None \<Rightarrow> Success
      | Some e \<Rightarrow> if cosignatoryAddresses e = [] then Success else Operation_Prohibited_By_Account)"

subsection \<open>Modification transactions\<close>

record account_modification =
  mod_MinRemovalDelta :: "8 word"
  mod_MinApprovalDelta :: "8 word"
  mod_AddressAdditions :: "unresolved_address list"
  mod_AddressDeletions :: "unresolved_address list"
  mod_Reserved1 :: "32 word"

datatype multisig_notification =
    Internal_Padding "32 word"
  | Account_Address unresolved_address
  | New_Cosignatory new_cosignatory_notification
  | Cosignatories cosignatories_notification
  | Address_Interaction address "unresolved_address set"
  | Settings settings_notification

definition Publish :: "account_modification \<Rightarrow> address \<Rightarrow> multisig_notification list" where
  "Publish tx signer =
     [Internal_Padding (mod_Reserved1 tx)]
     @ (if 0 < length (mod_AddressAdditions tx) \<or> 0 < length (mod_AddressDeletions tx)
        then concat (map (\<lambda>a. [Account_Address a, New_Cosignatory \<lparr>nn_Multisig = signer, Cosignatory = a\<rparr>]) (mod_AddressAdditions tx))
          @ [Cosignatories \<lparr>cn_Multisig = signer, AddressAdditions = mod_AddressAdditions tx, AddressDeletions = mod_AddressDeletions tx\<rparr>]
        else [])
     @ (if set (mod_AddressAdditions tx) \<noteq> {} then [Address_Interaction signer (set (mod_AddressAdditions tx))] else [])
     @ [Settings \<lparr>sn_Multisig = signer, MinRemovalDelta = mod_MinRemovalDelta tx, MinApprovalDelta = mod_MinApprovalDelta tx\<rparr>]"

definition ExtractAdditionalRequiredCosignatories :: "account_modification \<Rightarrow> unresolved_address set" where
  "ExtractAdditionalRequiredCosignatories tx = fold insert (mod_AddressAdditions tx) {}"

record multisig_configuration =
  MaxMultisigDepth :: "8 word"
  MaxCosignatoriesPerAccount :: "32 word"
  MaxCosignedAccountsPerAccount :: "32 word"

text \<open>
  The validators of the plugin that see a notification, in the order in which the plugin adds them,
  up to the first failure; the stateless one, which runs before the state is looked at, comes first.
  Other plugins handle the remaining kinds.
\<close>

definition validate_notification ::
  "multisig_configuration \<Rightarrow> nat \<Rightarrow> (unresolved_address \<Rightarrow> address) \<Rightarrow> multisig_cache \<Rightarrow> multisig_notification \<Rightarrow> multisig_result option" where
  "validate_notification config fuel resolve c n =
     (let first = (\<lambda>r1 r2. if r1 = Success then r2 else Some r1)
      in case n of
        New_Cosignatory n \<Rightarrow>
          first (MultisigMaxCosignedAccountsValidator (MaxCosignedAccountsPerAccount config) resolve c n)
            (MultisigLoopAndLevelValidator (MaxMultisigDepth config) fuel resolve c n)
      | Cosignatories n \<Rightarrow>
          first (MultisigCosignatoriesValidator n)
            (first (MultisigMaxCosignatoriesValidator (MaxCosignatoriesPerAccount config) c n)
              (Some (MultisigInvalidCosignatoriesValidator resolve c n)))
      | Settings n \<Rightarrow> Some (MultisigInvalidSettingsValidator c n)
      | _ \<Rightarrow> Some Success)"

definition observe_notification ::
  "(unresolved_address \<Rightarrow> address) \<Rightarrow> notify_mode \<Rightarrow> multisig_notification \<Rightarrow> multisig_cache \<Rightarrow> multisig_cache result" where
  "observe_notification resolve mode n c =
     (case n of
        Cosignatories n \<Rightarrow> MultisigCosignatoriesObserver resolve mode n c
      | Settings n \<Rightarrow> MultisigSettingsObserver mode n c
      | _ \<Rightarrow> Ok c)"

text \<open>
  Processing a sequence of notifications: each is validated against the state that its predecessors
  left and then observed.  The outcome is the first failed validation, an exception, or the new
  cache.  A rollback observes the notifications in reverse order.
\<close>

datatype process_result = Processed multisig_cache | Rejected multisig_result | Thrown exn | Out_Of_Fuel

fun process_notifications ::
  "multisig_configuration \<Rightarrow> nat \<Rightarrow> (unresolved_address \<Rightarrow> address) \<Rightarrow> multisig_notification list \<Rightarrow> multisig_cache \<Rightarrow> process_result" where
  "process_notifications config fuel resolve [] c = Processed c"
| "process_notifications config fuel resolve (n # ns) c =
     (case validate_notification config fuel resolve c n of
        None \<Rightarrow> Out_Of_Fuel
      | Some r \<Rightarrow>
          if r = Success
          then (case observe_notification resolve Commit_Mode n c of
                  Ok c' \<Rightarrow> process_notifications config fuel resolve ns c'
                | Err e \<Rightarrow> Thrown e)
          else Rejected r)"

definition rollback_notifications :: "(unresolved_address \<Rightarrow> address) \<Rightarrow> multisig_notification list \<Rightarrow> multisig_cache \<Rightarrow> multisig_cache result" where
  "rollback_notifications resolve ns c = fold_result (observe_notification resolve Rollback_Mode) (rev ns) c"

subsection \<open>Aggregate transactions\<close>

text \<open>
  The transactions embedded in an aggregate.  The transaction plugins of other kinds of transactions
  report the addresses that have to approve in addition; they are part of the value.
\<close>

datatype embedded_transaction =
    Account_Modification (SignerPublicKey: key) account_modification
  | Other_Transaction (SignerPublicKey: key) "unresolved_address list"

fun additionalRequiredCosignatories :: "embedded_transaction \<Rightarrow> unresolved_address set" where
  "additionalRequiredCosignatories (Account_Modification _ tx) = ExtractAdditionalRequiredCosignatories tx"
| "additionalRequiredCosignatories (Other_Transaction _ as) = set as"

datatype operation_type = Normal_Operation | Removal_Operation | Max_Operation

fun GetOperationType :: "embedded_transaction \<Rightarrow> operation_type" where
  "GetOperationType (Other_Transaction _ _) = Normal_Operation"
| "GetOperationType (Account_Modification _ tx) =
     (let hasAdds = (0 \<noteq> length (mod_AddressAdditions tx)); hasDeletes = (0 \<noteq> length (mod_AddressDeletions tx))
      in if hasDeletes then (if hasAdds then Max_Operation else Removal_Operation) else Normal_Operation)"

definition GetMinRequiredCosignatories :: "multisig_entry \<Rightarrow> operation_type \<Rightarrow> 32 word" where
  "GetMinRequiredCosignatories e op =
     (if op = Max_Operation then max (minRemoval e) (minApproval e)
      else if op = Removal_Operation then minRemoval e else minApproval e)"

fun count_approvers :: "(address \<Rightarrow> bool option) \<Rightarrow> address list \<Rightarrow> 32 word \<Rightarrow> 32 word option" where
  "count_approvers satisfied [] numApprovers = Some numApprovers"
| "count_approvers satisfied (a # as) numApprovers =
     (case satisfied a of None \<Rightarrow> None | Some b \<Rightarrow> count_approvers satisfied as (numApprovers + (if b then 1 else 0)))"

primrec isSatisfied :: "multisig_cache \<Rightarrow> address set \<Rightarrow> operation_type \<Rightarrow> nat \<Rightarrow> address \<Rightarrow> bool option" where
  "isSatisfied c cosignatories op 0 = (\<lambda>a. None)"
| "isSatisfied c cosignatories op (Suc fuel) = (\<lambda>a. case c a of
       None \<Rightarrow> Some (a \<in> cosignatories)
     | Some e \<Rightarrow>
         if cosignatoryAddresses e = [] then Some (a \<in> cosignatories)
         else case count_approvers (isSatisfied c cosignatories op fuel) (cosignatoryAddresses e) 0 of
             None \<Rightarrow> None
           | Some numApprovers \<Rightarrow> Some (numApprovers \<ge> GetMinRequiredCosignatories e op))"

definition findRequiredAddresses :: "(unresolved_address \<Rightarrow> address) \<Rightarrow> (key \<Rightarrow> address) \<Rightarrow> embedded_transaction \<Rightarrow> address set" where
  "findRequiredAddresses resolve toAddress tx = insert (toAddress (SignerPublicKey tx)) (resolve ` additionalRequiredCosignatories tx)"

text \<open>
  The conjunction over the required addresses, a set without an order.  The searches do not change
  the state, so it is true if and only if all of them are.
\<close>

definition MultisigAggregateSufficientCosignatoriesValidator ::
  "nat \<Rightarrow> (unresolved_address \<Rightarrow> address) \<Rightarrow> (key \<Rightarrow> address) \<Rightarrow> multisig_cache \<Rightarrow> key \<Rightarrow> key list \<Rightarrow> embedded_transaction \<Rightarrow> multisig_result option" where
  "MultisigAggregateSufficientCosignatoriesValidator fuel resolve toAddress c signer cosignatures tx =
     (let cosignatories = insert (toAddress signer) (set (map toAddress cosignatures));
          results = isSatisfied c cosignatories (GetOperationType tx) fuel ` findRequiredAddresses resolve toAddress tx
      in if None \<in> results then None
         else Some (if Some False \<in> results then Missing_Cosignatures else Success))"

fun eligible_loop :: "(address \<Rightarrow> address set \<Rightarrow> address set option) \<Rightarrow> address list \<Rightarrow> address set \<Rightarrow> address set option" where
  "eligible_loop findEligible [] marked = Some marked"
| "eligible_loop findEligible (a # as) marked = (case findEligible a marked of None \<Rightarrow> None | Some m \<Rightarrow> eligible_loop findEligible as m)"

text \<open>The addresses that are marked eligible so far, among them those that are no cosignatory of the aggregate.\<close>

primrec findEligibleCosignatories :: "multisig_cache \<Rightarrow> nat \<Rightarrow> address \<Rightarrow> address set \<Rightarrow> address set option" where
  "findEligibleCosignatories c 0 = (\<lambda>a marked. None)"
| "findEligibleCosignatories c (Suc fuel) = (\<lambda>a marked. case c a of
       None \<Rightarrow> Some (insert a marked)
     | Some e \<Rightarrow>
         if cosignatoryAddresses e = [] then Some (insert a marked)
         else eligible_loop (findEligibleCosignatories c fuel) (cosignatoryAddresses e) marked)"

text \<open>\<open>enum\<close> is the sequence in which an unordered set is visited.\<close>

definition MultisigAggregateEligibleCosignatoriesValidator ::
  "nat \<Rightarrow> (unresolved_address \<Rightarrow> address) \<Rightarrow> (key \<Rightarrow> address) \<Rightarrow> (unresolved_address set \<Rightarrow> unresolved_address list)
     \<Rightarrow> multisig_cache \<Rightarrow> key \<Rightarrow> key list \<Rightarrow> embedded_transaction list \<Rightarrow> multisig_result option" where
  "MultisigAggregateEligibleCosignatoriesValidator fuel resolve toAddress enum c signer cosignatures txs =
     map_option (\<lambda>marked. if \<exists>a \<in> set (map toAddress (signer # cosignatures)). a \<notin> marked
                          then Ineligible_Cosignatories else Success)
       (eligible_loop (findEligibleCosignatories c fuel)
          (concat (map (\<lambda>tx. toAddress (SignerPublicKey tx) # map resolve (enum (additionalRequiredCosignatories tx))) txs)) {})"

end
