(* ===== verification/Multisig_Graph.thy ===== *)
theory Multisig_Graph
  imports Multisig
begin

section \<open>Multisig: the graph of cosignatories and the observers\<close>

text \<open>
  The meaning of a multisig cache: a graph from multisig accounts to their cosignatories together
  with the settings of every account.  The invariant says that both ends of every link know it, that
  no entry is idle and that the settings are in range.  The lemmas give the effect of every step
  of the observers on the graph and on the settings.
\<close>

subsection \<open>The graph of cosignatories\<close>

text \<open>
  A cache describes a graph twice: a multisig account lists its cosignatories, and a cosignatory
  lists the accounts it cosigns.
\<close>

definition linked_by :: "(multisig_entry \<Rightarrow> address_set) \<Rightarrow> multisig_cache \<Rightarrow> (address \<times> address) set" where
  "linked_by GetAddresses c = {(a, b). \<exists>e. c a = Some e \<and> b \<in> set (GetAddresses e)}"

abbreviation cosigned_by :: "multisig_cache \<Rightarrow> (address \<times> address) set" where
  "cosigned_by \<equiv> linked_by cosignatoryAddresses"

abbreviation cosigns :: "multisig_cache \<Rightarrow> (address \<times> address) set" where
  "cosigns \<equiv> linked_by multisigAddresses"

definition settings :: "multisig_cache \<Rightarrow> address \<Rightarrow> 32 word \<times> 32 word" where
  "settings c a = (case c a of None \<Rightarrow> (0, 0) | Some e \<Rightarrow> (minApproval e, minRemoval e))"

definition entry_ok :: "address \<Rightarrow> multisig_entry \<Rightarrow> bool" where
  "entry_ok a e \<longleftrightarrow> entry_address e = a \<and> sorted_wrt (<) (cosignatoryAddresses e) \<and> sorted_wrt (<) (multisigAddresses e)"

definition linked :: "multisig_entry \<Rightarrow> bool" where
  "linked e \<longleftrightarrow> cosignatoryAddresses e \<noteq> [] \<or> multisigAddresses e \<noteq> []"

text \<open>An account without cosignatories requires none; otherwise between one and all have to approve.\<close>

definition settings_ok :: "multisig_entry \<Rightarrow> bool" where
  "settings_ok e \<longleftrightarrow>
     (if cosignatoryAddresses e = [] then minApproval e = 0 \<and> minRemoval e = 0
      else 1 \<le> unat (minApproval e) \<and> unat (minApproval e) \<le> length (cosignatoryAddresses e)
         \<and> 1 \<le> unat (minRemoval e) \<and> unat (minRemoval e) \<le> length (cosignatoryAddresses e))"

definition graph_inv :: "multisig_cache \<Rightarrow> bool" where
  "graph_inv c \<longleftrightarrow> (\<forall>a e. c a = Some e \<longrightarrow> entry_ok a e) \<and> cosigns c = (cosigned_by c)\<inverse>"

definition multisig_inv :: "multisig_cache \<Rightarrow> bool" where
  "multisig_inv c \<longleftrightarrow> graph_inv c \<and> (\<forall>a e. c a = Some e \<longrightarrow> linked e \<and> settings_ok e)"

text \<open>While the facade of account \<open>ms\<close> is at work, only the entry of \<open>ms\<close> may be out of order.\<close>

definition others_ok :: "address \<Rightarrow> multisig_cache \<Rightarrow> bool" where
  "others_ok ms c \<longleftrightarrow> (\<forall>a e. a \<noteq> ms \<and> c a = Some e \<longrightarrow> linked e \<and> settings_ok e)"

definition facade_inv :: "address \<Rightarrow> multisig_cache \<Rightarrow> bool" where
  "facade_inv ms c \<longleftrightarrow> graph_inv c \<and> c ms \<noteq> None \<and> others_ok ms c"

lemma sorted_set_insert [simp]: "sorted_wrt (<) xs \<Longrightarrow> sorted_wrt (<) (set_insert a xs)"
  by (simp add: set_insert_def strict_sorted_iff sorted_insort_insert distinct_insort_insert)

lemma set_set_insert [simp]: "set (set_insert a xs) = insert a (set xs)"
  by (simp add: set_insert_def set_insort_insert)

lemma sorted_set_erase [simp]: "sorted_wrt (<) xs \<Longrightarrow> sorted_wrt (<) (set_erase a xs)"
  by (simp add: set_erase_def strict_sorted_iff sorted_remove1 distinct_remove1)

lemma set_set_erase [simp]: "sorted_wrt (<) xs \<Longrightarrow> set (set_erase a xs) = set xs - {a}"
  by (simp add: set_erase_def strict_sorted_iff)

lemma set_insert_nonempty [simp]: "set_insert a xs \<noteq> []"
  using set_set_insert [of a xs] by (metis empty_iff insertI1 list.set(1))

lemma linked_by_image: "c a = Some e \<Longrightarrow> linked_by G c `` {a} = set (G e)"
  by (auto simp: linked_by_def)

lemma linked_by_Domain: "c a = Some e \<Longrightarrow> a \<in> Domain (linked_by G c) \<longleftrightarrow> G e \<noteq> []"
  by (cases "G e") (auto simp: linked_by_def Domain_iff)

text \<open>A cache without idle entries is determined by its graph and its settings.\<close>

lemma linked_entry_iff:
  assumes "graph_inv c" "\<And>e. c a = Some e \<Longrightarrow> linked e"
  shows "c a \<noteq> None \<longleftrightarrow> a \<in> Domain (cosigned_by c) \<union> Range (cosigned_by c)"
proof -
  have "a \<in> Range (cosigned_by c) \<longleftrightarrow> a \<in> Domain (cosigns c)" using assms(1) by (auto simp: graph_inv_def)
  also have "\<dots> \<longleftrightarrow> (\<exists>e. c a = Some e \<and> multisigAddresses e \<noteq> [])"
    by (auto simp: linked_by_def) (metis list.set_intros(1) neq_Nil_conv)
  moreover have "a \<in> Domain (cosigned_by c) \<longleftrightarrow> (\<exists>e. c a = Some e \<and> cosignatoryAddresses e \<noteq> [])"
    by (auto simp: linked_by_def) (metis list.set_intros(1) neq_Nil_conv)
  ultimately show ?thesis using assms(2) by (auto simp: linked_def)
qed

lemma cache_eqI:
  assumes "graph_inv c" "graph_inv c'" "\<And>a e. c a = Some e \<Longrightarrow> linked e" "\<And>a e. c' a = Some e \<Longrightarrow> linked e"
    and "cosigned_by c = cosigned_by c'" "settings c = settings c'"
  shows "c = c'"
proof
  fix a
  have dom: "c a = None \<longleftrightarrow> c' a = None"
    using linked_entry_iff [OF assms(1), of a] linked_entry_iff [OF assms(2), of a] assms(3-5) by blast
  show "c a = c' a"
  proof (cases "c a")
    case (Some e)
    with dom obtain e' where e': "c' a = Some e'" by auto
    have "cosigns c = cosigns c'" using assms by (auto simp: graph_inv_def)
    then have "set (multisigAddresses e) = set (multisigAddresses e')"
      by (metis linked_by_image Some e')
    moreover have "set (cosignatoryAddresses e) = set (cosignatoryAddresses e')"
      by (metis linked_by_image Some e' assms(5))
    moreover have "entry_ok a e" "entry_ok a e'"
      using assms(1,2) Some e' by (auto simp: graph_inv_def)
    moreover have "minApproval e = minApproval e' \<and> minRemoval e = minRemoval e'"
      using fun_cong [OF assms(6), of a] Some e' by (simp add: settings_def)
    ultimately have "e = e'"
      unfolding entry_ok_def by (intro multisig_entry.equality) (auto intro: strict_sorted_equal)
    with Some e' show ?thesis by simp
  qed (use dom in simp)
qed


subsection \<open>The facade\<close>

text \<open>The two sets of links that a change of one entry affects.\<close>

lemma linked_by_upd:
  "linked_by G (c(a \<mapsto> e)) = (linked_by G c - {a} \<times> UNIV) \<union> {a} \<times> set (G e)"
  by (auto simp: linked_by_def split: if_splits)

lemma linked_by_drop: "linked_by G (c(a := None)) = linked_by G c - {a} \<times> UNIV"
  by (auto simp: linked_by_def split: if_splits)

lemma linked_by_other: "c a = Some e \<Longrightarrow> (a, b) \<in> linked_by G c \<longleftrightarrow> b \<in> set (G e)"
  by (auto simp: linked_by_def)

lemma graph_inv_upd:
  assumes "graph_inv c" "entry_ok a e" "cosigns (c(a \<mapsto> e)) = (cosigned_by (c(a \<mapsto> e)))\<inverse>"
  shows "graph_inv (c(a \<mapsto> e))"
  using assms by (auto simp: graph_inv_def)

lemma new_entry_ok [simp]:
  "entry_ok a (new_entry a)" "settings_ok (new_entry a)" "cosignatoryAddresses (new_entry a) = []"
  "multisigAddresses (new_entry a) = []" "minApproval (new_entry a) = 0" "minRemoval (new_entry a) = 0"
  by (simp_all add: entry_ok_def settings_ok_def new_entry_def)

lemma settings_ok_multisigAddresses [simp]: "settings_ok (e\<lparr>multisigAddresses := as\<rparr>) = settings_ok e"
  by (simp add: settings_ok_def)

lemma GetMultisigEntry_ok:
  assumes "graph_inv c" "others_ok ms c"
  obtains c' where "GetMultisigEntry ms c = Ok c'" "facade_inv ms c'" "cosigned_by c' = cosigned_by c" "settings c' = settings c"
    "\<And>a. a \<noteq> ms \<Longrightarrow> c' a = c a"
proof (cases "c ms")
  case None
  have eq: "linked_by G (c(ms \<mapsto> new_entry ms)) = linked_by G c" if "G (new_entry ms) = []" for G
    using None that by (auto simp: linked_by_def split: if_splits)
  show ?thesis
  proof
    show "GetMultisigEntry ms c = Ok (c(ms \<mapsto> new_entry ms))" using None by (simp add: GetMultisigEntry_def)
    have "graph_inv (c(ms \<mapsto> new_entry ms))"
      using assms(1) eq [of cosignatoryAddresses] eq [of multisigAddresses] new_entry_ok [of ms]
      by (auto simp: graph_inv_def)
    then show "facade_inv ms (c(ms \<mapsto> new_entry ms))"
      using assms(2) by (auto simp: facade_inv_def others_ok_def)
    show "cosigned_by (c(ms \<mapsto> new_entry ms)) = cosigned_by c" by (rule eq) simp
    show "settings (c(ms \<mapsto> new_entry ms)) = settings c" using None by (auto simp: settings_def fun_eq_iff)
  qed simp
next
  case (Some e)
  with assms that [of c] show ?thesis by (auto simp: GetMultisigEntry_def facade_inv_def)
qed

lemma addCosignatory_ok:
  assumes "facade_inv ms c" "a \<noteq> ms"
  obtains c' where "addCosignatory ms a c = Ok c'" "facade_inv ms c'" "cosigned_by c' = insert (ms, a) (cosigned_by c)"
    "settings c' = settings c"
proof -
  define e where "e = (case c a of None \<Rightarrow> new_entry a | Some e \<Rightarrow> e)"
  obtain m where m: "c ms = Some m" using assms(1) by (auto simp: facade_inv_def others_ok_def)
  define e' where "e' = e\<lparr>multisigAddresses := set_insert ms (multisigAddresses e)\<rparr>"
  define m' where "m' = m\<lparr>cosignatoryAddresses := set_insert a (cosignatoryAddresses m)\<rparr>"
  define c' where "c' = c(a \<mapsto> e', ms \<mapsto> m')"
  have inv: "graph_inv c" and others: "\<And>x y. x \<noteq> ms \<Longrightarrow> c x = Some y \<Longrightarrow> linked y \<and> settings_ok y"
    using assms(1) by (auto simp: facade_inv_def others_ok_def)
  have ok: "entry_ok a e" "entry_ok ms m"
    using inv m by (auto simp: graph_inv_def e_def split: option.splits)
  have run: "addCosignatory ms a c = Ok c'"
    using m assms(2) by (auto simp: addCosignatory_def GetMultisigEntry_def c'_def e'_def m'_def e_def cache_modify_def cache_insert_def
        split: option.splits)
  have e_links: "b \<in> set (cosignatoryAddresses e) \<longleftrightarrow> (a, b) \<in> cosigned_by c"
    "b \<in> set (multisigAddresses e) \<longleftrightarrow> (a, b) \<in> cosigns c" for b
    by (auto simp: e_def linked_by_def split: option.splits)
  have m_links: "b \<in> set (cosignatoryAddresses m) \<longleftrightarrow> (ms, b) \<in> cosigned_by c"
    "b \<in> set (multisigAddresses m) \<longleftrightarrow> (ms, b) \<in> cosigns c" for b
    using m by (auto simp: linked_by_def)
  have down: "cosigned_by c' = insert (ms, a) (cosigned_by c)"
    unfolding c'_def linked_by_upd using assms(2) by (auto simp: e'_def m'_def e_links m_links)
  have up: "cosigns c' = insert (a, ms) (cosigns c)"
    unfolding c'_def linked_by_upd using assms(2) by (auto simp: e'_def m'_def e_links m_links)
  have "graph_inv c'"
    using inv ok unfolding graph_inv_def up down
    by (auto simp: c'_def e'_def m'_def entry_ok_def)
  moreover have "settings_ok e" using others assms(2) by (auto simp: e_def split: option.splits)
  then have "linked e' \<and> settings_ok e'" by (simp add: e'_def linked_def)
  ultimately have "facade_inv ms c'" using others by (auto simp: facade_inv_def others_ok_def c'_def)
  moreover have "settings c' = settings c"
    using m by (auto simp: settings_def c'_def e'_def m'_def e_def fun_eq_iff split: option.splits)
  ultimately show ?thesis using that run down by blast
qed


lemma removeCosignatory_ok:
  assumes "facade_inv ms c" "a \<noteq> ms" "(ms, a) \<in> cosigned_by c"
  obtains c' where "removeCosignatory ms a c = Ok c'" "facade_inv ms c'" "cosigned_by c' = cosigned_by c - {(ms, a)}"
    "settings c' = settings c"
proof -
  have inv: "graph_inv c" and others: "\<And>x y. x \<noteq> ms \<Longrightarrow> c x = Some y \<Longrightarrow> linked y \<and> settings_ok y"
    using assms(1) by (auto simp: facade_inv_def others_ok_def)
  obtain m where m: "c ms = Some m" using assms(1) by (auto simp: facade_inv_def others_ok_def)
  have "(a, ms) \<in> cosigns c" using inv assms(3) by (auto simp: graph_inv_def)
  then obtain e where e: "c a = Some e" by (auto simp: linked_by_def)
  define e' where "e' = e\<lparr>multisigAddresses := set_erase ms (multisigAddresses e)\<rparr>"
  define m' where "m' = m\<lparr>cosignatoryAddresses := set_erase a (cosignatoryAddresses m)\<rparr>"
  define c1 where "c1 = c(ms \<mapsto> m', a \<mapsto> e')"
  define c' where "c' = (if linked e' then c1 else c1(a := None))"
  have ok: "entry_ok a e" "entry_ok ms m" using inv m e by (auto simp: graph_inv_def)
  have run: "removeCosignatory ms a c = Ok c'"
    using m e assms(2)
    by (auto simp: removeCosignatory_def removeIfEmpty_def c'_def c1_def e'_def m'_def linked_def cache_modify_def cache_remove_def cache_get_def)
  note links = linked_by_other [of c a e, OF e, symmetric] linked_by_other [of c ms m, OF m, symmetric]
  have down1: "cosigned_by c1 = cosigned_by c - {(ms, a)}"
    unfolding c1_def linked_by_upd using assms(2) ok by (auto simp: e'_def m'_def links entry_ok_def)
  have up1: "cosigns c1 = cosigns c - {(a, ms)}"
    unfolding c1_def linked_by_upd using assms(2) ok by (auto simp: e'_def m'_def links entry_ok_def)
  have idle: "linked_by G c1 - {a} \<times> UNIV = linked_by G c1" if "G e' = []" for G
    using that by (auto simp: c1_def linked_by_def split: if_splits)
  have down: "cosigned_by c' = cosigned_by c - {(ms, a)}" and up: "cosigns c' = cosigns c - {(a, ms)}"
    using down1 up1 idle [of cosignatoryAddresses] idle [of multisigAddresses]
    by (auto simp: c'_def linked_by_drop linked_def)
  have "graph_inv c'"
    using inv ok unfolding graph_inv_def up down
    by (auto simp: c'_def c1_def e'_def m'_def entry_ok_def)
  moreover have "settings_ok e" using others e assms(2) by auto
  then have "settings_ok e'" by (simp add: e'_def)
  with others assms(2) have "\<forall>x y. x \<noteq> ms \<and> c' x = Some y \<longrightarrow> linked y \<and> settings_ok y"
    by (auto simp: c'_def c1_def)
  moreover have "c' ms \<noteq> None" using assms(2) by (simp add: c'_def c1_def)
  ultimately have "facade_inv ms c'" unfolding facade_inv_def others_ok_def by blast
  moreover have "settings c' = settings c"
  proof
    fix x
    have "linked e' \<or> settings c a = (0, 0)"
      using \<open>settings_ok e\<close> e by (auto simp: settings_ok_def linked_def e'_def settings_def)
    then show "settings c' x = settings c x"
      using m e assms(2) by (auto simp: settings_def c'_def c1_def e'_def m'_def)
  qed
  ultimately show ?thesis using that run down by blast
qed

lemma AddAll_add:
  assumes "facade_inv ms c" "ms \<notin> resolve ` set as"
  obtains c' where "AddAll resolve ms as True c = Ok c'" "facade_inv ms c'" "settings c' = settings c"
    "cosigned_by c' = cosigned_by c \<union> {ms} \<times> resolve ` set as"
  using assms
proof (induction as arbitrary: c thesis)
  case Nil
  then show ?case by (auto simp: AddAll_def)
next
  case (Cons a as)
  obtain c1 where c1: "addCosignatory ms (resolve a) c = Ok c1" "facade_inv ms c1" "settings c1 = settings c"
    "cosigned_by c1 = insert (ms, resolve a) (cosigned_by c)"
    by (rule addCosignatory_ok [of ms c "resolve a"]) (use Cons.prems in auto)
  obtain c' where "AddAll resolve ms as True c1 = Ok c'" "facade_inv ms c'" "settings c' = settings c1"
    "cosigned_by c' = cosigned_by c1 \<union> {ms} \<times> resolve ` set as"
    by (rule Cons.IH [of c1]) (use Cons.prems c1(2) in auto)
  with c1 show ?case by (intro Cons.prems(1) [of c']) (auto simp: AddAll_def)
qed

lemma AddAll_remove:
  assumes "facade_inv ms c" "ms \<notin> resolve ` set as" "{ms} \<times> resolve ` set as \<subseteq> cosigned_by c" "distinct (map resolve as)"
  obtains c' where "AddAll resolve ms as False c = Ok c'" "facade_inv ms c'" "settings c' = settings c"
    "cosigned_by c' = cosigned_by c - {ms} \<times> resolve ` set as"
  using assms
proof (induction as arbitrary: c thesis)
  case Nil
  then show ?case by (auto simp: AddAll_def)
next
  case (Cons a as)
  obtain c1 where c1: "removeCosignatory ms (resolve a) c = Ok c1" "facade_inv ms c1" "settings c1 = settings c"
    "cosigned_by c1 = cosigned_by c - {(ms, resolve a)}"
    by (rule removeCosignatory_ok [of ms c "resolve a"]) (use Cons.prems in auto)
  have sub: "{ms} \<times> resolve ` set as \<subseteq> cosigned_by c1" using Cons.prems(4,5) unfolding c1(4) by (auto simp: image_iff)
  obtain c' where "AddAll resolve ms as False c1 = Ok c'" "facade_inv ms c'" "settings c' = settings c1"
    "cosigned_by c' = cosigned_by c1 - {ms} \<times> resolve ` set as"
    by (rule Cons.IH [OF _ c1(2) _ sub]) (use Cons.prems(3,5) in auto)
  with c1 show ?case by (intro Cons.prems(1) [of c']) (auto simp: AddAll_def)
qed


text \<open>When the facade is destroyed, an idle entry of the account goes, together with its settings.\<close>

lemma removeIfEmpty_ok:
  assumes "facade_inv ms c"
  obtains c' where "removeIfEmpty ms c = Ok c'" "graph_inv c'" "cosigned_by c' = cosigned_by c"
    "others_ok ms c'" "\<forall>e. c' ms = Some e \<longrightarrow> linked e"
    "settings c' = (if ms \<in> Domain (cosigned_by c) \<union> Range (cosigned_by c) then settings c else (settings c)(ms := (0, 0)))"
proof -
  obtain m where m: "c ms = Some m" using assms by (auto simp: facade_inv_def others_ok_def)
  have inv: "graph_inv c" using assms by (simp add: facade_inv_def)
  define c' where "c' = (if linked m then c else c(ms := None))"
  have run: "removeIfEmpty ms c = Ok c'"
    using m by (simp add: removeIfEmpty_def c'_def linked_def cache_get_def cache_remove_def)
  have idle: "linked_by G c - {ms} \<times> UNIV = linked_by G c" if "G m = []" for G
    using that m by (auto simp: linked_by_def)
  have down: "cosigned_by c' = cosigned_by c" and up: "cosigns c' = cosigns c"
    using idle [of cosignatoryAddresses] idle [of multisigAddresses] by (auto simp: c'_def linked_by_drop linked_def)
  have graph: "graph_inv c'" using inv unfolding graph_inv_def up down by (auto simp: c'_def)
  have on: "linked m \<longleftrightarrow> ms \<in> Domain (cosigned_by c) \<union> Range (cosigned_by c)"
  proof -
    have "linked m \<longleftrightarrow> ms \<in> Domain (cosigned_by c) \<union> Domain (cosigns c)"
      by (simp add: linked_by_Domain [of c ms m, OF m] linked_def)
    also have "Domain (cosigns c) = Range (cosigned_by c)" using inv by (simp add: graph_inv_def)
    finally show ?thesis .
  qed
  have "settings c' = (if linked m then settings c else (settings c)(ms := (0, 0)))"
    by (auto simp: c'_def settings_def fun_eq_iff)
  with on have "settings c' = (if ms \<in> Domain (cosigned_by c) \<union> Range (cosigned_by c) then settings c else (settings c)(ms := (0, 0)))"
    by simp
  moreover have "others_ok ms c'" "\<forall>e. c' ms = Some e \<longrightarrow> linked e"
    using assms m by (auto simp: c'_def facade_inv_def others_ok_def split: if_splits)
  ultimately show ?thesis using that [OF run graph down] by blast
qed


subsection \<open>The observers\<close>

abbreviation settings_after :: "address \<Rightarrow> (address \<times> address) set \<Rightarrow> (address \<Rightarrow> 32 word \<times> 32 word) \<Rightarrow> address \<Rightarrow> 32 word \<times> 32 word" where
  "settings_after ms E s \<equiv> (if ms \<in> Domain E \<union> Range E then s else s(ms := (0, 0)))"

lemma observer_commit:
  assumes "graph_inv c" "others_ok (cn_Multisig n) c" "cn_Multisig n \<notin> resolve ` set (AddressAdditions n)"
    "cn_Multisig n \<notin> resolve ` set (AddressDeletions n)" "{cn_Multisig n} \<times> resolve ` set (AddressDeletions n) \<subseteq> cosigned_by c"
    "distinct (map resolve (AddressDeletions n))"
  obtains c' where "MultisigCosignatoriesObserver resolve Commit_Mode n c = Ok c'" "graph_inv c'" "others_ok (cn_Multisig n) c'"
    "\<forall>e. c' (cn_Multisig n) = Some e \<longrightarrow> linked e"
    "cosigned_by c' = (cosigned_by c \<union> {cn_Multisig n} \<times> resolve ` set (AddressAdditions n)) - {cn_Multisig n} \<times> resolve ` set (AddressDeletions n)"
    "settings c' = settings_after (cn_Multisig n) (cosigned_by c') (settings c)"
proof -
  let ?ms = "cn_Multisig n"
  obtain c1 where c1: "GetMultisigEntry ?ms c = Ok c1" "facade_inv ?ms c1" "cosigned_by c1 = cosigned_by c" "settings c1 = settings c"
    by (rule GetMultisigEntry_ok [OF assms(1,2)])
  obtain c2 where c2: "AddAll resolve ?ms (AddressAdditions n) True c1 = Ok c2" "facade_inv ?ms c2" "settings c2 = settings c1"
    "cosigned_by c2 = cosigned_by c1 \<union> {?ms} \<times> resolve ` set (AddressAdditions n)"
    by (rule AddAll_add [OF c1(2) assms(3)])
  have "{?ms} \<times> resolve ` set (AddressDeletions n) \<subseteq> cosigned_by c2" using assms(5) c1(3) c2(4) by blast
  then obtain c3 where c3: "AddAll resolve ?ms (AddressDeletions n) False c2 = Ok c3" "facade_inv ?ms c3" "settings c3 = settings c2"
    "cosigned_by c3 = cosigned_by c2 - {?ms} \<times> resolve ` set (AddressDeletions n)"
    by (rule AddAll_remove [OF c2(2) assms(4) _ assms(6)])
  obtain c4 where c4: "removeIfEmpty ?ms c3 = Ok c4" "graph_inv c4" "cosigned_by c4 = cosigned_by c3" "others_ok ?ms c4"
    "\<forall>e. c4 ?ms = Some e \<longrightarrow> linked e" "settings c4 = settings_after ?ms (cosigned_by c3) (settings c3)"
    by (rule removeIfEmpty_ok [OF c3(2)])
  have "MultisigCosignatoriesObserver resolve Commit_Mode n c = Ok c4"
    using c1(1) c2(1) c3(1) c4(1) by (simp add: MultisigCosignatoriesObserver_def)
  then show ?thesis using that c4 c3 c2 c1 by simp
qed

lemma observer_rollback:
  assumes "graph_inv c" "others_ok (cn_Multisig n) c" "cn_Multisig n \<notin> resolve ` set (AddressAdditions n)"
    "cn_Multisig n \<notin> resolve ` set (AddressDeletions n)" "{cn_Multisig n} \<times> resolve ` set (AddressAdditions n) \<subseteq> cosigned_by c"
    "distinct (map resolve (AddressAdditions n))"
  obtains c' where "MultisigCosignatoriesObserver resolve Rollback_Mode n c = Ok c'" "graph_inv c'" "others_ok (cn_Multisig n) c'"
    "\<forall>e. c' (cn_Multisig n) = Some e \<longrightarrow> linked e"
    "cosigned_by c' = (cosigned_by c - {cn_Multisig n} \<times> resolve ` set (AddressAdditions n)) \<union> {cn_Multisig n} \<times> resolve ` set (AddressDeletions n)"
    "settings c' = settings_after (cn_Multisig n) (cosigned_by c') (settings c)"
proof -
  let ?ms = "cn_Multisig n"
  obtain c1 where c1: "GetMultisigEntry ?ms c = Ok c1" "facade_inv ?ms c1" "cosigned_by c1 = cosigned_by c" "settings c1 = settings c"
    by (rule GetMultisigEntry_ok [OF assms(1,2)])
  have "{?ms} \<times> resolve ` set (AddressAdditions n) \<subseteq> cosigned_by c1" using assms(5) c1(3) by simp
  then obtain c2 where c2: "AddAll resolve ?ms (AddressAdditions n) False c1 = Ok c2" "facade_inv ?ms c2" "settings c2 = settings c1"
    "cosigned_by c2 = cosigned_by c1 - {?ms} \<times> resolve ` set (AddressAdditions n)"
    by (rule AddAll_remove [OF c1(2) assms(3) _ assms(6)])
  obtain c3 where c3: "AddAll resolve ?ms (AddressDeletions n) True c2 = Ok c3" "facade_inv ?ms c3" "settings c3 = settings c2"
    "cosigned_by c3 = cosigned_by c2 \<union> {?ms} \<times> resolve ` set (AddressDeletions n)"
    by (rule AddAll_add [OF c2(2) assms(4)])
  obtain c4 where c4: "removeIfEmpty ?ms c3 = Ok c4" "graph_inv c4" "cosigned_by c4 = cosigned_by c3" "others_ok ?ms c4"
    "\<forall>e. c4 ?ms = Some e \<longrightarrow> linked e" "settings c4 = settings_after ?ms (cosigned_by c3) (settings c3)"
    by (rule removeIfEmpty_ok [OF c3(2)])
  have "MultisigCosignatoriesObserver resolve Rollback_Mode n c = Ok c4"
    using c1(1) c2(1) c3(1) c4(1) by (simp add: MultisigCosignatoriesObserver_def)
  then show ?thesis using that c4 c3 c2 c1 by simp
qed

text \<open>The settings observer changes the settings of one account and keeps the graph.\<close>

lemma settings_observer:
  fixes n mode
  defines "direction \<equiv> (if mode = Commit_Mode then 1 else -1 :: int)"
  assumes "graph_inv c" "others_ok (sn_Multisig n) c" "c (sn_Multisig n) \<noteq> None \<or> mode = Rollback_Mode"
  obtains c' where "MultisigSettingsObserver mode n c = Ok c'" "graph_inv c'" "others_ok (sn_Multisig n) c'" "cosigned_by c' = cosigned_by c"
    "settings c' = (settings c)(sn_Multisig n := (AddDelta (fst (settings c (sn_Multisig n))) direction (MinApprovalDelta n),
                                                AddDelta (snd (settings c (sn_Multisig n))) direction (MinRemovalDelta n)))"
    "c' (sn_Multisig n) \<noteq> None"
    "\<forall>e'. c' (sn_Multisig n) = Some e' \<longrightarrow> cosignatoryAddresses e' = (case c (sn_Multisig n) of None \<Rightarrow> [] | Some e \<Rightarrow> cosignatoryAddresses e)
       \<and> multisigAddresses e' = (case c (sn_Multisig n) of None \<Rightarrow> [] | Some e \<Rightarrow> multisigAddresses e)"
proof -
  let ?ms = "sn_Multisig n"
  define e where "e = (case c ?ms of None \<Rightarrow> new_entry ?ms | Some e \<Rightarrow> e)"
  define e' where "e' = e\<lparr>minApproval := AddDelta (minApproval e) direction (MinApprovalDelta n),
    minRemoval := AddDelta (minRemoval e) direction (MinRemovalDelta n)\<rparr>"
  have run: "MultisigSettingsObserver mode n c = Ok (c(?ms \<mapsto> e'))"
    using assms(4) unfolding MultisigSettingsObserver_def Let_def direction_def e'_def e_def
    by (cases "c ?ms") (auto simp: cache_insert_def cache_modify_def direction_def)
  have links: "linked_by G (c(?ms \<mapsto> e')) = linked_by G c" if "G e' = G e" "G (new_entry ?ms) = []" for G
    unfolding linked_by_upd using that by (auto simp: e_def linked_by_def split: option.splits)
  have down: "cosigned_by (c(?ms \<mapsto> e')) = cosigned_by c" and up: "cosigns (c(?ms \<mapsto> e')) = cosigns c"
    by (rule links; simp add: e'_def)+
  have "entry_ok ?ms e'"
    using assms(2) by (auto simp: e'_def e_def graph_inv_def entry_ok_def new_entry_def split: option.splits)
  then have "graph_inv (c(?ms \<mapsto> e'))" using assms(2) unfolding graph_inv_def up down by auto
  moreover have "settings (c(?ms \<mapsto> e')) = (settings c)(?ms := (AddDelta (fst (settings c ?ms)) direction (MinApprovalDelta n),
      AddDelta (snd (settings c ?ms)) direction (MinRemovalDelta n)))"
    by (auto simp: settings_def e'_def e_def fun_eq_iff split: option.splits)
  ultimately show ?thesis
    by (intro that [OF run]) (use assms(3) down in \<open>auto simp: others_ok_def e'_def e_def split: option.splits\<close>)
qed

end
