(* ===== verification/Multisig_Search.thy ===== *)
theory Multisig_Search
  imports Multisig_Graph
begin

section \<open>Multisig: searches, loops and levels\<close>

text \<open>
  The recursive searches through the graph of cosignatories.  A graph whose paths have at most
  \<open>D\<close> links has no loop, the searches in it end with fuel above \<open>D\<close>, and the validator of new
  cosignatories accepts exactly the links that keep this bound.
\<close>

subsection \<open>The search through the graph\<close>

text \<open>With more fuel than the length of the longest path, a search finds everything reachable and that length.\<close>

lemma FindAll_loop_Some:
  assumes "\<And>x s. x \<in> set as \<Longrightarrow> \<exists>n. f x s = Some (n, s \<union> R x) \<and> n \<in> L x \<and> (\<forall>m \<in> L x. m \<le> n)"
  shows "\<exists>n. FindAll_loop f as k s = Some (n, s \<union> set as \<union> \<Union> (R ` set as))
    \<and> (n = k \<or> n \<in> Suc ` \<Union> (L ` set as)) \<and> k \<le> n \<and> (\<forall>m \<in> Suc ` \<Union> (L ` set as). m \<le> n)"
  using assms
proof (induction as arbitrary: k s)
  case (Cons a as)
  obtain n where n: "f a (insert a s) = Some (n, insert a s \<union> R a)" "n \<in> L a" "\<forall>m \<in> L a. m \<le> n"
    using Cons.prems [of a "insert a s"] by auto
  obtain n' where n': "FindAll_loop f as (max k (n + 1)) (insert a s \<union> R a)
      = Some (n', insert a s \<union> R a \<union> set as \<union> \<Union> (R ` set as))"
    "n' = max k (n + 1) \<or> n' \<in> Suc ` \<Union> (L ` set as)" "max k (n + 1) \<le> n'" "\<forall>m \<in> Suc ` \<Union> (L ` set as). m \<le> n'"
    using Cons.IH [of "max k (n + 1)" "insert a s \<union> R a"] Cons.prems by auto
  have "FindAll_loop f (a # as) k s = Some (n', s \<union> set (a # as) \<union> \<Union> (R ` set (a # as)))"
  proof -
    have "insert a s \<union> R a \<union> set as \<union> \<Union> (R ` set as) = s \<union> set (a # as) \<union> \<Union> (R ` set (a # as))" by auto
    with n(1) n'(1) show ?thesis by simp
  qed
  moreover have "n' = k \<or> n' \<in> Suc ` \<Union> (L ` set (a # as))"
    using n(2) n'(2) by (auto simp: max_def image_iff split: if_splits)
  moreover have "m \<le> n'" if "m \<in> Suc ` \<Union> (L ` set (a # as))" for m
    using that n(3) n'(3,4) by fastforce
  ultimately show ?case using n'(3) by auto
qed simp

lemma nat_set_Suc:
  assumes "0 \<in> S" "\<And>n. Suc n \<in> S \<longleftrightarrow> n \<in> T"
  shows "S = insert 0 (Suc ` T)"
proof (rule set_eqI)
  fix k
  show "k \<in> S \<longleftrightarrow> k \<in> insert 0 (Suc ` T)" using assms by (cases k) auto
qed

lemma FindAll_Some:
  assumes "(linked_by G c ^^ fuel) `` {a} = {}"
  shows "\<exists>n. FindAll G c fuel a s = Some (n, s \<union> (linked_by G c)\<^sup>+ `` {a})
    \<and> n \<in> {n. (linked_by G c ^^ n) `` {a} \<noteq> {}} \<and> (\<forall>m \<in> {n. (linked_by G c ^^ n) `` {a} \<noteq> {}}. m \<le> n)"
  using assms
proof (induction fuel arbitrary: a s)
  case (Suc fuel)
  let ?R = "linked_by G c" and ?L = "\<lambda>a. {n. (linked_by G c ^^ n) `` {a} \<noteq> {}}"
  have step: "(?R ^^ Suc n) `` {a} = (\<Union>x \<in> ?R `` {a}. (?R ^^ n) `` {x})" for n
    unfolding relpow.simps relpow_commute [of ?R n, symmetric] by auto
  have plus: "?R\<^sup>+ `` {a} = ?R `` {a} \<union> (\<Union>x \<in> ?R `` {a}. ?R\<^sup>+ `` {x})"
    by (subst trancl_unfold_left) (auto simp: rtrancl_eq_or_trancl)
  show ?case
  proof (cases "c a")
    case None
    then have "?R `` {a} = {}" by (auto simp: linked_by_def)
    moreover from this have none: "(?R ^^ Suc n) `` {a} = {}" for n unfolding step by simp
    moreover have "n = 0" if "n \<in> ?L a" for n using that none by (cases n) auto
    moreover have "0 \<in> ?L a" by simp
    ultimately have "?L a = {0}" "?R\<^sup>+ `` {a} = {}" using plus by (blast, simp)
    with None show ?thesis by auto
  next
    case (Some e)
    then have image: "?R `` {a} = set (G e)" by (rule linked_by_image)
    have levels: "?L a = insert 0 (Suc ` \<Union> (?L ` set (G e)))"
    proof -
      have "Suc n \<in> ?L a \<longleftrightarrow> n \<in> \<Union> (?L ` set (G e))" for n using step [of n] image by auto
      moreover have "0 \<in> ?L a" by simp
      ultimately show ?thesis by (intro nat_set_Suc)
    qed
    have "\<exists>n. FindAll_loop (FindAll G c fuel) (G e) 0 s = Some (n, s \<union> set (G e) \<union> \<Union> ((\<lambda>x. ?R\<^sup>+ `` {x}) ` set (G e)))
      \<and> (n = 0 \<or> n \<in> Suc ` \<Union> (?L ` set (G e))) \<and> 0 \<le> n \<and> (\<forall>m \<in> Suc ` \<Union> (?L ` set (G e)). m \<le> n)"
      by (rule FindAll_loop_Some, rule Suc.IH) (use Suc.prems step [of fuel] image in auto)
    then show ?thesis unfolding levels plus using Some image by (auto simp: Un_assoc)
  qed
qed simp


subsection \<open>Loops and levels\<close>

lemma relpow_empty_mono: "E ^^ k = {} \<Longrightarrow> k \<le> m \<Longrightarrow> E ^^ m = {}" for E :: "('a \<times> 'a) set"
  using relpow_add [of k "m - k" E] by simp

lemma relpow_subset: "E \<subseteq> F \<Longrightarrow> E ^^ n \<subseteq> F ^^ n" for E F :: "('a \<times> 'a) set"
  by (induction n) (auto intro!: relcomp_mono)

lemma relpow_converse: "(E\<inverse>) ^^ n = (E ^^ n)\<inverse>" for E :: "('a \<times> 'a) set"
proof (induction n)
  case (Suc n)
  have "(E\<inverse>) ^^ Suc n = (E ^^ n)\<inverse> O E\<inverse>" by (simp add: Suc.IH)
  also have "\<dots> = (E O E ^^ n)\<inverse>" by (simp add: converse_relcomp)
  finally show ?case by (simp only: relpow_commute relpow.simps)
qed auto

text \<open>A path that uses new links from one account, none of which closes a loop, uses only one of them.\<close>

lemma path_new_links:
  assumes "\<And>a. a \<in> A \<Longrightarrow> (a, ms) \<notin> E\<^sup>*" "(x, y) \<in> (E \<union> {ms} \<times> A) ^^ n"
  shows "(x, y) \<in> E ^^ n \<or> (\<exists>a \<in> A. \<exists>i j. (x, ms) \<in> E ^^ i \<and> (a, y) \<in> E ^^ j \<and> n = i + j + 1)"
  using assms(2)
proof (induction n arbitrary: y)
  case (Suc n)
  from Suc.prems obtain z where z: "(x, z) \<in> (E \<union> {ms} \<times> A) ^^ n" and zy: "(z, y) \<in> E \<union> {ms} \<times> A" by auto
  from Suc.IH [OF z] consider "(x, z) \<in> E ^^ n"
    | a i j where "a \<in> A" "(x, ms) \<in> E ^^ i" "(a, z) \<in> E ^^ j" "n = i + j + 1" by blast
  then show ?case
  proof cases
    case 1
    show ?thesis
    proof (cases "(z, y) \<in> E")
      case False
      with zy 1 show ?thesis by (intro disjI2 bexI [of _ y] exI [of _ n] exI [of _ 0]) auto
    qed (use 1 in auto)
  next
    case 2
    then have "(a, z) \<in> E\<^sup>*" by (simp add: relpow_imp_rtrancl)
    with assms(1) [OF 2(1)] zy have "(z, y) \<in> E" by auto
    with 2 show ?thesis by (intro disjI2 bexI [of _ a] exI [of _ i] exI [of _ "Suc j"]) auto
  qed
qed simp

lemma depth_new_links:
  assumes "E ^^ Suc D = {}" "\<And>a. a \<in> A \<Longrightarrow> (a, ms) \<notin> E\<^sup>*"
    and "\<And>a i j x y. a \<in> A \<Longrightarrow> (x, ms) \<in> E ^^ i \<Longrightarrow> (a, y) \<in> E ^^ j \<Longrightarrow> i + j + 1 \<le> D"
  shows "(E \<union> {ms} \<times> A) ^^ Suc D = {}"
proof (rule equals0I)
  fix p assume "p \<in> (E \<union> {ms} \<times> A) ^^ Suc D"
  then have "(fst p, snd p) \<in> (E \<union> {ms} \<times> A) ^^ Suc D" by simp
  from path_new_links [OF assms(2) this] assms(1) obtain a i j
    where "a \<in> A" "(fst p, ms) \<in> E ^^ i" "(a, snd p) \<in> E ^^ j" "Suc D = i + j + 1" by blast
  with assms(3) [OF this(1,2,3)] show False by simp
qed

lemma new_link_depth:
  assumes "(insert (ms, a) E) ^^ Suc D = {}"
  shows "(a, ms) \<notin> E\<^sup>*" "(x, ms) \<in> E ^^ i \<Longrightarrow> (a, y) \<in> E ^^ j \<Longrightarrow> i + j + 1 \<le> D"
proof -
  let ?E = "insert (ms, a) E"
  have sub: "E ^^ n \<subseteq> ?E ^^ n" for n by (rule relpow_subset) auto
  show "(a, ms) \<notin> E\<^sup>*"
  proof
    assume "(a, ms) \<in> E\<^sup>*"
    then have "(ms, ms) \<in> ?E\<^sup>+"
      by (metis insertI1 rtrancl_into_trancl2 rtrancl_mono subsetD subset_insertI)
    then have "\<exists>y. (ms, y) \<in> ?E ^^ n" for n
    proof (induction n)
      case (Suc n)
      then obtain y where "(ms, y) \<in> ?E ^^ n" by blast
      moreover from Suc.prems obtain k where "(ms, ms) \<in> ?E ^^ Suc k"
        by (metis trancl_power gr0_implies_Suc)
      ultimately have "(ms, y) \<in> ?E ^^ (Suc k + n)" by (simp only: relpow_add) auto
      then have "(ms, y) \<in> ?E ^^ (Suc n + k)" by (simp only: ac_simps add_Suc add_Suc_right)
      then show ?case by (simp only: relpow_add) auto
    qed auto
    with assms show False by blast
  qed
  assume "(x, ms) \<in> E ^^ i" "(a, y) \<in> E ^^ j"
  then have "(x, ms) \<in> ?E ^^ i" "(a, y) \<in> ?E ^^ j" using sub by auto
  moreover have "(ms, a) \<in> ?E ^^ 1" by simp
  ultimately have "(x, y) \<in> ?E ^^ (i + 1 + j)" by (simp only: relpow_add) auto
  with relpow_empty_mono [OF assms, of "i + 1 + j"] show "i + j + 1 \<le> D" by (cases "i + j + 1 \<le> D") auto
qed


text \<open>
  With enough fuel the checker answers, and it accepts a link exactly if no path of the extended
  graph is longer than the maximal depth, which excludes loops.
\<close>

lemma LoopAndLevel_exact:
  assumes "graph_inv c" "cosigned_by c ^^ Suc (unat d) = {}" "unat d < fuel"
  obtains r where "LoopAndLevelChecker_validate c fuel d ms a = Some r"
    "r = Success \<longleftrightarrow> (insert (ms, a) (cosigned_by c)) ^^ Suc (unat d) = {}"
    "r \<in> {Success, Multisig_Loop, Max_Multisig_Depth}"
proof -
  let ?E = "cosigned_by c" and ?D = "unat d"
  have up: "cosigns c = ?E\<inverse>" using assms(1) by (simp add: graph_inv_def)
  have "?E ^^ fuel = {}" using relpow_empty_mono [OF assms(2), of fuel] assms(3) by simp
  then have ends: "(cosigns c ^^ fuel) `` {ms} = {}" "(?E ^^ fuel) `` {a} = {}" by (auto simp: up relpow_converse)
  obtain i where i: "FindAncestors c fuel ms {ms} = Some (i, {ms} \<union> (cosigns c)\<^sup>+ `` {ms})"
    "(cosigns c ^^ i) `` {ms} \<noteq> {}" "\<And>m. (cosigns c ^^ m) `` {ms} \<noteq> {} \<Longrightarrow> m \<le> i"
    using FindAll_Some [OF ends(1), of "{ms}"] by (auto simp: FindAncestors_def)
  obtain j where j: "FindDescendants c fuel a {a} = Some (j, {a} \<union> ?E\<^sup>+ `` {a})"
    "(?E ^^ j) `` {a} \<noteq> {}" "\<And>m. (?E ^^ m) `` {a} \<noteq> {} \<Longrightarrow> m \<le> j"
    using FindAll_Some [OF ends(2), of "{a}"] by (auto simp: FindDescendants_def)
  obtain x where x: "(x, ms) \<in> ?E ^^ i" using i(2) by (auto simp: up relpow_converse)
  obtain y where y: "(a, y) \<in> ?E ^^ j" using j(2) by auto
  have i_max: "m \<le> i" if "(z, ms) \<in> ?E ^^ m" for m z using i(3) [of m] that by (auto simp: up relpow_converse)
  have loop: "(\<exists>z \<in> {ms} \<union> (cosigns c)\<^sup>+ `` {ms}. z \<in> {a} \<union> ?E\<^sup>+ `` {a}) \<longleftrightarrow> (a, ms) \<in> ?E\<^sup>*" (is "?l \<longleftrightarrow> _")
  proof -
    have anc: "{ms} \<union> (cosigns c)\<^sup>+ `` {ms} = {z. (z, ms) \<in> ?E\<^sup>*}" by (auto simp: up trancl_converse rtrancl_eq_or_trancl)
    have desc: "{a} \<union> ?E\<^sup>+ `` {a} = {z. (a, z) \<in> ?E\<^sup>*}" by (auto simp: rtrancl_eq_or_trancl)
    show ?thesis unfolding anc desc by (auto intro: rtrancl_trans)
  qed
  define r where "r = (if i + j + 1 > ?D then Max_Multisig_Depth else if (a, ms) \<in> ?E\<^sup>* then Multisig_Loop else Success)"
  have "LoopAndLevelChecker_validate c fuel d ms a = Some r"
    unfolding LoopAndLevelChecker_validate_def i(1) j(1) r_def loop [symmetric] by simp
  moreover have "r = Success \<longleftrightarrow> (insert (ms, a) ?E) ^^ Suc ?D = {}"
  proof
    assume "r = Success"
    then have "i + j + 1 \<le> ?D" "(a, ms) \<notin> ?E\<^sup>*" by (auto simp: r_def split: if_splits)
    then have "(?E \<union> {ms} \<times> {a}) ^^ Suc ?D = {}"
      using i_max j(3) by (intro depth_new_links [OF assms(2)]) (auto, fastforce)
    then show "(insert (ms, a) ?E) ^^ Suc ?D = {}" by simp
  next
    assume "(insert (ms, a) ?E) ^^ Suc ?D = {}"
    from new_link_depth [OF this] x y show "r = Success" by (force simp: r_def)
  qed
  moreover have "r \<in> {Success, Multisig_Loop, Max_Multisig_Depth}" by (simp add: r_def)
  ultimately show ?thesis by (rule that)
qed

end
