(* ===== verification/Multisig_Modification.thy ===== *)
theory Multisig_Modification
  imports Multisig_Search
begin

section \<open>Multisig: modifications, committed and rolled back\<close>

text \<open>
  The notifications of a modification transaction, validated and observed in order.  Starting from a
  state of the plugin a modification is rejected or leads to a state of the plugin again, and a
  rollback of its notifications restores the cache.
\<close>

subsection \<open>States that the plugin keeps\<close>

definition multisig_state_ok :: "multisig_configuration \<Rightarrow> multisig_cache \<Rightarrow> bool" where
  "multisig_state_ok config c \<longleftrightarrow> multisig_inv c
     \<and> cosigned_by c ^^ Suc (unat (MaxMultisigDepth config)) = {}
     \<and> (\<forall>a e. c a = Some e \<longrightarrow> length (cosignatoryAddresses e) \<le> unat (MaxCosignatoriesPerAccount config)
                           \<and> length (multisigAddresses e) \<le> unat (MaxCosignedAccountsPerAccount config))"

text \<open>The counts of additions and deletions are bytes.\<close>

definition modification_ok :: "account_modification \<Rightarrow> bool" where
  "modification_ok tx \<longleftrightarrow> length (mod_AddressAdditions tx) < 256 \<and> length (mod_AddressDeletions tx) < 256"

lemma linked_by_None: "c a = None \<Longrightarrow> linked_by G c `` {a} = {}"
  by (auto simp: linked_by_def)

lemma entry_lengths:
  assumes "graph_inv c" "c a = Some e"
  shows "length (cosignatoryAddresses e) = card (cosigned_by c `` {a})"
    "length (multisigAddresses e) = card ((cosigned_by c)\<inverse> `` {a})"
proof -
  have "entry_ok a e" "cosigns c = (cosigned_by c)\<inverse>" using assms by (auto simp: graph_inv_def)
  then have "distinct (cosignatoryAddresses e)" "distinct (multisigAddresses e)"
    "set (multisigAddresses e) = (cosigned_by c)\<inverse> `` {a}"
    using linked_by_image [of c a e multisigAddresses] assms(2) by (auto simp: entry_ok_def strict_sorted_iff)
  then show "length (cosignatoryAddresses e) = card (cosigned_by c `` {a})"
    "length (multisigAddresses e) = card ((cosigned_by c)\<inverse> `` {a})"
    using linked_by_image [of c a e cosignatoryAddresses] assms(2) by (simp_all add: distinct_card [symmetric])
qed

lemma finite_cosigners:
  assumes "graph_inv c"
  shows "finite (cosigned_by c `` {a})" "finite ((cosigned_by c)\<inverse> `` {a})"
proof -
  have "finite (linked_by G c `` {a})" for G
    by (cases "c a") (simp add: linked_by_def, simp add: linked_by_image)
  then show "finite (cosigned_by c `` {a})" "finite ((cosigned_by c)\<inverse> `` {a})"
    using assms by (auto simp: graph_inv_def)
qed

lemma unat_less_32: "unat m < 2 ^ 32" for m :: "32 word"
  using unsigned_less [of m] by simp

lemma AddDelta_uint:
  assumes "0 \<le> uint v + sint d" "uint v + sint d < 2 ^ 32"
  shows "uint (AddDelta v 1 d) = uint v + sint d"
proof -
  have eq: "AddDelta v 1 d = word_of_int (uint v + sint d)" by (simp add: AddDelta_def)
  show ?thesis unfolding eq uint_word_of_int_eq by (rule take_bit_int_eq_self) (use assms in simp_all)
qed

lemma AddDelta_inverse: "AddDelta (AddDelta v 1 d) (-1) d = v"
  by (simp add: AddDelta_def)

subsection \<open>Processing the notifications of a modification\<close>

lemma process_append:
  "process_notifications config fuel resolve (xs @ ys) c =
     (case process_notifications config fuel resolve xs c of
        Processed c' \<Rightarrow> process_notifications config fuel resolve ys c' | r \<Rightarrow> r)"
proof (induction xs arbitrary: c)
  case (Cons x xs)
  show ?case by (simp add: Cons.IH split: option.splits result.splits)
qed simp

definition cosignatories_of :: "account_modification \<Rightarrow> address \<Rightarrow> cosignatories_notification" where
  "cosignatories_of tx ms = \<lparr>cn_Multisig = ms, AddressAdditions = mod_AddressAdditions tx, AddressDeletions = mod_AddressDeletions tx\<rparr>"

definition settings_of :: "account_modification \<Rightarrow> address \<Rightarrow> settings_notification" where
  "settings_of tx ms = \<lparr>sn_Multisig = ms, MinRemovalDelta = mod_MinRemovalDelta tx, MinApprovalDelta = mod_MinApprovalDelta tx\<rparr>"

definition new_cosignatory :: "address \<Rightarrow> unresolved_address \<Rightarrow> new_cosignatory_notification" where
  "new_cosignatory ms a = \<lparr>nn_Multisig = ms, Cosignatory = a\<rparr>"

lemma new_cosignatory_sel [simp]: "nn_Multisig (new_cosignatory ms a) = ms" "Cosignatory (new_cosignatory ms a) = a"
  "cn_Multisig (cosignatories_of tx ms) = ms" "AddressAdditions (cosignatories_of tx ms) = mod_AddressAdditions tx"
  "AddressDeletions (cosignatories_of tx ms) = mod_AddressDeletions tx" "sn_Multisig (settings_of tx ms) = ms"
  "MinRemovalDelta (settings_of tx ms) = mod_MinRemovalDelta tx" "MinApprovalDelta (settings_of tx ms) = mod_MinApprovalDelta tx"
  by (simp_all add: new_cosignatory_def cosignatories_of_def settings_of_def)

abbreviation changes_cosignatories :: "account_modification \<Rightarrow> bool" where
  "changes_cosignatories tx \<equiv> mod_AddressAdditions tx \<noteq> [] \<or> mod_AddressDeletions tx \<noteq> []"

lemma Publish_eq:
  "Publish tx ms = Internal_Padding (mod_Reserved1 tx)
     # concat (map (\<lambda>a. [Account_Address a, New_Cosignatory (new_cosignatory ms a)]) (mod_AddressAdditions tx))
     @ (if changes_cosignatories tx then [Cosignatories (cosignatories_of tx ms)] else [])
     @ (if mod_AddressAdditions tx \<noteq> [] then [Address_Interaction ms (set (mod_AddressAdditions tx))] else [])
     @ [Settings (settings_of tx ms)]"
  by (auto simp: Publish_def new_cosignatory_def cosignatories_of_def settings_of_def)

text \<open>The notifications of new cosignatories do not change the state.\<close>

fun first_failure :: "(unresolved_address \<Rightarrow> multisig_result option) \<Rightarrow> unresolved_address list \<Rightarrow> multisig_result option" where
  "first_failure v [] = Some Success"
| "first_failure v (a # as) = (case v a of None \<Rightarrow> None | Some r \<Rightarrow> if r = Success then first_failure v as else Some r)"

lemma first_failure_Success: "first_failure v as = Some Success \<longleftrightarrow> (\<forall>a \<in> set as. v a = Some Success)"
  by (induction as) (auto split: option.splits)

lemma first_failure_None: "(\<And>a. a \<in> set as \<Longrightarrow> v a \<noteq> None) \<Longrightarrow> first_failure v as \<noteq> None"
  by (induction as) (auto split: option.splits)

lemma process_new_cosignatories:
  "process_notifications config fuel resolve
     (concat (map (\<lambda>a. [Account_Address a, New_Cosignatory (new_cosignatory ms a)]) as)) c =
   (case first_failure (\<lambda>a. validate_notification config fuel resolve c (New_Cosignatory (new_cosignatory ms a))) as of
      None \<Rightarrow> Out_Of_Fuel | Some r \<Rightarrow> if r = Success then Processed c else Rejected r)"
proof (induction as)
  case (Cons a as)
  have addr: "validate_notification config fuel resolve c (Account_Address a) = Some Success"
    by (simp add: validate_notification_def)
  show ?case
    by (simp add: addr Cons.IH observe_notification_def split: option.splits)
qed simp


text \<open>What it means that a modification is processed.\<close>

lemma Publish_processed:
  assumes "process_notifications config fuel resolve (Publish tx ms) c = Processed c'"
  obtains c1 where
    "\<And>a. a \<in> set (mod_AddressAdditions tx) \<Longrightarrow>
       MultisigMaxCosignedAccountsValidator (MaxCosignedAccountsPerAccount config) resolve c (new_cosignatory ms a) = Success
       \<and> MultisigLoopAndLevelValidator (MaxMultisigDepth config) fuel resolve c (new_cosignatory ms a) = Some Success"
    "if changes_cosignatories tx
     then MultisigCosignatoriesValidator (cosignatories_of tx ms) = Success
       \<and> MultisigMaxCosignatoriesValidator (MaxCosignatoriesPerAccount config) c (cosignatories_of tx ms) = Success
       \<and> MultisigInvalidCosignatoriesValidator resolve c (cosignatories_of tx ms) = Success
       \<and> MultisigCosignatoriesObserver resolve Commit_Mode (cosignatories_of tx ms) c = Ok c1
     else c1 = c"
    "MultisigInvalidSettingsValidator c1 (settings_of tx ms) = Success"
    "MultisigSettingsObserver Commit_Mode (settings_of tx ms) c1 = Ok c'"
proof -
  let ?new = "\<lambda>a. validate_notification config fuel resolve c (New_Cosignatory (new_cosignatory ms a))"
  have pad: "validate_notification config fuel resolve c (Internal_Padding (mod_Reserved1 tx)) = Some Success"
    "observe_notification resolve Commit_Mode (Internal_Padding (mod_Reserved1 tx)) c = Ok c"
    by (simp_all add: validate_notification_def observe_notification_def)
  have new: "first_failure ?new (mod_AddressAdditions tx) = Some Success"
    using assms by (simp add: Publish_eq pad process_append process_new_cosignatories split: option.splits if_splits)
  note rest = assms [unfolded Publish_eq process_notifications.simps pad option.case if_True HOL.simp_thms result.case
      process_append [of config fuel resolve "concat xs" for xs] process_new_cosignatories new]
  have "\<exists>c1. (if changes_cosignatories tx
     then MultisigCosignatoriesValidator (cosignatories_of tx ms) = Success
       \<and> MultisigMaxCosignatoriesValidator (MaxCosignatoriesPerAccount config) c (cosignatories_of tx ms) = Success
       \<and> MultisigInvalidCosignatoriesValidator resolve c (cosignatories_of tx ms) = Success
       \<and> MultisigCosignatoriesObserver resolve Commit_Mode (cosignatories_of tx ms) c = Ok c1
     else c1 = c)
    \<and> MultisigInvalidSettingsValidator c1 (settings_of tx ms) = Success
    \<and> MultisigSettingsObserver Commit_Mode (settings_of tx ms) c1 = Ok c'"
    using rest by (auto simp: validate_notification_def observe_notification_def Let_def
        split: if_splits option.splits result.splits process_result.splits)
  moreover have "MultisigMaxCosignedAccountsValidator (MaxCosignedAccountsPerAccount config) resolve c (new_cosignatory ms a) = Success
       \<and> MultisigLoopAndLevelValidator (MaxMultisigDepth config) fuel resolve c (new_cosignatory ms a) = Some Success"
    if "a \<in> set (mod_AddressAdditions tx)" for a
    using new that unfolding first_failure_Success by (auto simp: validate_notification_def Let_def split: if_splits)
  ultimately show ?thesis using that by blast
qed


subsection \<open>What the validators guarantee\<close>

lemma relpow_empty_irrefl: "(a, a) \<notin> E" if "E ^^ Suc D = {}" for E :: "('a \<times> 'a) set"
proof
  assume "(a, a) \<in> E"
  then have "(a, a) \<in> E ^^ n" for n by (induction n) auto
  with that show False by blast
qed

lemma additions_validated:
  assumes "graph_inv c" "cosigned_by c ^^ Suc (unat d) = {}" "unat d < fuel"
    and "\<And>a. a \<in> set adds \<Longrightarrow> MultisigLoopAndLevelValidator d fuel resolve c (new_cosignatory ms a) = Some Success"
  shows "ms \<notin> resolve ` set adds" "(cosigned_by c \<union> {ms} \<times> resolve ` set adds) ^^ Suc (unat d) = {}"
proof -
  have links: "(insert (ms, resolve a) (cosigned_by c)) ^^ Suc (unat d) = {}" if "a \<in> set adds" for a
  proof -
    obtain r where "LoopAndLevelChecker_validate c fuel d ms (resolve a) = Some r"
      "r = Success \<longleftrightarrow> (insert (ms, resolve a) (cosigned_by c)) ^^ Suc (unat d) = {}"
      by (rule LoopAndLevel_exact [OF assms(1-3)])
    with assms(4) [OF that] show ?thesis by (simp add: MultisigLoopAndLevelValidator_def)
  qed
  show "ms \<notin> resolve ` set adds" using new_link_depth(1) [OF links] by auto
  show "(cosigned_by c \<union> {ms} \<times> resolve ` set adds) ^^ Suc (unat d) = {}"
    by (rule depth_new_links [OF assms(2)]) (use new_link_depth [OF links] in auto)
qed

lemma deletions_validated:
  assumes "MultisigCosignatoriesValidator n = Success" "MultisigInvalidCosignatoriesValidator resolve c n = Success"
  shows "{cn_Multisig n} \<times> resolve ` set (AddressDeletions n) \<subseteq> cosigned_by c" "distinct (map resolve (AddressDeletions n))"
    "{cn_Multisig n} \<times> resolve ` set (AddressAdditions n) \<inter> cosigned_by c = {}"
proof -
  show "{cn_Multisig n} \<times> resolve ` set (AddressDeletions n) \<subseteq> cosigned_by c"
    "{cn_Multisig n} \<times> resolve ` set (AddressAdditions n) \<inter> cosigned_by c = {}"
    using assms(2) by (auto simp: MultisigInvalidCosignatoriesValidator_def hasCosignatory_def linked_by_def list_ex_iff
        split: option.splits if_splits)
  have "length (AddressDeletions n) \<le> 1"
    using assms(1) by (simp add: MultisigCosignatoriesValidator_def split: if_splits)
  then show "distinct (map resolve (AddressDeletions n))" by (cases "AddressDeletions n") auto
qed

text \<open>The number of cosignatories cannot wrap around when the deletions are cosignatories.\<close>

lemma max_cosignatories_validated:
  assumes "MultisigMaxCosignatoriesValidator m c n = Success" "graph_inv c" "length (AddressAdditions n) < 256"
    and "length (AddressDeletions n) \<le> card (cosigned_by c `` {cn_Multisig n})"
    and "card (cosigned_by c `` {cn_Multisig n}) < 2 ^ 32"
  shows "card (cosigned_by c `` {cn_Multisig n}) + length (AddressAdditions n) - length (AddressDeletions n) \<le> unat m"
proof -
  let ?k = "card (cosigned_by c `` {cn_Multisig n})" and ?a = "length (AddressAdditions n)" and ?d = "length (AddressDeletions n)"
  have count: "(case c (cn_Multisig n) of None \<Rightarrow> 0 | Some e \<Rightarrow> of_nat (length (cosignatoryAddresses e))) = (of_nat ?k :: 64 word)"
  proof (cases "c (cn_Multisig n)")
    case None
    then have "cosigned_by c `` {cn_Multisig n} = {}" by (auto simp: linked_by_def)
    with None show ?thesis by simp
  qed (simp add: entry_lengths(1) [OF assms(2)])
  have "(of_nat ?k :: 64 word) + word_of_int (int ?a - int ?d) = of_nat (?k + ?a - ?d)"
    using assms(4) by (simp add: of_nat_diff)
  then have "(of_nat (?k + ?a - ?d) :: 64 word) \<le> ucast m"
    using assms(1) unfolding MultisigMaxCosignatoriesValidator_def Let_def count by (simp split: if_splits)
  then have "unat (of_nat (?k + ?a - ?d) :: 64 word) \<le> unat (ucast m :: 64 word)" by (simp add: word_le_nat_alt)
  moreover have "unat (of_nat (?k + ?a - ?d) :: 64 word) = ?k + ?a - ?d"
    using assms(3,5) by (simp add: unat_of_nat take_bit_nat_eq_self)
  moreover have "unat (ucast m :: 64 word) = unat m"
    using unat_less_32 [of m] by (simp add: unsigned_ucast_eq take_bit_nat_eq_self)
  ultimately show ?thesis by simp
qed


lemma settings_validated:
  assumes "MultisigInvalidSettingsValidator c n = Success" "c (sn_Multisig n) = Some e" "length (cosignatoryAddresses e) < 2 ^ 32"
    and "minApproval e' = AddDelta (minApproval e) 1 (MinApprovalDelta n)" "minRemoval e' = AddDelta (minRemoval e) 1 (MinRemovalDelta n)"
    and "cosignatoryAddresses e' = cosignatoryAddresses e"
  shows "settings_ok e'" "cosignatoryAddresses e \<noteq> []"
proof -
  have range: "1 \<le> uint (minRemoval e) + sint (MinRemovalDelta n)" "1 \<le> uint (minApproval e) + sint (MinApprovalDelta n)"
    "uint (minRemoval e) + sint (MinRemovalDelta n) \<le> int (length (cosignatoryAddresses e))"
    "uint (minApproval e) + sint (MinApprovalDelta n) \<le> int (length (cosignatoryAddresses e))"
    using assms(1,2) by (auto simp: MultisigInvalidSettingsValidator_def Let_def split: if_splits)
  then show "cosignatoryAddresses e \<noteq> []" by auto
  have "uint (minApproval e') = uint (minApproval e) + sint (MinApprovalDelta n)"
    "uint (minRemoval e') = uint (minRemoval e) + sint (MinRemovalDelta n)"
    unfolding assms(4,5) using range assms(3) by (auto intro!: AddDelta_uint)
  then have "unat (minApproval e') = nat (uint (minApproval e) + sint (MinApprovalDelta n))"
    "unat (minRemoval e') = nat (uint (minRemoval e) + sint (MinRemovalDelta n))" by (simp_all only: unat_eq_nat_uint)
  with range \<open>cosignatoryAddresses e \<noteq> []\<close> show "settings_ok e'" by (auto simp: settings_ok_def assms(6) nat_le_iff le_nat_iff)
qed

lemma links_bounded:
  assumes "multisig_state_ok config c"
  shows "card (cosigned_by c `` {a}) \<le> unat (MaxCosignatoriesPerAccount config)"
    "card ((cosigned_by c)\<inverse> `` {a}) \<le> unat (MaxCosignedAccountsPerAccount config)"
proof -
  have inv: "graph_inv c" using assms by (simp add: multisig_state_ok_def multisig_inv_def)
  then have "c a = None \<Longrightarrow> (cosigned_by c)\<inverse> `` {a} = {}"
    using linked_by_None [of c a multisigAddresses] by (simp add: graph_inv_def)
  moreover have "card (cosigned_by c `` {a}) \<le> unat (MaxCosignatoriesPerAccount config)
      \<and> card ((cosigned_by c)\<inverse> `` {a}) \<le> unat (MaxCosignedAccountsPerAccount config)" if "c a = Some e" for e
    unfolding entry_lengths [OF inv that, symmetric] using assms that by (simp add: multisig_state_ok_def)
  ultimately show "card (cosigned_by c `` {a}) \<le> unat (MaxCosignatoriesPerAccount config)"
    "card ((cosigned_by c)\<inverse> `` {a}) \<le> unat (MaxCosignedAccountsPerAccount config)"
    using linked_by_None [of c a cosignatoryAddresses] by (cases "c a"; simp)+
qed

lemma max_cosigned_validated:
  assumes "MultisigMaxCosignedAccountsValidator m resolve c (new_cosignatory ms a) = Success" "graph_inv c" "m \<noteq> 0"
  shows "Suc (card ((cosigned_by c)\<inverse> `` {resolve a})) \<le> unat m"
proof (cases "c (resolve a)")
  case None
  then have "(cosigned_by c)\<inverse> `` {resolve a} = {}"
    using linked_by_None [of c "resolve a" multisigAddresses] assms(2) by (simp add: graph_inv_def)
  moreover have "unat m \<noteq> 0" using assms(3) by (simp add: unat_eq_0)
  ultimately show ?thesis by simp
next
  case (Some e)
  with assms(1) entry_lengths(2) [OF assms(2), of "resolve a" e] show ?thesis
    by (simp add: MultisigMaxCosignedAccountsValidator_def split: if_splits)
qed

text \<open>The cosignatories observer after its validators.\<close>

lemma cosignatories_step:
  assumes ok: "multisig_state_ok config c" and fuel: "unat (MaxMultisigDepth config) < fuel"
    and cfg: "MaxCosignedAccountsPerAccount config \<noteq> 0" and size: "length (AddressAdditions n) < 256"
    and max: "\<And>a. a \<in> set (AddressAdditions n) \<Longrightarrow>
       MultisigMaxCosignedAccountsValidator (MaxCosignedAccountsPerAccount config) resolve c (new_cosignatory (cn_Multisig n) a) = Success"
    and loop: "\<And>a. a \<in> set (AddressAdditions n) \<Longrightarrow>
       MultisigLoopAndLevelValidator (MaxMultisigDepth config) fuel resolve c (new_cosignatory (cn_Multisig n) a) = Some Success"
    and valid: "MultisigCosignatoriesValidator n = Success" "MultisigMaxCosignatoriesValidator (MaxCosignatoriesPerAccount config) c n = Success"
      "MultisigInvalidCosignatoriesValidator resolve c n = Success"
  obtains c' where "MultisigCosignatoriesObserver resolve Commit_Mode n c = Ok c'" "graph_inv c'" "others_ok (cn_Multisig n) c'"
    "\<forall>e. c' (cn_Multisig n) = Some e \<longrightarrow> linked e"
    "cosigned_by c' = (cosigned_by c \<union> {cn_Multisig n} \<times> resolve ` set (AddressAdditions n)) - {cn_Multisig n} \<times> resolve ` set (AddressDeletions n)"
    "settings c' = settings_after (cn_Multisig n) (cosigned_by c') (settings c)"
    "cosigned_by c' ^^ Suc (unat (MaxMultisigDepth config)) = {}"
    "\<And>a e. c' a = Some e \<Longrightarrow> length (cosignatoryAddresses e) \<le> unat (MaxCosignatoriesPerAccount config)
       \<and> length (multisigAddresses e) \<le> unat (MaxCosignedAccountsPerAccount config)"
proof -
  let ?ms = "cn_Multisig n" and ?E = "cosigned_by c" and ?A = "resolve ` set (AddressAdditions n)" and ?D = "resolve ` set (AddressDeletions n)"
  have inv: "graph_inv c" "others_ok ?ms c" and depth: "?E ^^ Suc (unat (MaxMultisigDepth config)) = {}"
    using ok by (auto simp: multisig_state_ok_def multisig_inv_def others_ok_def)
  have bounds: "card (?E `` {a}) \<le> unat (MaxCosignatoriesPerAccount config)"
    "card (?E\<inverse> `` {a}) \<le> unat (MaxCosignedAccountsPerAccount config)" for a
    by (rule links_bounded [OF ok])+
  have adds: "?ms \<notin> ?A" "(?E \<union> {?ms} \<times> ?A) ^^ Suc (unat (MaxMultisigDepth config)) = {}"
    by (rule additions_validated [OF inv(1) depth fuel loop]; assumption)+
  note dels = deletions_validated [OF valid(1,3)]
  have "?ms \<notin> ?D" using dels(1) relpow_empty_irrefl [OF depth] by blast
  then obtain c' where c': "MultisigCosignatoriesObserver resolve Commit_Mode n c = Ok c'" "graph_inv c'" "others_ok ?ms c'"
    "\<forall>e. c' ?ms = Some e \<longrightarrow> linked e" "cosigned_by c' = (?E \<union> {?ms} \<times> ?A) - {?ms} \<times> ?D"
    "settings c' = settings_after ?ms (cosigned_by c') (settings c)"
    by (rule observer_commit [OF inv adds(1) _ dels(1,2)])
  have "cosigned_by c' ^^ Suc (unat (MaxMultisigDepth config)) = {}"
    using relpow_subset [of "cosigned_by c'" "?E \<union> {?ms} \<times> ?A"] adds(2) c'(5) by blast
  moreover have "card (cosigned_by c' `` {a}) \<le> unat (MaxCosignatoriesPerAccount config)" for a
  proof (cases "a = ?ms")
    case True
    have image: "cosigned_by c' `` {?ms} = (?E `` {?ms} - ?D) \<union> ?A" using dels c'(5) by auto
    have d: "card ?D = length (AddressDeletions n)" using distinct_card [OF dels(2)] by simp
    have sub: "?D \<subseteq> ?E `` {?ms}" using dels(1) by auto
    then have le: "card ?D \<le> card (?E `` {?ms})" by (rule card_mono [OF finite_cosigners(1) [OF inv(1)]])
    have "card (cosigned_by c' `` {?ms}) \<le> card (?E `` {?ms}) - card ?D + card ?A"
      unfolding image by (rule order_trans [OF card_Un_le]) (simp add: card_Diff_subset [OF _ sub])
    also have "\<dots> \<le> card (?E `` {?ms}) + length (AddressAdditions n) - length (AddressDeletions n)"
      using card_length [of "map resolve (AddressAdditions n)"] d le by simp
    also have "\<dots> \<le> unat (MaxCosignatoriesPerAccount config)"
      using max_cosignatories_validated [OF valid(2) inv(1) size] d le bounds(1) [of ?ms] unat_less_32 [of "MaxCosignatoriesPerAccount config"]
      by simp
    finally show ?thesis using True by simp
  next
    case False
    then have "cosigned_by c' `` {a} = ?E `` {a}" using c'(5) by auto
    with bounds(1) show ?thesis by simp
  qed
  moreover have "card ((cosigned_by c')\<inverse> `` {a}) \<le> unat (MaxCosignedAccountsPerAccount config)" for a
  proof (cases "a \<in> ?A")
    case True
    have "card ((cosigned_by c')\<inverse> `` {a}) \<le> card (insert ?ms (?E\<inverse> `` {a}))"
      using c'(5) finite_cosigners(2) [OF inv(1)] by (intro card_mono) auto
    also have "\<dots> \<le> Suc (card (?E\<inverse> `` {a}))" by (rule card_insert_le_m1) auto
    also have "\<dots> \<le> unat (MaxCosignedAccountsPerAccount config)"
      using max_cosigned_validated [OF max inv(1)] True cfg by auto
    finally show ?thesis .
  next
    case False
    then have "(cosigned_by c')\<inverse> `` {a} \<subseteq> ?E\<inverse> `` {a}" using c'(5) by auto
    then have "card ((cosigned_by c')\<inverse> `` {a}) \<le> card (?E\<inverse> `` {a})" by (rule card_mono [OF finite_cosigners(2) [OF inv(1)]])
    with bounds(2) [of a] show ?thesis by simp
  qed
  ultimately show ?thesis
    using entry_lengths [OF c'(2)] by (intro that [OF c']) auto
qed


lemma settings_step:
  assumes "graph_inv c" "others_ok (sn_Multisig n) c" "\<forall>e. c (sn_Multisig n) = Some e \<longrightarrow> linked e"
    "cosigned_by c ^^ Suc (unat (MaxMultisigDepth config)) = {}"
    "\<And>a e. c a = Some e \<Longrightarrow> length (cosignatoryAddresses e) \<le> unat (MaxCosignatoriesPerAccount config)
       \<and> length (multisigAddresses e) \<le> unat (MaxCosignedAccountsPerAccount config)"
    "MultisigInvalidSettingsValidator c n = Success"
  obtains c' where "MultisigSettingsObserver Commit_Mode n c = Ok c'" "multisig_state_ok config c'" "cosigned_by c' = cosigned_by c"
    "c (sn_Multisig n) = None \<Longrightarrow> c' = c"
    "c (sn_Multisig n) \<noteq> None \<Longrightarrow> settings c' = (settings c)(sn_Multisig n :=
       (AddDelta (fst (settings c (sn_Multisig n))) 1 (MinApprovalDelta n), AddDelta (snd (settings c (sn_Multisig n))) 1 (MinRemovalDelta n)))"
proof (cases "c (sn_Multisig n)")
  case None
  then have "MultisigSettingsObserver Commit_Mode n c = Ok c" by (simp add: MultisigSettingsObserver_def)
  moreover have "multisig_state_ok config c"
    using assms(1-5) None unfolding multisig_state_ok_def multisig_inv_def others_ok_def by (metis option.distinct(1))
  ultimately show ?thesis using None that [of c] by simp
next
  case (Some e)
  let ?ms = "sn_Multisig n"
  have pre: "c ?ms \<noteq> None \<or> Commit_Mode = Rollback_Mode" using Some by simp
  obtain c' where c': "MultisigSettingsObserver Commit_Mode n c = Ok c'" "graph_inv c'" "others_ok ?ms c'" "cosigned_by c' = cosigned_by c"
    "settings c' = (settings c)(?ms := (AddDelta (fst (settings c ?ms)) (if Commit_Mode = Commit_Mode then 1 else -1) (MinApprovalDelta n),
                                        AddDelta (snd (settings c ?ms)) (if Commit_Mode = Commit_Mode then 1 else -1) (MinRemovalDelta n)))"
    "c' ?ms \<noteq> None"
    "\<forall>e'. c' ?ms = Some e' \<longrightarrow> cosignatoryAddresses e' = (case c ?ms of None \<Rightarrow> [] | Some e \<Rightarrow> cosignatoryAddresses e)
       \<and> multisigAddresses e' = (case c ?ms of None \<Rightarrow> [] | Some e \<Rightarrow> multisigAddresses e)"
    by (rule settings_observer [OF assms(1,2) pre])
  then obtain e' where e': "c' ?ms = Some e'" "cosignatoryAddresses e' = cosignatoryAddresses e" "multisigAddresses e' = multisigAddresses e"
    using Some by auto
  have "settings c' ?ms = (AddDelta (minApproval e) 1 (MinApprovalDelta n), AddDelta (minRemoval e) 1 (MinRemovalDelta n))"
    using Some unfolding c'(5) by (simp add: settings_def)
  then have mins: "minApproval e' = AddDelta (minApproval e) 1 (MinApprovalDelta n)" "minRemoval e' = AddDelta (minRemoval e) 1 (MinRemovalDelta n)"
    using e'(1) by (auto simp: settings_def)
  have "length (cosignatoryAddresses e) < 2 ^ 32"
    using assms(5) [OF Some] unat_less_32 [of "MaxCosignatoriesPerAccount config"] by simp
  note ms = settings_validated [OF assms(6) Some this mins e'(2)]
  have "linked e'" using ms(2) e'(2) by (simp add: linked_def)
  with ms(1) c'(2,3) e'(1) have inv: "multisig_inv c'" unfolding multisig_inv_def others_ok_def by (metis option.inject)
  have "length (cosignatoryAddresses x) \<le> unat (MaxCosignatoriesPerAccount config)
      \<and> length (multisigAddresses x) \<le> unat (MaxCosignedAccountsPerAccount config)" if x: "c' a = Some x" for a x
  proof (cases "c a")
    case None
    have "linked x" using inv x by (simp add: multisig_inv_def)
    then have "a \<in> Domain (cosigned_by c') \<union> Range (cosigned_by c')" using linked_entry_iff [OF c'(2), of a] x by simp
    moreover have "a \<notin> Domain (cosigned_by c)" using None by (auto simp: linked_by_def)
    moreover have "a \<notin> Domain (cosigns c)" using None by (auto simp: linked_by_def)
    then have "a \<notin> Range (cosigned_by c)" using assms(1) by (auto simp: graph_inv_def)
    ultimately show ?thesis using c'(4) by simp
  next
    case (Some y)
    with assms(5) [OF Some] x entry_lengths [OF c'(2) x] entry_lengths [OF assms(1) Some] c'(4) show ?thesis by simp
  qed
  then have "multisig_state_ok config c'" unfolding multisig_state_ok_def using inv assms(4) c'(4) by auto
  then show ?thesis using that [OF c'(1) _ c'(4)] c'(5) Some by simp
qed

lemma fold_result_idle: "(\<And>x s. x \<in> set xs \<Longrightarrow> f x s = Ok s) \<Longrightarrow> fold_result f xs s = Ok s"
  by (induction xs) auto

lemma rollback_Publish:
  "rollback_notifications resolve (Publish tx ms) c =
     bind_result (MultisigSettingsObserver Rollback_Mode (settings_of tx ms) c)
       (\<lambda>c. if changes_cosignatories tx then MultisigCosignatoriesObserver resolve Rollback_Mode (cosignatories_of tx ms) c else Ok c)"
proof -
  let ?obs = "observe_notification resolve Rollback_Mode"
  let ?new = "rev (concat (map (\<lambda>a. [Account_Address a, New_Cosignatory (new_cosignatory ms a)]) (mod_AddressAdditions tx)))"
  have idle: "fold_result ?obs (?new @ [Internal_Padding (mod_Reserved1 tx)]) s = Ok s" for s
    by (rule fold_result_idle) (auto simp: observe_notification_def)
  have bind_Ok: "bind_result r Ok = r" for r :: "multisig_cache result" by (cases r) auto
  let ?int = "if mod_AddressAdditions tx \<noteq> [] then [Address_Interaction ms (set (mod_AddressAdditions tx))] else []"
  let ?cos = "if changes_cosignatories tx then [Cosignatories (cosignatories_of tx ms)] else []"
  have rest: "fold_result ?obs (?int @ ?cos @ ?new @ [Internal_Padding (mod_Reserved1 tx)]) s
    = (if changes_cosignatories tx then MultisigCosignatoriesObserver resolve Rollback_Mode (cosignatories_of tx ms) s else Ok s)" for s
  proof -
    have tail: "fold_result ?obs (?new @ [Internal_Padding (mod_Reserved1 tx)]) = Ok" using idle by (rule ext)
    have "fold_result ?obs ?int s = Ok s" by (simp add: observe_notification_def)
    then have "fold_result ?obs (?int @ ?cos @ ?new @ [Internal_Padding (mod_Reserved1 tx)]) s = fold_result ?obs ?cos s"
      by (simp only: fold_result_append [of _ ?int] fold_result_append [of _ ?cos] bind_result.simps tail bind_Ok)
    also have "\<dots> = (if changes_cosignatories tx then MultisigCosignatoriesObserver resolve Rollback_Mode (cosignatories_of tx ms) s else Ok s)"
      by (cases "MultisigCosignatoriesObserver resolve Rollback_Mode (cosignatories_of tx ms) s") (simp_all add: observe_notification_def)
    finally show ?thesis .
  qed
  have "rev (Publish tx ms) = Settings (settings_of tx ms) # ?int @ ?cos @ ?new @ [Internal_Padding (mod_Reserved1 tx)]"
    by (simp add: Publish_eq)
  then show ?thesis
    unfolding rollback_notifications_def by (simp only: fold_result.simps ext [OF rest] observe_notification_def multisig_notification.case)
qed


subsection \<open>A modification commits or is rejected\<close>

lemma modification_outcome:
  assumes ok: "multisig_state_ok config c" and fuel: "unat (MaxMultisigDepth config) < fuel"
    and cfg: "MaxCosignedAccountsPerAccount config \<noteq> 0" and tx: "modification_ok tx"
  shows "case process_notifications config fuel resolve (Publish tx ms) c of
      Processed c' \<Rightarrow> multisig_state_ok config c' \<and> cosigned_by c'
        = (cosigned_by c \<union> {ms} \<times> resolve ` set (mod_AddressAdditions tx)) - {ms} \<times> resolve ` set (mod_AddressDeletions tx)
    | Rejected r \<Rightarrow> r \<noteq> Success
    | _ \<Rightarrow> False"
proof -
  let ?process = "process_notifications config fuel resolve"
  have inv: "graph_inv c" and depth: "cosigned_by c ^^ Suc (unat (MaxMultisigDepth config)) = {}"
    using ok by (auto simp: multisig_state_ok_def multisig_inv_def)
  let ?new = "\<lambda>a. validate_notification config fuel resolve c (New_Cosignatory (new_cosignatory ms a))"
  have "?new a \<noteq> None" for a
  proof -
    obtain r where "LoopAndLevelChecker_validate c fuel (MaxMultisigDepth config) ms (resolve a) = Some r"
      by (rule LoopAndLevel_exact [OF inv depth fuel])
    then show ?thesis by (simp add: validate_notification_def MultisigLoopAndLevelValidator_def Let_def)
  qed
  then have "first_failure ?new (mod_AddressAdditions tx) \<noteq> None" by (rule first_failure_None)
  then obtain r where r: "first_failure ?new (mod_AddressAdditions tx) = Some r" unfolding not_None_eq by (rule exE)
  define rest where "rest = (if changes_cosignatories tx then [Cosignatories (cosignatories_of tx ms)] else [])
     @ (if mod_AddressAdditions tx \<noteq> [] then [Address_Interaction ms (set (mod_AddressAdditions tx))] else [])
     @ [Settings (settings_of tx ms)]"
  have run: "?process (Publish tx ms) c = (if r = Success then ?process rest c else Rejected r)"
  proof -
    have "?process (Publish tx ms) c = ?process (concat (map (\<lambda>a. [Account_Address a, New_Cosignatory (new_cosignatory ms a)]) (mod_AddressAdditions tx)) @ rest) c"
      by (simp only: Publish_eq rest_def process_notifications.simps) (simp add: validate_notification_def observe_notification_def)
    then show ?thesis by (simp only: process_append process_new_cosignatories r) simp
  qed
  have last: "?process ((if b then [Address_Interaction ms X] else []) @ [Settings s]) c1
      = (if MultisigInvalidSettingsValidator c1 s = Success
         then (case MultisigSettingsObserver Commit_Mode s c1 of Ok c' \<Rightarrow> Processed c' | Err e \<Rightarrow> Thrown e)
         else Rejected (MultisigInvalidSettingsValidator c1 s))" for b X s c1
    by (simp add: validate_notification_def observe_notification_def split: result.splits)
  show ?thesis
  proof (cases "r = Success")
    case True
    then have new: "MultisigMaxCosignedAccountsValidator (MaxCosignedAccountsPerAccount config) resolve c (new_cosignatory ms a) = Success"
      "MultisigLoopAndLevelValidator (MaxMultisigDepth config) fuel resolve c (new_cosignatory ms a) = Some Success"
      if "a \<in> set (mod_AddressAdditions tx)" for a
      using r that unfolding True first_failure_Success by (auto simp: validate_notification_def Let_def split: if_splits)
    have fin: ?thesis if c1: "graph_inv c1" "others_ok ms c1" "\<forall>e. c1 ms = Some e \<longrightarrow> linked e"
      "cosigned_by c1 ^^ Suc (unat (MaxMultisigDepth config)) = {}"
      "\<And>a e. c1 a = Some e \<Longrightarrow> length (cosignatoryAddresses e) \<le> unat (MaxCosignatoriesPerAccount config)
       \<and> length (multisigAddresses e) \<le> unat (MaxCosignedAccountsPerAccount config)"
      "cosigned_by c1 = (cosigned_by c \<union> {ms} \<times> resolve ` set (mod_AddressAdditions tx)) - {ms} \<times> resolve ` set (mod_AddressDeletions tx)"
      "?process rest c = ?process ((if mod_AddressAdditions tx \<noteq> [] then [Address_Interaction ms (set (mod_AddressAdditions tx))] else [])
         @ [Settings (settings_of tx ms)]) c1" for c1
    proof (cases "MultisigInvalidSettingsValidator c1 (settings_of tx ms) = Success")
      case valid: True
      obtain c' where "MultisigSettingsObserver Commit_Mode (settings_of tx ms) c1 = Ok c'" "multisig_state_ok config c'" "cosigned_by c' = cosigned_by c1"
        by (rule settings_step [of c1 "settings_of tx ms" config]) (use c1(1-5) valid in simp_all)
      with c1(6,7) valid True run show ?thesis by (simp add: last)
    qed (use c1(7) True run in \<open>simp add: last\<close>)
    show ?thesis
    proof (cases "changes_cosignatories tx")
      case False
      then show ?thesis
        using ok by (intro fin [of c]) (auto simp: rest_def multisig_state_ok_def multisig_inv_def others_ok_def)
    next
      case changes: True
      let ?n = "cosignatories_of tx ms"
      have "validate_notification config fuel resolve c (Cosignatories ?n) \<noteq> None" by (simp add: validate_notification_def Let_def)
      then obtain v where v: "validate_notification config fuel resolve c (Cosignatories ?n) = Some v"
        unfolding not_None_eq by (rule exE)
      show ?thesis
      proof (cases "v = Success")
        case True
        then have valid: "MultisigCosignatoriesValidator ?n = Success" "MultisigMaxCosignatoriesValidator (MaxCosignatoriesPerAccount config) c ?n = Success"
          "MultisigInvalidCosignatoriesValidator resolve c ?n = Success"
          using v by (auto simp: validate_notification_def Let_def split: if_splits)
        obtain c1 where c1: "MultisigCosignatoriesObserver resolve Commit_Mode ?n c = Ok c1" "graph_inv c1" "others_ok (cn_Multisig ?n) c1"
          "\<forall>e. c1 (cn_Multisig ?n) = Some e \<longrightarrow> linked e"
          "cosigned_by c1 = (cosigned_by c \<union> {cn_Multisig ?n} \<times> resolve ` set (AddressAdditions ?n)) - {cn_Multisig ?n} \<times> resolve ` set (AddressDeletions ?n)"
          "settings c1 = settings_after (cn_Multisig ?n) (cosigned_by c1) (settings c)"
          "cosigned_by c1 ^^ Suc (unat (MaxMultisigDepth config)) = {}"
          "\<And>a e. c1 a = Some e \<Longrightarrow> length (cosignatoryAddresses e) \<le> unat (MaxCosignatoriesPerAccount config)
            \<and> length (multisigAddresses e) \<le> unat (MaxCosignedAccountsPerAccount config)"
          by (rule cosignatories_step [OF ok fuel cfg, of ?n resolve]) (use tx new valid in \<open>simp_all add: modification_ok_def\<close>)
        show ?thesis
          by (rule fin [of c1]) (use c1 changes v True in \<open>simp_all add: rest_def observe_notification_def\<close>)
      next
        case False
        with changes v \<open>r = Success\<close> show ?thesis by (simp add: run rest_def)
      qed
    qed
  qed (simp add: run)
qed


subsection \<open>A rollback restores the cache\<close>

text \<open>If the last cosignatory goes and with it the entry, both settings were one.\<close>

lemma removed_settings:
  assumes inv: "multisig_inv c" and none: "c1 ms = None" and some: "c ms = Some e"
    and edges: "cosigned_by c1 = (cosigned_by c \<union> {ms} \<times> A) - {ms} \<times> resolve ` set dels"
    and dels: "length dels \<le> 1" "{ms} \<times> resolve ` set dels \<subseteq> cosigned_by c" and ms: "ms \<notin> resolve ` set dels" and graph: "graph_inv c1"
  shows "minApproval e = 1 \<and> minRemoval e = 1"
proof -
  have idle: "ms \<notin> Domain (cosigned_by c1)" "ms \<notin> Range (cosigned_by c1)"
  proof -
    have "ms \<notin> Domain (cosigned_by c1)" "ms \<notin> Domain (cosigns c1)" using none by (auto simp: linked_by_def)
    then show "ms \<notin> Domain (cosigned_by c1)" "ms \<notin> Range (cosigned_by c1)" using graph by (auto simp: graph_inv_def)
  qed
  have "ms \<notin> Range (cosigned_by c)" using idle(2) edges ms by auto
  moreover have "linked e" "settings_ok e" "graph_inv c" using inv some by (auto simp: multisig_inv_def)
  moreover have "ms \<in> Domain (cosigned_by c) \<union> Range (cosigned_by c)"
    using linked_entry_iff [of c ms] some \<open>linked e\<close> \<open>graph_inv c\<close> by auto
  ultimately have cos: "cosignatoryAddresses e \<noteq> []" using linked_by_Domain [of c ms e, OF some] by auto
  have "set (cosignatoryAddresses e) \<subseteq> resolve ` set dels"
    using linked_by_image [of c ms e cosignatoryAddresses, OF some] idle(1) edges by blast
  then have "card (set (cosignatoryAddresses e)) \<le> 1"
    using card_mono [of "resolve ` set dels" "set (cosignatoryAddresses e)"] card_length [of "map resolve dels"] dels(1) by simp
  moreover have "distinct (cosignatoryAddresses e)"
    using inv some by (auto simp: multisig_inv_def graph_inv_def entry_ok_def strict_sorted_iff)
  ultimately have "length (cosignatoryAddresses e) \<le> 1" by (simp add: distinct_card)
  with cos \<open>settings_ok e\<close> have "unat (minApproval e) = 1" "unat (minRemoval e) = 1" by (auto simp: settings_ok_def)
  then show ?thesis by (simp add: word_unat_eq_iff)
qed

lemma AddDelta_minus_one: "sint d = -1 \<Longrightarrow> AddDelta 0 (-1) d = 1"
  by (simp add: AddDelta_def)


lemma linked_iff_Field:
  assumes "graph_inv c" "c a = Some e"
  shows "linked e \<longleftrightarrow> a \<in> Domain (cosigned_by c) \<union> Range (cosigned_by c)"
proof -
  have "Range (cosigned_by c) = Domain (cosigns c)" using assms(1) by (auto simp: graph_inv_def)
  then show ?thesis by (simp add: linked_by_Domain [of c a e, OF assms(2)] linked_def)
qed

text \<open>The settings after the rollback of the settings are those before the modification.\<close>

lemma settings_rollback:
  assumes c1: "graph_inv c1" "others_ok ms c1" "\<forall>e. c1 ms = Some e \<longrightarrow> linked e" "settings c1 = settings_after ms (cosigned_by c1) (settings c)"
    and valid: "MultisigInvalidSettingsValidator c1 (settings_of tx ms) = Success"
    and c': "MultisigSettingsObserver Commit_Mode (settings_of tx ms) c1 = Ok c'"
    and gone: "c1 ms = None \<Longrightarrow> settings c ms = (1, 1)"
  obtains c2 where "MultisigSettingsObserver Rollback_Mode (settings_of tx ms) c' = Ok c2" "graph_inv c2" "others_ok ms c2"
    "cosigned_by c2 = cosigned_by c1" "settings c2 = settings c"
proof -
  let ?s = "settings_of tx ms"
  have "graph_inv c' \<and> others_ok ms c' \<and> cosigned_by c' = cosigned_by c1
    \<and> settings c' = (if c1 ms = None then settings c1 else (settings c1)(ms := (AddDelta (fst (settings c1 ms)) 1 (mod_MinApprovalDelta tx),
        AddDelta (snd (settings c1 ms)) 1 (mod_MinRemovalDelta tx))))"
  proof (cases "c1 ms")
    case None
    with c' c1 show ?thesis by (simp add: MultisigSettingsObserver_def)
  next
    case (Some e)
    then have pre: "c1 (sn_Multisig ?s) \<noteq> None \<or> Commit_Mode = Rollback_Mode" by simp
    have "others_ok (sn_Multisig ?s) c1" using c1(2) by simp
    then obtain d where "MultisigSettingsObserver Commit_Mode ?s c1 = Ok d" "graph_inv d" "others_ok (sn_Multisig ?s) d" "cosigned_by d = cosigned_by c1"
      "settings d = (settings c1)(sn_Multisig ?s := (AddDelta (fst (settings c1 (sn_Multisig ?s))) (if Commit_Mode = Commit_Mode then 1 else -1) (MinApprovalDelta ?s),
        AddDelta (snd (settings c1 (sn_Multisig ?s))) (if Commit_Mode = Commit_Mode then 1 else -1) (MinRemovalDelta ?s)))"
      by (rule settings_observer [OF c1(1) _ pre])
    with c' Some show ?thesis by simp
  qed
  then have post: "graph_inv c'" "others_ok (sn_Multisig ?s) c'" "cosigned_by c' = cosigned_by c1"
    and s': "settings c' = (if c1 ms = None then settings c1 else (settings c1)(ms := (AddDelta (fst (settings c1 ms)) 1 (mod_MinApprovalDelta tx),
        AddDelta (snd (settings c1 ms)) 1 (mod_MinRemovalDelta tx))))" by simp_all
  obtain c2 where c2: "MultisigSettingsObserver Rollback_Mode ?s c' = Ok c2" "graph_inv c2" "others_ok (sn_Multisig ?s) c2" "cosigned_by c2 = cosigned_by c'"
    "settings c2 = (settings c')(sn_Multisig ?s := (AddDelta (fst (settings c' (sn_Multisig ?s))) (if Rollback_Mode = Commit_Mode then 1 else -1) (MinApprovalDelta ?s),
       AddDelta (snd (settings c' (sn_Multisig ?s))) (if Rollback_Mode = Commit_Mode then 1 else -1) (MinRemovalDelta ?s)))"
    by (rule settings_observer [OF post(1,2), where mode = Rollback_Mode]) simp_all
  have "settings c2 = settings c"
  proof (cases "c1 ms")
    case None
    then have "sint (mod_MinRemovalDelta tx) = -1" "sint (mod_MinApprovalDelta tx) = -1"
      using valid by (auto simp: MultisigInvalidSettingsValidator_def split: if_splits)
    moreover have "settings c1 ms = (0, 0)" using None by (simp add: settings_def)
    ultimately have "settings c2 = (settings c1)(ms := (1, 1))" using c2(5) s' None by (simp add: AddDelta_minus_one)
    also have "\<dots> = (settings c)(ms := (1, 1))" using c1(4) by auto
    finally show ?thesis using gone [OF None] by (simp add: fun_upd_idem_iff)
  next
    case (Some e)
    then have "settings c1 = settings c" using c1(3,4) linked_iff_Field [OF c1(1) Some] by simp
    then show ?thesis using c2(5) s' Some by (simp add: AddDelta_inverse)
  qed
  then show ?thesis using that c2 post(3) by simp
qed


lemma modification_rollback:
  assumes ok: "multisig_state_ok config c" and fuel: "unat (MaxMultisigDepth config) < fuel"
    and cfg: "MaxCosignedAccountsPerAccount config \<noteq> 0" and tx: "modification_ok tx"
    and run: "process_notifications config fuel resolve (Publish tx ms) c = Processed c'"
    and distinct: "distinct (map resolve (mod_AddressAdditions tx))" and known: "c ms \<noteq> None \<or> mod_AddressAdditions tx \<noteq> []"
  shows "rollback_notifications resolve (Publish tx ms) c' = Ok c"
proof -
  let ?A = "resolve ` set (mod_AddressAdditions tx)" and ?D = "resolve ` set (mod_AddressDeletions tx)" and ?n = "cosignatories_of tx ms"
  have inv: "multisig_inv c" "graph_inv c" "others_ok ms c" and depth: "cosigned_by c ^^ Suc (unat (MaxMultisigDepth config)) = {}"
    using ok by (auto simp: multisig_state_ok_def multisig_inv_def others_ok_def)
  have linked: "linked e" if "c a = Some e" for a e using inv(1) that by (simp add: multisig_inv_def)
  have same: "settings_after ms (cosigned_by c) (settings c) = settings c"
  proof -
    have "settings c ms = (0, 0)" if "ms \<notin> Domain (cosigned_by c) \<union> Range (cosigned_by c)"
      using that linked_entry_iff [OF inv(2), of ms] linked by (auto simp: settings_def split: option.splits)
    then show ?thesis by (auto simp: fun_eq_iff)
  qed
  obtain c1 where new: "\<And>a. a \<in> set (mod_AddressAdditions tx) \<Longrightarrow>
       MultisigMaxCosignedAccountsValidator (MaxCosignedAccountsPerAccount config) resolve c (new_cosignatory ms a) = Success
       \<and> MultisigLoopAndLevelValidator (MaxMultisigDepth config) fuel resolve c (new_cosignatory ms a) = Some Success"
    and cos: "if changes_cosignatories tx
     then MultisigCosignatoriesValidator ?n = Success
       \<and> MultisigMaxCosignatoriesValidator (MaxCosignatoriesPerAccount config) c ?n = Success
       \<and> MultisigInvalidCosignatoriesValidator resolve c ?n = Success
       \<and> MultisigCosignatoriesObserver resolve Commit_Mode ?n c = Ok c1
     else c1 = c"
    and set: "MultisigInvalidSettingsValidator c1 (settings_of tx ms) = Success" "MultisigSettingsObserver Commit_Mode (settings_of tx ms) c1 = Ok c'"
    by (rule Publish_processed [OF run]) blast
  show ?thesis
  proof (cases "changes_cosignatories tx")
    case False
    with cos have c1: "c1 = c" by simp
    have "c ms \<noteq> None" using known False by simp
    obtain c2 where c2: "MultisigSettingsObserver Rollback_Mode (settings_of tx ms) c' = Ok c2" "graph_inv c2" "others_ok ms c2"
      "cosigned_by c2 = cosigned_by c1" "settings c2 = settings c"
      by (rule settings_rollback [of c1 ms c tx c']) (use inv linked same set c1 \<open>c ms \<noteq> None\<close> in simp_all)
    have "ms \<in> Domain (cosigned_by c) \<union> Range (cosigned_by c)"
      using linked_entry_iff [OF inv(2), of ms] linked \<open>c ms \<noteq> None\<close> by blast
    then have "linked e" if "c2 ms = Some e" for e using linked_iff_Field [OF c2(2) that] c2(4) c1 by simp
    then have "linked e" if "c2 a = Some e" for a e using that c2(3) by (cases "a = ms") (auto simp: others_ok_def)
    then have "c2 = c" by (rule cache_eqI [OF c2(2) inv(2) _ linked]) (use c2 c1 in simp_all)
    with c2(1) False show ?thesis by (simp add: rollback_Publish)
  next
    case changes: True
    with cos have valid: "MultisigCosignatoriesValidator ?n = Success" "MultisigMaxCosignatoriesValidator (MaxCosignatoriesPerAccount config) c ?n = Success"
      "MultisigInvalidCosignatoriesValidator resolve c ?n = Success" and step: "MultisigCosignatoriesObserver resolve Commit_Mode ?n c = Ok c1"
      by simp_all
    have adds: "ms \<notin> ?A" by (rule additions_validated(1) [OF inv(2) depth fuel]) (use new in simp)
    note dels = deletions_validated [OF valid(1,3), simplified]
    have del: "ms \<notin> ?D" using dels(1) relpow_empty_irrefl [OF depth] by blast
    obtain d where "MultisigCosignatoriesObserver resolve Commit_Mode ?n c = Ok d" "graph_inv d" "others_ok (cn_Multisig ?n) d"
      "\<forall>e. d (cn_Multisig ?n) = Some e \<longrightarrow> linked e"
      "cosigned_by d = (cosigned_by c \<union> {cn_Multisig ?n} \<times> resolve ` set (AddressAdditions ?n)) - {cn_Multisig ?n} \<times> resolve ` set (AddressDeletions ?n)"
      "settings d = settings_after (cn_Multisig ?n) (cosigned_by d) (settings c)"
      by (rule observer_commit [OF inv(2), of ?n resolve]) (use inv(3) adds del dels in simp_all)
    with step have c1: "graph_inv c1" "others_ok ms c1" "\<forall>e. c1 ms = Some e \<longrightarrow> linked e"
      "cosigned_by c1 = (cosigned_by c \<union> {ms} \<times> ?A) - {ms} \<times> ?D" "settings c1 = settings_after ms (cosigned_by c1) (settings c)"
      by simp_all
    have gone: "settings c ms = (1, 1)" if none: "c1 ms = None"
    proof -
      have "mod_AddressAdditions tx = []"
      proof (rule ccontr)
        assume "mod_AddressAdditions tx \<noteq> []"
        then obtain a where "a \<in> set (mod_AddressAdditions tx)" by (cases "mod_AddressAdditions tx") auto
        then have "(ms, resolve a) \<in> cosigned_by c1" unfolding c1(4) using dels(1,3) by blast
        with none show False by (auto simp: linked_by_def)
      qed
      then obtain e where e: "c ms = Some e" using known by auto
      have "length (mod_AddressDeletions tx) \<le> 1" using valid(1) by (simp add: MultisigCosignatoriesValidator_def split: if_splits)
      from removed_settings [OF inv(1) none e c1(4) this dels(1) del c1(1)] e show ?thesis by (simp add: settings_def)
    qed
    obtain c2 where c2: "MultisigSettingsObserver Rollback_Mode (settings_of tx ms) c' = Ok c2" "graph_inv c2" "others_ok ms c2"
      "cosigned_by c2 = cosigned_by c1" "settings c2 = settings c"
      by (rule settings_rollback [OF c1(1,2,3,5) set gone])
    have disj: "({ms} \<times> ?A) \<inter> ({ms} \<times> ?D) = {}" using dels(1,3) by blast
    then have sub: "{ms} \<times> ?A \<subseteq> cosigned_by c2" unfolding c2(4) c1(4) by blast
    obtain c3 where c3: "MultisigCosignatoriesObserver resolve Rollback_Mode ?n c2 = Ok c3" "graph_inv c3" "others_ok (cn_Multisig ?n) c3"
      "\<forall>e. c3 (cn_Multisig ?n) = Some e \<longrightarrow> linked e"
      "cosigned_by c3 = (cosigned_by c2 - {cn_Multisig ?n} \<times> resolve ` set (AddressAdditions ?n)) \<union> {cn_Multisig ?n} \<times> resolve ` set (AddressDeletions ?n)"
      "settings c3 = settings_after (cn_Multisig ?n) (cosigned_by c3) (settings c2)"
      by (rule observer_rollback [OF c2(2), of ?n resolve]) (use c2(3) sub adds del distinct in simp_all)
    have "((E \<union> X) - Y - X) \<union> Y = E" if "Y \<subseteq> E" "X \<inter> E = {}" for X Y E :: "(address \<times> address) set" using that by blast
    from this [OF dels(1,3)] have edges: "cosigned_by c3 = cosigned_by c" using c3(5) c2(4) c1(4) by simp
    have "linked e" if "c3 a = Some e" for a e using that c3(3,4) by (cases "a = ms") (auto simp: others_ok_def)
    moreover have "settings c3 = settings c" using c3(6) unfolding edges c2(5) new_cosignatory_sel same .
    ultimately have "c3 = c" by (intro cache_eqI [OF c3(2) inv(2) _ _ edges]) (auto intro: linked)
    with c2(1) c3(1) changes show ?thesis by (simp add: rollback_Publish)
  qed
qed

subsection \<open>Properties\<close>

definition sample_config :: multisig_configuration where
  "sample_config = \<lparr>MaxMultisigDepth = 3, MaxCosignatoriesPerAccount = 25, MaxCosignedAccountsPerAccount = 25\<rparr>"

definition sample_modification :: account_modification where
  "sample_modification = \<lparr>mod_MinRemovalDelta = 1, mod_MinApprovalDelta = 2, mod_AddressAdditions = [5, 6],
     mod_AddressDeletions = [], mod_Reserved1 = 0\<rparr>"

text \<open>A modification that adds the addresses 1 and 2, which may be aliases of one account, and one that only lowers the settings.\<close>

definition aliased_modification :: account_modification where
  "aliased_modification = \<lparr>mod_MinRemovalDelta = 1, mod_MinApprovalDelta = 1, mod_AddressAdditions = [1, 2], mod_AddressDeletions = [], mod_Reserved1 = 0\<rparr>"

definition idle_modification :: account_modification where
  "idle_modification = \<lparr>mod_MinRemovalDelta = -1, mod_MinApprovalDelta = -1, mod_AddressAdditions = [], mod_AddressDeletions = [], mod_Reserved1 = 0\<rparr>"

lemma empty_state_ok: "multisig_state_ok config Map.empty"
  by (simp add: multisig_state_ok_def multisig_inv_def graph_inv_def linked_by_def)

lemma four: "(4 :: nat) = Suc (Suc (Suc (Suc 0)))" by simp

lemmas multisig_eval = Publish_def validate_notification_def observe_notification_def
  MultisigMaxCosignedAccountsValidator_def MultisigLoopAndLevelValidator_def LoopAndLevelChecker_validate_def
  FindAncestors_def FindDescendants_def MultisigCosignatoriesValidator_def MultisigMaxCosignatoriesValidator_def
  MultisigInvalidCosignatoriesValidator_def MultisigInvalidSettingsValidator_def
  MultisigCosignatoriesObserver_def MultisigSettingsObserver_def AddAll_def addCosignatory_def removeCosignatory_def removeIfEmpty_def
  GetMultisigEntry_def cache_insert_def cache_modify_def cache_get_def cache_remove_def
  set_insert_def set_erase_def new_entry_def hasCosignatory_def AddDelta_def insort_insert_key_def rollback_notifications_def

text \<open>
  C14: A modification transaction never throws and never runs out of fuel: it is rejected by a
  validator, or it adds and deletes exactly the links it names and keeps the state in order: both
  ends of every link know it, no entry is idle, the settings are between one and the number of
  cosignatories, no path exceeds the maximal depth, so there is no loop, and the limits hold.
\<close>

theorem multisig_modification:
  assumes "multisig_state_ok config c" "unat (MaxMultisigDepth config) < fuel"
    and "MaxCosignedAccountsPerAccount config \<noteq> 0" "modification_ok tx"
  shows "case process_notifications config fuel resolve (Publish tx ms) c of
      Processed c' \<Rightarrow> multisig_state_ok config c' \<and> cosigned_by c'
        = (cosigned_by c \<union> {ms} \<times> resolve ` set (mod_AddressAdditions tx)) - {ms} \<times> resolve ` set (mod_AddressDeletions tx)
    | Rejected r \<Rightarrow> r \<noteq> Success
    | _ \<Rightarrow> False"
  using assms by (rule modification_outcome)

theorem multisig_modification_witness:
  "\<exists>c'. process_notifications sample_config 4 id (Publish sample_modification 9) Map.empty = Processed c'
     \<and> multisig_state_ok sample_config c' \<and> cosigned_by c' = {(9, 5), (9, 6)}"
proof -
  obtain c' where run: "process_notifications sample_config 4 id (Publish sample_modification 9) Map.empty = Processed c'"
    unfolding sample_config_def sample_modification_def four by (simp add: multisig_eval)
  have "case process_notifications sample_config 4 id (Publish sample_modification 9) Map.empty of
      Processed c' \<Rightarrow> multisig_state_ok sample_config c' \<and> cosigned_by c'
        = (cosigned_by Map.empty \<union> {9} \<times> id ` set (mod_AddressAdditions sample_modification)) - {9} \<times> id ` set (mod_AddressDeletions sample_modification)
    | Rejected r \<Rightarrow> r \<noteq> Success
    | _ \<Rightarrow> False"
    by (rule multisig_modification [OF empty_state_ok]) (simp_all add: sample_config_def sample_modification_def modification_ok_def)
  with run show ?thesis by (auto simp: sample_modification_def linked_by_def)
qed

text \<open>
  C15: A rollback of the notifications of a processed modification restores the cache, entries that
  the modification removed and their settings included, provided that the added addresses resolve
  to different accounts and that the account already has an entry or the modification adds a cosignatory.
\<close>

theorem multisig_rollback:
  assumes "multisig_state_ok config c" "unat (MaxMultisigDepth config) < fuel"
    and "MaxCosignedAccountsPerAccount config \<noteq> 0" "modification_ok tx"
    and "process_notifications config fuel resolve (Publish tx ms) c = Processed c'"
    and "distinct (map resolve (mod_AddressAdditions tx))" "c ms \<noteq> None \<or> mod_AddressAdditions tx \<noteq> []"
  shows "rollback_notifications resolve (Publish tx ms) c' = Ok c"
  using assms by (rule modification_rollback)

theorem multisig_rollback_witness:
  "\<exists>c'. process_notifications sample_config 4 id (Publish sample_modification 9) Map.empty = Processed c'
     \<and> rollback_notifications id (Publish sample_modification 9) c' = Ok Map.empty"
proof -
  obtain c' where run: "process_notifications sample_config 4 id (Publish sample_modification 9) Map.empty = Processed c'"
    unfolding sample_config_def sample_modification_def four by (simp add: multisig_eval)
  have "rollback_notifications id (Publish sample_modification 9) c' = Ok Map.empty"
    by (rule multisig_rollback [OF empty_state_ok _ _ _ run])
      (simp_all add: sample_config_def sample_modification_def modification_ok_def)
  with run show ?thesis by blast
qed

lemma removeCosignatory_gone:
  "c x = None \<Longrightarrow> removeCosignatory ms y c = Ok c' \<Longrightarrow> c' x = None"
  "c x = None \<Longrightarrow> x \<noteq> ms \<Longrightarrow> removeCosignatory ms x c = Err Invalid_Argument"
  "removeCosignatory ms y c = Err e \<Longrightarrow> e = Invalid_Argument"
  "removeCosignatory ms y c = Ok c' \<Longrightarrow> x \<noteq> ms \<Longrightarrow> x \<noteq> y \<Longrightarrow> c' x = c x"
  by (auto simp: removeCosignatory_def removeIfEmpty_def cache_modify_def cache_get_def cache_remove_def split: option.splits if_splits)

lemma removeCosignatory_last:
  assumes "removeCosignatory ms x c = Ok c'" "c x = Some e" "cosignatoryAddresses e = []" "set (multisigAddresses e) \<subseteq> {ms}"
    "sorted_wrt (<) (multisigAddresses e)" "x \<noteq> ms"
  shows "c' x = None"
proof -
  have "set_erase ms (multisigAddresses e) = []" using assms(4,5) by (simp flip: set_empty)
  with assms show ?thesis
    by (auto simp: removeCosignatory_def removeIfEmpty_def cache_modify_def cache_get_def cache_remove_def split: option.splits if_splits)
qed

lemma remove_absent:
  assumes "c x = None" "x \<noteq> ms" "\<exists>a\<in>set as. resolve a = x"
  shows "AddAll resolve ms as False c = Err Invalid_Argument"
  using assms
proof (induction as arbitrary: c)
  case (Cons a as)
  show ?case
  proof (cases "removeCosignatory ms (resolve a) c")
    case (Ok c')
    moreover from this have "resolve a \<noteq> x" using removeCosignatory_gone(2) [of c x ms, OF Cons.prems(1,2)] by auto
    ultimately show ?thesis using Cons.IH [of c', OF removeCosignatory_gone(1) [of c x, OF Cons.prems(1) Ok]] Cons.prems(2,3) by (simp add: AddAll_def)
  next
    case (Err e)
    then show ?thesis using removeCosignatory_gone(3) by (simp add: AddAll_def)
  qed
qed simp

lemma remove_twice:
  assumes "c x = Some e" "cosignatoryAddresses e = []" "set (multisigAddresses e) \<subseteq> {ms}" "sorted_wrt (<) (multisigAddresses e)" "x \<noteq> ms"
    "2 \<le> length (filter (\<lambda>a. resolve a = x) as)"
  shows "AddAll resolve ms as False c = Err Invalid_Argument"
  using assms
proof (induction as arbitrary: c)
  case (Cons a as)
  show ?case
  proof (cases "removeCosignatory ms (resolve a) c")
    case (Ok c')
    show ?thesis
    proof (cases "resolve a = x")
      case True
      then have "c' x = None" using removeCosignatory_last [of ms x c c' e] Ok Cons.prems by simp
      moreover have "filter (\<lambda>a. resolve a = x) as \<noteq> []" using Cons.prems(6) True by auto
      then have "\<exists>a\<in>set as. resolve a = x" by (auto simp: filter_empty_conv)
      ultimately have "AddAll resolve ms as False c' = Err Invalid_Argument" using remove_absent Cons.prems(5) by blast
      with Ok show ?thesis by (simp add: AddAll_def)
    next
      case False
      then have "c' x = c x" using removeCosignatory_gone(4) [OF Ok] Cons.prems(5) by blast
      with Cons.IH [of c'] Cons.prems False Ok show ?thesis by (simp add: AddAll_def)
    qed
  next
    case (Err e)
    then show ?thesis using removeCosignatory_gone(3) by (simp add: AddAll_def)
  qed
qed simp

lemma aliased_rollback:
  assumes "multisig_state_ok config c" "unat (MaxMultisigDepth config) < fuel"
    and "MaxCosignedAccountsPerAccount config \<noteq> 0" "modification_ok tx"
    and "process_notifications config fuel resolve (Publish tx ms) c = Processed c'"
    and x: "c x = None \<and> 2 \<le> length (filter (\<lambda>a. resolve a = x) (mod_AddressAdditions tx))"
  shows "rollback_notifications resolve (Publish tx ms) c' = Err Invalid_Argument"
proof -
  let ?n = "cosignatories_of tx ms"
  have inv: "graph_inv c" and depth: "cosigned_by c ^^ Suc (unat (MaxMultisigDepth config)) = {}"
    using assms(1) by (auto simp: multisig_state_ok_def multisig_inv_def)
  obtain c1 where new: "\<And>a. a \<in> set (mod_AddressAdditions tx) \<Longrightarrow>
       MultisigMaxCosignedAccountsValidator (MaxCosignedAccountsPerAccount config) resolve c (new_cosignatory ms a) = Success
       \<and> MultisigLoopAndLevelValidator (MaxMultisigDepth config) fuel resolve c (new_cosignatory ms a) = Some Success"
    and cos: "if changes_cosignatories tx
     then MultisigCosignatoriesValidator ?n = Success
       \<and> MultisigMaxCosignatoriesValidator (MaxCosignatoriesPerAccount config) c ?n = Success
       \<and> MultisigInvalidCosignatoriesValidator resolve c ?n = Success
       \<and> MultisigCosignatoriesObserver resolve Commit_Mode ?n c = Ok c1
     else c1 = c"
    and set: "MultisigInvalidSettingsValidator c1 (settings_of tx ms) = Success" "MultisigSettingsObserver Commit_Mode (settings_of tx ms) c1 = Ok c'"
    by (rule Publish_processed [OF assms(5)]) blast
  have "filter (\<lambda>a. resolve a = x) (mod_AddressAdditions tx) \<noteq> []" using x by auto
  then obtain a where a: "a \<in> set (mod_AddressAdditions tx)" "resolve a = x" by (auto simp: filter_empty_conv)
  then have changes: "changes_cosignatories tx" by auto
  have "ms \<notin> resolve ` set (mod_AddressAdditions tx)" by (rule additions_validated(1) [OF inv depth assms(2)]) (use new in simp)
  with a have ms: "x \<noteq> ms" by auto
  have dels: "{ms} \<times> resolve ` set (mod_AddressDeletions tx) \<subseteq> cosigned_by c"
    using deletions_validated(1) [of ?n resolve c] cos changes by simp
  have none: "(y, x) \<notin> cosigned_by c" "(x, y) \<notin> cosigned_by c" for y
    using x inv linked_by_None [of c x multisigAddresses] linked_by_None [of c x cosignatoryAddresses] by (auto simp: graph_inv_def)
  have out: "multisig_state_ok config c'" "cosigned_by c'
      = (cosigned_by c \<union> {ms} \<times> resolve ` set (mod_AddressAdditions tx)) - {ms} \<times> resolve ` set (mod_AddressDeletions tx)"
    using modification_outcome [OF assms(1-4), of ms resolve] assms(5) by simp_all
  have link: "(ms, x) \<in> cosigned_by c'" unfolding out(2) using a dels none by blast
  then obtain em where em: "c' ms = Some em" by (auto simp: linked_by_def)
  have inv': "graph_inv c'" using out(1) by (simp add: multisig_state_ok_def multisig_inv_def)
  then have conv: "cosigns c' = (cosigned_by c')\<inverse>" by (simp add: graph_inv_def)
  with link have "(x, ms) \<in> cosigns c'" by simp
  then obtain e where e: "c' x = Some e" by (auto simp: linked_by_def)
  have "cosigned_by c' `` {x} = {}" unfolding out(2) using none(2) ms by auto
  then have top: "cosignatoryAddresses e = []" using linked_by_image [of c' x e cosignatoryAddresses] e by simp
  have "(cosigned_by c')\<inverse> `` {x} \<subseteq> {ms}" unfolding out(2) using none(1) by auto
  then have sub: "set (multisigAddresses e) \<subseteq> {ms}" using linked_by_image [of c' x e multisigAddresses] e conv by simp
  have sorted: "sorted_wrt (<) (multisigAddresses e)" using inv' e by (auto simp: graph_inv_def entry_ok_def)
  obtain c2 where c2: "MultisigSettingsObserver Rollback_Mode (settings_of tx ms) c' = Ok c2" "c2 x = Some e" "c2 ms \<noteq> None"
    using e ms em by (auto simp: MultisigSettingsObserver_def settings_of_def cache_modify_def Let_def)
  from remove_twice [of c2 x e ms resolve "mod_AddressAdditions tx", OF c2(2) top sub sorted ms] x have "AddAll resolve ms (mod_AddressAdditions tx) False c2 = Err Invalid_Argument" by simp
  with c2(1,3) changes show ?thesis
    by (auto simp: rollback_Publish MultisigCosignatoriesObserver_def GetMultisigEntry_def cosignatories_of_def)
qed

lemma idle_rollback:
  assumes "process_notifications config fuel resolve (Publish tx ms) c = Processed c'"
    and idle: "c ms = None" "mod_AddressAdditions tx = []"
  shows "c' = c" "rollback_notifications resolve (Publish tx ms) c' = Ok (c(ms \<mapsto> (new_entry ms)\<lparr>minApproval := 1, minRemoval := 1\<rparr>))"
proof -
  let ?n = "cosignatories_of tx ms"
  obtain c1 where new: "\<And>a. a \<in> set (mod_AddressAdditions tx) \<Longrightarrow>
       MultisigMaxCosignedAccountsValidator (MaxCosignedAccountsPerAccount config) resolve c (new_cosignatory ms a) = Success
       \<and> MultisigLoopAndLevelValidator (MaxMultisigDepth config) fuel resolve c (new_cosignatory ms a) = Some Success"
    and cos: "if changes_cosignatories tx
     then MultisigCosignatoriesValidator ?n = Success
       \<and> MultisigMaxCosignatoriesValidator (MaxCosignatoriesPerAccount config) c ?n = Success
       \<and> MultisigInvalidCosignatoriesValidator resolve c ?n = Success
       \<and> MultisigCosignatoriesObserver resolve Commit_Mode ?n c = Ok c1
     else c1 = c"
    and set: "MultisigInvalidSettingsValidator c1 (settings_of tx ms) = Success" "MultisigSettingsObserver Commit_Mode (settings_of tx ms) c1 = Ok c'"
    by (rule Publish_processed [OF assms(1)]) blast
  have "\<not> changes_cosignatories tx"
  proof
    assume "changes_cosignatories tx"
    with cos idle show False by (auto simp: MultisigInvalidCosignatoriesValidator_def cosignatories_of_def split: if_splits)
  qed
  then have c1: "c1 = c" "mod_AddressDeletions tx = []" using cos by auto
  then have delta: "sint (mod_MinRemovalDelta tx) = -1" "sint (mod_MinApprovalDelta tx) = -1"
    using set(1) idle by (auto simp: MultisigInvalidSettingsValidator_def settings_of_def split: if_splits)
  show same: "c' = c" using set(2) idle c1 by (simp add: MultisigSettingsObserver_def settings_of_def Let_def)
  show "rollback_notifications resolve (Publish tx ms) c' = Ok (c(ms \<mapsto> (new_entry ms)\<lparr>minApproval := 1, minRemoval := 1\<rparr>))"
    using idle c1(2) delta by (simp add: rollback_Publish same MultisigSettingsObserver_def settings_of_def cache_modify_def cache_insert_def
        new_entry_def AddDelta_minus_one Let_def)
qed

text \<open>
  C36: Both conditions under which a rollback restores the cache are needed.  If two added addresses resolve to the same
  account and that account has no entry yet, a modification that passes every validator cannot be
  rolled back: the rollback throws.  If the account has no entry and nothing is added, a modification
  that passes changes nothing, but its rollback leaves an entry without cosignatories and with settings of one behind.
\<close>

theorem multisig_rollback_gaps:
  assumes "multisig_state_ok config c" "unat (MaxMultisigDepth config) < fuel"
    and "MaxCosignedAccountsPerAccount config \<noteq> 0" "modification_ok tx"
    and "process_notifications config fuel resolve (Publish tx ms) c = Processed c'"
  shows "(\<forall>x. c x = None \<and> 2 \<le> length (filter (\<lambda>a. resolve a = x) (mod_AddressAdditions tx))
           \<longrightarrow> rollback_notifications resolve (Publish tx ms) c' = Err Invalid_Argument)
    \<and> (c ms = None \<and> mod_AddressAdditions tx = [] \<longrightarrow>
         c' = c \<and> rollback_notifications resolve (Publish tx ms) c' = Ok (c(ms \<mapsto> (new_entry ms)\<lparr>minApproval := 1, minRemoval := 1\<rparr>)))"
  using aliased_rollback [OF assms] idle_rollback [OF assms(5)] by simp

theorem multisig_rollback_gaps_witness:
  "(\<exists>c'. process_notifications sample_config 4 (\<lambda>_. 7) (Publish aliased_modification 9) Map.empty = Processed c'
      \<and> rollback_notifications (\<lambda>_. 7) (Publish aliased_modification 9) c' = Err Invalid_Argument)
   \<and> process_notifications sample_config 4 (\<lambda>_. 7) (Publish idle_modification 9) Map.empty = Processed Map.empty
   \<and> rollback_notifications (\<lambda>_. 7) (Publish idle_modification 9) Map.empty = Ok [9 \<mapsto> (new_entry 9)\<lparr>minApproval := 1, minRemoval := 1\<rparr>]"
proof -
  let ?run = "\<lambda>tx. process_notifications sample_config 4 (\<lambda>_. 7) (Publish tx 9) Map.empty"
  note gaps = multisig_rollback_gaps [OF empty_state_ok, of sample_config 4 _ "\<lambda>_. 7" 9]
  have cfg: "unat (MaxMultisigDepth sample_config) < 4" "MaxCosignedAccountsPerAccount sample_config \<noteq> 0" by (simp_all add: sample_config_def)
  obtain c' where run: "?run aliased_modification = Processed c'"
    unfolding sample_config_def aliased_modification_def four by (simp add: multisig_eval)
  have idle: "?run idle_modification = Processed Map.empty"
    unfolding sample_config_def idle_modification_def four by (simp add: multisig_eval)
  have "modification_ok aliased_modification" "modification_ok idle_modification"
    by (simp_all add: modification_ok_def aliased_modification_def idle_modification_def)
  with gaps [OF cfg _ run] gaps [OF cfg _ idle] run idle show ?thesis by (auto simp: aliased_modification_def idle_modification_def)
qed

text \<open>
  C28: In a state of the plugin the validator of a new cosignatory answers with fuel above the maximal
  depth, and accepts the link exactly if the graph with it has no path longer than that depth.
\<close>

theorem multisig_loop_and_level:
  assumes "multisig_state_ok config c" "unat (MaxMultisigDepth config) < fuel"
  shows "\<exists>r. MultisigLoopAndLevelValidator (MaxMultisigDepth config) fuel resolve c n = Some r
    \<and> (r = Success \<longleftrightarrow> (insert (nn_Multisig n, resolve (Cosignatory n)) (cosigned_by c)) ^^ Suc (unat (MaxMultisigDepth config)) = {})"
proof -
  have inv: "graph_inv c" "cosigned_by c ^^ Suc (unat (MaxMultisigDepth config)) = {}"
    using assms(1) by (auto simp: multisig_state_ok_def multisig_inv_def)
  obtain r where "LoopAndLevelChecker_validate c fuel (MaxMultisigDepth config) (nn_Multisig n) (resolve (Cosignatory n)) = Some r"
    "r = Success \<longleftrightarrow> (insert (nn_Multisig n, resolve (Cosignatory n)) (cosigned_by c)) ^^ Suc (unat (MaxMultisigDepth config)) = {}"
    by (rule LoopAndLevel_exact [OF inv assms(2)])
  then show ?thesis by (simp add: MultisigLoopAndLevelValidator_def)
qed

theorem multisig_loop_and_level_witness:
  "MultisigLoopAndLevelValidator 3 4 id Map.empty (new_cosignatory 9 9) = Some Multisig_Loop
   \<and> (insert (9, 9) (cosigned_by Map.empty)) ^^ 4 \<noteq> {}"
proof -
  have eval: "MultisigLoopAndLevelValidator 3 4 id Map.empty (new_cosignatory 9 9) = Some Multisig_Loop"
    unfolding four by (simp add: multisig_eval new_cosignatory_def)
  have "\<exists>r. MultisigLoopAndLevelValidator (MaxMultisigDepth sample_config) 4 id Map.empty (new_cosignatory 9 9) = Some r
    \<and> (r = Success \<longleftrightarrow> (insert (nn_Multisig (new_cosignatory 9 9), id (Cosignatory (new_cosignatory 9 9))) (cosigned_by Map.empty))
         ^^ Suc (unat (MaxMultisigDepth sample_config)) = {})"
    by (rule multisig_loop_and_level [OF empty_state_ok]) (simp add: sample_config_def)
  with eval show ?thesis by (simp add: sample_config_def)
qed

end
