(* ===== verification/Multisig_Aggregate.thy ===== *)
theory Multisig_Aggregate
  imports Multisig_Modification
begin

section \<open>Multisig: cosignatures of aggregate transactions\<close>

text \<open>
  The two validators of the cosignatures of an aggregate transaction.  An account that is not multisig
  approves by its own signature; a multisig account approves if enough of its cosignatories do.  The
  first validator accepts exactly the transactions that all required accounts approve in this sense,
  the second one exactly those whose signatures all come from accounts that could matter.
\<close>

subsection \<open>Approval\<close>

definition is_multisig :: "multisig_cache \<Rightarrow> address \<Rightarrow> bool" where
  "is_multisig c a \<longleftrightarrow> a \<in> Domain (cosigned_by c)"

inductive approved :: "multisig_cache \<Rightarrow> address set \<Rightarrow> operation_type \<Rightarrow> address \<Rightarrow> bool"
  for c :: multisig_cache and S :: "address set" and op :: operation_type where
  signed: "\<not> is_multisig c a \<Longrightarrow> a \<in> S \<Longrightarrow> approved c S op a"
| cosigned: "c a = Some e \<Longrightarrow> is_multisig c a \<Longrightarrow> X \<subseteq> set (cosignatoryAddresses e) \<Longrightarrow>
    unat (GetMinRequiredCosignatories e op) \<le> card X \<Longrightarrow> (\<And>x. x \<in> X \<Longrightarrow> approved c S op x) \<Longrightarrow> approved c S op a"

lemma is_multisig_iff: "is_multisig c a \<longleftrightarrow> (\<exists>e. c a = Some e \<and> cosignatoryAddresses e \<noteq> [])"
proof (cases "c a")
  case (Some e)
  then show ?thesis by (simp add: is_multisig_def linked_by_Domain [of c a e])
qed (auto simp: is_multisig_def linked_by_def)

lemma approved_signed: "\<not> is_multisig c a \<Longrightarrow> approved c S op a \<longleftrightarrow> a \<in> S"
  by (auto intro: signed elim: approved.cases)

lemma approved_cosigned:
  assumes "c a = Some e" "is_multisig c a"
  shows "approved c S op a \<longleftrightarrow> unat (GetMinRequiredCosignatories e op) \<le> card {x \<in> set (cosignatoryAddresses e). approved c S op x}"
proof
  assume "approved c S op a"
  then show "unat (GetMinRequiredCosignatories e op) \<le> card {x \<in> set (cosignatoryAddresses e). approved c S op x}"
  proof (cases rule: approved.cases)
    case (cosigned e' X)
    then have "card X \<le> card {x \<in> set (cosignatoryAddresses e). approved c S op x}"
      using assms by (intro card_mono) auto
    with cosigned assms show ?thesis by simp
  qed (use assms in simp)
qed (rule cosigned [OF assms], auto)

text \<open>More signatures never withdraw an approval.\<close>

lemma approved_mono: "approved c S op a \<Longrightarrow> S \<subseteq> T \<Longrightarrow> approved c T op a"
  by (induction rule: approved.induct) (auto intro: approved.intros)

text \<open>The accounts that can sign for an account, and that only their signatures count.\<close>

definition signers_for :: "multisig_cache \<Rightarrow> address \<Rightarrow> address set" where
  "signers_for c a = {x. (a, x) \<in> (cosigned_by c)\<^sup>* \<and> \<not> is_multisig c x}"

lemma signers_for_step:
  assumes "c a = Some e" "x \<in> set (cosignatoryAddresses e)"
  shows "signers_for c x \<subseteq> signers_for c a"
proof -
  have "(a, x) \<in> cosigned_by c" using assms by (auto simp: linked_by_def)
  then show ?thesis by (auto simp: signers_for_def intro: converse_rtrancl_into_rtrancl)
qed

lemma approved_signers_for: "approved c S op a \<Longrightarrow> approved c (S \<inter> signers_for c a) op a"
proof (induction rule: approved.induct)
  case (signed a)
  then show ?case by (intro approved.signed) (auto simp: signers_for_def)
next
  case (cosigned a e X)
  have "approved c (S \<inter> signers_for c a) op x" if "x \<in> X" for x
    using cosigned.IH [OF that] signers_for_step [of c a e, OF cosigned.hyps(1)] that cosigned.hyps(3)
    by (auto elim!: approved_mono)
  with cosigned.hyps show ?case by (auto intro: approved.cosigned)
qed

subsection \<open>The validators\<close>

lemma count_approvers_Some:
  "(\<And>x. x \<in> set as \<Longrightarrow> f x = Some (P x)) \<Longrightarrow> count_approvers f as k = Some (k + of_nat (length (filter P as)))"
  by (induction as arbitrary: k) (auto simp: ac_simps)

lemma isSatisfied_approved:
  assumes "(cosigned_by c ^^ fuel) `` {a} = {}"
    and "\<And>a e. c a = Some e \<Longrightarrow> distinct (cosignatoryAddresses e) \<and> length (cosignatoryAddresses e) < 2 ^ 32"
  shows "isSatisfied c S op fuel a = Some (approved c S op a)"
  using assms(1)
proof (induction fuel arbitrary: a)
  case (Suc fuel)
  show ?case
  proof (cases "is_multisig c a")
    case False
    then show ?thesis by (auto simp: approved_signed is_multisig_iff split: option.splits)
  next
    case True
    then obtain e where e: "c a = Some e" "cosignatoryAddresses e \<noteq> []" by (auto simp: is_multisig_iff)
    let ?k = "length (filter (approved c S op) (cosignatoryAddresses e))"
    have "(cosigned_by c ^^ fuel) `` {x} = {}" if "x \<in> set (cosignatoryAddresses e)" for x
    proof -
      have "(a, x) \<in> cosigned_by c" using e that by (auto simp: linked_by_def)
      with Suc.prems show ?thesis unfolding relpow.simps relpow_commute [of "cosigned_by c" fuel, symmetric] by blast
    qed
    then have "count_approvers (isSatisfied c S op fuel) (cosignatoryAddresses e) 0 = Some (0 + of_nat ?k)"
      by (intro count_approvers_Some Suc.IH)
    moreover have "?k < 2 ^ 32"
      using assms(2) [OF e(1)] length_filter_le [of "approved c S op" "cosignatoryAddresses e"] by linarith
    then have "unat (of_nat ?k :: 32 word) = ?k" by (simp add: unat_of_nat take_bit_nat_eq_self)
    moreover have "card {x \<in> set (cosignatoryAddresses e). approved c S op x} = ?k"
      using assms(2) [OF e(1)] by (simp add: distinct_card [symmetric] distinct_length_filter Collect_conj_eq Int_commute)
    ultimately show ?thesis
      using e approved_cosigned [OF e(1) True, of S op] by (simp add: word_le_nat_alt)
  qed
qed simp

lemma eligible_loop_Some:
  "(\<And>x s. x \<in> set as \<Longrightarrow> f x s = Some (s \<union> R x)) \<Longrightarrow> eligible_loop f as s = Some (s \<union> \<Union> (R ` set as))"
  by (induction as arbitrary: s) (auto simp: Un_assoc)

lemma findEligible_signers:
  assumes "(cosigned_by c ^^ fuel) `` {a} = {}"
  shows "findEligibleCosignatories c fuel a marked = Some (marked \<union> signers_for c a)"
  using assms
proof (induction fuel arbitrary: a marked)
  case (Suc fuel)
  show ?case
  proof (cases "is_multisig c a")
    case False
    then have "(a, x) \<in> (cosigned_by c)\<^sup>* \<longleftrightarrow> x = a" for x
      by (auto simp: is_multisig_def elim: converse_rtranclE)
    then have "signers_for c a = {a}" using False by (auto simp: signers_for_def)
    with False show ?thesis by (auto simp: is_multisig_iff split: option.splits)
  next
    case True
    then obtain e where e: "c a = Some e" "cosignatoryAddresses e \<noteq> []" by (auto simp: is_multisig_iff)
    have links: "cosigned_by c `` {a} = set (cosignatoryAddresses e)" using e(1) by (rule linked_by_image)
    have "(cosigned_by c ^^ fuel) `` {x} = {}" if "x \<in> set (cosignatoryAddresses e)" for x
      using Suc.prems that links unfolding relpow.simps relpow_commute [of "cosigned_by c" fuel, symmetric] by blast
    then have "eligible_loop (findEligibleCosignatories c fuel) (cosignatoryAddresses e) marked
        = Some (marked \<union> \<Union> (signers_for c ` set (cosignatoryAddresses e)))"
      by (intro eligible_loop_Some Suc.IH)
    moreover have "signers_for c a = \<Union> (signers_for c ` set (cosignatoryAddresses e))"
    proof
      show "signers_for c a \<subseteq> \<Union> (signers_for c ` set (cosignatoryAddresses e))"
      proof
        fix x assume "x \<in> signers_for c a"
        then have "(a, x) \<in> (cosigned_by c)\<^sup>*" "\<not> is_multisig c x" "x \<noteq> a" using True by (auto simp: signers_for_def)
        then obtain y where "(a, y) \<in> cosigned_by c" "(y, x) \<in> (cosigned_by c)\<^sup>*" by (metis converse_rtranclE)
        with links \<open>\<not> is_multisig c x\<close> show "x \<in> \<Union> (signers_for c ` set (cosignatoryAddresses e))" by (auto simp: signers_for_def)
      qed
      show "\<Union> (signers_for c ` set (cosignatoryAddresses e)) \<subseteq> signers_for c a"
        using signers_for_step [of c a e, OF e(1)] by blast
    qed
    ultimately show ?thesis using e by simp
  qed
qed simp


lemma state_ok_entries:
  assumes "multisig_state_ok config c" "c a = Some e"
  shows "distinct (cosignatoryAddresses e) \<and> length (cosignatoryAddresses e) < 2 ^ 32"
proof -
  have "length (cosignatoryAddresses e) \<le> unat (MaxCosignatoriesPerAccount config)" "entry_ok a e"
    using assms by (auto simp: multisig_state_ok_def multisig_inv_def graph_inv_def)
  with unat_less_32 [of "MaxCosignatoriesPerAccount config"] show ?thesis by (simp add: entry_ok_def strict_sorted_iff)
qed

lemma state_ok_fuel:
  assumes "multisig_state_ok config c" "unat (MaxMultisigDepth config) < fuel"
  shows "(cosigned_by c ^^ fuel) `` {a} = {}"
proof -
  have "cosigned_by c ^^ Suc (unat (MaxMultisigDepth config)) = {}" using assms(1) unfolding multisig_state_ok_def by blast
  then have "cosigned_by c ^^ fuel = {}" by (rule relpow_empty_mono) (use assms(2) in simp)
  then show ?thesis by simp
qed

lemma approved_needs_signature:
  assumes "multisig_state_ok config c" "approved c S op a"
  shows "S \<inter> signers_for c a \<noteq> {}"
  using assms(2)
proof (induction rule: approved.induct)
  case (signed a)
  then show ?case by (auto simp: signers_for_def)
next
  case (cosigned a e X)
  have "settings_ok e" using assms(1) cosigned.hyps(1) by (auto simp: multisig_state_ok_def multisig_inv_def)
  moreover have "cosignatoryAddresses e \<noteq> []" using cosigned.hyps(1,2) by (auto simp: is_multisig_iff)
  ultimately have "1 \<le> unat (GetMinRequiredCosignatories e op)"
    by (auto simp: settings_ok_def GetMinRequiredCosignatories_def max_def)
  with cosigned.hyps(4) have "X \<noteq> {}" by auto
  then obtain x where x: "x \<in> X" by blast
  with cosigned.IH signers_for_step [of c a e x, OF cosigned.hyps(1)] cosigned.hyps(3) show ?case by blast
qed

subsection \<open>Properties\<close>

text \<open>
  C24: The validator of sufficient cosignatures answers, and accepts an embedded transaction exactly if
  its signer and all accounts it additionally requires approve: an ordinary account by its own
  signature, a multisig account by approvals of as many cosignatories as its settings demand.  An
  accepted transaction carries for each required account the signature of an account that can
  sign for it.
\<close>

theorem aggregate_sufficient:
  assumes "multisig_state_ok config c" "unat (MaxMultisigDepth config) < fuel"
  shows "MultisigAggregateSufficientCosignatoriesValidator fuel resolve toAddress c signer cosignatures tx
      = Some (if \<forall>a \<in> findRequiredAddresses resolve toAddress tx. approved c (toAddress ` set (signer # cosignatures)) (GetOperationType tx) a
              then Success else Missing_Cosignatures)
    \<and> (MultisigAggregateSufficientCosignatoriesValidator fuel resolve toAddress c signer cosignatures tx = Some Success \<longrightarrow>
        (\<forall>a \<in> findRequiredAddresses resolve toAddress tx. toAddress ` set (signer # cosignatures) \<inter> signers_for c a \<noteq> {}))"
    (is "?v = Some (if ?ok then _ else _) \<and> _")
proof -
  have sat: "isSatisfied c S op fuel a = Some (approved c S op a)" for S op a
    by (rule isSatisfied_approved [OF state_ok_fuel [OF assms] state_ok_entries [OF assms(1)]])
  have v: "?v = Some (if ?ok then Success else Missing_Cosignatures)"
    unfolding MultisigAggregateSufficientCosignatoriesValidator_def Let_def sat by (auto simp: image_iff)
  moreover have "\<forall>a \<in> findRequiredAddresses resolve toAddress tx. toAddress ` set (signer # cosignatures) \<inter> signers_for c a \<noteq> {}" if ?ok
    using that approved_needs_signature [OF assms(1)] by blast
  ultimately show ?thesis by (auto split: if_splits)
qed

text \<open>
  The validator of eligible cosignatures answers, and accepts an aggregate exactly if every
  account that signs or cosigns it can sign for a signer or an additionally required account of one
  of the embedded transactions.
\<close>

theorem aggregate_eligible:
  assumes "multisig_state_ok config c" "unat (MaxMultisigDepth config) < fuel"
    and "\<And>X. finite X \<Longrightarrow> set (enum X) = X"
  shows "MultisigAggregateEligibleCosignatoriesValidator fuel resolve toAddress enum c signer cosignatures txs
    = Some (if toAddress ` set (signer # cosignatures) \<subseteq> (\<Union>tx \<in> set txs. \<Union>a \<in> findRequiredAddresses resolve toAddress tx. signers_for c a)
            then Success else Ineligible_Cosignatories)"
proof -
  let ?as = "concat (map (\<lambda>tx. toAddress (SignerPublicKey tx) # map resolve (enum (additionalRequiredCosignatories tx))) txs)"
  have "finite (additionalRequiredCosignatories tx)" for tx
    by (cases tx) (auto simp: ExtractAdditionalRequiredCosignatories_def union_set_fold [symmetric])
  then have "set ?as = (\<Union>tx \<in> set txs. findRequiredAddresses resolve toAddress tx)"
    by (auto simp: findRequiredAddresses_def assms(3))
  moreover have "eligible_loop (findEligibleCosignatories c fuel) ?as {} = Some ({} \<union> \<Union> (signers_for c ` set ?as))"
    by (rule eligible_loop_Some) (rule findEligible_signers [OF state_ok_fuel [OF assms(1,2)]])
  ultimately show ?thesis
    unfolding MultisigAggregateEligibleCosignatoriesValidator_def by auto
qed

definition sample_cache :: multisig_cache where
  "sample_cache = [9 \<mapsto> \<lparr>entry_address = 9, minApproval = 2, minRemoval = 1, cosignatoryAddresses = [5, 6], multisigAddresses = []\<rparr>,
     5 \<mapsto> \<lparr>entry_address = 5, minApproval = 0, minRemoval = 0, cosignatoryAddresses = [], multisigAddresses = [9]\<rparr>,
     6 \<mapsto> \<lparr>entry_address = 6, minApproval = 0, minRemoval = 0, cosignatoryAddresses = [], multisigAddresses = [9]\<rparr>]"

lemma sample_cache_ok: "multisig_state_ok sample_config sample_cache"
proof -
  have "process_notifications sample_config 4 id (Publish sample_modification 9) Map.empty = Processed sample_cache"
    unfolding sample_config_def sample_modification_def four sample_cache_def by (simp add: multisig_eval fun_eq_iff)
  moreover have "modification_ok sample_modification" "unat (MaxMultisigDepth sample_config) < 4" "MaxCosignedAccountsPerAccount sample_config \<noteq> 0"
    by (simp_all add: sample_config_def sample_modification_def modification_ok_def)
  ultimately show ?thesis using modification_outcome [OF empty_state_ok, where config = sample_config and fuel = 4 and tx = sample_modification and resolve = id and ms = 9] by simp
qed

theorem aggregate_sufficient_witness:
  "MultisigAggregateSufficientCosignatoriesValidator 4 id ucast sample_cache 5 [6] (Other_Transaction 9 []) = Some Success
   \<and> ucast ` set [5, 6 :: key] \<inter> signers_for sample_cache 9 \<noteq> {}
   \<and> \<not> approved sample_cache (ucast ` set [5 :: key]) Normal_Operation 9"
proof -
  have fuel: "unat (MaxMultisigDepth sample_config) < 4" by (simp add: sample_config_def)
  note spec = aggregate_sufficient [OF sample_cache_ok fuel, of id ucast]
  have "MultisigAggregateSufficientCosignatoriesValidator 4 id ucast sample_cache 5 [6] (Other_Transaction 9 []) = Some Success"
    "MultisigAggregateSufficientCosignatoriesValidator 4 id ucast sample_cache 5 [] (Other_Transaction 9 []) = Some Missing_Cosignatures"
    unfolding four by (simp_all add: MultisigAggregateSufficientCosignatoriesValidator_def findRequiredAddresses_def sample_cache_def GetMinRequiredCosignatories_def word_le_nat_alt)
  with spec [of 5 "[6]" "Other_Transaction 9 []"] spec [of 5 "[]" "Other_Transaction 9 []"] show ?thesis
    by (auto simp: findRequiredAddresses_def split: if_splits)
qed

theorem aggregate_eligible_witness:
  "MultisigAggregateEligibleCosignatoriesValidator 4 id ucast sorted_list_of_set sample_cache 5 [7] [Other_Transaction 9 []] = Some Ineligible_Cosignatories
   \<and> \<not> ucast ` set [5, 7 :: key] \<subseteq> signers_for sample_cache 9"
proof -
  have fuel: "unat (MaxMultisigDepth sample_config) < 4" by (simp add: sample_config_def)
  have "MultisigAggregateEligibleCosignatoriesValidator 4 id ucast sorted_list_of_set sample_cache 5 [7] [Other_Transaction 9 []] = Some Ineligible_Cosignatories"
    unfolding four by (simp add: MultisigAggregateEligibleCosignatoriesValidator_def sample_cache_def)
  with aggregate_eligible [OF sample_cache_ok fuel set_sorted_list_of_set, of id ucast 5 "[7]" "[Other_Transaction 9 []]"]
  show ?thesis by (auto simp: findRequiredAddresses_def split: if_splits)
qed

end
