(* ===== verification/Lock_Cache.thy ===== *)
theory Lock_Cache
  imports Prelude
begin

section \<open>Identifier groups and the lock info cache\<close>

text \<open>
  The cache that the two lock plugins share, \<^verbatim>\<open>src/plugins/txes/lock_shared\<close>: the histories of the locks
  with the same identifier, and the groups of identifiers by the height at which a lock expires,
  \<^verbatim>\<open>src/src/bitxorcore/cache/IdentifierGroupCacheUtils.h\<close>.  The kind of lock is given by the record
  extension and by the function \<open>ident\<close> (\<^verbatim>\<open>GetLockIdentifier\<close>); \<open>enum\<close> is the sequence in which an
  unordered set of identifiers is visited.
\<close>

subsection \<open>Groups of identifiers\<close>

type_synonym ('g, 'i) identifier_groups = "'g \<rightharpoonup> 'i set"

definition AddIdentifierWithGroup :: "'g \<Rightarrow> 'i \<Rightarrow> ('g, 'i) identifier_groups \<Rightarrow> ('g, 'i) identifier_groups" where
  "AddIdentifierWithGroup k i groups =
     (let groups' = (if groups k = None then groups(k \<mapsto> {}) else groups)
      in case groups' k of None \<Rightarrow> groups' | Some g \<Rightarrow> groups'(k \<mapsto> insert i g))"

text \<open>The values that the action is called with, in order.\<close>

definition ForEachIdentifierWithGroup :: "('i set \<Rightarrow> 'i list) \<Rightarrow> ('i \<rightharpoonup> 'v) \<Rightarrow> ('g, 'i) identifier_groups \<Rightarrow> 'g \<Rightarrow> 'v list" where
  "ForEachIdentifierWithGroup enum vals groups k =
     (case groups k of None \<Rightarrow> [] | Some g \<Rightarrow> List.map_filter vals (enum g))"

definition RemoveIdentifierWithGroup :: "'g \<Rightarrow> 'i \<Rightarrow> ('g, 'i) identifier_groups \<Rightarrow> ('g, 'i) identifier_groups" where
  "RemoveIdentifierWithGroup k i groups =
     (case groups k of
        None \<Rightarrow> groups
      | Some g \<Rightarrow> let g' = g - {i} in if g' = {} then groups(k := None) else groups(k \<mapsto> g'))"

definition RemoveAllIdentifiersWithGroup ::
  "('i set \<Rightarrow> 'i list) \<Rightarrow> 'g \<Rightarrow> ('i \<rightharpoonup> 'v) \<times> ('g, 'i) identifier_groups \<Rightarrow> ('i \<rightharpoonup> 'v) \<times> ('g, 'i) identifier_groups" where
  "RemoveAllIdentifiersWithGroup enum k s =
     (case snd s k of
        None \<Rightarrow> s
      | Some g \<Rightarrow> (fold (\<lambda>i vals. vals(i := None)) (enum g) (fst s), (snd s)(k := None)))"

definition FindDeactivatingIdentifiersAtHeight ::
  "('v \<Rightarrow> height \<Rightarrow> bool) \<Rightarrow> ('i \<rightharpoonup> 'v) \<Rightarrow> (height, 'i) identifier_groups \<Rightarrow> height \<Rightarrow> 'i set" where
  "FindDeactivatingIdentifiersAtHeight isActive vals groups h =
     (case groups h of
        None \<Rightarrow> {}
      | Some g \<Rightarrow> {i \<in> g. case vals i of None \<Rightarrow> False | Some v \<Rightarrow> \<not> isActive v h \<and> isActive v (h - 1)})"

subsection \<open>Locks and their histories\<close>

datatype lock_status = Unused | Used

record lock_info =
  OwnerAddress :: address
  LockTokenId :: token_id
  LockAmount :: amount
  EndHeight :: height
  Status :: lock_status

definition lock_isActive :: "'z lock_info_scheme \<Rightarrow> height \<Rightarrow> bool" where
  "lock_isActive l h \<longleftrightarrow> h < EndHeight l \<and> Unused = Status l"

record 'l lock_info_history =
  history_id :: hash256
  m_lockInfos :: "'l list"

definition new_history :: "hash256 \<Rightarrow> 'l lock_info_history" where
  "new_history i = \<lparr>history_id = i, m_lockInfos = []\<rparr>"

definition history_empty :: "'l lock_info_history \<Rightarrow> bool" where
  "history_empty h \<longleftrightarrow> m_lockInfos h = []"

definition historyDepth :: "'l lock_info_history \<Rightarrow> nat" where
  "historyDepth h = length (m_lockInfos h)"

definition history_push_back :: "('l \<Rightarrow> hash256) \<Rightarrow> 'l \<Rightarrow> 'l lock_info_history \<Rightarrow> 'l lock_info_history result" where
  "history_push_back ident l h =
     (if history_id h \<noteq> ident l then Err Invalid_Argument else Ok (h\<lparr>m_lockInfos := m_lockInfos h @ [l]\<rparr>))"

definition history_pop_back :: "'l lock_info_history \<Rightarrow> 'l lock_info_history result" where
  "history_pop_back h = (if history_empty h then Err Invalid_Argument else Ok (h\<lparr>m_lockInfos := butlast (m_lockInfos h)\<rparr>))"

definition history_back :: "'l lock_info_history \<Rightarrow> 'l" where
  "history_back h = last (m_lockInfos h)"

definition history_isActive :: "'z lock_info_scheme lock_info_history \<Rightarrow> height \<Rightarrow> bool" where
  "history_isActive h height \<longleftrightarrow> \<not> history_empty h \<and> lock_isActive (history_back h) height"

subsection \<open>The cache\<close>

record 'l lock_info_cache =
  histories :: "hash256 \<rightharpoonup> 'l lock_info_history"
  heightGrouping :: "(height, hash256) identifier_groups"

definition empty_lock_cache :: "'l lock_info_cache" where
  "empty_lock_cache = \<lparr>histories = Map.empty, heightGrouping = Map.empty\<rparr>"

definition lock_cache_insert :: "('z lock_info_scheme \<Rightarrow> hash256) \<Rightarrow> 'z lock_info_scheme
    \<Rightarrow> 'z lock_info_scheme lock_info_cache \<Rightarrow> 'z lock_info_scheme lock_info_cache result" where
  "lock_cache_insert ident l c =
     (let i = ident l;
          h = (case histories c i of None \<Rightarrow> new_history i | Some h \<Rightarrow> h)
      in map_result (\<lambda>h'. c\<lparr>histories := (histories c)(i \<mapsto> h'),
                             heightGrouping := AddIdentifierWithGroup (EndHeight l) i (heightGrouping c)\<rparr>)
           (history_push_back ident l h))"

definition lock_cache_remove :: "hash256 \<Rightarrow> 'z lock_info_scheme lock_info_cache \<Rightarrow> 'z lock_info_scheme lock_info_cache result" where
  "lock_cache_remove i c =
     (case histories c i of
        None \<Rightarrow> Err Invalid_Argument
      | Some h \<Rightarrow>
          let groups = RemoveIdentifierWithGroup (EndHeight (history_back h)) i (heightGrouping c)
          in map_result (\<lambda>h'. c\<lparr>histories := (histories c)(i := if history_empty h' then None else Some h'), heightGrouping := groups\<rparr>)
               (history_pop_back h))"

definition lock_cache_isActive :: "'z lock_info_scheme lock_info_cache \<Rightarrow> hash256 \<Rightarrow> height \<Rightarrow> bool" where
  "lock_cache_isActive c i height = (case histories c i of None \<Rightarrow> False | Some h \<Rightarrow> history_isActive h height)"

text \<open>The locks that are passed to the consumer.\<close>

definition processUnusedExpiredLocks :: "(hash256 set \<Rightarrow> hash256 list) \<Rightarrow> height \<Rightarrow> 'z lock_info_scheme lock_info_cache \<Rightarrow> 'z lock_info_scheme list" where
  "processUnusedExpiredLocks enum height c =
     map history_back (filter (\<lambda>h. Unused = Status (history_back h))
       (ForEachIdentifierWithGroup enum (histories c) (heightGrouping c) height))"

definition lock_cache_prune :: "(hash256 set \<Rightarrow> hash256 list) \<Rightarrow> height \<Rightarrow> 'l lock_info_cache \<Rightarrow> 'l lock_info_cache" where
  "lock_cache_prune enum height c =
     (let s = RemoveAllIdentifiersWithGroup enum height (histories c, heightGrouping c)
      in c\<lparr>histories := fst s, heightGrouping := snd s\<rparr>)"

subsection \<open>Invariant\<close>

text \<open>
  Every history is not empty and holds locks of its identifier, and the identifier is in the group of
  the height at which any of these locks expires.
\<close>

definition in_group :: "('g, 'i) identifier_groups \<Rightarrow> 'g \<Rightarrow> 'i \<Rightarrow> bool" where
  "in_group groups k i \<longleftrightarrow> (\<exists>g. groups k = Some g \<and> i \<in> g)"

definition lock_cache_inv :: "('z lock_info_scheme \<Rightarrow> hash256) \<Rightarrow> 'z lock_info_scheme lock_info_cache \<Rightarrow> bool" where
  "lock_cache_inv ident c \<longleftrightarrow>
     (\<forall>i h. histories c i = Some h \<longrightarrow> history_id h = i \<and> m_lockInfos h \<noteq> []
        \<and> (\<forall>l \<in> set (m_lockInfos h). ident l = i \<and> in_group (heightGrouping c) (EndHeight l) i))
     \<and> (\<forall>k g. heightGrouping c k = Some g \<longrightarrow> g \<noteq> {} \<and> finite g)"

lemma in_group_Add [simp]: "in_group (AddIdentifierWithGroup k i groups) k' i' \<longleftrightarrow> in_group groups k' i' \<or> k' = k \<and> i' = i"
  by (auto simp: AddIdentifierWithGroup_def in_group_def Let_def split: option.splits)

lemma in_group_Remove [simp]: "in_group (RemoveIdentifierWithGroup k i groups) k' i' \<longleftrightarrow> in_group groups k' i' \<and> \<not> (k' = k \<and> i' = i)"
  by (auto simp: RemoveIdentifierWithGroup_def in_group_def Let_def split: option.splits)

lemma Remove_Add:
  assumes "\<not> in_group groups k i" "groups k \<noteq> Some {}"
  shows "RemoveIdentifierWithGroup k i (AddIdentifierWithGroup k i groups) = groups"
  using assms
  by (cases "groups k") (auto simp: AddIdentifierWithGroup_def RemoveIdentifierWithGroup_def in_group_def Let_def fun_eq_iff)

text \<open>The groups an insertion leaves: none is empty.\<close>

lemma groups_finite_Add:
  assumes "\<forall>k g. groups k = Some g \<longrightarrow> g \<noteq> {} \<and> finite g"
  shows "\<forall>k g. AddIdentifierWithGroup k' i groups k = Some g \<longrightarrow> g \<noteq> {} \<and> finite g"
  using assms by (auto simp: AddIdentifierWithGroup_def Let_def split: option.splits if_splits)

lemma groups_finite_Remove:
  assumes "\<forall>k g. groups k = Some g \<longrightarrow> g \<noteq> {} \<and> finite g"
  shows "\<forall>k g. RemoveIdentifierWithGroup k' i groups k = Some g \<longrightarrow> g \<noteq> {} \<and> finite g"
  using assms by (auto simp: RemoveIdentifierWithGroup_def Let_def split: option.splits if_splits)

lemma lock_cache_insert_inv:
  assumes "lock_cache_inv ident c"
  shows "\<exists>c'. lock_cache_insert ident l c = Ok c' \<and> lock_cache_inv ident c'
    \<and> (\<exists>h. histories c' = (histories c)(ident l \<mapsto> h) \<and> m_lockInfos h = (case histories c (ident l) of None \<Rightarrow> [] | Some h \<Rightarrow> m_lockInfos h) @ [l])
    \<and> heightGrouping c' = AddIdentifierWithGroup (EndHeight l) (ident l) (heightGrouping c)"
proof -
  define h where "h = (case histories c (ident l) of None \<Rightarrow> new_history (ident l) | Some h \<Rightarrow> h)"
  have h: "history_id h = ident l" "\<forall>x \<in> set (m_lockInfos h). ident x = ident l \<and> in_group (heightGrouping c) (EndHeight x) (ident l)"
    using assms by (auto simp: h_def new_history_def lock_cache_inv_def split: option.splits)
  have run: "lock_cache_insert ident l c = Ok (c\<lparr>histories := (histories c)(ident l \<mapsto> h\<lparr>m_lockInfos := m_lockInfos h @ [l]\<rparr>),
      heightGrouping := AddIdentifierWithGroup (EndHeight l) (ident l) (heightGrouping c)\<rparr>)"
    using h(1) by (simp add: lock_cache_insert_def history_push_back_def h_def [symmetric] Let_def)
  have groups: "\<forall>k g. AddIdentifierWithGroup (EndHeight l) (ident l) (heightGrouping c) k = Some g \<longrightarrow> g \<noteq> {} \<and> finite g"
    using assms by (intro groups_finite_Add) (auto simp: lock_cache_inv_def)
  then have "lock_cache_inv ident (c\<lparr>histories := (histories c)(ident l \<mapsto> h\<lparr>m_lockInfos := m_lockInfos h @ [l]\<rparr>),
      heightGrouping := AddIdentifierWithGroup (EndHeight l) (ident l) (heightGrouping c)\<rparr>)"
    using assms h unfolding lock_cache_inv_def by auto
  with run show ?thesis by (auto simp: h_def new_history_def split: option.splits)
qed

lemma insert_remove_lock:
  assumes "lock_cache_inv ident c" "lock_cache_insert ident l c = Ok c'"
  shows "lock_cache_remove (ident l) c'
    = Ok (c\<lparr>heightGrouping := RemoveIdentifierWithGroup (EndHeight l) (ident l) (AddIdentifierWithGroup (EndHeight l) (ident l) (heightGrouping c))\<rparr>)"
proof (cases "histories c (ident l)")
  case None
  then have "(histories c)(ident l := None) = histories c" by (simp add: fun_upd_idem_iff)
  with None assms(2) show ?thesis
    by (auto simp: lock_cache_insert_def lock_cache_remove_def history_push_back_def history_pop_back_def history_back_def
        history_empty_def new_history_def Let_def)
next
  case (Some h)
  then have "m_lockInfos h \<noteq> []" "history_id h = ident l" using assms(1) by (auto simp: lock_cache_inv_def)
  moreover have "(histories c)(ident l \<mapsto> h) = histories c" using Some by (simp add: fun_upd_idem_iff)
  ultimately show ?thesis using Some assms(2)
    by (auto simp: lock_cache_insert_def lock_cache_remove_def history_push_back_def history_pop_back_def history_back_def
        history_empty_def Let_def)
qed

lemma lock_cache_prune_inv:
  assumes "lock_cache_inv ident c" "\<forall>X. finite X \<longrightarrow> set (enum X) = X"
  shows "lock_cache_inv ident (lock_cache_prune enum height c)"
    "histories (lock_cache_prune enum height c) i = (if in_group (heightGrouping c) height i then None else histories c i)"
    "heightGrouping (lock_cache_prune enum height c) = (heightGrouping c)(height := None)"
proof -
  have drop: "fold (\<lambda>i vals. vals(i := None)) xs m j = (if j \<in> set xs then None else m j)" for xs and m :: "hash256 \<rightharpoonup> 'b" and j
    by (induction xs arbitrary: m) auto
  show groups: "heightGrouping (lock_cache_prune enum height c) = (heightGrouping c)(height := None)"
    by (auto simp: lock_cache_prune_def RemoveAllIdentifiersWithGroup_def Let_def fun_upd_idem_iff split: option.splits)
  show hist: "histories (lock_cache_prune enum height c) i = (if in_group (heightGrouping c) height i then None else histories c i)" for i
  proof (cases "heightGrouping c height")
    case (Some g)
    then have "finite g" using assms(1) by (auto simp: lock_cache_inv_def)
    with Some assms(2) show ?thesis
      by (simp add: lock_cache_prune_def RemoveAllIdentifiersWithGroup_def drop in_group_def)
  qed (simp add: lock_cache_prune_def RemoveAllIdentifiersWithGroup_def in_group_def)
  show "lock_cache_inv ident (lock_cache_prune enum height c)"
    using assms(1) unfolding lock_cache_inv_def hist groups by (auto simp: in_group_def split: if_splits)
qed

text \<open>
  The locks that expire at a height.  The cache looks at the newest lock of every identifier in
  the group; it is the right one if no identifier of the group has a newer lock that expires later.
\<close>

definition newest_expire :: "height \<Rightarrow> 'z lock_info_scheme lock_info_cache \<Rightarrow> bool" where
  "newest_expire height c \<longleftrightarrow> (\<forall>i h. in_group (heightGrouping c) height i \<and> histories c i = Some h \<longrightarrow> EndHeight (history_back h) = height)"

lemma processUnused_set:
  assumes "lock_cache_inv ident c" "\<forall>X. finite X \<longrightarrow> set (enum X) = X"
  shows "set (processUnusedExpiredLocks enum height c)
    = {history_back h | i h. in_group (heightGrouping c) height i \<and> histories c i = Some h \<and> Status (history_back h) = Unused}"
proof (cases "heightGrouping c height")
  case None
  then show ?thesis by (auto simp: processUnusedExpiredLocks_def ForEachIdentifierWithGroup_def in_group_def)
next
  case (Some g)
  then have "set (enum g) = g" using assms by (auto simp: lock_cache_inv_def)
  with Some show ?thesis
    by (auto simp: processUnusedExpiredLocks_def ForEachIdentifierWithGroup_def in_group_def map_filter_def image_iff) (metis option.sel option.distinct(1))+
qed

lemma processUnused_exact:
  assumes "lock_cache_inv ident c" "\<forall>X. finite X \<longrightarrow> set (enum X) = X" "newest_expire height c"
  shows "set (processUnusedExpiredLocks enum height c)
    = {l. \<exists>i h. histories c i = Some h \<and> l = history_back h \<and> EndHeight l = height \<and> Status l = Unused}"
proof -
  have "in_group (heightGrouping c) height i \<longleftrightarrow> EndHeight (history_back h) = height" if "histories c i = Some h" for i h
  proof
    show "in_group (heightGrouping c) height i \<Longrightarrow> EndHeight (history_back h) = height"
      using assms(3) that by (auto simp: newest_expire_def)
    have "history_back h \<in> set (m_lockInfos h)" using assms(1) that by (auto simp: lock_cache_inv_def history_back_def)
    then show "EndHeight (history_back h) = height \<Longrightarrow> in_group (heightGrouping c) height i"
      using assms(1) that by (auto simp: lock_cache_inv_def)
  qed
  then show ?thesis unfolding processUnused_set [OF assms(1,2)] by auto
qed

subsection \<open>Properties\<close>

text \<open>
  Inserting a lock succeeds and keeps the cache in order, and removing it again (the rollback)
  succeeds; it restores the cache exactly if no older lock of the same identifier expires at the
  same height, because then the identifier leaves the group of that height for good.
\<close>

theorem lock_insert_remove:
  assumes "lock_cache_inv ident c"
  shows "\<exists>c' c''. lock_cache_insert ident l c = Ok c' \<and> lock_cache_inv ident c'
    \<and> lock_cache_remove (ident l) c' = Ok c''
    \<and> (c'' = c \<longleftrightarrow> \<not> in_group (heightGrouping c) (EndHeight l) (ident l))"
proof -
  obtain c' where c': "lock_cache_insert ident l c = Ok c'" "lock_cache_inv ident c'" using lock_cache_insert_inv [OF assms] by blast
  let ?g = "RemoveIdentifierWithGroup (EndHeight l) (ident l) (AddIdentifierWithGroup (EndHeight l) (ident l) (heightGrouping c))"
  have "?g = heightGrouping c \<longleftrightarrow> \<not> in_group (heightGrouping c) (EndHeight l) (ident l)"
  proof
    assume eq: "?g = heightGrouping c"
    have "\<not> in_group ?g (EndHeight l) (ident l)" by simp
    then show "\<not> in_group (heightGrouping c) (EndHeight l) (ident l)" unfolding eq .
  next
    assume "\<not> in_group (heightGrouping c) (EndHeight l) (ident l)"
    then show "?g = heightGrouping c" using assms by (intro Remove_Add) (auto simp: lock_cache_inv_def)
  qed
  then have "c\<lparr>heightGrouping := ?g\<rparr> = c \<longleftrightarrow> \<not> in_group (heightGrouping c) (EndHeight l) (ident l)"
    by (metis lock_info_cache.surjective lock_info_cache.update_convs(2) lock_info_cache.select_convs(2))
  with c' insert_remove_lock [OF assms c'(1)] show ?thesis by blast
qed

definition sample_lock :: "amount \<Rightarrow> height \<Rightarrow> lock_status \<Rightarrow> lock_info" where
  "sample_lock a e s = \<lparr>OwnerAddress = 1, LockTokenId = 9, LockAmount = a, EndHeight = e, Status = s\<rparr>"

definition sample_lock_cache :: "lock_info lock_info_cache" where
  "sample_lock_cache = \<lparr>histories = [7 \<mapsto> \<lparr>history_id = 7, m_lockInfos = [sample_lock 50 10 Used]\<rparr>], heightGrouping = [10 \<mapsto> {7}]\<rparr>"

lemma sample_lock_cache_inv: "lock_cache_inv (\<lambda>_. 7) sample_lock_cache"
  by (auto simp: lock_cache_inv_def sample_lock_cache_def sample_lock_def in_group_def split: if_splits)

theorem lock_insert_remove_witness:
  "\<exists>c'. lock_cache_insert (\<lambda>_. 7) (sample_lock 60 20 Unused) sample_lock_cache = Ok c' \<and> lock_cache_remove 7 c' = Ok sample_lock_cache"
proof -
  have "\<not> in_group (heightGrouping sample_lock_cache) (EndHeight (sample_lock 60 20 Unused)) 7"
    by (simp add: in_group_def sample_lock_cache_def sample_lock_def)
  with lock_insert_remove [OF sample_lock_cache_inv, of "sample_lock 60 20 Unused"] show ?thesis by auto
qed

text \<open>
  The locks that are reported as expired at a height are exactly the unused locks that end
  there, provided that no identifier of the group has a newer lock that ends at another height.
  Pruning at a height removes exactly the histories of that group and keeps the cache in order.
\<close>

theorem lock_expiry:
  assumes "lock_cache_inv ident c" "\<forall>X. finite X \<longrightarrow> set (enum X) = X" "newest_expire height c"
  shows "set (processUnusedExpiredLocks enum height c)
      = {l. \<exists>i h. histories c i = Some h \<and> l = history_back h \<and> EndHeight l = height \<and> Status l = Unused}
    \<and> lock_cache_inv ident (lock_cache_prune enum height c)
    \<and> (\<forall>i h. histories c i = Some h \<longrightarrow>
         histories (lock_cache_prune enum height c) i = (if EndHeight (history_back h) = height then None else Some h))"
proof -
  have "in_group (heightGrouping c) height i \<longleftrightarrow> EndHeight (history_back h) = height" if "histories c i = Some h" for i h
    using assms(1,3) that by (auto simp: newest_expire_def lock_cache_inv_def history_back_def)
  then show ?thesis
    using processUnused_exact [OF assms] lock_cache_prune_inv [OF assms(1,2), of height] by auto
qed

theorem lock_expiry_witness:
  "lock_cache_inv (\<lambda>_. 7) sample_lock_cache \<and> set (processUnusedExpiredLocks sorted_list_of_set 10 sample_lock_cache) = {}
    \<and> histories (lock_cache_prune sorted_list_of_set 10 sample_lock_cache) 7 = None"
proof -
  have new: "newest_expire 10 sample_lock_cache"
    by (auto simp: newest_expire_def sample_lock_cache_def in_group_def history_back_def sample_lock_def split: if_splits)
  have "\<forall>X. finite X \<longrightarrow> set (sorted_list_of_set X) = X" by simp
  from lock_expiry [OF sample_lock_cache_inv this new] sample_lock_cache_inv show ?thesis
    by (auto simp: sample_lock_cache_def history_back_def sample_lock_def split: if_splits)
qed

end
