(* ===== verification/Locks.thy ===== *)
theory Locks
  imports Lock_Cache Account_State Cache
begin

section \<open>Hash locks and secret locks\<close>

text \<open>
  The plugins \<^verbatim>\<open>src/plugins/txes/lock_hash\<close> and \<^verbatim>\<open>src/plugins/txes/lock_secret\<close> with what they share,
  \<^verbatim>\<open>lock_shared\<close>: the two kinds of locks, their notifications, validators and observers.  The observers
  work on the account states, one lock cache, and the receipts of the block statement.  Parameters
  are the resolvers, the hash functions, the index of the account cache from public keys to
  addresses, and the sequence \<open>enum\<close> in which an unordered set is visited.
\<close>

subsection \<open>Locks\<close>

record hash_lock_info = lock_info +
  LockHash :: hash256

definition GetLockIdentifier_hash :: "hash_lock_info \<Rightarrow> hash256" where
  "GetLockIdentifier_hash l = LockHash l"

definition new_HashLockInfo :: "address \<Rightarrow> token_id \<Rightarrow> amount \<Rightarrow> height \<Rightarrow> hash256 \<Rightarrow> hash_lock_info" where
  "new_HashLockInfo owner tokenId a endHeight h =
     \<lparr>OwnerAddress = owner, LockTokenId = tokenId, LockAmount = a, EndHeight = endHeight, Status = Unused, LockHash = h\<rparr>"

record secret_lock_info = lock_info +
  HashAlgorithm :: "8 word"
  Secret :: hash256
  RecipientAddress :: address
  CompositeHash :: hash256

definition GetLockIdentifier_secret :: "secret_lock_info \<Rightarrow> hash256" where
  "GetLockIdentifier_secret l = CompositeHash l"

definition new_SecretLockInfo :: "address \<Rightarrow> token_id \<Rightarrow> amount \<Rightarrow> height \<Rightarrow> 8 word \<Rightarrow> hash256 \<Rightarrow> address \<Rightarrow> secret_lock_info" where
  "new_SecretLockInfo owner tokenId a endHeight alg secret recipient =
     \<lparr>OwnerAddress = owner, LockTokenId = tokenId, LockAmount = a, EndHeight = endHeight, Status = Unused,
      HashAlgorithm = alg, Secret = secret, RecipientAddress = recipient, CompositeHash = 0\<rparr>"

text \<open>The values of the enumeration \<^verbatim>\<open>LockHashAlgorithm\<close>; a transaction may carry any byte.\<close>

definition Op_Sha3_256 :: "8 word" where "Op_Sha3_256 = 0"

definition Op_Hash_160 :: "8 word" where "Op_Hash_160 = 1"

definition Op_Hash_256 :: "8 word" where "Op_Hash_256 = 2"

text \<open>The 160-bit hash is copied to the front of the 256-bit result.\<close>

definition CalculateHash :: "('b \<Rightarrow> hash256) \<Rightarrow> ('b \<Rightarrow> 160 word) \<Rightarrow> ('b \<Rightarrow> hash256) \<Rightarrow> 8 word \<Rightarrow> 'b \<Rightarrow> hash256 result" where
  "CalculateHash sha3 bitcoin160 sha256Double alg data =
     (if alg = Op_Sha3_256 then Ok (sha3 data)
      else if alg = Op_Hash_160 then Ok (push_bit 96 (ucast (bitcoin160 data)))
      else if alg = Op_Hash_256 then Ok (sha256Double data)
      else Err Invalid_Argument)"

subsection \<open>Notifications and results\<close>

record hash_lock_notification =
  hl_Owner :: address
  hl_TokenId :: "64 word"
  hl_Amount :: amount
  hl_Duration :: block_duration
  hl_Hash :: hash256

record secret_lock_notification =
  sl_Owner :: address
  sl_TokenId :: "64 word"
  sl_Amount :: amount
  sl_Duration :: block_duration
  sl_HashAlgorithm :: "8 word"
  sl_Secret :: hash256
  sl_Recipient :: "192 word"

record 'b proof_secret_notification =
  ps_HashAlgorithm :: "8 word"
  ps_Secret :: hash256
  ps_Proof :: "'b list"

record proof_publication_notification =
  pp_Owner :: address
  pp_HashAlgorithm :: "8 word"
  pp_Secret :: hash256
  pp_Recipient :: "192 word"

datatype lock_result =
    Lock_Success
  | LockHash_Invalid_Token_Id | LockHash_Invalid_Token_Amount | LockHash_Hash_Already_Exists
  | LockHash_Unknown_Hash | LockHash_Inactive_Hash | LockHash_Invalid_Duration
  | LockSecret_Invalid_Hash_Algorithm | LockSecret_Hash_Already_Exists | LockSecret_Proof_Size_Out_Of_Bounds
  | LockSecret_Secret_Mismatch | LockSecret_Unknown_Composite_Key | LockSecret_Inactive_Secret
  | LockSecret_Hash_Algorithm_Mismatch | LockSecret_Invalid_Duration

subsection \<open>Validators\<close>

definition LockDurationValidator :: "lock_result \<Rightarrow> block_duration \<Rightarrow> block_duration \<Rightarrow> lock_result" where
  "LockDurationValidator failure maxDuration duration =
     (if 0 \<noteq> duration \<and> duration \<le> maxDuration then Lock_Success else failure)"

definition AggregateHashPresentValidator :: "bool \<Rightarrow> hash_lock_info lock_info_cache \<Rightarrow> height \<Rightarrow> hash256 \<Rightarrow> lock_result" where
  "AggregateHashPresentValidator isBonded c height txHash =
     (if \<not> isBonded then Lock_Success
      else if histories c txHash = None then LockHash_Unknown_Hash
      else if \<not> lock_cache_isActive c txHash height then LockHash_Inactive_Hash
      else Lock_Success)"

definition HashLockCacheUniqueValidator :: "hash_lock_info lock_info_cache \<Rightarrow> height \<Rightarrow> hash_lock_notification \<Rightarrow> lock_result" where
  "HashLockCacheUniqueValidator c height n =
     (if lock_cache_isActive c (hl_Hash n) height then LockHash_Hash_Already_Exists else Lock_Success)"

definition HashLockTokenValidator :: "token_id \<Rightarrow> amount \<Rightarrow> (64 word \<Rightarrow> token_id) \<Rightarrow> 64 word \<Rightarrow> amount \<Rightarrow> lock_result" where
  "HashLockTokenValidator currencyTokenId lockedFundsPerAggregate resolveToken tokenId a =
     (if lockedFundsPerAggregate \<noteq> a then LockHash_Invalid_Token_Amount
      else if currencyTokenId \<noteq> resolveToken tokenId then LockHash_Invalid_Token_Id
      else Lock_Success)"

definition SecretLockHashAlgorithmValidator :: "8 word \<Rightarrow> lock_result" where
  "SecretLockHashAlgorithmValidator alg = (if alg \<le> Op_Hash_256 then Lock_Success else LockSecret_Invalid_Hash_Algorithm)"

definition SecretLockCacheUniqueValidator ::
  "(hash256 \<Rightarrow> address \<Rightarrow> hash256) \<Rightarrow> (192 word \<Rightarrow> address) \<Rightarrow> secret_lock_info lock_info_cache \<Rightarrow> height \<Rightarrow> secret_lock_notification \<Rightarrow> lock_result" where
  "SecretLockCacheUniqueValidator secretHash resolve c height n =
     (let key = secretHash (sl_Secret n) (resolve (sl_Recipient n))
      in if lock_cache_isActive c key height then LockSecret_Hash_Already_Exists else Lock_Success)"

definition ProofSecretValidator ::
  "('b list \<Rightarrow> hash256) \<Rightarrow> ('b list \<Rightarrow> 160 word) \<Rightarrow> ('b list \<Rightarrow> hash256) \<Rightarrow> 16 word \<Rightarrow> 16 word \<Rightarrow> 'b proof_secret_notification \<Rightarrow> lock_result result" where
  "ProofSecretValidator sha3 bitcoin160 sha256Double minProofSize maxProofSize n =
     (if \<not> ps_HashAlgorithm n \<le> Op_Hash_256 then Ok LockSecret_Invalid_Hash_Algorithm
      else if length (ps_Proof n) < unat minProofSize \<or> length (ps_Proof n) > unat maxProofSize then Ok LockSecret_Proof_Size_Out_Of_Bounds
      else map_result (\<lambda>secret. if ps_Secret n = secret then Lock_Success else LockSecret_Secret_Mismatch)
             (CalculateHash sha3 bitcoin160 sha256Double (ps_HashAlgorithm n) (ps_Proof n)))"

definition ProofValidator ::
  "(hash256 \<Rightarrow> address \<Rightarrow> hash256) \<Rightarrow> (192 word \<Rightarrow> address) \<Rightarrow> secret_lock_info lock_info_cache \<Rightarrow> height \<Rightarrow> proof_publication_notification \<Rightarrow> lock_result result" where
  "ProofValidator secretHash resolve c height n =
     (let key = secretHash (pp_Secret n) (resolve (pp_Recipient n))
      in if histories c key = None then Ok LockSecret_Unknown_Composite_Key
         else if \<not> lock_cache_isActive c key height then Ok LockSecret_Inactive_Secret
         else map_result (\<lambda>h. if HashAlgorithm (history_back h) \<noteq> pp_HashAlgorithm n then LockSecret_Hash_Algorithm_Mismatch else Lock_Success)
                (cache_get (histories c) key))"

subsection \<open>Observers\<close>

datatype receipt_type =
    LockHash_Created | LockHash_Completed | LockHash_Expired
  | LockSecret_Created | LockSecret_Completed | LockSecret_Expired

record receipt =
  ReceiptType :: receipt_type
  ReceiptTokenId :: token_id
  ReceiptAmount :: amount
  TargetAddress :: address

record 'l lock_state =
  accountStates :: "address \<rightharpoonup> account_state"
  lockInfos :: "'l lock_info_cache"
  receipts :: "receipt list"

datatype lock_mode = Lock_Commit | Lock_Rollback

definition credit_account :: "address \<Rightarrow> token_id \<Rightarrow> amount \<Rightarrow> (address \<rightharpoonup> account_state) \<Rightarrow> (address \<rightharpoonup> account_state) result" where
  "credit_account a tid x accounts = bind_result (cache_get accounts a)
     (\<lambda>s. map_result (\<lambda>b. accounts(a \<mapsto> s\<lparr>Balances := b\<rparr>)) (credit (Balances s) tid x))"

definition debit_account :: "address \<Rightarrow> token_id \<Rightarrow> amount \<Rightarrow> (address \<rightharpoonup> account_state) \<Rightarrow> (address \<rightharpoonup> account_state) result" where
  "debit_account a tid x accounts = bind_result (cache_get accounts a)
     (\<lambda>s. map_result (\<lambda>b. accounts(a \<mapsto> s\<lparr>Balances := b\<rparr>)) (debit (Balances s) tid x))"

text \<open>The account that \<^verbatim>\<open>ProcessForwardedAccountState\<close> hands to the action.\<close>

definition ProcessForwardedAccountState :: "(key \<rightharpoonup> address) \<Rightarrow> (address \<rightharpoonup> account_state) \<Rightarrow> address \<Rightarrow> address result" where
  "ProcessForwardedAccountState keyToAddress accounts a =
     bind_result (cache_get accounts a) (\<lambda>s.
       if AccountType s \<noteq> Remote then Ok a
       else bind_result (cache_get keyToAddress (GetLinkedPublicKey s)) (\<lambda>linkedAddress.
            bind_result (cache_get accounts linkedAddress) (\<lambda>main.
            map_result (\<lambda>_. linkedAddress) (RequireLinkedRemoteAndMainAccounts s main))))"

text \<open>
  \<^verbatim>\<open>memcmp\<close> of two receipts of one type compares the little-endian bytes of the token id and the
  amount and then the bytes of the address.
\<close>

definition little_endian :: "64 word \<Rightarrow> nat" where
  "little_endian w = (\<Sum>i \<leftarrow> [0..<8]. unat (take_bit 8 (drop_bit (8 * i) w)) * 256 ^ (7 - i))"

definition receipt_order :: "receipt \<Rightarrow> nat" where
  "receipt_order r = (little_endian (ReceiptTokenId r) * 2 ^ 64 + little_endian (ReceiptAmount r)) * 2 ^ 192 + unat (TargetAddress r)"

definition expire_lock :: "((address \<rightharpoonup> account_state) \<Rightarrow> 'z lock_info_scheme \<Rightarrow> address result) \<Rightarrow> receipt_type \<Rightarrow> lock_mode \<Rightarrow> 'z lock_info_scheme
    \<Rightarrow> (address \<rightharpoonup> account_state) \<times> receipt list \<Rightarrow> ((address \<rightharpoonup> account_state) \<times> receipt list) result" where
  "expire_lock dispatcher receiptType mode l s =
     bind_result (dispatcher (fst s) l) (\<lambda>a.
       if mode = Lock_Rollback then map_result (\<lambda>accounts. (accounts, snd s)) (debit_account a (LockTokenId l) (LockAmount l) (fst s))
       else bind_result (credit_account a (LockTokenId l) (LockAmount l) (fst s)) (\<lambda>accounts.
              map_result (\<lambda>acc. (accounts, snd s @ [\<lparr>ReceiptType = receiptType, ReceiptTokenId = LockTokenId l,
                  ReceiptAmount = LockAmount l, TargetAddress = Address acc\<rparr>])) (cache_get accounts a)))"

definition ExpiredLockInfoObserver ::
  "(hash256 set \<Rightarrow> hash256 list) \<Rightarrow> ((address \<rightharpoonup> account_state) \<Rightarrow> 'z lock_info_scheme \<Rightarrow> address result) \<Rightarrow> receipt_type
     \<Rightarrow> lock_mode \<Rightarrow> height \<Rightarrow> 'z lock_info_scheme lock_state \<Rightarrow> 'z lock_info_scheme lock_state result" where
  "ExpiredLockInfoObserver enum dispatcher receiptType mode height s =
     map_result (\<lambda>r. s\<lparr>accountStates := fst r, receipts := receipts s @ sort_key receipt_order (snd r)\<rparr>)
       (fold_result (expire_lock dispatcher receiptType mode)
          (processUnusedExpiredLocks enum height (lockInfos s)) (accountStates s, []))"

definition ExpiredHashLockInfoObserver ::
  "(hash256 set \<Rightarrow> hash256 list) \<Rightarrow> (key \<rightharpoonup> address) \<Rightarrow> address \<Rightarrow> lock_mode \<Rightarrow> height \<Rightarrow> hash_lock_info lock_state \<Rightarrow> hash_lock_info lock_state result" where
  "ExpiredHashLockInfoObserver enum keyToAddress harvester =
     ExpiredLockInfoObserver enum (\<lambda>accounts l. ProcessForwardedAccountState keyToAddress accounts harvester) LockHash_Expired"

definition ExpiredSecretLockInfoObserver ::
  "(hash256 set \<Rightarrow> hash256 list) \<Rightarrow> lock_mode \<Rightarrow> height \<Rightarrow> secret_lock_info lock_state \<Rightarrow> secret_lock_info lock_state result" where
  "ExpiredSecretLockInfoObserver enum =
     ExpiredLockInfoObserver enum (\<lambda>accounts l. map_result (\<lambda>_. OwnerAddress l) (cache_get accounts (OwnerAddress l))) LockSecret_Expired"

text \<open>The newest lock of a history is changed in place.\<close>

definition set_back :: "'l \<Rightarrow> 'l lock_info_history \<Rightarrow> 'l lock_info_history" where
  "set_back l h = h\<lparr>m_lockInfos := butlast (m_lockInfos h) @ [l]\<rparr>"

definition LockStatusAccountBalanceObserver ::
  "receipt_type \<Rightarrow> ('z lock_info_scheme \<Rightarrow> address) \<Rightarrow> hash256 \<Rightarrow> lock_mode \<Rightarrow> 'z lock_info_scheme lock_state \<Rightarrow> 'z lock_info_scheme lock_state result" where
  "LockStatusAccountBalanceObserver receiptType DestinationAccount key mode s =
     bind_result (cache_get (histories (lockInfos s)) key) (\<lambda>h.
     let l = history_back h;
         update = (\<lambda>status. (lockInfos s)\<lparr>histories := (histories (lockInfos s))(key \<mapsto> set_back (l\<lparr>Status := status\<rparr>) h)\<rparr>)
     in bind_result (cache_get (accountStates s) (DestinationAccount l)) (\<lambda>account.
        if mode = Lock_Rollback
        then map_result (\<lambda>accounts. s\<lparr>accountStates := accounts, lockInfos := update Unused\<rparr>)
               (debit_account (DestinationAccount l) (LockTokenId l) (LockAmount l) (accountStates s))
        else map_result (\<lambda>accounts. s\<lparr>accountStates := accounts, lockInfos := update Used,
                 receipts := receipts s @ [\<lparr>ReceiptType = receiptType, ReceiptTokenId = LockTokenId l,
                    ReceiptAmount = LockAmount l, TargetAddress = Address account\<rparr>]\<rparr>)
               (credit_account (DestinationAccount l) (LockTokenId l) (LockAmount l) (accountStates s))))"

definition CompletedAggregateObserver :: "bool \<Rightarrow> hash256 \<Rightarrow> lock_mode \<Rightarrow> hash_lock_info lock_state \<Rightarrow> hash_lock_info lock_state result" where
  "CompletedAggregateObserver isBonded txHash mode s =
     (if \<not> isBonded then Ok s else LockStatusAccountBalanceObserver LockHash_Completed OwnerAddress txHash mode s)"

definition ProofObserver ::
  "(hash256 \<Rightarrow> address \<Rightarrow> hash256) \<Rightarrow> (192 word \<Rightarrow> address) \<Rightarrow> proof_publication_notification \<Rightarrow> lock_mode \<Rightarrow> secret_lock_info lock_state \<Rightarrow> secret_lock_info lock_state result" where
  "ProofObserver secretHash resolve n =
     LockStatusAccountBalanceObserver LockSecret_Completed RecipientAddress (secretHash (pp_Secret n) (resolve (pp_Recipient n)))"

definition HashLockObserver :: "(64 word \<Rightarrow> token_id) \<Rightarrow> hash_lock_notification \<Rightarrow> lock_mode \<Rightarrow> height \<Rightarrow> hash_lock_info lock_state \<Rightarrow> hash_lock_info lock_state result" where
  "HashLockObserver resolveToken n mode height s =
     (if mode = Lock_Commit
      then let endHeight = height + hl_Duration n; tokenId = resolveToken (hl_TokenId n)
           in if lock_cache_isActive (lockInfos s) (hl_Hash n) height then Err Invalid_Argument
              else map_result (\<lambda>c. s\<lparr>lockInfos := c, receipts := receipts s @ [\<lparr>ReceiptType = LockHash_Created,
                       ReceiptTokenId = tokenId, ReceiptAmount = hl_Amount n, TargetAddress = hl_Owner n\<rparr>]\<rparr>)
                     (lock_cache_insert GetLockIdentifier_hash (new_HashLockInfo (hl_Owner n) tokenId (hl_Amount n) endHeight (hl_Hash n)) (lockInfos s))
      else map_result (\<lambda>c. s\<lparr>lockInfos := c\<rparr>) (lock_cache_remove (hl_Hash n) (lockInfos s)))"

definition CreateLockInfo_secret ::
  "(hash256 \<Rightarrow> address \<Rightarrow> hash256) \<Rightarrow> (192 word \<Rightarrow> address) \<Rightarrow> token_id \<Rightarrow> height \<Rightarrow> secret_lock_notification \<Rightarrow> secret_lock_info" where
  "CreateLockInfo_secret secretHash resolve tokenId endHeight n =
     (let l = new_SecretLockInfo (sl_Owner n) tokenId (sl_Amount n) endHeight (sl_HashAlgorithm n) (sl_Secret n) (resolve (sl_Recipient n))
      in l\<lparr>CompositeHash := secretHash (Secret l) (RecipientAddress l)\<rparr>)"

definition SecretLockObserver ::
  "(hash256 \<Rightarrow> address \<Rightarrow> hash256) \<Rightarrow> (192 word \<Rightarrow> address) \<Rightarrow> (64 word \<Rightarrow> token_id) \<Rightarrow> secret_lock_notification \<Rightarrow> lock_mode \<Rightarrow> height
     \<Rightarrow> secret_lock_info lock_state \<Rightarrow> secret_lock_info lock_state result" where
  "SecretLockObserver secretHash resolve resolveToken n mode height s =
     (if mode = Lock_Commit
      then let endHeight = height + sl_Duration n; tokenId = resolveToken (sl_TokenId n);
               l = CreateLockInfo_secret secretHash resolve tokenId endHeight n
           in if lock_cache_isActive (lockInfos s) (CompositeHash l) height then Err Invalid_Argument
              else map_result (\<lambda>c. s\<lparr>lockInfos := c, receipts := receipts s @ [\<lparr>ReceiptType = LockSecret_Created,
                       ReceiptTokenId = tokenId, ReceiptAmount = sl_Amount n, TargetAddress = sl_Owner n\<rparr>]\<rparr>)
                     (lock_cache_insert GetLockIdentifier_secret l (lockInfos s))
      else map_result (\<lambda>c. s\<lparr>lockInfos := c\<rparr>) (lock_cache_remove (secretHash (sl_Secret n) (resolve (sl_Recipient n))) (lockInfos s)))"

subsection \<open>Balances and the newest lock\<close>

definition balance_at :: "(address \<rightharpoonup> account_state) \<Rightarrow> address \<Rightarrow> token_id \<Rightarrow> amount" where
  "balance_at accounts a t = (case accounts a of None \<Rightarrow> 0 | Some s \<Rightarrow> balance_get (Balances s) t)"

definition account_ready :: "(address \<rightharpoonup> account_state) \<Rightarrow> address \<Rightarrow> token_id \<Rightarrow> amount \<Rightarrow> bool" where
  "account_ready accounts a t x \<longleftrightarrow> (\<exists>s. accounts a = Some s \<and> balances_inv (Balances s) \<and> no_zero_balance (Balances s)
     \<and> t \<noteq> 0 \<and> unat (balance_get (Balances s) t) + unat x < 2 ^ 64)"

lemma credit_debit_account:
  assumes "account_ready accounts a t x"
  shows "\<exists>accounts1 accounts2. credit_account a t x accounts = Ok accounts1
    \<and> balance_at accounts1 = (balance_at accounts)(a := (balance_at accounts a)(t := balance_at accounts a t + x))
    \<and> dom accounts1 = dom accounts
    \<and> debit_account a t x accounts1 = Ok accounts2 \<and> balance_at accounts2 = balance_at accounts \<and> dom accounts2 = dom accounts"
proof -
  obtain s where s: "accounts a = Some s" "balances_inv (Balances s)" "no_zero_balance (Balances s)" "t \<noteq> 0"
      "unat (balance_get (Balances s) t) + unat x < 2 ^ 64"
    using assms by (auto simp: account_ready_def)
  obtain b1 b2 where b: "credit (Balances s) t x = Ok b1" "balance_get b1 = (balance_get (Balances s))(t := balance_get (Balances s) t + x)"
      "debit b1 t x = Ok b2" "balance_get b2 = balance_get (Balances s)"
    using credit_debit [OF s(2-5)] by blast
  let ?a1 = "accounts(a \<mapsto> s\<lparr>Balances := b1\<rparr>)"
  have "credit_account a t x accounts = Ok ?a1" by (simp add: credit_account_def cache_get_def s(1) b)
  moreover have "debit_account a t x ?a1 = Ok (?a1(a \<mapsto> s\<lparr>Balances := b2\<rparr>))" by (simp add: debit_account_def cache_get_def b)
  moreover have "balance_at ?a1 = (balance_at accounts)(a := (balance_at accounts a)(t := balance_at accounts a t + x))"
    by (simp add: fun_eq_iff balance_at_def s(1) b)
  moreover have "balance_at (?a1(a \<mapsto> s\<lparr>Balances := b2\<rparr>)) = balance_at accounts" by (simp add: fun_eq_iff balance_at_def s(1) b)
  ultimately show ?thesis using s(1) by (intro exI [of _ ?a1] exI [of _ "?a1(a \<mapsto> s\<lparr>Balances := b2\<rparr>)"]) auto
qed

text \<open>The newest lock is marked as used and back.\<close>

definition mark_back :: "hash256 \<Rightarrow> lock_status \<Rightarrow> 'z lock_info_scheme lock_info_cache \<Rightarrow> 'z lock_info_scheme lock_info_cache" where
  "mark_back i st c = c\<lparr>histories := (histories c)(i := map_option (\<lambda>h. set_back ((history_back h)\<lparr>Status := st\<rparr>) h) (histories c i))\<rparr>"

lemma history_back_set_back [simp]: "history_back (set_back l h) = l"
  by (simp add: history_back_def set_back_def)

lemma set_back_set_back [simp]: "set_back l (set_back l' h) = set_back l h"
  by (simp add: set_back_def)

lemma set_back_same: "m_lockInfos h \<noteq> [] \<Longrightarrow> set_back (history_back h) h = h"
  by (simp add: history_back_def set_back_def)

lemma mark_back_histories: "histories (mark_back i st c) j = (if j = i then map_option (\<lambda>h. set_back ((history_back h)\<lparr>Status := st\<rparr>) h) (histories c i) else histories c j)"
  by (simp add: mark_back_def)

lemma mark_back_undo:
  assumes "lock_cache_inv ident c" "histories c i = Some h" "Status (history_back h) = st"
  shows "mark_back i st (mark_back i st' c) = c"
proof -
  have "m_lockInfos h \<noteq> []" using assms(1,2) by (auto simp: lock_cache_inv_def)
  moreover have "(history_back h)\<lparr>Status := st\<rparr> = history_back h" using assms(3) by auto
  ultimately have "set_back ((history_back h)\<lparr>Status := st\<rparr>) h = h" by (simp add: set_back_same)
  then have "(histories c)(i \<mapsto> set_back ((history_back h)\<lparr>Status := st\<rparr>) h) = histories c" using assms(2) by (simp add: fun_upd_idem_iff)
  then show ?thesis using assms(2) by (simp add: mark_back_def)
qed

text \<open>
  What the shared observer relies on in a kind of lock: its identifier and the account it is paid to do
  not depend on its status.
\<close>

locale lock_kind =
  fixes ident :: "'z lock_info_scheme \<Rightarrow> hash256"
    and D :: "'z lock_info_scheme \<Rightarrow> address"
  assumes ident_status [simp]: "ident (l\<lparr>Status := st\<rparr>) = ident l"
    and destination_status [simp]: "D (l\<lparr>Status := st\<rparr>) = D l"
begin

lemma lock_cache_inv_mark:
  assumes "lock_cache_inv ident c"
  shows "lock_cache_inv ident (mark_back i st c)"
proof -
  have "history_id h' = i \<and> m_lockInfos h' \<noteq> [] \<and> (\<forall>l \<in> set (m_lockInfos h'). ident l = i \<and> in_group (heightGrouping c) (EndHeight l) i)"
    if "histories c i = Some h" "h' = set_back ((history_back h)\<lparr>Status := st\<rparr>) h" for h h'
  proof -
    have "m_lockInfos h \<noteq> []" "history_id h = i" "\<forall>l \<in> set (m_lockInfos h). ident l = i \<and> in_group (heightGrouping c) (EndHeight l) i"
      using assms that(1) by (auto simp: lock_cache_inv_def)
    then show ?thesis unfolding that(2) using ident_status by (auto simp: set_back_def history_back_def dest: in_set_butlastD)
  qed
  then show ?thesis using assms by (auto simp: lock_cache_inv_def mark_back_histories) (auto simp: mark_back_def)
qed

text \<open>Using a lock and undoing it.\<close>

lemma lock_status_commit_rollback:
  assumes "lock_cache_inv ident (lockInfos s)" "histories (lockInfos s) key = Some h" "Status (history_back h) = Unused"
    and ready: "account_ready (accountStates s) (D (history_back h)) (LockTokenId (history_back h)) (LockAmount (history_back h))"
  defines "l \<equiv> history_back h"
  shows "\<exists>s1 s2 acc. LockStatusAccountBalanceObserver t D key Lock_Commit s = Ok s1
    \<and> accountStates s (D l) = Some acc
    \<and> lockInfos s1 = mark_back key Used (lockInfos s)
    \<and> balance_at (accountStates s1) = (balance_at (accountStates s))(D l := (balance_at (accountStates s) (D l))
        (LockTokenId l := balance_at (accountStates s) (D l) (LockTokenId l) + LockAmount l))
    \<and> receipts s1 = receipts s @ [\<lparr>ReceiptType = t, ReceiptTokenId = LockTokenId l, ReceiptAmount = LockAmount l, TargetAddress = Address acc\<rparr>]
    \<and> LockStatusAccountBalanceObserver t D key Lock_Rollback s1 = Ok s2
    \<and> lockInfos s2 = lockInfos s \<and> balance_at (accountStates s2) = balance_at (accountStates s)"
proof -
  obtain acc where acc: "accountStates s (D l) = Some acc" using ready by (auto simp: account_ready_def l_def)
  obtain a1 a2 where a: "credit_account (D l) (LockTokenId l) (LockAmount l) (accountStates s) = Ok a1"
      "balance_at a1 = (balance_at (accountStates s))(D l := (balance_at (accountStates s) (D l))
        (LockTokenId l := balance_at (accountStates s) (D l) (LockTokenId l) + LockAmount l))"
      "dom a1 = dom (accountStates s)" "debit_account (D l) (LockTokenId l) (LockAmount l) a1 = Ok a2" "balance_at a2 = balance_at (accountStates s)"
    using credit_debit_account [OF ready] unfolding l_def by blast
  obtain acc1 where acc1: "a1 (D l) = Some acc1" using a(3) acc by auto
  have upd: "(lockInfos s)\<lparr>histories := (histories (lockInfos s))(key \<mapsto> set_back (l\<lparr>Status := st\<rparr>) h)\<rparr> = mark_back key st (lockInfos s)" for st
    using assms(2) by (simp add: mark_back_def l_def)
  define s1 where "s1 = s\<lparr>accountStates := a1, lockInfos := mark_back key Used (lockInfos s),
     receipts := receipts s @ [\<lparr>ReceiptType = t, ReceiptTokenId = LockTokenId l, ReceiptAmount = LockAmount l, TargetAddress = Address acc\<rparr>]\<rparr>"
  have commit: "LockStatusAccountBalanceObserver t D key Lock_Commit s = Ok s1"
    by (simp add: LockStatusAccountBalanceObserver_def cache_get_def assms(2) l_def [symmetric] acc a(1) upd s1_def)
  have h1: "histories (lockInfos s1) key = Some (set_back (l\<lparr>Status := Used\<rparr>) h)"
    by (simp add: s1_def mark_back_histories assms(2) l_def)
  have "mark_back key Unused (lockInfos s1) = lockInfos s"
    using mark_back_undo [OF assms(1-3)] by (simp add: s1_def)
  moreover have "(lockInfos s1)\<lparr>histories := (histories (lockInfos s1))(key \<mapsto> set_back (l\<lparr>Status := Unused\<rparr>) h)\<rparr> = mark_back key Unused (lockInfos s1)"
    using h1 by (simp add: mark_back_def)
  ultimately have "LockStatusAccountBalanceObserver t D key Lock_Rollback s1 = Ok (s1\<lparr>accountStates := a2, lockInfos := lockInfos s\<rparr>)"
    using destination_status acc1 a(4) by (simp add: LockStatusAccountBalanceObserver_def cache_get_def h1) (simp add: s1_def)
  with commit acc a(2,5) show ?thesis by (auto simp: s1_def)
qed

end

interpretation hash_locks: lock_kind GetLockIdentifier_hash OwnerAddress
  by unfold_locales (simp_all add: GetLockIdentifier_hash_def)

interpretation secret_locks: lock_kind GetLockIdentifier_secret RecipientAddress
  by unfold_locales (simp_all add: GetLockIdentifier_secret_def)

text \<open>The same for a bonded aggregate that completes: the owner of its hash lock gets the deposit back.\<close>

lemma completed_aggregate:
  assumes "lock_cache_inv GetLockIdentifier_hash (lockInfos s)"
    and "AggregateHashPresentValidator True (lockInfos s) height txHash = Lock_Success"
    and "histories (lockInfos s) txHash = Some h" "l = history_back h"
    and "account_ready (accountStates s) (OwnerAddress l) (LockTokenId l) (LockAmount l)"
  shows "\<exists>s1 s2. CompletedAggregateObserver True txHash Lock_Commit s = Ok s1
    \<and> balance_at (accountStates s1) = (balance_at (accountStates s))(OwnerAddress l := (balance_at (accountStates s) (OwnerAddress l))
        (LockTokenId l := balance_at (accountStates s) (OwnerAddress l) (LockTokenId l) + LockAmount l))
    \<and> (\<forall>height'. AggregateHashPresentValidator True (lockInfos s1) height' txHash = LockHash_Inactive_Hash)
    \<and> CompletedAggregateObserver True txHash Lock_Rollback s1 = Ok s2
    \<and> lockInfos s2 = lockInfos s \<and> balance_at (accountStates s2) = balance_at (accountStates s)"
proof -
  have unused: "Status (history_back h) = Unused"
    using assms(2,3) by (auto simp: AggregateHashPresentValidator_def lock_cache_isActive_def history_isActive_def lock_isActive_def split: if_splits)
  from hash_locks.lock_status_commit_rollback [OF assms(1,3) unused, of LockHash_Completed] assms(4,5)
  obtain s1 s2 where s: "CompletedAggregateObserver True txHash Lock_Commit s = Ok s1" "lockInfos s1 = mark_back txHash Used (lockInfos s)"
      "balance_at (accountStates s1) = (balance_at (accountStates s))(OwnerAddress l := (balance_at (accountStates s) (OwnerAddress l))
        (LockTokenId l := balance_at (accountStates s) (OwnerAddress l) (LockTokenId l) + LockAmount l))"
      "CompletedAggregateObserver True txHash Lock_Rollback s1 = Ok s2" "lockInfos s2 = lockInfos s" "balance_at (accountStates s2) = balance_at (accountStates s)"
    unfolding CompletedAggregateObserver_def by auto
  have "AggregateHashPresentValidator True (lockInfos s1) height' txHash = LockHash_Inactive_Hash" for height'
    by (simp add: s(2) AggregateHashPresentValidator_def lock_cache_isActive_def mark_back_histories assms(3) history_isActive_def lock_isActive_def)
  with s show ?thesis by blast
qed

subsection \<open>Properties\<close>

lemma proof_validator_success:
  assumes "ProofValidator secretHash resolve c height n = Ok Lock_Success"
  defines "key \<equiv> secretHash (pp_Secret n) (resolve (pp_Recipient n))"
  shows "\<exists>h. histories c key = Some h \<and> history_isActive h height \<and> HashAlgorithm (history_back h) = pp_HashAlgorithm n"
  using assms by (auto simp: ProofValidator_def Let_def lock_cache_isActive_def cache_get_def split: option.splits if_splits)

lemma proof_validator_used:
  assumes "histories c (secretHash (pp_Secret n) (resolve (pp_Recipient n))) = Some h" "Status (history_back h) = Used"
  shows "ProofValidator secretHash resolve c height n = Ok LockSecret_Inactive_Secret"
  using assms by (simp add: ProofValidator_def Let_def lock_cache_isActive_def history_isActive_def lock_isActive_def)

text \<open>
  C17: A proof that the validator accepts pays the amount of the newest lock to its recipient and
  changes no other balance; the lock is used, so that no proof for the same secret and recipient
  is accepted at any height; and undoing the proof restores the lock cache and every balance.
\<close>

theorem secret_proof:
  assumes "lock_cache_inv GetLockIdentifier_secret (lockInfos s)"
    and "ProofValidator secretHash resolve (lockInfos s) height n = Ok Lock_Success"
    and "histories (lockInfos s) (secretHash (pp_Secret n) (resolve (pp_Recipient n))) = Some h" "l = history_back h"
    and "account_ready (accountStates s) (RecipientAddress l) (LockTokenId l) (LockAmount l)"
  shows "\<exists>s1 s2. ProofObserver secretHash resolve n Lock_Commit s = Ok s1
    \<and> lock_cache_inv GetLockIdentifier_secret (lockInfos s1)
    \<and> balance_at (accountStates s1) = (balance_at (accountStates s))(RecipientAddress l := (balance_at (accountStates s) (RecipientAddress l))
        (LockTokenId l := balance_at (accountStates s) (RecipientAddress l) (LockTokenId l) + LockAmount l))
    \<and> (\<forall>height'. ProofValidator secretHash resolve (lockInfos s1) height' n = Ok LockSecret_Inactive_Secret)
    \<and> ProofObserver secretHash resolve n Lock_Rollback s1 = Ok s2
    \<and> lockInfos s2 = lockInfos s \<and> balance_at (accountStates s2) = balance_at (accountStates s)"
proof -
  let ?key = "secretHash (pp_Secret n) (resolve (pp_Recipient n))"
  have unused: "Status (history_back h) = Unused"
    using proof_validator_success [OF assms(2)] assms(3) by (auto simp: history_isActive_def lock_isActive_def)
  from secret_locks.lock_status_commit_rollback [OF assms(1,3) unused, of LockSecret_Completed] assms(4,5)
  obtain s1 s2 where s: "ProofObserver secretHash resolve n Lock_Commit s = Ok s1" "lockInfos s1 = mark_back ?key Used (lockInfos s)"
      "balance_at (accountStates s1) = (balance_at (accountStates s))(RecipientAddress l := (balance_at (accountStates s) (RecipientAddress l))
        (LockTokenId l := balance_at (accountStates s) (RecipientAddress l) (LockTokenId l) + LockAmount l))"
      "ProofObserver secretHash resolve n Lock_Rollback s1 = Ok s2" "lockInfos s2 = lockInfos s" "balance_at (accountStates s2) = balance_at (accountStates s)"
    unfolding ProofObserver_def by blast
  have "histories (lockInfos s1) ?key = Some (set_back (l\<lparr>Status := Used\<rparr>) h)" by (simp add: s(2) mark_back_histories assms(3,4))
  then have "ProofValidator secretHash resolve (lockInfos s1) height' n = Ok LockSecret_Inactive_Secret" for height'
    by (rule proof_validator_used) simp
  with s secret_locks.lock_cache_inv_mark [OF assms(1)] show ?thesis by auto
qed

definition sample_secret_lock :: "height \<Rightarrow> lock_status \<Rightarrow> secret_lock_info" where
  "sample_secret_lock e st = \<lparr>OwnerAddress = 1, LockTokenId = 7, LockAmount = 50, EndHeight = e, Status = st,
     HashAlgorithm = 0, Secret = 3, RecipientAddress = 2, CompositeHash = 5\<rparr>"

definition sample_lock_state :: "secret_lock_info lock_state" where
  "sample_lock_state = \<lparr>accountStates = [1 \<mapsto> new_account_state 1 1, 2 \<mapsto> (new_account_state 2 1)\<lparr>Balances := sample_balances\<rparr>],
     lockInfos = \<lparr>histories = [5 \<mapsto> \<lparr>history_id = 5, m_lockInfos = [sample_secret_lock 10 Unused]\<rparr>], heightGrouping = [10 \<mapsto> {5}]\<rparr>, receipts = []\<rparr>"

definition sample_proof :: proof_publication_notification where
  "sample_proof = \<lparr>pp_Owner = 4, pp_HashAlgorithm = 0, pp_Secret = 3, pp_Recipient = 2\<rparr>"

theorem secret_proof_witness:
  "ProofValidator (\<lambda>_ _. 5) ucast (lockInfos sample_lock_state) 9 sample_proof = Ok Lock_Success
    \<and> (\<exists>s1. ProofObserver (\<lambda>_ _. 5) ucast sample_proof Lock_Commit sample_lock_state = Ok s1
        \<and> balance_at (accountStates s1) 2 7 = 50
        \<and> ProofValidator (\<lambda>_ _. 5) ucast (lockInfos s1) 9 sample_proof = Ok LockSecret_Inactive_Secret)"
proof -
  have inv: "lock_cache_inv GetLockIdentifier_secret (lockInfos sample_lock_state)"
    by (auto simp: lock_cache_inv_def sample_lock_state_def sample_secret_lock_def GetLockIdentifier_secret_def in_group_def split: if_splits)
  have ok: "ProofValidator (\<lambda>_ _. 5) ucast (lockInfos sample_lock_state) 9 sample_proof = Ok Lock_Success"
    by (simp add: ProofValidator_def sample_lock_state_def lock_cache_isActive_def history_isActive_def history_empty_def history_back_def
        lock_isActive_def sample_secret_lock_def cache_get_def sample_proof_def)
  have h: "histories (lockInfos sample_lock_state) 5 = Some \<lparr>history_id = 5, m_lockInfos = [sample_secret_lock 10 Unused]\<rparr>"
    by (simp add: sample_lock_state_def)
  have l: "sample_secret_lock 10 Unused = history_back \<lparr>history_id = 5, m_lockInfos = [sample_secret_lock 10 Unused]\<rparr>"
    by (simp add: history_back_def)
  have zero: "balance_get sample_balances 7 = 0" by code_simp
  have ready: "account_ready (accountStates sample_lock_state) (RecipientAddress (sample_secret_lock 10 Unused))
      (LockTokenId (sample_secret_lock 10 Unused)) (LockAmount (sample_secret_lock 10 Unused))"
    using sample_balances_inv zero by (simp add: account_ready_def sample_lock_state_def sample_secret_lock_def)
  have "balance_at (accountStates sample_lock_state) 2 7 = 0" by (simp add: balance_at_def sample_lock_state_def zero)
  with secret_proof [OF inv ok h l ready] ok show ?thesis by (auto simp: sample_secret_lock_def)
qed

text \<open>
  The check of a proof against its secret never throws, and accepts exactly the proofs of an
  admissible size whose hash, by one of the three algorithms, is the secret.
\<close>

theorem proof_secret_check:
  "(\<exists>r. ProofSecretValidator sha3 bitcoin160 sha256Double minProofSize maxProofSize n = Ok r)
    \<and> (ProofSecretValidator sha3 bitcoin160 sha256Double minProofSize maxProofSize n = Ok Lock_Success
       \<longleftrightarrow> unat minProofSize \<le> length (ps_Proof n) \<and> length (ps_Proof n) \<le> unat maxProofSize
         \<and> (ps_HashAlgorithm n = 0 \<and> ps_Secret n = sha3 (ps_Proof n)
            \<or> ps_HashAlgorithm n = 1 \<and> ps_Secret n = push_bit 96 (ucast (bitcoin160 (ps_Proof n)))
            \<or> ps_HashAlgorithm n = 2 \<and> ps_Secret n = sha256Double (ps_Proof n)))"
proof -
  have three: "w \<le> 2 \<longleftrightarrow> w = 0 \<or> w = 1 \<or> w = 2" for w :: "8 word"
    unfolding word_le_nat_alt word_unat_eq_iff by (simp, arith)
  show ?thesis
    by (auto simp: ProofSecretValidator_def CalculateHash_def Op_Sha3_256_def Op_Hash_160_def Op_Hash_256_def three not_less split: if_splits)
qed

lemma credit_account_again:
  assumes "account_ready accounts a t x" "unat (balance_at accounts a t) + unat x + unat y < 2 ^ 64"
  obtains accounts1 where "credit_account a t x accounts = Ok accounts1" "account_ready accounts1 a t y"
    "balance_at accounts1 a t = balance_at accounts a t + x"
proof -
  obtain s where s: "accounts a = Some s" "balances_inv (Balances s)" "no_zero_balance (Balances s)" "t \<noteq> 0"
      "unat (balance_get (Balances s) t) + unat x < 2 ^ 64"
    using assms(1) by (auto simp: account_ready_def)
  obtain b where b: "credit (Balances s) t x = Ok b" "balances_inv b" "no_zero_balance b" "balance_get b t = balance_get (Balances s) t + x"
    using credit_debit [OF s(2-5)] by auto
  have "unat (balance_get b t) = unat (balance_get (Balances s) t) + unat x" using s(5) b(4) by (simp add: unat_add_lem [THEN iffD1])
  with b s assms(2) show ?thesis
    by (intro that [of "accounts(a \<mapsto> s\<lparr>Balances := b\<rparr>)"]) (simp_all add: credit_account_def cache_get_def account_ready_def balance_at_def)
qed

text \<open>The expiry of a single lock refunds its amount to the owner.\<close>

lemma expire_single:
  assumes "processUnusedExpiredLocks enum e (lockInfos s) = [l]" "account_ready (accountStates s) (OwnerAddress l) (LockTokenId l) (LockAmount l)"
    "unat (balance_at (accountStates s) (OwnerAddress l) (LockTokenId l)) + unat (LockAmount l) + unat y < 2 ^ 64"
  obtains s' where "ExpiredSecretLockInfoObserver enum Lock_Commit e s = Ok s'" "lockInfos s' = lockInfos s"
    "account_ready (accountStates s') (OwnerAddress l) (LockTokenId l) y"
    "balance_at (accountStates s') (OwnerAddress l) (LockTokenId l) = balance_at (accountStates s) (OwnerAddress l) (LockTokenId l) + LockAmount l"
proof -
  obtain accounts where a: "credit_account (OwnerAddress l) (LockTokenId l) (LockAmount l) (accountStates s) = Ok accounts"
    "account_ready accounts (OwnerAddress l) (LockTokenId l) y"
    "balance_at accounts (OwnerAddress l) (LockTokenId l) = balance_at (accountStates s) (OwnerAddress l) (LockTokenId l) + LockAmount l"
    using credit_account_again [OF assms(2,3)] .
  have acc: "accountStates s (OwnerAddress l) \<noteq> None" "accounts (OwnerAddress l) \<noteq> None" using assms(2) a(2) by (auto simp: account_ready_def)
  show ?thesis
    by (rule that [of "s\<lparr>accountStates := accounts, receipts := receipts s @ sort_key receipt_order [\<lparr>ReceiptType = LockSecret_Expired,
          ReceiptTokenId = LockTokenId l, ReceiptAmount = LockAmount l, TargetAddress = Address (the (accounts (OwnerAddress l)))\<rparr>]\<rparr>"])
      (use acc a in \<open>auto simp: ExpiredSecretLockInfoObserver_def ExpiredLockInfoObserver_def assms(1) expire_lock_def cache_get_def\<close>)
qed

text \<open>
  C37: The expiry of secret locks is not safe when a secret is locked again.  If the newest lock of a secret and
  recipient is used, the uniqueness check admits a second one.  Its owner is refunded when the first lock ends, and
  again when the second one ends, if no other locks end at these two heights, the cache is not pruned in between, and the
  balance of the owner does not overflow: the group of the first height still names the identifier, and the
  expiry looks at the newest lock of it only.
\<close>

theorem secret_lock_double_refund:
  assumes "lock_cache_inv GetLockIdentifier_secret (lockInfos s)" "\<forall>i. enum {i} = [i]"
    and "histories (lockInfos s) (secretHash (sl_Secret n) (resolve (sl_Recipient n))) = Some h" "Status (history_back h) = Used"
    and "heightGrouping (lockInfos s) (EndHeight (history_back h)) = Some {secretHash (sl_Secret n) (resolve (sl_Recipient n))}"
    and "heightGrouping (lockInfos s) (height + sl_Duration n) = None"
    and "account_ready (accountStates s) (sl_Owner n) (resolveToken (sl_TokenId n)) (sl_Amount n)"
    and "unat (balance_at (accountStates s) (sl_Owner n) (resolveToken (sl_TokenId n))) + 2 * unat (sl_Amount n) < 2 ^ 64"
  shows "SecretLockCacheUniqueValidator secretHash resolve (lockInfos s) height n = Lock_Success
    \<and> (\<exists>s1 s2 s3. SecretLockObserver secretHash resolve resolveToken n Lock_Commit height s = Ok s1
        \<and> ExpiredSecretLockInfoObserver enum Lock_Commit (EndHeight (history_back h)) s1 = Ok s2
        \<and> ExpiredSecretLockInfoObserver enum Lock_Commit (height + sl_Duration n) s2 = Ok s3
        \<and> balance_at (accountStates s3) (sl_Owner n) (resolveToken (sl_TokenId n))
            = balance_at (accountStates s) (sl_Owner n) (resolveToken (sl_TokenId n)) + 2 * sl_Amount n)"
proof -
  let ?owner = "sl_Owner n"
  let ?key = "secretHash (sl_Secret n) (resolve (sl_Recipient n))" and ?t = "resolveToken (sl_TokenId n)"
  let ?e1 = "EndHeight (history_back h)" and ?e2 = "height + sl_Duration n"
  define l where "l = CreateLockInfo_secret secretHash resolve ?t ?e2 n"
  have l: "GetLockIdentifier_secret l = ?key" "CompositeHash l = ?key" "EndHeight l = ?e2" "Status l = Unused" "OwnerAddress l = ?owner"
    "LockTokenId l = ?t" "LockAmount l = sl_Amount n"
    by (simp_all add: l_def CreateLockInfo_secret_def new_SecretLockInfo_def GetLockIdentifier_secret_def)
  have inactive: "\<not> lock_cache_isActive (lockInfos s) ?key height"
    using assms(3,4) by (simp add: lock_cache_isActive_def history_isActive_def lock_isActive_def)
  obtain c h' where c: "lock_cache_insert GetLockIdentifier_secret l (lockInfos s) = Ok c" "histories c = (histories (lockInfos s))(?key \<mapsto> h')"
    "m_lockInfos h' = m_lockInfos h @ [l]" "heightGrouping c = AddIdentifierWithGroup ?e2 ?key (heightGrouping (lockInfos s))"
    using lock_cache_insert_inv [OF assms(1), of l] assms(3) unfolding l by auto
  define s1 where "s1 = s\<lparr>lockInfos := c, receipts := receipts s @ [\<lparr>ReceiptType = LockSecret_Created,
      ReceiptTokenId = ?t, ReceiptAmount = sl_Amount n, TargetAddress = sl_Owner n\<rparr>]\<rparr>"
  have run: "SecretLockObserver secretHash resolve resolveToken n Lock_Commit height s = Ok s1"
    using inactive c(1) by (simp add: SecretLockObserver_def Let_def l_def [symmetric] l(2) s1_def)
  have groups: "heightGrouping c ?e1 = Some {?key}" "heightGrouping c ?e2 = Some {?key}"
    using assms(5,6) by (auto simp: c(4) AddIdentifierWithGroup_def Let_def)
  have newest: "history_back h' = l" by (simp add: history_back_def c(3))
  have expired: "processUnusedExpiredLocks enum e c = [l]" if "heightGrouping c e = Some {?key}" for e
    using that assms(2) l(4) by (simp add: processUnusedExpiredLocks_def ForEachIdentifierWithGroup_def c(2) newest map_filter_simps)
  have same: "accountStates s1 = accountStates s" "lockInfos s1 = c" by (simp_all add: s1_def)
  obtain s2 where s2: "ExpiredSecretLockInfoObserver enum Lock_Commit ?e1 s1 = Ok s2" "lockInfos s2 = c"
    "account_ready (accountStates s2) ?owner ?t (sl_Amount n)"
    "balance_at (accountStates s2) ?owner ?t = balance_at (accountStates s) ?owner ?t + sl_Amount n"
    by (rule expire_single [of enum ?e1 s1 l "sl_Amount n"]) (use expired [OF groups(1)] assms(7,8) in \<open>simp_all add: same l\<close>)
  have fits: "unat (balance_at (accountStates s2) ?owner ?t) + unat (sl_Amount n) < 2 ^ 64"
    using assms(8) by (simp add: s2(4) unat_add_lem [THEN iffD1])
  obtain s3 where s3: "ExpiredSecretLockInfoObserver enum Lock_Commit ?e2 s2 = Ok s3"
    "balance_at (accountStates s3) ?owner ?t = balance_at (accountStates s2) ?owner ?t + sl_Amount n"
    by (rule expire_single [of enum ?e2 s2 l 0]) (use expired [OF groups(2)] s2 fits in \<open>simp_all add: l\<close>)
  have "SecretLockCacheUniqueValidator secretHash resolve (lockInfos s) height n = Lock_Success"
    using inactive by (simp add: SecretLockCacheUniqueValidator_def)
  with run s2(1,4) s3 show ?thesis by (auto simp: algebra_simps)
qed

text \<open>A lock of amount 50 that ends at height 20, for a secret whose first lock ends at height 10 and is used.\<close>

definition sample_secret_notification :: "block_duration \<Rightarrow> secret_lock_notification" where
  "sample_secret_notification d = \<lparr>sl_Owner = 1, sl_TokenId = 7, sl_Amount = 50, sl_Duration = d, sl_HashAlgorithm = 0,
     sl_Secret = 3, sl_Recipient = 2\<rparr>"

definition relock_state :: "secret_lock_info lock_state" where
  "relock_state = sample_lock_state\<lparr>lockInfos := \<lparr>histories = [5 \<mapsto> \<lparr>history_id = 5, m_lockInfos = [sample_secret_lock 10 Used]\<rparr>],
     heightGrouping = [10 \<mapsto> {5}]\<rparr>\<rparr>"

theorem secret_lock_double_refund_witness:
  "\<exists>s1 s2 s3. SecretLockObserver (\<lambda>_ _. 5) ucast id (sample_secret_notification 15) Lock_Commit 5 relock_state = Ok s1
     \<and> ExpiredSecretLockInfoObserver sorted_list_of_set Lock_Commit 10 s1 = Ok s2
     \<and> ExpiredSecretLockInfoObserver sorted_list_of_set Lock_Commit 20 s2 = Ok s3 \<and> balance_at (accountStates s3) 1 7 = 100"
proof -
  let ?h = "\<lparr>history_id = 5, m_lockInfos = [sample_secret_lock 10 Used]\<rparr>" and ?n = "sample_secret_notification 15"
  have inv: "lock_cache_inv GetLockIdentifier_secret (lockInfos relock_state)"
    by (auto simp: lock_cache_inv_def relock_state_def sample_secret_lock_def GetLockIdentifier_secret_def in_group_def split: if_splits)
  have zero: "balance_at (accountStates relock_state) 1 7 = 0" by code_simp
  have "account_ready (accountStates relock_state) 1 7 50"
    using empty_balances_inv by (simp add: balance_get_lookup account_ready_def relock_state_def sample_lock_state_def new_account_state_def no_zero_balance_def)
  with zero secret_lock_double_refund [OF inv, of sorted_list_of_set "\<lambda>_ _. 5" ?n ucast ?h 5 id] show ?thesis
    by (auto simp: relock_state_def sample_secret_notification_def history_back_def sample_secret_lock_def)
qed

end
