(* ===== verification/Compare_Chains.thy ===== *)
theory Compare_Chains
  imports Prelude
begin

unbundle bit_operations_syntax

section \<open>Comparison of two chains\<close>

text \<open>
  A node that synchronizes with a peer looks for the last block their chains have in common,
  \<^verbatim>\<open>src/src/bitxorcore/chain/CompareChains.cpp\<close>: it compares scores, then batches of block hashes from heights that
  a binary search chooses.  An api is a function of the number of the stage in which it is called,
  because the local chain may grow and a peer may answer the same question differently; a future that
  holds an exception is an \<open>Err\<close>.  The answers of an honest node come from its own request handler,
  \<^verbatim>\<open>handlers/ChainHandlers.cpp\<close>, and its storage.
\<close>

subsection \<open>Codes\<close>

definition Remote_Is_Out_Of_Sync_Flag :: "32 word" where "Remote_Is_Out_Of_Sync_Flag = 0x40000000"

definition Remote_Is_Evil_Flag :: "32 word" where "Remote_Is_Evil_Flag = 0x80000000"

datatype chain_comparison_code =
    Remote_Reported_Equal_Chain_Score | Remote_Reported_Lower_Chain_Score | Local_Score_Updated
  | Remote_Is_Too_Far_Behind | Remote_Is_Not_Synced
  | Remote_Returned_Too_Many_Hashes | Remote_Is_Forked | Remote_Lied_About_Chain_Score
  | Incomplete_Chain_Comparison_Code

fun code_value :: "chain_comparison_code \<Rightarrow> 32 word" where
  "code_value Remote_Reported_Equal_Chain_Score = 1"
| "code_value Remote_Reported_Lower_Chain_Score = 2"
| "code_value Local_Score_Updated = 3"
| "code_value Remote_Is_Too_Far_Behind = Remote_Is_Out_Of_Sync_Flag OR 1"
| "code_value Remote_Is_Not_Synced = Remote_Is_Out_Of_Sync_Flag OR 2"
| "code_value Remote_Returned_Too_Many_Hashes = Remote_Is_Evil_Flag OR 1"
| "code_value Remote_Is_Forked = Remote_Is_Evil_Flag OR 2"
| "code_value Remote_Lied_About_Chain_Score = Remote_Is_Evil_Flag OR 3"
| "code_value Incomplete_Chain_Comparison_Code = 0xFFFFFFFF"

definition IsRemoteOutOfSync :: "chain_comparison_code \<Rightarrow> bool" where
  "IsRemoteOutOfSync code \<longleftrightarrow> 0 \<noteq> (Remote_Is_Out_Of_Sync_Flag AND code_value code)"

definition IsRemoteEvil :: "chain_comparison_code \<Rightarrow> bool" where
  "IsRemoteEvil code \<longleftrightarrow> 0 \<noteq> (Remote_Is_Evil_Flag AND code_value code)"

datatype interaction_result = Interaction_None | Interaction_Neutral | Interaction_Success | Interaction_Failure

definition ToNodeInteractionResultCode :: "chain_comparison_code \<Rightarrow> interaction_result" where
  "ToNodeInteractionResultCode code =
     (if IsRemoteOutOfSync code \<or> IsRemoteEvil code then Interaction_Failure else Interaction_Neutral)"

subsection \<open>Apis\<close>

record chain_statistics =
  cs_Height :: height
  cs_FinalizedHeight :: height
  cs_Score :: "128 word"

record chain_api =
  chainStatistics :: "nat \<Rightarrow> chain_statistics result"
  hashesFrom :: "nat \<Rightarrow> height \<Rightarrow> 32 word \<Rightarrow> hash256 list result"

text \<open>A chain at rest: its height and the hash of the block at each height.\<close>

record block_storage =
  chainHeight :: height
  blockHash :: "height \<Rightarrow> hash256"

definition loadHashesFrom :: "block_storage \<Rightarrow> height \<Rightarrow> nat \<Rightarrow> hash256 list" where
  "loadHashesFrom storage h maxHashes =
     (if 0 = h \<or> chainHeight storage < h then []
      else let numAvailableHashes = unat (chainHeight storage - h + 1);
               numHashes = min maxHashes numAvailableHashes
           in map (\<lambda>i. blockHash storage (h + of_nat i)) [0..<numHashes])"

definition LocalChainApi :: "block_storage \<Rightarrow> 128 word \<Rightarrow> height \<Rightarrow> chain_api" where
  "LocalChainApi storage score finalizedHeight =
     \<lparr>chainStatistics = (\<lambda>_. Ok \<lparr>cs_Height = chainHeight storage, cs_FinalizedHeight = finalizedHeight, cs_Score = score\<rparr>),
      hashesFrom = (\<lambda>_ h maxHashes. let hashes = loadHashesFrom storage h (unat maxHashes)
                                     in if hashes = [] then Err Runtime_Error else Ok hashes)\<rparr>"

definition numAvailableBlocks :: "block_storage \<Rightarrow> height \<Rightarrow> 32 word" where
  "numAvailableBlocks storage h = ucast (chainHeight storage - h + 1)"

definition ClampNumHashes :: "block_storage \<Rightarrow> 32 word \<Rightarrow> height \<Rightarrow> 32 word \<Rightarrow> 32 word" where
  "ClampNumHashes storage maxHashes h requested = min (min maxHashes requested) (numAvailableBlocks storage h)"

text \<open>The hashes in the response; a request outside of the chain gets an empty response.\<close>

definition BlockHashesHandler :: "block_storage \<Rightarrow> 32 word \<Rightarrow> height \<Rightarrow> 32 word \<Rightarrow> hash256 list" where
  "BlockHashesHandler storage maxHashes h requested =
     (if chainHeight storage < h \<or> 0 = h then []
      else loadHashesFrom storage h (unat (ClampNumHashes storage maxHashes h requested)))"

definition honest_peer :: "block_storage \<Rightarrow> 128 word \<Rightarrow> 32 word \<Rightarrow> chain_api" where
  "honest_peer storage score maxHashes =
     \<lparr>chainStatistics = (\<lambda>_. Ok \<lparr>cs_Height = chainHeight storage, cs_FinalizedHeight = 0, cs_Score = score\<rparr>),
      hashesFrom = (\<lambda>_ h requested. Ok (BlockHashesHandler storage maxHashes h requested))\<rparr>"

subsection \<open>The comparison\<close>

datatype compare_stage = Statistics | Hashes_First | Hashes_Next | Score_Local

record compare_options =
  HashesPerBatch :: "32 word"
  FinalizedHeightSupplier :: "nat \<Rightarrow> height"

record compare_context =
  m_stage :: compare_stage
  m_lowerBoundHeight :: height
  m_upperBoundHeight :: height
  m_startingHashesHeight :: height
  m_originalLocalScore :: "128 word"
  m_localHeight :: height
  m_remoteHeight :: height
  m_commonBlockHeight :: height

record compare_result =
  Code :: chain_comparison_code
  CommonBlockHeight :: height
  ForkDepth :: "64 word"

definition new_compare_context :: compare_context where
  "new_compare_context = \<lparr>m_stage = Statistics, m_lowerBoundHeight = 0, m_upperBoundHeight = 0, m_startingHashesHeight = 0,
     m_originalLocalScore = 0, m_localHeight = 0, m_remoteHeight = 0, m_commonBlockHeight = 0\<rparr>"

fun FindFirstDifferenceIndex_range :: "'a list \<Rightarrow> 'a list \<Rightarrow> nat" where
  "FindFirstDifferenceIndex_range (x # xs) (y # ys) = (if x \<noteq> y then 0 else Suc (FindFirstDifferenceIndex_range xs ys))"
| "FindFirstDifferenceIndex_range _ _ = 0"

definition compareChainStatistics ::
  "height \<Rightarrow> chain_statistics \<Rightarrow> chain_statistics \<Rightarrow> compare_context \<Rightarrow> compare_context \<times> chain_comparison_code" where
  "compareChainStatistics finalizedHeight loc rem x =
     (if cs_Height rem \<le> finalizedHeight then (x, Remote_Is_Too_Far_Behind)
      else if cs_Score rem > cs_Score loc
      then (x\<lparr>m_originalLocalScore := cs_Score loc, m_localHeight := cs_Height loc, m_remoteHeight := cs_Height rem,
              m_upperBoundHeight := cs_Height loc, m_stage := Hashes_First\<rparr>, Incomplete_Chain_Comparison_Code)
      else (x, if cs_Score loc = cs_Score rem then Remote_Reported_Equal_Chain_Score else Remote_Reported_Lower_Chain_Score))"

definition tryContinue :: "height \<Rightarrow> compare_context \<Rightarrow> compare_context \<times> chain_comparison_code" where
  "tryContinue nextStartingHashesHeight x =
     (if m_startingHashesHeight x = nextStartingHashesHeight then (x, Remote_Lied_About_Chain_Score)
      else (x\<lparr>m_startingHashesHeight := nextStartingHashesHeight, m_stage := Hashes_Next\<rparr>, Incomplete_Chain_Comparison_Code))"

definition compareHashes :: "32 word \<Rightarrow> hash256 list \<Rightarrow> hash256 list \<Rightarrow> compare_context \<Rightarrow> compare_context \<times> chain_comparison_code" where
  "compareHashes hashesPerBatch localHashes remoteHashes x =
     (if length remoteHashes > unat hashesPerBatch \<or> 0 = length remoteHashes then (x, Remote_Returned_Too_Many_Hashes)
      else let firstDifferenceIndex = FindFirstDifferenceIndex_range localHashes remoteHashes
      in if m_stage x = Hashes_First \<and> 0 = firstDifferenceIndex then (x, Remote_Is_Forked)
      else let start = m_startingHashesHeight x;
               commonBlockHeight = start + (of_nat firstDifferenceIndex - 1);
               derived = start + (of_nat (min (length localHashes) (length remoteHashes)) - 1)
      in if 0 = firstDifferenceIndex
         then tryContinue ((m_lowerBoundHeight x + start) div 2) (x\<lparr>m_upperBoundHeight := start\<rparr>)
      else if length remoteHashes = firstDifferenceIndex
         then if derived \<ge> m_localHeight x
              then if derived < m_remoteHeight x then tryContinue (derived - 1) x
                   else (x\<lparr>m_stage := Score_Local\<rparr>, Incomplete_Chain_Comparison_Code)
              else tryContinue ((start + m_upperBoundHeight x) div 2) (x\<lparr>m_lowerBoundHeight := start\<rparr>)
      else (x\<lparr>m_commonBlockHeight := commonBlockHeight,
              m_localHeight := if derived > m_localHeight x then derived else m_localHeight x\<rparr>, Remote_Is_Not_Synced))"

definition compareLocalScore :: "128 word \<Rightarrow> compare_context \<Rightarrow> compare_context \<times> chain_comparison_code" where
  "compareLocalScore currentLocalScore x =
     (x, if currentLocalScore > m_originalLocalScore x then Local_Score_Updated else Remote_Lied_About_Chain_Score)"

text \<open>
  One stage, that is one call of \<^verbatim>\<open>startNextCompare\<close> up to the code its future delivers, as stage number \<open>t\<close>.
  The finalized height is asked for twice, in the first stage.
\<close>

definition startNextCompare ::
  "chain_api \<Rightarrow> chain_api \<Rightarrow> compare_options \<Rightarrow> nat \<Rightarrow> compare_context \<Rightarrow> (compare_context \<times> chain_comparison_code) result" where
  "startNextCompare loc rem options t x =
     (case m_stage x of
        Statistics \<Rightarrow>
          let f = FinalizedHeightSupplier options 0; x' = x\<lparr>m_lowerBoundHeight := f, m_startingHashesHeight := f\<rparr>
          in bind_result (chainStatistics loc t) (\<lambda>l. map_result (\<lambda>r.
               compareChainStatistics (FinalizedHeightSupplier options 1) l r x') (chainStatistics rem t))
      | Hashes_First \<Rightarrow> bind_result (hashesFrom loc t (m_startingHashesHeight x) (HashesPerBatch options)) (\<lambda>l.
          map_result (\<lambda>r. compareHashes (HashesPerBatch options) l r x)
            (hashesFrom rem t (m_startingHashesHeight x) (HashesPerBatch options)))
      | Hashes_Next \<Rightarrow> bind_result (hashesFrom loc t (m_startingHashesHeight x) (HashesPerBatch options)) (\<lambda>l.
          map_result (\<lambda>r. compareHashes (HashesPerBatch options) l r x)
            (hashesFrom rem t (m_startingHashesHeight x) (HashesPerBatch options)))
      | Score_Local \<Rightarrow> map_result (\<lambda>l. compareLocalScore (cs_Score l) x) (chainStatistics loc t))"

definition compare_finish :: "compare_context \<Rightarrow> chain_comparison_code \<Rightarrow> compare_result" where
  "compare_finish x code =
     (let forkDepth = m_localHeight x - m_commonBlockHeight x
      in if Remote_Is_Not_Synced = code
         then \<lparr>Code = code, CommonBlockHeight = m_commonBlockHeight x, ForkDepth = forkDepth\<rparr>
         else \<lparr>Code = code, CommonBlockHeight = - 1, ForkDepth = 0\<rparr>)"

text \<open>The chain of continuations; \<open>None\<close> if it is not complete after the given number of stages.\<close>

fun compare_stages ::
  "chain_api \<Rightarrow> chain_api \<Rightarrow> compare_options \<Rightarrow> nat \<Rightarrow> nat \<Rightarrow> compare_context \<Rightarrow> compare_result result option" where
  "compare_stages loc rem options 0 t x = None"
| "compare_stages loc rem options (Suc fuel) t x =
     (case startNextCompare loc rem options t x of
        Err e \<Rightarrow> Some (Err e)
      | Ok (x', code) \<Rightarrow> if Incomplete_Chain_Comparison_Code = code then compare_stages loc rem options fuel (Suc t) x'
                         else Some (Ok (compare_finish x' code)))"

definition CompareChains :: "chain_api \<Rightarrow> chain_api \<Rightarrow> compare_options \<Rightarrow> nat \<Rightarrow> compare_result result option" where
  "CompareChains loc rem options fuel = compare_stages loc rem options fuel 0 new_compare_context"

subsection \<open>Heights as natural numbers\<close>

lemma of_nat_height [simp]:
  assumes "a < 2 ^ 33" "b < 2 ^ 33"
  shows "unat (of_nat a :: height) = a" "(of_nat a :: height) = of_nat b \<longleftrightarrow> a = b"
    "(of_nat a :: height) \<le> of_nat b \<longleftrightarrow> a \<le> b" "(of_nat a :: height) < of_nat b \<longleftrightarrow> a < b"
proof -
  have u: "unat (of_nat n :: height) = n" if "n < 2 ^ 33" for n
    using that by (simp add: unat_of_nat take_bit_nat_eq_self)
  show "unat (of_nat a :: height) = a" "(of_nat a :: height) = of_nat b \<longleftrightarrow> a = b"
    "(of_nat a :: height) \<le> of_nat b \<longleftrightarrow> a \<le> b" "(of_nat a :: height) < of_nat b \<longleftrightarrow> a < b"
    using assms by (auto simp: word_unat_eq_iff word_le_nat_alt word_less_nat_alt u)
qed

lemma of_nat_height_div2:
  assumes "a < 2 ^ 32" "b < 2 ^ 32"
  shows "((of_nat a :: height) + of_nat b) div 2 = of_nat ((a + b) div 2)"
proof -
  have "unat (of_nat a + of_nat b :: height) = a + b"
    using assms by (simp add: unat_of_nat take_bit_nat_eq_self flip: of_nat_add)
  moreover have "(a + b) div 2 < 2 ^ 33" using assms by simp
  ultimately show ?thesis by (simp add: word_unat_eq_iff unat_div)
qed

lemma of_nat_height_pred: "1 \<le> d \<Longrightarrow> (of_nat s :: height) + (of_nat d - 1) = of_nat (s + d - 1)"
  by (simp add: of_nat_diff)

lemma of_nat_height_range:
  assumes "s \<le> L" "L < 2 ^ 32"
  shows "unat (of_nat L - of_nat s + 1 :: height) = Suc (L - s)"
proof -
  have "of_nat L - of_nat s + (1 :: height) = of_nat (Suc (L - s))" using assms by (simp add: of_nat_diff)
  moreover have "Suc (L - s) < 2 ^ 33" using assms by simp
  ultimately show ?thesis by (simp only: of_nat_height(1))
qed

subsection \<open>The answers of two nodes\<close>

lemma first_difference:
  assumes "d \<le> length xs" "d \<le> length ys" "\<forall>i < d. xs ! i = ys ! i" "d < length xs \<and> d < length ys \<longrightarrow> xs ! d \<noteq> ys ! d"
  shows "FindFirstDifferenceIndex_range xs ys = d"
  using assms
proof (induction xs ys arbitrary: d rule: FindFirstDifferenceIndex_range.induct)
  case (1 x xs y ys)
  then show ?case
  proof (cases d)
    case (Suc e)
    have "\<forall>i < e. xs ! i = ys ! i" using 1(4) Suc by auto
    moreover have "x = y" using 1(4) Suc by force
    ultimately show ?thesis using 1 Suc by simp
  qed auto
qed auto

text \<open>Two chains that agree exactly up to the height \<open>c\<close>.\<close>

definition fork_at :: "block_storage \<Rightarrow> block_storage \<Rightarrow> height \<Rightarrow> bool" where
  "fork_at a b c \<longleftrightarrow> c \<le> chainHeight a \<and> c \<le> chainHeight b \<and> (\<forall>h. 0 < h \<and> h \<le> c \<longrightarrow> blockHash a h = blockHash b h)
     \<and> (\<forall>h. c < h \<and> h \<le> chainHeight a \<and> h \<le> chainHeight b \<longrightarrow> blockHash a h \<noteq> blockHash b h)"

lemma loadHashesFrom_nat:
  assumes "chainHeight a = of_nat L" "0 < s" "s \<le> L" "L < 2 ^ 32"
  shows "loadHashesFrom a (of_nat s) n = map (\<lambda>i. blockHash a (of_nat (s + i))) [0..<min n (L - s + 1)]"
proof -
  have "unat (of_nat L - of_nat s + 1 :: height) = L - s + 1" using assms by (simp add: of_nat_height_range)
  moreover have "(0 :: height) \<noteq> of_nat s" using of_nat_height(2) [of 0 s] assms by simp
  ultimately show ?thesis using assms by (simp add: loadHashesFrom_def Let_def)
qed

lemma BlockHashesHandler_nat:
  assumes "chainHeight b = of_nat R" "0 < s" "s \<le> R" "R < 2 ^ 32" "K = min (unat Mx) (unat B)"
  shows "BlockHashesHandler b Mx (of_nat s) B = map (\<lambda>i. blockHash b (of_nat (s + i))) [0..<min K (R - s + 1)]"
proof -
  have "unat (numAvailableBlocks b (of_nat s)) = R - s + 1"
    using assms by (simp add: numAvailableBlocks_def of_nat_height_range unsigned_ucast_eq take_bit_nat_eq_self)
  then have "unat (ClampNumHashes b Mx (of_nat s) B) = min K (R - s + 1)"
    by (simp add: ClampNumHashes_def assms(5) min_def word_le_nat_alt)
  moreover have "(0 :: height) \<noteq> of_nat s" using of_nat_height(2) [of 0 s] assms by simp
  ultimately show ?thesis using assms
    by (simp add: BlockHashesHandler_def loadHashesFrom_nat [OF assms(1-4)])
qed

definition honest_setup :: "block_storage \<Rightarrow> block_storage \<Rightarrow> 32 word \<Rightarrow> 32 word \<Rightarrow> nat \<Rightarrow> nat \<Rightarrow> nat \<Rightarrow> bool" where
  "honest_setup a b B Mx L R c \<longleftrightarrow> chainHeight a = of_nat L \<and> chainHeight b = of_nat R \<and> L \<le> R \<and> R < 2 ^ 32
     \<and> c \<le> L \<and> c < R \<and> fork_at a b (of_nat c) \<and> 3 \<le> unat B \<and> 3 \<le> unat Mx"

definition local_batch :: "block_storage \<Rightarrow> 32 word \<Rightarrow> nat \<Rightarrow> nat \<Rightarrow> hash256 list" where
  "local_batch a B L s = map (\<lambda>i. blockHash a (of_nat (s + i))) [0..<min (unat B) (L - s + 1)]"

definition remote_batch :: "block_storage \<Rightarrow> 32 word \<Rightarrow> 32 word \<Rightarrow> nat \<Rightarrow> nat \<Rightarrow> hash256 list" where
  "remote_batch b B Mx R s = map (\<lambda>i. blockHash b (of_nat (s + i))) [0..<min (min (unat Mx) (unat B)) (R - s + 1)]"

lemma difference_nat:
  assumes "honest_setup a b B Mx L R c" "0 < s" "s \<le> L"
  shows "FindFirstDifferenceIndex_range (local_batch a B L s) (remote_batch b B Mx R s)
    = min (min (length (local_batch a B L s)) (length (remote_batch b B Mx R s))) (c + 1 - s)"
proof (rule first_difference)
  note hs = assms(1) [unfolded honest_setup_def]
  let ?d = "min (min (length (local_batch a B L s)) (length (remote_batch b B Mx R s))) (c + 1 - s)"
  have same: "blockHash a (of_nat n) = blockHash b (of_nat n)" if "0 < n" "n \<le> c" for n
  proof -
    have "0 < (of_nat n :: height)" "(of_nat n :: height) \<le> of_nat c" using hs that of_nat_height(4) [of 0 n] by auto
    then show ?thesis using hs by (auto simp: fork_at_def)
  qed
  have differ: "blockHash a (of_nat n) \<noteq> blockHash b (of_nat n)" if "c < n" "n \<le> L" for n
    using hs that by (auto simp: fork_at_def)
  show "\<forall>i < ?d. local_batch a B L s ! i = remote_batch b B Mx R s ! i"
    using assms(2) by (auto simp: local_batch_def remote_batch_def intro!: same simp flip: of_nat_add)
  show "?d < length (local_batch a B L s) \<and> ?d < length (remote_batch b B Mx R s) \<longrightarrow> local_batch a B L s ! ?d \<noteq> remote_batch b B Mx R s ! ?d"
  proof
    assume lt: "?d < length (local_batch a B L s) \<and> ?d < length (remote_batch b B Mx R s)"
    then have "?d = c + 1 - s" by linarith
    moreover from this lt assms have "c < s + ?d" "s + ?d \<le> L" by (auto simp: local_batch_def)
    from differ [OF this] show "local_batch a B L s ! ?d \<noteq> remote_batch b B Mx R s ! ?d"
      using lt by (simp add: local_batch_def remote_batch_def del: of_nat_add)
  qed
qed auto

definition search_context :: "compare_context \<Rightarrow> nat \<Rightarrow> nat \<Rightarrow> nat \<Rightarrow> nat \<Rightarrow> nat \<Rightarrow> nat \<Rightarrow> bool" where
  "search_context x L R c lo up s \<longleftrightarrow> (m_stage x = Hashes_First \<and> s \<le> c \<or> m_stage x = Hashes_Next)
     \<and> m_startingHashesHeight x = of_nat s \<and> m_lowerBoundHeight x = of_nat lo \<and> m_upperBoundHeight x = of_nat up
     \<and> m_localHeight x = of_nat L \<and> m_remoteHeight x = of_nat R"

lemma honest_batches:
  assumes "honest_setup a b B Mx L R c" "search_context x L R c lo up s" "0 < s" "s \<le> L" "HashesPerBatch options = B"
  shows "startNextCompare (LocalChainApi a sl f) (honest_peer b sr Mx) options t x
    = Ok (compareHashes B (local_batch a B L s) (remote_batch b B Mx R s) x)"
proof -
  note hs = assms(1) [unfolded honest_setup_def]
  have "loadHashesFrom a (of_nat s) (unat B) = local_batch a B L s"
    unfolding local_batch_def using hs assms by (intro loadHashesFrom_nat) auto
  moreover have "local_batch a B L s \<noteq> []" using hs by (auto simp: local_batch_def)
  moreover have "BlockHashesHandler b Mx (of_nat s) B = remote_batch b B Mx R s"
    unfolding remote_batch_def using hs assms by (intro BlockHashesHandler_nat) auto
  ultimately show ?thesis
    using assms(2,5) by (auto simp: startNextCompare_def search_context_def LocalChainApi_def honest_peer_def Let_def split: compare_stage.splits)
qed

lemma compareHashes_eval:
  assumes "length rs \<le> unat B" "rs \<noteq> []" "FindFirstDifferenceIndex_range ls rs = d" "m_stage x \<noteq> Hashes_First \<or> d \<noteq> 0"
    and "m_startingHashesHeight x + (of_nat d - 1) = C" "m_startingHashesHeight x + (of_nat (min (length ls) (length rs)) - 1) = E"
  shows "compareHashes B ls rs x =
    (if 0 = d then tryContinue ((m_lowerBoundHeight x + m_startingHashesHeight x) div 2) (x\<lparr>m_upperBoundHeight := m_startingHashesHeight x\<rparr>)
     else if length rs = d
     then if E \<ge> m_localHeight x
          then if E < m_remoteHeight x then tryContinue (E - 1) x
               else (x\<lparr>m_stage := Score_Local\<rparr>, Incomplete_Chain_Comparison_Code)
          else tryContinue ((m_startingHashesHeight x + m_upperBoundHeight x) div 2) (x\<lparr>m_lowerBoundHeight := m_startingHashesHeight x\<rparr>)
     else (x\<lparr>m_commonBlockHeight := C, m_localHeight := if E > m_localHeight x then E else m_localHeight x\<rparr>, Remote_Is_Not_Synced))"
  using assms by (auto simp: compareHashes_def Let_def)

lemma compareHashes_nat:
  assumes "honest_setup a b B Mx L R c" "search_context x L R c lo up s" "0 < s" "s \<le> L" "lo \<le> L" "up \<le> L"
  defines "nr \<equiv> min (min (unat Mx) (unat B)) (R - s + 1)"
  shows "compareHashes B (local_batch a B L s) (remote_batch b B Mx R s) x =
    (if c < s then tryContinue (of_nat ((lo + s) div 2)) (x\<lparr>m_upperBoundHeight := of_nat s\<rparr>)
     else if c + 1 - s < nr then (x\<lparr>m_commonBlockHeight := of_nat c\<rparr>, Remote_Is_Not_Synced)
     else if s + nr - 1 = L then tryContinue (of_nat (L - 1)) x
     else tryContinue (of_nat ((s + up) div 2)) (x\<lparr>m_lowerBoundHeight := of_nat s\<rparr>))"
proof -
  note hs = assms(1) [unfolded honest_setup_def]
  note ctx = assms(2) [unfolded search_context_def]
  define nl where "nl = min (unat B) (L - s + 1)"
  have len: "length (local_batch a B L s) = nl" "length (remote_batch b B Mx R s) = nr"
    by (auto simp: local_batch_def remote_batch_def nr_def nl_def)
  have nr: "1 \<le> nr" "nr \<le> unat B" "1 \<le> nl" "nl \<le> L - s + 1" "unat B \<le> nl \<or> nl = L - s + 1" using hs assms by (auto simp: nr_def nl_def)
  define d where "d = min (min nl nr) (c + 1 - s)"
  have diff: "FindFirstDifferenceIndex_range (local_batch a B L s) (remote_batch b B Mx R s) = d"
    unfolding difference_nat [OF assms(1,3,4)] len d_def ..
  have stage: "m_stage x \<noteq> Hashes_First \<or> d \<noteq> 0" using ctx nr by (auto simp: d_def)
  define e where "e = s + min nl nr - 1"
  have e: "m_startingHashesHeight x + (of_nat (min (length (local_batch a B L s)) (length (remote_batch b B Mx R s))) - 1) = of_nat e"
    unfolding len e_def using nr ctx by (simp only: of_nat_height_pred min.bounded_iff)
  have eL: "e \<le> L" using nr assms(4) by (auto simp: e_def)
  have bounds: "L < 2 ^ 32" "R < 2 ^ 32" using hs by auto
  have rs: "length (remote_batch b B Mx R s) \<le> unat B" "remote_batch b B Mx R s \<noteq> []" using len nr by auto
  note eval = compareHashes_eval [OF rs diff stage refl e]
  have heights: "m_startingHashesHeight x = of_nat s" "m_lowerBoundHeight x = of_nat lo" "m_upperBoundHeight x = of_nat up"
    "m_localHeight x = of_nat L" "m_remoteHeight x = of_nat R" using ctx by auto
  consider "c < s" | "s \<le> c" "c + 1 - s < nr" | "s \<le> c" "nr \<le> c + 1 - s" by linarith
  then show ?thesis
  proof cases
    case 1
    then have "d = 0" by (simp add: d_def)
    with 1 bounds assms(4,5) show ?thesis unfolding eval heights by (simp add: of_nat_height_div2)
  next
    case 2
    then have d: "d = c + 1 - s" using hs nr by (auto simp: d_def min_def)
    have "(of_nat s :: height) + (of_nat d - 1) = of_nat (s + d - 1)" using d 2 by (intro of_nat_height_pred) auto
    moreover have "s + d - 1 = c" using d 2 by simp
    ultimately have "(of_nat s :: height) + (of_nat d - 1) = of_nat c" by (simp only:)
    moreover have "x\<lparr>m_commonBlockHeight := of_nat c, m_localHeight := of_nat L\<rparr> = x\<lparr>m_commonBlockHeight := of_nat c\<rparr>"
      using heights(4) by (cases x) simp
    moreover have "\<not> (of_nat L :: height) < of_nat e" using eL bounds by simp
    moreover have "d \<noteq> 0" "nr \<noteq> d" using d 2 by auto
    ultimately show ?thesis using 2 unfolding eval heights len by (simp del: of_nat_add)
  next
    case 3
    then have nl: "nr \<le> nl" using hs nr by auto
    then have d: "d = nr" and e': "e = s + nr - 1" using 3 by (auto simp: d_def e_def min_def)
    have ec: "e \<le> c" "0 < L" using e' 3 assms(3,4) by simp_all
    have "(of_nat L :: height) - 1 = of_nat (L - 1)" using ec by (simp add: of_nat_diff)
    moreover have "(of_nat L :: height) \<le> of_nat e \<longleftrightarrow> e = L" "e = L \<longrightarrow> (of_nat e :: height) < of_nat R"
      using bounds eL ec hs by auto
    moreover have "d \<noteq> 0" "(of_nat s + of_nat up) div 2 = (of_nat ((s + up) div 2) :: height)"
      using d nr bounds assms(4,6) by (auto intro!: of_nat_height_div2)
    ultimately show ?thesis using 3 d unfolding eval heights len e' [symmetric] by auto
  qed
qed

subsection \<open>The search\<close>

lemma tryContinue_context:
  assumes "search_context x L R c lo up s" "s' \<noteq> s" "s < 2 ^ 32" "s' < 2 ^ 32"
  shows "\<exists>x'. tryContinue (of_nat s') x = (x', Incomplete_Chain_Comparison_Code) \<and> search_context x' L R c lo up s'"
  using assms by (auto simp: tryContinue_def search_context_def)

lemma search_context_bounds:
  assumes "search_context x L R c lo up s"
  shows "search_context (x\<lparr>m_upperBoundHeight := of_nat u\<rparr>) L R c lo u s" "search_context (x\<lparr>m_lowerBoundHeight := of_nat l\<rparr>) L R c l up s"
  using assms by (auto simp: search_context_def)

text \<open>The last stage.\<close>

lemma honest_last:
  assumes "honest_setup a b B Mx L R c" "search_context x L R c lo up s" "0 < s" "s \<le> c" "lo \<le> L" "up \<le> L" "HashesPerBatch options = B"
    and "c + 1 - s < min (min (unat Mx) (unat B)) (R - s + 1)"
  shows "compare_stages (LocalChainApi a sl f) (honest_peer b sr Mx) options (Suc n) t x
    = Some (Ok \<lparr>Code = Remote_Is_Not_Synced, CommonBlockHeight = of_nat c, ForkDepth = of_nat (L - c)\<rparr>)"
proof -
  have c: "c \<le> L" "s \<le> L" using assms(1,4) by (auto simp: honest_setup_def)
  have "startNextCompare (LocalChainApi a sl f) (honest_peer b sr Mx) options t x = Ok (x\<lparr>m_commonBlockHeight := of_nat c\<rparr>, Remote_Is_Not_Synced)"
    unfolding honest_batches [OF assms(1-3) c(2) assms(7)] compareHashes_nat [OF assms(1-3) c(2) assms(5,6)] using assms(4,8) by simp
  then show ?thesis using c assms(2) by (simp add: compare_finish_def search_context_def of_nat_diff)
qed

lemma honest_search:
  assumes "honest_setup a b B Mx L R c" "HashesPerBatch options = B"
    and "search_context x L R c lo up s" "0 < lo" "lo \<le> s" "s < up \<or> s \<le> c" "lo \<le> c" "up \<le> L" "up = L \<or> c < up"
    and "2 * (up - lo) + (if s = lo then 1 else 0) + 2 \<le> fuel"
  shows "compare_stages (LocalChainApi a sl f) (honest_peer b sr Mx) options fuel t x
    = Some (Ok \<lparr>Code = Remote_Is_Not_Synced, CommonBlockHeight = of_nat c, ForkDepth = of_nat (L - c)\<rparr>)"
  using assms(3-)
proof (induction fuel arbitrary: t x lo up s)
  case (Suc n)
  note hs = assms(1) [unfolded honest_setup_def]
  have s: "0 < s" "s \<le> L" "lo \<le> L" using Suc.prems hs by auto
  let ?nr = "min (min (unat Mx) (unat B)) (R - s + 1)"
  note stage = honest_batches [OF assms(1) Suc.prems(1) s(1,2) assms(2)] compareHashes_nat [OF assms(1) Suc.prems(1) s Suc.prems(6)]
  consider "c < s" | "s \<le> c" "c + 1 - s < ?nr" | "s \<le> c" "?nr \<le> c + 1 - s" "s + ?nr - 1 = L"
    | "s \<le> c" "?nr \<le> c + 1 - s" "s + ?nr - 1 \<noteq> L" by linarith
  then show ?case
  proof cases
    case 1
    have "(lo + s) div 2 \<noteq> s" "s < 2 ^ 32" "(lo + s) div 2 < 2 ^ 32" using 1 Suc.prems s hs by linarith+
    from tryContinue_context [OF search_context_bounds(1) [OF Suc.prems(1)] this, of s]
    obtain x' where x': "tryContinue (of_nat ((lo + s) div 2)) (x\<lparr>m_upperBoundHeight := of_nat s\<rparr>) = (x', Incomplete_Chain_Comparison_Code)"
        "search_context x' L R c lo s ((lo + s) div 2)"
      by blast
    have "compare_stages (LocalChainApi a sl f) (honest_peer b sr Mx) options n (Suc t) x'
        = Some (Ok \<lparr>Code = Remote_Is_Not_Synced, CommonBlockHeight = of_nat c, ForkDepth = of_nat (L - c)\<rparr>)"
      using 1 Suc.prems s by (intro Suc.IH [OF x'(2)]) auto
    then show ?thesis using 1 x'(1) by (simp add: stage)
  next
    case 2
    then show ?thesis using honest_last [OF assms(1) Suc.prems(1) s(1) _ s(3) Suc.prems(6) assms(2)] by blast
  next
    case 3
    have K: "3 \<le> min (unat Mx) (unat B)" using hs by simp
    have cL: "c = L" using 3 s hs by linarith
    moreover have "c < R" using hs by simp
    ultimately have R: "L < R" by simp
    with cL have "?nr = min (unat Mx) (unat B)" using 3(2) s by linarith
    then have s': "s + 2 \<le> L" using 3(3) K by linarith
    then have "L - 1 \<noteq> s" "s < 2 ^ 32" "L - 1 < 2 ^ 32" using hs by linarith+
    from tryContinue_context [OF Suc.prems(1) this]
    obtain x' where x': "tryContinue (of_nat (L - 1)) x = (x', Incomplete_Chain_Comparison_Code)" "search_context x' L R c lo up (L - 1)"
      by blast
    have n: "n = Suc (n - 1)" using Suc.prems by auto
    have "c + 1 - (L - 1) < min (min (unat Mx) (unat B)) (R - (L - 1) + 1)" using K cL s' R by linarith
    then have "compare_stages (LocalChainApi a sl f) (honest_peer b sr Mx) options n (Suc t) x'
        = Some (Ok \<lparr>Code = Remote_Is_Not_Synced, CommonBlockHeight = of_nat c, ForkDepth = of_nat (L - c)\<rparr>)"
      using honest_last [OF assms(1) x'(2) _ _ s(3) Suc.prems(6) assms(2), of sl f sr "n - 1" "Suc t"] s' cL n by simp
    moreover have "startNextCompare (LocalChainApi a sl f) (honest_peer b sr Mx) options t x = Ok (x', Incomplete_Chain_Comparison_Code)"
      unfolding stage if_not_P [OF leD [OF 3(1)]] if_not_P [OF leD [OF 3(2)]] if_P [OF 3(3)] x'(1) ..
    ultimately show ?thesis by simp
  next
    case 4
    have K: "3 \<le> min (unat Mx) (unat B)" using hs by simp
    have "c < R" "c \<le> L" using hs by auto
    then have nr: "?nr = min (unat Mx) (unat B)" using 4(1,2) s by linarith
    have up: "s + 3 \<le> up" using 4 K \<open>c \<le> L\<close> Suc.prems(7) unfolding nr by linarith
    then have "(s + up) div 2 \<noteq> s" "s < 2 ^ 32" "(s + up) div 2 < 2 ^ 32" using s hs Suc.prems(6) by linarith+
    from tryContinue_context [OF search_context_bounds(2) [OF Suc.prems(1)] this, of s]
    obtain x' where x': "tryContinue (of_nat ((s + up) div 2)) (x\<lparr>m_lowerBoundHeight := of_nat s\<rparr>) = (x', Incomplete_Chain_Comparison_Code)"
        "search_context x' L R c s up ((s + up) div 2)"
      by blast
    have "compare_stages (LocalChainApi a sl f) (honest_peer b sr Mx) options n (Suc t) x'
        = Some (Ok \<lparr>Code = Remote_Is_Not_Synced, CommonBlockHeight = of_nat c, ForkDepth = of_nat (L - c)\<rparr>)"
    proof (rule Suc.IH [OF x'(2) s(1)])
      have mid: "s < (s + up) div 2" "(s + up) div 2 < up" using up by linarith+
      then show "s \<le> (s + up) div 2" "(s + up) div 2 < up \<or> (s + up) div 2 \<le> c" by auto
      show "s \<le> c" "up \<le> L" "up = L \<or> c < up" by (fact 4(1) Suc.prems)+
      have "2 * (up - s) + 2 \<le> n" using Suc.prems(3,8) up by (cases "s = lo") auto
      then show "2 * (up - s) + (if (s + up) div 2 = s then 1 else 0) + 2 \<le> n" using mid by simp
    qed
    moreover have "startNextCompare (LocalChainApi a sl f) (honest_peer b sr Mx) options t x = Ok (x', Incomplete_Chain_Comparison_Code)"
      unfolding stage if_not_P [OF leD [OF 4(1)]] if_not_P [OF leD [OF 4(2)]] if_not_P [OF 4(3)] x'(1) ..
    ultimately show ?thesis by simp
  qed
qed simp

subsection \<open>Properties\<close>

lemma compare_honest:
  assumes "chainHeight a \<le> chainHeight b" "unat (chainHeight b) < 2 ^ 32" "fork_at a b c" "c < chainHeight b"
    and "0 < f" "f \<le> c" "sl < sr" "3 \<le> unat B" "3 \<le> unat Mx" "2 * (unat (chainHeight a) - unat f) + 4 \<le> fuel"
  shows "CompareChains (LocalChainApi a sl f) (honest_peer b sr Mx) \<lparr>HashesPerBatch = B, FinalizedHeightSupplier = (\<lambda>_. f)\<rparr> fuel
    = Some (Ok \<lparr>Code = Remote_Is_Not_Synced, CommonBlockHeight = c, ForkDepth = chainHeight a - c\<rparr>)"
proof -
  let ?L = "unat (chainHeight a)" and ?R = "unat (chainHeight b)" and ?c = "unat c" and ?f = "unat f"
  let ?options = "\<lparr>HashesPerBatch = B, FinalizedHeightSupplier = (\<lambda>_. f)\<rparr>"
  have le: "?L \<le> ?R" "?c \<le> ?L" "?c < ?R" "?f \<le> ?c" "0 < ?f"
    using assms by (auto simp: fork_at_def word_le_nat_alt word_less_nat_alt)
  have hs: "honest_setup a b B Mx ?L ?R ?c" using assms le by (simp add: honest_setup_def)
  define x where "x = new_compare_context\<lparr>m_lowerBoundHeight := f, m_startingHashesHeight := f, m_originalLocalScore := sl,
    m_localHeight := chainHeight a, m_remoteHeight := chainHeight b, m_upperBoundHeight := chainHeight a, m_stage := Hashes_First\<rparr>"
  have "\<not> chainHeight b \<le> f" using assms by auto
  then have first: "startNextCompare (LocalChainApi a sl f) (honest_peer b sr Mx) ?options 0 new_compare_context = Ok (x, Incomplete_Chain_Comparison_Code)"
    using assms(7) by (simp add: startNextCompare_def new_compare_context_def LocalChainApi_def honest_peer_def compareChainStatistics_def x_def)
  have ctx: "search_context x ?L ?R ?c ?f ?L ?f" using le by (simp add: search_context_def x_def)
  have "compare_stages (LocalChainApi a sl f) (honest_peer b sr Mx) ?options (fuel - 1) 1 x
      = Some (Ok \<lparr>Code = Remote_Is_Not_Synced, CommonBlockHeight = of_nat ?c, ForkDepth = of_nat (?L - ?c)\<rparr>)"
    using le assms(10) by (intro honest_search [OF hs _ ctx]) auto
  moreover have "fuel = Suc (fuel - 1)" using assms(10) by simp
  moreover have "of_nat (?L - ?c) = chainHeight a - c" using le by (simp add: of_nat_diff)
  moreover have "compare_stages (LocalChainApi a sl f) (honest_peer b sr Mx) ?options (Suc (fuel - 1)) 0 new_compare_context
      = compare_stages (LocalChainApi a sl f) (honest_peer b sr Mx) ?options (fuel - 1) 1 x" using first by simp
  ultimately show ?thesis unfolding CompareChains_def by simp
qed

text \<open>
  C18: Against an honest peer that is not behind in height and has a better score, the comparison ends
  after a number of stages linear in the number of blocks that are not final, with the last common block of the two
  chains and the depth of the fork, whatever the number of hashes per batch is, from three on.
\<close>

theorem compare_chains_honest:
  assumes "chainHeight a \<le> chainHeight b" "unat (chainHeight b) < 2 ^ 32" "fork_at a b c" "c < chainHeight b"
    and "0 < f" "f \<le> c" "sl < sr" "3 \<le> unat B" "3 \<le> unat Mx" "2 * (unat (chainHeight a) - unat f) + 4 \<le> fuel"
  shows "CompareChains (LocalChainApi a sl f) (honest_peer b sr Mx) \<lparr>HashesPerBatch = B, FinalizedHeightSupplier = (\<lambda>_. f)\<rparr> fuel
    = Some (Ok \<lparr>Code = Remote_Is_Not_Synced, CommonBlockHeight = c, ForkDepth = chainHeight a - c\<rparr>)"
  by (rule compare_honest [OF assms])

definition sample_chain :: "height \<Rightarrow> height \<Rightarrow> hash256 \<Rightarrow> block_storage" where
  "sample_chain n c e = \<lparr>chainHeight = n, blockHash = (\<lambda>h. if h \<le> c then ucast h else ucast h + e)\<rparr>"

lemma sample_fork: "fork_at (sample_chain n c 100) (sample_chain m c 200) c \<longleftrightarrow> c \<le> n \<and> c \<le> m"
  by (auto simp: fork_at_def sample_chain_def)

theorem compare_chains_honest_witness:
  "CompareChains (LocalChainApi (sample_chain 20 5 100) 1 1) (honest_peer (sample_chain 25 5 200) 2 4)
     \<lparr>HashesPerBatch = 3, FinalizedHeightSupplier = (\<lambda>_. 1)\<rparr> 50
   = Some (Ok \<lparr>Code = Remote_Is_Not_Synced, CommonBlockHeight = 5, ForkDepth = 15\<rparr>)"
proof -
  have "fork_at (sample_chain 20 5 100) (sample_chain 25 5 200) 5" by (simp add: sample_fork)
  then have "CompareChains (LocalChainApi (sample_chain 20 5 100) 1 1) (honest_peer (sample_chain 25 5 200) 2 4)
     \<lparr>HashesPerBatch = 3, FinalizedHeightSupplier = (\<lambda>_. 1)\<rparr> 50
   = Some (Ok \<lparr>Code = Remote_Is_Not_Synced, CommonBlockHeight = 5, ForkDepth = chainHeight (sample_chain 20 5 100) - 5\<rparr>)"
    by (intro compare_chains_honest) (simp_all add: sample_chain_def)
  then show ?thesis by (simp add: sample_chain_def)
qed

text \<open>
  An honest peer whose better chain is shorter than the local one can be taken for an evil one: the
  search asks for hashes above the height of the peer, whose handler answers with none.
\<close>

theorem compare_chains_shorter_peer:
  "fork_at (sample_chain 20 5 100) (sample_chain 8 5 200) 5
   \<and> (\<exists>r. CompareChains (LocalChainApi (sample_chain 20 5 100) 1 1) (honest_peer (sample_chain 8 5 200) 2 4)
        \<lparr>HashesPerBatch = 4, FinalizedHeightSupplier = (\<lambda>_. 1)\<rparr> 3 = Some (Ok r)
      \<and> IsRemoteEvil (Code r) \<and> ToNodeInteractionResultCode (Code r) = Interaction_Failure)"
proof
  show "fork_at (sample_chain 20 5 100) (sample_chain 8 5 200) 5" by (simp add: sample_fork)
  have "CompareChains (LocalChainApi (sample_chain 20 5 100) 1 1) (honest_peer (sample_chain 8 5 200) 2 4)
        \<lparr>HashesPerBatch = 4, FinalizedHeightSupplier = (\<lambda>_. 1)\<rparr> 3
      = Some (Ok \<lparr>Code = Remote_Returned_Too_Many_Hashes, CommonBlockHeight = - 1, ForkDepth = 0\<rparr>)"
    by code_simp
  moreover have "IsRemoteEvil Remote_Returned_Too_Many_Hashes" by code_simp
  ultimately show "\<exists>r. CompareChains (LocalChainApi (sample_chain 20 5 100) 1 1) (honest_peer (sample_chain 8 5 200) 2 4)
        \<lparr>HashesPerBatch = 4, FinalizedHeightSupplier = (\<lambda>_. 1)\<rparr> 3 = Some (Ok r)
      \<and> IsRemoteEvil (Code r) \<and> ToNodeInteractionResultCode (Code r) = Interaction_Failure"
    by (simp add: ToNodeInteractionResultCode_def)
qed

text \<open>
  A peer that repeats the local hashes from any height on, but for the height below the last one, where
  it answers with an unknown hash.
\<close>

definition evil_peer :: chain_api where
  "evil_peer = \<lparr>chainStatistics = (\<lambda>_. Ok \<lparr>cs_Height = 9, cs_FinalizedHeight = 0, cs_Score = 2\<rparr>),
     hashesFrom = (\<lambda>_ h n. Ok (if h = 3 then [0] else loadHashesFrom (sample_chain 4 4 0) h (unat n)))\<rparr>"

definition evil_options :: compare_options where
  "evil_options = \<lparr>HashesPerBatch = 10, FinalizedHeightSupplier = (\<lambda>_. 1)\<rparr>"

definition evil_context :: "compare_stage \<Rightarrow> height \<Rightarrow> height \<Rightarrow> compare_context" where
  "evil_context st up s = \<lparr>m_stage = st, m_lowerBoundHeight = 1, m_upperBoundHeight = up, m_startingHashesHeight = s,
     m_originalLocalScore = 1, m_localHeight = 4, m_remoteHeight = 9, m_commonBlockHeight = 0\<rparr>"

lemma evil_stages:
  "startNextCompare (LocalChainApi (sample_chain 4 4 0) 1 1) evil_peer evil_options t new_compare_context = Ok (evil_context Hashes_First 4 1, Incomplete_Chain_Comparison_Code)"
  "startNextCompare (LocalChainApi (sample_chain 4 4 0) 1 1) evil_peer evil_options t (evil_context Hashes_First 4 1) = Ok (evil_context Hashes_Next 4 3, Incomplete_Chain_Comparison_Code)"
  "startNextCompare (LocalChainApi (sample_chain 4 4 0) 1 1) evil_peer evil_options t (evil_context Hashes_Next 4 3) = Ok (evil_context Hashes_Next 3 2, Incomplete_Chain_Comparison_Code)"
  "startNextCompare (LocalChainApi (sample_chain 4 4 0) 1 1) evil_peer evil_options t (evil_context Hashes_Next 3 2) = Ok (evil_context Hashes_Next 3 3, Incomplete_Chain_Comparison_Code)"
  "startNextCompare (LocalChainApi (sample_chain 4 4 0) 1 1) evil_peer evil_options t (evil_context Hashes_Next 3 3) = Ok (evil_context Hashes_Next 3 2, Incomplete_Chain_Comparison_Code)"
  by code_simp+

text \<open>
  C39: A peer can keep the comparison going for ever: with such answers the search returns to a
  height it has tried before, so that no number of stages completes it.
\<close>

theorem compare_chains_endless:
  "CompareChains (LocalChainApi (sample_chain 4 4 0) 1 1) evil_peer evil_options fuel = None"
proof -
  let ?run = "compare_stages (LocalChainApi (sample_chain 4 4 0) 1 1) evil_peer evil_options"
  have loop: "?run n t (evil_context Hashes_Next 3 2) = None \<and> ?run n t (evil_context Hashes_Next 3 3) = None" for n t
    by (induction n arbitrary: t) (simp_all add: evil_stages)
  have "?run n t (evil_context Hashes_Next 4 3) = None" for n t by (cases n) (simp_all add: evil_stages loop)
  then have "?run n t (evil_context Hashes_First 4 1) = None" for n t by (cases n) (simp_all add: evil_stages)
  then show ?thesis unfolding CompareChains_def by (cases fuel) (simp_all add: evil_stages)
qed

end
