(* ===== verification/Chain_Synchronizer.thy ===== *)
theory Chain_Synchronizer
  imports Compare_Chains
begin

section \<open>Synchronization with a peer\<close>

text \<open>
  \<^verbatim>\<open>src/src/bitxorcore/chain/ChainSynchronizer.cpp\<close>: after a comparison the node pulls blocks from the peer until the fork
  is covered and hands them to the dispatcher of the block consumers.  The ranges that the dispatcher
  has not finished are kept in a queue that limits how much is pulled; further pulls expand the queue
  without a new comparison.  The dispatcher calls back from its own thread, so the operations of the
  queue, each under its lock, are the steps of a step relation.
\<close>

subsection \<open>Unprocessed elements\<close>

record element_info =
  ei_Id :: "64 word"
  ei_EndHeight :: height
  ei_NumBytes :: "64 word"

record unprocessed_elements =
  m_elements :: "element_info list"
  m_maxSize :: "64 word"
  m_numBytes :: "64 word"
  m_hasPendingSync :: bool
  m_dirty :: bool

definition new_unprocessed :: "64 word \<Rightarrow> unprocessed_elements" where
  "new_unprocessed maxSize = \<lparr>m_elements = [], m_maxSize = maxSize, m_numBytes = 0, m_hasPendingSync = False, m_dirty = False\<rparr>"

definition unprocessed_empty :: "unprocessed_elements \<Rightarrow> bool" where
  "unprocessed_empty u \<longleftrightarrow> 0 = m_numBytes u"

definition hasPendingOperation :: "unprocessed_elements \<Rightarrow> bool" where
  "hasPendingOperation u \<longleftrightarrow> 0 \<noteq> m_numBytes u \<or> m_hasPendingSync u"

definition shouldStartSync :: "unprocessed_elements \<Rightarrow> unprocessed_elements \<times> bool" where
  "shouldStartSync u =
     (if m_numBytes u \<ge> m_maxSize u \<or> m_hasPendingSync u \<or> m_dirty u then (u, False)
      else (u\<lparr>m_hasPendingSync := True\<rparr>, True))"

definition maxHeight :: "unprocessed_elements \<Rightarrow> height" where
  "maxHeight u = (if m_elements u = [] then 0 else ei_EndHeight (last (m_elements u)))"

record block_info =
  bi_Height :: height
  bi_Size :: "32 word"

definition totalSize :: "block_info list \<Rightarrow> 64 word" where
  "totalSize blocks = of_nat (\<Sum>b \<leftarrow> blocks. unat (bi_Size b))"

text \<open>The id is what the consumer of block ranges returns for the range, zero if it does not accept it.\<close>

definition unprocessed_add :: "64 word \<Rightarrow> block_info list \<Rightarrow> unprocessed_elements \<Rightarrow> unprocessed_elements \<times> bool" where
  "unprocessed_add newId blocks u =
     (if m_dirty u then (u, False)
      else let endHeight = bi_Height (last blocks); bufferSize = totalSize blocks
      in if 0 = newId then (u, False)
      else let info = \<lparr>ei_Id = newId, ei_EndHeight = endHeight, ei_NumBytes = bufferSize\<rparr>
      in (u\<lparr>m_numBytes := m_numBytes u + ei_NumBytes info, m_elements := m_elements u @ [info]\<rparr>, True))"

datatype completion_status = Status_Normal | Status_Aborted | Status_Consumed

text \<open>The front of an empty queue is undefined in C++; the model throws there.\<close>

definition unprocessed_remove :: "64 word \<Rightarrow> completion_status \<Rightarrow> unprocessed_elements \<Rightarrow> unprocessed_elements result" where
  "unprocessed_remove i status u =
     (case m_elements u of
        [] \<Rightarrow> Err Out_Of_Range
      | info # rest \<Rightarrow>
          if ei_Id info \<noteq> i then Err Invalid_Argument
          else let u' = u\<lparr>m_numBytes := m_numBytes u - ei_NumBytes info, m_elements := rest\<rparr>
               in Ok (u'\<lparr>m_dirty := hasPendingOperation u' \<and> Status_Normal \<noteq> status\<rparr>))"

definition clearPendingSync :: "unprocessed_elements \<Rightarrow> unprocessed_elements" where
  "clearPendingSync u =
     (let u' = u\<lparr>m_hasPendingSync := False\<rparr>
      in if m_dirty u' then u'\<lparr>m_dirty := hasPendingOperation u'\<rparr> else u')"

subsection \<open>Pulling blocks\<close>

text \<open>
  The blocks that are pulled from a height on, before they are handed over: the requests are
  repeated until the fork is covered or the peer has no more blocks.  A supplier of block ranges
  depends on the number of the request; \<open>None\<close> if the requests do not end.
\<close>

fun ChainBlocksFrom :: "(nat \<Rightarrow> height \<Rightarrow> block_info list result) \<Rightarrow> nat \<Rightarrow> nat \<Rightarrow> height \<Rightarrow> 64 word \<Rightarrow> block_info list \<Rightarrow> block_info list result option" where
  "ChainBlocksFrom futureSupplier 0 t height forkDepth blocks = None"
| "ChainBlocksFrom futureSupplier (Suc fuel) t height forkDepth blocks =
     (case futureSupplier t height of
        Err e \<Rightarrow> Some (Err e)
      | Ok batch \<Rightarrow>
          if batch = [] then Some (Ok blocks)
          else let endHeight = bi_Height (last batch); blocks' = blocks @ batch
               in if forkDepth \<le> of_nat (length blocks') then Some (Ok blocks')
                  else ChainBlocksFrom futureSupplier fuel (Suc t) (endHeight + 1) forkDepth blocks')"

definition CompleteChainBlocksFrom :: "64 word \<Rightarrow> block_info list \<Rightarrow> unprocessed_elements \<Rightarrow> unprocessed_elements \<times> interaction_result" where
  "CompleteChainBlocksFrom newId blocks u =
     (if blocks = [] then (u, Interaction_Neutral)
      else let (u', added) = unprocessed_add newId blocks u in (u', if added then Interaction_Success else Interaction_Neutral))"

text \<open>The comparison is skipped while there are unprocessed elements.\<close>

definition compareChains :: "chain_api \<Rightarrow> chain_api \<Rightarrow> compare_options \<Rightarrow> nat \<Rightarrow> unprocessed_elements \<Rightarrow> compare_result result option" where
  "compareChains loc rem options fuel u =
     (if unprocessed_empty u then CompareChains loc rem options fuel
      else Some (Ok \<lparr>Code = Remote_Is_Not_Synced, CommonBlockHeight = maxHeight u, ForkDepth = 0\<rparr>))"

text \<open>
  What a synchronization does once the comparison has a result: either a code for the interaction
  with the peer, or blocks to hand over.  Only runtime errors, of which the file errors are a kind, are
  turned into a failure.
\<close>

datatype sync_outcome = Sync_Code interaction_result | Sync_Blocks "block_info list" | Sync_Exception exn

fun catch_runtime_error :: "exn \<Rightarrow> sync_outcome" where
  "catch_runtime_error Runtime_Error = Sync_Code Interaction_Failure"
| "catch_runtime_error File_Io_Error = Sync_Code Interaction_Failure"
| "catch_runtime_error e = Sync_Exception e"

definition syncWithPeer :: "(nat \<Rightarrow> height \<Rightarrow> block_info list result) \<Rightarrow> nat \<Rightarrow> compare_result \<Rightarrow> sync_outcome option" where
  "syncWithPeer blocksFrom fuel r =
     (if Code r \<noteq> Remote_Is_Not_Synced then Some (Sync_Code (ToNodeInteractionResultCode (Code r)))
      else map_option (\<lambda>p. case p of Err e \<Rightarrow> catch_runtime_error e | Ok blocks \<Rightarrow> Sync_Blocks blocks)
             (ChainBlocksFrom blocksFrom fuel 0 (CommonBlockHeight r + 1) (ForkDepth r) []))"

text \<open>The network part of one synchronization, begun in the state \<open>u\<close> of the queue.\<close>

definition sync_outcome_of :: "chain_api \<Rightarrow> chain_api \<Rightarrow> compare_options \<Rightarrow> (nat \<Rightarrow> height \<Rightarrow> block_info list result) \<Rightarrow> nat \<Rightarrow> unprocessed_elements \<Rightarrow> sync_outcome option" where
  "sync_outcome_of loc rem options blocksFrom fuel u =
     (case compareChains loc rem options fuel u of
        None \<Rightarrow> None
      | Some (Err e) \<Rightarrow> Some (catch_runtime_error e)
      | Some (Ok r) \<Rightarrow> syncWithPeer blocksFrom fuel r)"

text \<open>
  The states of the queue, with a flag that says whether the current synchronization has handed over its
  blocks.  A synchronization starts, may hand over blocks (one range, of at most \<open>maxRange\<close> bytes)
  and ends; at any time the dispatcher may finish its first element.
\<close>

inductive sync_step :: "nat \<Rightarrow> bool \<times> unprocessed_elements \<Rightarrow> bool \<times> unprocessed_elements \<Rightarrow> bool" for maxRange where
  refuse: "sync_step maxRange (handed, u) (handed, u')" if "shouldStartSync u = (u', False)"
| start: "sync_step maxRange (handed, u) (False, u')" if "shouldStartSync u = (u', True)"
| hand_over: "sync_step maxRange (False, u) (True, u')" if "m_hasPendingSync u" "0 < (\<Sum>b \<leftarrow> blocks. unat (bi_Size b))"
    "(\<Sum>b \<leftarrow> blocks. unat (bi_Size b)) \<le> maxRange" "CompleteChainBlocksFrom newId blocks u = (u', code)"
| end_sync: "sync_step maxRange (handed, u) (handed, clearPendingSync u)" if "m_hasPendingSync u"
| finished: "sync_step maxRange (handed, u) (handed, u')" if "unprocessed_remove i status u = Ok u'"

subsection \<open>Invariant of the queue\<close>

definition queue_bytes :: "unprocessed_elements \<Rightarrow> nat" where
  "queue_bytes u = (\<Sum>e \<leftarrow> m_elements u. unat (ei_NumBytes e))"

definition sync_inv :: "64 word \<Rightarrow> nat \<Rightarrow> bool \<times> unprocessed_elements \<Rightarrow> bool" where
  "sync_inv maxSize maxRange = (\<lambda>(handed, u). m_maxSize u = maxSize
     \<and> unat (m_numBytes u) = queue_bytes u \<and> (\<forall>e \<in> set (m_elements u). 0 < ei_NumBytes e)
     \<and> (if m_hasPendingSync u \<and> \<not> handed then queue_bytes u < unat maxSize else queue_bytes u \<le> unat maxSize + maxRange)
     \<and> (m_dirty u \<longrightarrow> hasPendingOperation u))"

lemma unprocessed_remove_ok:
  assumes "unprocessed_remove i status u = Ok u'" "unat (m_numBytes u) = queue_bytes u"
  obtains e where "m_elements u = e # m_elements u'" "ei_Id e = i" "m_maxSize u' = m_maxSize u" "m_hasPendingSync u' = m_hasPendingSync u"
    "queue_bytes u = unat (ei_NumBytes e) + queue_bytes u'" "unat (m_numBytes u') = queue_bytes u'"
    "m_dirty u' \<longleftrightarrow> hasPendingOperation u' \<and> status \<noteq> Status_Normal"
proof (cases "m_elements u")
  case Nil
  then show ?thesis using assms by (simp add: unprocessed_remove_def)
next
  case (Cons e es)
  with assms(1) have u': "ei_Id e = i" "u' = u\<lparr>m_numBytes := m_numBytes u - ei_NumBytes e, m_elements := es,
      m_dirty := hasPendingOperation (u\<lparr>m_numBytes := m_numBytes u - ei_NumBytes e, m_elements := es\<rparr>) \<and> Status_Normal \<noteq> status\<rparr>"
    by (auto simp: unprocessed_remove_def Let_def split: if_splits)
  have sum: "queue_bytes u = unat (ei_NumBytes e) + queue_bytes u'" using Cons u' by (simp add: queue_bytes_def)
  then have "ei_NumBytes e \<le> m_numBytes u" using assms(2) by (simp add: word_le_nat_alt)
  then have "unat (m_numBytes u - ei_NumBytes e) = queue_bytes u'" using sum assms(2) by (simp add: unat_sub)
  then show ?thesis using that [of e] Cons u' sum by (auto simp: hasPendingOperation_def)
qed

lemma complete_cases:
  assumes "CompleteChainBlocksFrom newId blocks u = (u', code)"
  shows "u' = u \<or> (\<exists>e. ei_NumBytes e = totalSize blocks \<and> \<not> m_dirty u
    \<and> u' = u\<lparr>m_numBytes := m_numBytes u + totalSize blocks, m_elements := m_elements u @ [e]\<rparr>)"
  using assms by (auto simp: CompleteChainBlocksFrom_def unprocessed_add_def Let_def split: if_splits prod.splits intro!: exI)

lemma sync_step_inv:
  assumes "sync_step maxRange s s'" "sync_inv maxSize maxRange s" "unat maxSize + maxRange < 2 ^ 64"
  shows "sync_inv maxSize maxRange s'"
  using assms(1,2)
proof cases
  case (hand_over u blocks newId u' code)
  let ?n = "\<Sum>b \<leftarrow> blocks. unat (bi_Size b)"
  have n: "unat (totalSize blocks) = ?n" using hand_over(5) assms(3) by (simp add: totalSize_def unat_of_nat take_bit_nat_eq_self)
  have pos: "0 < totalSize blocks" using n hand_over(4) by (simp add: word_less_nat_alt)
  have u: "queue_bytes u < unat maxSize" "unat (m_numBytes u) = queue_bytes u" using assms(2) hand_over by (auto simp: sync_inv_def)
  show ?thesis
  proof (cases "u' = u")
    case True
    then show ?thesis using assms(2) hand_over u by (simp add: sync_inv_def)
  next
    case False
    then obtain e where e: "ei_NumBytes e = totalSize blocks" "\<not> m_dirty u"
        "u' = u\<lparr>m_numBytes := m_numBytes u + totalSize blocks, m_elements := m_elements u @ [e]\<rparr>"
      using complete_cases [OF hand_over(6)] by blast
    have "unat (m_numBytes u') = queue_bytes u + ?n"
      using u n hand_over(5) assms(3) by (simp add: e(3) unat_add_lem [THEN iffD1])
    moreover have "queue_bytes u' = queue_bytes u + ?n" using e(1) n by (simp add: e(3) queue_bytes_def)
    moreover have "m_maxSize u' = maxSize" "\<forall>e \<in> set (m_elements u'). 0 < ei_NumBytes e" "\<not> m_dirty u'"
      using assms(2) hand_over(1) e pos by (auto simp: sync_inv_def)
    moreover have "queue_bytes u + ?n \<le> unat maxSize + maxRange" using u(1) hand_over(5) by simp
    ultimately show ?thesis unfolding hand_over(2) sync_inv_def by simp
  qed
next
  case (finished i status u u' handed)
  then have "unat (m_numBytes u) = queue_bytes u" using assms(2) by (simp add: sync_inv_def)
  from unprocessed_remove_ok [OF finished(3) this]
  obtain e where e: "m_elements u = e # m_elements u'" "m_maxSize u' = m_maxSize u" "m_hasPendingSync u' = m_hasPendingSync u"
    "queue_bytes u = unat (ei_NumBytes e) + queue_bytes u'" "unat (m_numBytes u') = queue_bytes u'"
    "m_dirty u' \<longleftrightarrow> hasPendingOperation u' \<and> status \<noteq> Status_Normal" by metis
  have "sync_inv maxSize maxRange (handed, u)" using assms(2) finished(1) by simp
  then show ?thesis unfolding finished(2) sync_inv_def using e(2-6) by (cases "m_hasPendingSync u"; cases handed) (simp_all add: e(1))
qed (auto simp: sync_inv_def shouldStartSync_def clearPendingSync_def hasPendingOperation_def queue_bytes_def word_le_nat_alt Let_def split: if_splits)

definition sync_reachable :: "64 word \<Rightarrow> nat \<Rightarrow> bool \<times> unprocessed_elements \<Rightarrow> bool" where
  "sync_reachable maxSize maxRange = (sync_step maxRange)\<^sup>*\<^sup>* (False, new_unprocessed maxSize)"

lemma sync_reachable_inv:
  assumes "sync_reachable maxSize maxRange s" "unat maxSize + maxRange < 2 ^ 64"
  shows "sync_inv maxSize maxRange s"
  using assms(1) unfolding sync_reachable_def
proof (induction rule: rtranclp_induct)
  case base
  then show ?case by (simp add: sync_inv_def new_unprocessed_def queue_bytes_def)
next
  case (step s s')
  then show ?case using sync_step_inv assms(2) by blast
qed

text \<open>The dispatcher finishes all its elements.\<close>

lemma drain:
  assumes "length statuses = length (m_elements u)" "unat (m_numBytes u) = queue_bytes u" "\<not> m_hasPendingSync u" "m_dirty u \<longrightarrow> hasPendingOperation u"
  shows "\<exists>u'. fold_result (\<lambda>(e, status). unprocessed_remove (ei_Id e) status) (zip (m_elements u) statuses) u = Ok u'
    \<and> m_elements u' = [] \<and> m_numBytes u' = 0 \<and> \<not> m_hasPendingSync u' \<and> \<not> m_dirty u' \<and> m_maxSize u' = m_maxSize u"
  using assms
proof (induction statuses arbitrary: u)
  case Nil
  then show ?case by (auto simp: queue_bytes_def hasPendingOperation_def unat_eq_zero)
next
  case (Cons status statuses)
  then obtain e es where es: "m_elements u = e # es" by (cases "m_elements u") auto
  then obtain u1 where u1: "unprocessed_remove (ei_Id e) status u = Ok u1" by (simp add: unprocessed_remove_def Let_def)
  from unprocessed_remove_ok [OF u1 Cons.prems(2)] es
  have u1': "m_elements u1 = es" "m_maxSize u1 = m_maxSize u" "m_hasPendingSync u1 = m_hasPendingSync u"
    "unat (m_numBytes u1) = queue_bytes u1" "m_dirty u1 \<longrightarrow> hasPendingOperation u1" by auto
  then show ?case using Cons.IH [of u1] Cons.prems es u1 by simp
qed

text \<open>Pulling ends: every answer that is not empty brings the number of blocks closer to the depth of the fork.\<close>

lemma ChainBlocksFrom_ends:
  assumes "unat forkDepth < length blocks + fuel" "length blocks < unat forkDepth \<or> blocks = []" "0 < fuel"
    and depth: "unat forkDepth < 2 ^ 63" and answers: "\<forall>t h bs. supplier t h = Ok bs \<longrightarrow> length bs < 2 ^ 32"
  shows "\<exists>r. ChainBlocksFrom supplier fuel t height forkDepth blocks = Some r"
  using assms(1-3)
proof (induction fuel arbitrary: t height blocks)
  case (Suc n)
  show ?case
  proof (cases "supplier t height")
    case (Ok bs)
    show ?thesis
    proof (cases "bs = [] \<or> forkDepth \<le> of_nat (length (blocks @ bs))")
      case False
      have "length blocks \<le> unat forkDepth" using Suc.prems(2) by auto
      then have "length (blocks @ bs) < 2 ^ 64" using depth answers Ok by (auto dest!: spec)
      then have "unat (of_nat (length (blocks @ bs)) :: 64 word) = length (blocks @ bs)"
        by (simp add: unat_of_nat take_bit_nat_eq_self del: of_nat_add length_append)
      then have less: "length (blocks @ bs) < unat forkDepth" using False by (simp add: word_le_nat_alt)
      have "0 < length bs" using False by simp
      then have "unat forkDepth < length (blocks @ bs) + n" using Suc.prems(1) unfolding length_append by linarith
      then have "\<exists>r. ChainBlocksFrom supplier n (Suc t) (bi_Height (last bs) + 1) forkDepth (blocks @ bs) = Some r"
        using less by (intro Suc.IH) auto
      then show ?thesis using Ok False by simp
    qed (use Ok in auto)
  qed simp
qed simp

text \<open>A peer at rest that answers every request with the blocks it has, one or more at a time.\<close>

definition honest_blocks :: "(nat \<Rightarrow> block_info) \<Rightarrow> nat \<Rightarrow> (nat \<Rightarrow> height \<Rightarrow> block_info list result) \<Rightarrow> bool" where
  "honest_blocks blk R supplier \<longleftrightarrow> (\<forall>n. bi_Height (blk n) = of_nat n) \<and>
     (\<forall>t n. 0 < n \<and> n \<le> R \<longrightarrow> (\<exists>m. n < m \<and> m \<le> Suc R \<and> supplier t (of_nat n) = Ok (map blk [n..<m])))
     \<and> (\<forall>t. supplier t (of_nat (Suc R)) = Ok [])"

lemma ChainBlocksFrom_honest:
  assumes "honest_blocks blk R supplier" "0 < n" "n \<le> Suc R" "blocks = map blk [k..<n]" "k \<le> n" "R < 2 ^ 32" "Suc R - n < fuel"
  shows "\<exists>m. n \<le> m \<and> m \<le> Suc R \<and> ChainBlocksFrom supplier fuel t (of_nat n) forkDepth blocks = Some (Ok (map blk [k..<m]))
    \<and> (unat forkDepth \<le> m - k \<or> m = Suc R)"
  using assms(2-5,7)
proof (induction fuel arbitrary: t n blocks)
  case (Suc f)
  show ?case
  proof (cases "n = Suc R")
    case True
    then show ?thesis using Suc.prems assms(1) by (intro exI [of _ n]) (auto simp: honest_blocks_def)
  next
    case False
    then obtain m where m: "n < m" "m \<le> Suc R" "supplier t (of_nat n) = Ok (map blk [n..<m])"
      using assms(1) Suc.prems by (auto simp: honest_blocks_def) (metis le_SucE less_imp_le_nat)
    have blocks: "blocks @ map blk [n..<m] = map blk [k..<m]"
      using Suc.prems(3,4) m(1) by (metis map_append upt_add_eq_append le_add_diff_inverse less_imp_le_nat)
    have last: "bi_Height (last (map blk [n..<m])) + 1 = of_nat m"
    proof -
      have "last (map blk [n..<m]) = blk (m - 1)" using m(1) by (simp add: last_map)
      then show ?thesis using assms(1) m(1) by (simp add: honest_blocks_def of_nat_diff)
    qed
    have len: "unat (of_nat (m - k) :: 64 word) = m - k" using m(2) assms(6) by (simp add: unat_of_nat take_bit_nat_eq_self)
    show ?thesis
    proof (cases "forkDepth \<le> of_nat (m - k)")
      case True
      then have "unat forkDepth \<le> m - k" using len by (simp add: word_le_nat_alt)
      with True m blocks show ?thesis by (intro exI [of _ m]) (simp add: Let_def)
    next
      case False
      have "Suc R - m < f" using m(1,2) Suc.prems(5) by linarith
      with Suc.IH [of m "map blk [k..<m]" "Suc t"] Suc.prems m
      obtain m' where "m \<le> m'" "m' \<le> Suc R" "ChainBlocksFrom supplier f (Suc t) (of_nat m) forkDepth (map blk [k..<m]) = Some (Ok (map blk [k..<m']))"
          "unat forkDepth \<le> m' - k \<or> m' = Suc R" by auto
      then show ?thesis using False m blocks last by (intro exI [of _ m']) (simp add: Let_def)
    qed
  qed
qed simp

subsection \<open>Properties\<close>

text \<open>
  C29: In every state that starts, ends, hand-overs and completions in any order reach, the reported number of
  bytes is the size of the queue, it exceeds the limit by at most one range, and the queue is not dirty
  without reason; once the synchronization ends and the dispatcher finishes all elements, with whatever
  results, the next synchronization may start.
\<close>

theorem sync_queue:
  assumes "sync_reachable maxSize maxRange (handed, u)" "unat maxSize + maxRange < 2 ^ 64" "0 < maxSize"
    and "length statuses = length (m_elements u)"
  shows "unat (m_numBytes u) = queue_bytes u \<and> queue_bytes u \<le> unat maxSize + maxRange
    \<and> (unprocessed_empty u \<longleftrightarrow> m_elements u = [])
    \<and> (\<exists>u'. fold_result (\<lambda>(e, status). unprocessed_remove (ei_Id e) status) (zip (m_elements u) statuses) (clearPendingSync u) = Ok u'
        \<and> unprocessed_empty u' \<and> shouldStartSync u' = (u'\<lparr>m_hasPendingSync := True\<rparr>, True))"
proof -
  have inv: "m_maxSize u = maxSize" "unat (m_numBytes u) = queue_bytes u" "\<forall>e \<in> set (m_elements u). 0 < ei_NumBytes e"
      "queue_bytes u \<le> unat maxSize + maxRange" "m_dirty u \<longrightarrow> hasPendingOperation u"
    using sync_reachable_inv [OF assms(1,2)] by (auto simp: sync_inv_def split: if_splits)
  have "m_elements u = [] \<longleftrightarrow> queue_bytes u = 0" using inv(3) by (cases "m_elements u") (auto simp: queue_bytes_def unat_eq_zero)
  then have "unprocessed_empty u \<longleftrightarrow> m_elements u = []" using inv(2) by (auto simp: unprocessed_empty_def unat_eq_zero)
  moreover have clear: "m_elements (clearPendingSync u) = m_elements u" "m_numBytes (clearPendingSync u) = m_numBytes u"
      "\<not> m_hasPendingSync (clearPendingSync u)" "m_maxSize (clearPendingSync u) = maxSize"
      "m_dirty (clearPendingSync u) \<longrightarrow> hasPendingOperation (clearPendingSync u)"
    using inv(1) by (simp_all add: clearPendingSync_def hasPendingOperation_def Let_def)
  moreover obtain u' where u': "fold_result (\<lambda>(e, status). unprocessed_remove (ei_Id e) status) (zip (m_elements u) statuses) (clearPendingSync u) = Ok u'"
      "m_numBytes u' = 0" "\<not> m_hasPendingSync u'" "\<not> m_dirty u'" "m_maxSize u' = maxSize"
    using drain [of statuses "clearPendingSync u"] inv(2) assms(4) clear(3,5) unfolding queue_bytes_def clear(1,2,4) by blast
  ultimately show ?thesis using inv assms(3) by (auto simp: unprocessed_empty_def shouldStartSync_def)
qed

theorem sync_queue_witness:
  "\<exists>u'. fold_result (\<lambda>(e, status). unprocessed_remove (ei_Id e) status)
       (zip [\<lparr>ei_Id = 3, ei_EndHeight = 8, ei_NumBytes = 50\<rparr>] [Status_Aborted])
       (clearPendingSync ((new_unprocessed 100)\<lparr>m_elements := [\<lparr>ei_Id = 3, ei_EndHeight = 8, ei_NumBytes = 50\<rparr>], m_numBytes := 50, m_hasPendingSync := True\<rparr>)) = Ok u'
     \<and> unprocessed_empty u' \<and> shouldStartSync u' = (u'\<lparr>m_hasPendingSync := True\<rparr>, True)"
proof -
  let ?e = "\<lparr>ei_Id = 3, ei_EndHeight = 8, ei_NumBytes = 50\<rparr>"
  let ?u = "(new_unprocessed 100)\<lparr>m_elements := [?e], m_numBytes := 50, m_hasPendingSync := True\<rparr>"
  let ?b = "\<lparr>bi_Height = 8, bi_Size = 50\<rparr>"
  have "sync_step 60 (False, new_unprocessed 100) (False, (new_unprocessed 100)\<lparr>m_hasPendingSync := True\<rparr>)"
    by (rule sync_step.start) (simp add: shouldStartSync_def new_unprocessed_def)
  moreover have "sync_step 60 (False, (new_unprocessed 100)\<lparr>m_hasPendingSync := True\<rparr>) (True, ?u)"
    by (rule sync_step.hand_over [where blocks = "[?b]" and newId = 3])
      (simp_all add: CompleteChainBlocksFrom_def unprocessed_add_def totalSize_def new_unprocessed_def)
  ultimately have reach: "sync_reachable 100 60 (True, ?u)" unfolding sync_reachable_def by (meson converse_rtranclp_into_rtranclp rtranclp.rtrancl_refl)
  have el: "m_elements ?u = [?e]" by simp
  have "\<exists>u'. fold_result (\<lambda>(e, status). unprocessed_remove (ei_Id e) status) (zip (m_elements ?u) [Status_Aborted]) (clearPendingSync ?u) = Ok u'
     \<and> unprocessed_empty u' \<and> shouldStartSync u' = (u'\<lparr>m_hasPendingSync := True\<rparr>, True)"
    using sync_queue [OF reach, of "[Status_Aborted]"] by simp
  then show ?thesis unfolding el .
qed

text \<open>
  C33: Pulling blocks ends after at most one more answer than the fork is deep, whatever the peer answers, if
  the fork depth is below \<open>2 ^ 63\<close> and no answer has \<open>2 ^ 32\<close> blocks or more.
\<close>

theorem pull_terminates:
  assumes "unat forkDepth < fuel" "unat forkDepth < 2 ^ 63" "\<forall>t h bs. supplier t h = Ok bs \<longrightarrow> length bs < 2 ^ 32"
  shows "\<exists>r. ChainBlocksFrom supplier fuel t height forkDepth [] = Some r"
  using ChainBlocksFrom_ends [of forkDepth "[]" fuel supplier t height] assms by simp

theorem pull_terminates_witness:
  "\<exists>r. ChainBlocksFrom (\<lambda>_ h. Ok [\<lparr>bi_Height = h, bi_Size = 1\<rparr>]) 6 0 7 5 [] = Some r"
  by (rule pull_terminates) auto

text \<open>
  C19: A synchronization with an honest peer at rest that has a better and not a shorter chain ends,
  and it hands over consecutive blocks from the one after the last common block, at
  least up to the height of the local chain.
\<close>

theorem sync_with_honest_peer:
  assumes "chainHeight a \<le> chainHeight b" "unat (chainHeight b) < 2 ^ 32" "fork_at a b c" "c < chainHeight b"
    and "0 < f" "f \<le> c" "sl < sr" "3 \<le> unat B" "3 \<le> unat Mx"
    and "honest_blocks blk (unat (chainHeight b)) blocksFrom" "unprocessed_empty u" "2 * unat (chainHeight b) + 4 \<le> fuel"
  shows "\<exists>m. unat (chainHeight a) < m \<and> m \<le> Suc (unat (chainHeight b))
    \<and> sync_outcome_of (LocalChainApi a sl f) (honest_peer b sr Mx) \<lparr>HashesPerBatch = B, FinalizedHeightSupplier = (\<lambda>_. f)\<rparr> blocksFrom fuel u
      = Some (Sync_Blocks (map blk [Suc (unat c)..<m]))"
proof -
  let ?R = "unat (chainHeight b)"
  have le: "unat (chainHeight a) \<le> ?R" "unat c \<le> unat (chainHeight a)" "unat c < ?R"
    using assms(1,3,4) by (auto simp: fork_at_def word_le_nat_alt word_less_nat_alt)
  have cmp: "CompareChains (LocalChainApi a sl f) (honest_peer b sr Mx) \<lparr>HashesPerBatch = B, FinalizedHeightSupplier = (\<lambda>_. f)\<rparr> fuel
      = Some (Ok \<lparr>Code = Remote_Is_Not_Synced, CommonBlockHeight = c, ForkDepth = chainHeight a - c\<rparr>)"
    using assms(12) le by (intro compare_honest [OF assms(1-9)]) auto
  have depth: "unat (chainHeight a - c) = unat (chainHeight a) - unat c" using assms(3) by (simp add: fork_at_def unat_sub)
  have next_height: "c + 1 = of_nat (Suc (unat c))" by simp
  have "Suc ?R - Suc (unat c) < fuel" using assms(12) by linarith
  then obtain m where m: "Suc (unat c) \<le> m" "m \<le> Suc ?R" "ChainBlocksFrom blocksFrom fuel 0 (c + 1) (chainHeight a - c) [] = Some (Ok (map blk [Suc (unat c)..<m]))"
      "unat (chainHeight a - c) \<le> m - Suc (unat c) \<or> m = Suc ?R"
    using ChainBlocksFrom_honest [OF assms(10), of "Suc (unat c)" "[]" "Suc (unat c)" fuel 0 "chainHeight a - c"] le assms(2,12) unfolding next_height by auto
  have "unat (chainHeight a) < m" using m le depth by auto
  then show ?thesis using m assms(11)
    by (intro exI [of _ m]) (simp add: sync_outcome_of_def compareChains_def cmp syncWithPeer_def)
qed

definition sample_block :: "nat \<Rightarrow> block_info" where
  "sample_block n = \<lparr>bi_Height = of_nat n, bi_Size = 100\<rparr>"

definition sample_blocksFrom :: "nat \<Rightarrow> height \<Rightarrow> block_info list result" where
  "sample_blocksFrom t h = Ok (if 0 < h \<and> h \<le> 25 then [sample_block (unat h)] else [])"

lemma sample_honest_blocks: "honest_blocks sample_block 25 sample_blocksFrom"
proof -
  have "sample_blocksFrom t (of_nat n) = Ok (map sample_block [n..<Suc n])" if "0 < n" "n \<le> 25" for t n
    using that of_nat_height [of n 25] of_nat_height(4) [of 0 n] by (simp add: sample_blocksFrom_def)
  then show ?thesis unfolding honest_blocks_def by (auto simp: sample_block_def sample_blocksFrom_def intro!: exI [of _ "Suc _"])
qed

theorem sync_with_honest_peer_witness:
  "\<exists>m. 20 < m \<and> m \<le> 26
    \<and> sync_outcome_of (LocalChainApi (sample_chain 20 5 100) 1 1) (honest_peer (sample_chain 25 5 200) 2 4)
        \<lparr>HashesPerBatch = 3, FinalizedHeightSupplier = (\<lambda>_. 1)\<rparr> sample_blocksFrom 60 (new_unprocessed 100)
      = Some (Sync_Blocks (map sample_block [6..<m]))"
proof -
  have fork: "fork_at (sample_chain 20 5 100) (sample_chain 25 5 200) 5" by (simp add: sample_fork)
  have h: "chainHeight (sample_chain n c e) = n" for n c e by (simp add: sample_chain_def)
  have blocks: "honest_blocks sample_block (unat (chainHeight (sample_chain 25 5 200))) sample_blocksFrom" using sample_honest_blocks by (simp add: h)
  from sync_with_honest_peer [OF _ _ fork _ _ _ _ _ _ blocks, of 1 1 2 3 4 "new_unprocessed 100" 60] show ?thesis
    by (simp add: h unprocessed_empty_def new_unprocessed_def)
qed

end
