(* ===== verification/Inflation.thy ===== *)
theory Inflation
  imports Prelude
begin

section \<open>Inflation\<close>

text \<open>
  \<^verbatim>\<open>src/src/bitxorcore/model/InflationCalculator.cpp\<close>: the amount of new currency per block is a step function of the
  height, kept as an ordered map from the height at which an amount begins to the amount.  The map is
  the list of its entries in order; amounts and heights wrap around at \<open>2 ^ 64\<close>.
\<close>

type_synonym inflation_map = "(height \<times> amount) list"

definition inflation_size :: "inflation_map \<Rightarrow> nat" where
  "inflation_size m = length m"

definition inflation_contains :: "inflation_map \<Rightarrow> height \<Rightarrow> amount \<Rightarrow> bool" where
  "inflation_contains m h a \<longleftrightarrow> map_of m h = Some a"

text \<open>A loop over the entries that stops at the first one beyond the height.\<close>

fun spot_loop :: "height \<Rightarrow> inflation_map \<Rightarrow> amount \<Rightarrow> amount" where
  "spot_loop h [] a = a"
| "spot_loop h (p # ps) a = (if h < fst p then a else spot_loop h ps (snd p))"

definition getSpotAmount :: "inflation_map \<Rightarrow> height \<Rightarrow> amount" where
  "getSpotAmount m h = spot_loop h m 0"

fun cumulative_loop :: "height \<Rightarrow> inflation_map \<Rightarrow> amount \<Rightarrow> amount \<Rightarrow> height \<Rightarrow> amount \<times> amount \<times> height" where
  "cumulative_loop h [] totalAmount current currentHeight = (totalAmount, current, currentHeight)"
| "cumulative_loop h (p # ps) totalAmount current currentHeight =
     (let numBlocks = (if h < fst p then h else fst p) - currentHeight;
          newTotal = totalAmount + current * numBlocks
      in if h \<le> fst p then (newTotal, snd p, fst p) else cumulative_loop h ps newTotal (snd p) (fst p))"

definition getCumulativeAmount :: "inflation_map \<Rightarrow> height \<Rightarrow> amount" where
  "getCumulativeAmount m h =
     (if 0 = h then 0
      else let (totalAmount, current, currentHeight) = cumulative_loop h m 0 0 1
           in if currentHeight < h then totalAmount + current * (h - currentHeight) else totalAmount)"

text \<open>The loop that adds up all amounts; \<open>None\<close> if a multiplication or an addition would overflow.\<close>

fun sum_loop :: "inflation_map \<Rightarrow> height \<times> amount \<Rightarrow> 64 word \<Rightarrow> ((height \<times> amount) \<times> 64 word) option" where
  "sum_loop [] current totalAmount = Some (current, totalAmount)"
| "sum_loop (p # ps) current totalAmount =
     (let numBlocks = fst p - fst current
      in if 0 \<noteq> numBlocks \<and> snd current > (- 1) div numBlocks then None
         else let summand = snd current * numBlocks
              in if totalAmount > - 1 - summand then None else sum_loop ps p (totalAmount + summand))"

definition sumAll :: "inflation_map \<Rightarrow> amount \<times> bool" where
  "sumAll m =
     (case sum_loop m (1, 0) 0 of
        None \<Rightarrow> (0, False)
      | Some (current, totalAmount) \<Rightarrow> let isValid = (0 = snd current) in (if isValid then totalAmount else 0, isValid))"

definition inflation_add :: "height \<Rightarrow> amount \<Rightarrow> inflation_map \<Rightarrow> inflation_map result" where
  "inflation_add h a m =
     (if 0 = h \<or> m \<noteq> [] \<and> fst (last m) \<ge> h then Err Invalid_Argument else Ok (m @ [(h, a)]))"

subsection \<open>The step function\<close>

definition inflation_inv :: "inflation_map \<Rightarrow> bool" where
  "inflation_inv m \<longleftrightarrow> sorted_wrt (<) (map fst m) \<and> 0 \<notin> fst ` set m"

text \<open>The number of units created by the blocks from one height to another, not included.\<close>

definition spot_sum :: "inflation_map \<Rightarrow> amount \<Rightarrow> nat \<Rightarrow> nat \<Rightarrow> nat" where
  "spot_sum m a lo hi = (\<Sum>k = lo..<hi. unat (spot_loop (of_nat k) m a))"

lemma spot_sum_const: "(\<forall>k. lo \<le> k \<and> k < hi \<longrightarrow> spot_loop (of_nat k) m a = v) \<Longrightarrow> spot_sum m a lo hi = unat v * (hi - lo)"
  by (simp add: spot_sum_def)

lemma unat_of_nat_le: "k \<le> unat (h :: height) \<Longrightarrow> unat (of_nat k :: height) = k"
proof -
  assume "k \<le> unat h"
  moreover have "unat h < 2 ^ LENGTH(64)" by (rule unsigned_less)
  ultimately show ?thesis by (simp add: unat_of_nat take_bit_nat_eq_self)
qed

lemma spot_sum_Cons:
  fixes h :: height
  assumes "lo \<le> unat (fst p)"
  shows "hi \<le> unat (fst p) \<Longrightarrow> spot_sum (p # ps) a lo hi = unat a * (hi - lo)"
    "unat (fst p) \<le> unat h \<Longrightarrow> spot_sum (p # ps) a lo (unat h) = unat a * (unat (fst p) - lo) + spot_sum ps (snd p) (unat (fst p)) (unat h)"
proof -
  have below: "spot_loop (of_nat k) (p # ps) a = a" if "k < unat (fst p)" for k
    using that unat_of_nat_le [of k "fst p"] by (simp add: word_less_nat_alt)
  then show *: "spot_sum (p # ps) a lo hi = unat a * (hi - lo)" if "hi \<le> unat (fst p)" for hi
    using that by (intro spot_sum_const) auto
  have above: "spot_loop (of_nat k) (p # ps) a = spot_loop (of_nat k) ps (snd p)" if "unat (fst p) \<le> k" "k < unat h" for k
    using that unat_of_nat_le [of k h] by (simp add: word_less_nat_alt)
  assume "unat (fst p) \<le> unat h"
  then have "{lo..<unat h} = {lo..<unat (fst p)} \<union> {unat (fst p)..<unat h}" using assms by auto
  then have "spot_sum (p # ps) a lo (unat h) = spot_sum (p # ps) a lo (unat (fst p)) + spot_sum (p # ps) a (unat (fst p)) (unat h)"
    unfolding spot_sum_def by (simp add: sum.union_disjoint)
  moreover have "spot_sum (p # ps) a (unat (fst p)) (unat h) = spot_sum ps (snd p) (unat (fst p)) (unat h)"
    unfolding spot_sum_def by (intro sum.cong refl arg_cong [of _ _ unat] above) auto
  ultimately show "spot_sum (p # ps) a lo (unat h) = unat a * (unat (fst p) - lo) + spot_sum ps (snd p) (unat (fst p)) (unat h)"
    using * by simp
qed

lemma cumulative_loop_sum:
  assumes "sorted_wrt (<) (map fst m)" "\<forall>p \<in> set m. c \<le> fst p" "c \<le> h"
  shows "(let (t', a', c') = cumulative_loop h m t a c in if c' < h then t' + a' * (h - c') else t')
    = t + of_nat (spot_sum m a (unat c) (unat h))"
  using assms
proof (induction m arbitrary: t a c)
  case Nil
  have "spot_sum [] a (unat c) (unat h) = unat a * (unat h - unat c)" by (intro spot_sum_const) auto
  also have "(of_nat \<dots> :: amount) = a * (h - c)" using Nil by (simp add: of_nat_diff word_le_nat_alt)
  finally show ?case using Nil by auto
next
  case (Cons p ps)
  have c: "unat c \<le> unat (fst p)" using Cons.prems by (simp add: word_le_nat_alt)
  show ?case
  proof (cases "h \<le> fst p")
    case True
    then have "spot_sum (p # ps) a (unat c) (unat h) = unat a * (unat h - unat c)"
      by (intro spot_sum_Cons(1)) (use c in \<open>auto simp: word_le_nat_alt\<close>)
    then have "of_nat (spot_sum (p # ps) a (unat c) (unat h)) = a * (h - c)"
      using Cons.prems(3) by (simp add: of_nat_diff word_le_nat_alt)
    moreover have "(if h < fst p then h else fst p) = h" using True by auto
    ultimately show ?thesis using True by (simp add: Let_def not_less [symmetric])
  next
    case False
    then have "of_nat (spot_sum (p # ps) a (unat c) (unat h)) = a * (fst p - c) + of_nat (spot_sum ps (snd p) (unat (fst p)) (unat h))"
      using c by (simp add: spot_sum_Cons(2) word_le_nat_alt of_nat_diff)
    moreover have "(let (t', a', c') = cumulative_loop h ps (t + a * (fst p - c)) (snd p) (fst p) in if c' < h then t' + a' * (h - c') else t')
        = t + a * (fst p - c) + of_nat (spot_sum ps (snd p) (unat (fst p)) (unat h))"
      using Cons.prems False by (intro Cons.IH) auto
    moreover have "(if h < fst p then h else fst p) = fst p" using False by auto
    ultimately show ?thesis using False by (simp add: Let_def add.assoc)
  qed
qed

lemma unat_max: "unat (- 1 :: 64 word) = 2 ^ 64 - 1"
  by (simp add: unsigned_minus_1_eq_mask mask_eq_exp_minus_1)

lemma product_check:
  fixes a n :: "64 word"
  shows "(0 \<noteq> n \<and> a > (- 1) div n) \<longleftrightarrow> 2 ^ 64 \<le> unat a * unat n"
proof (cases "n = 0")
  case False
  then have n: "0 < unat n" by (simp add: unat_gt_0)
  have "unat ((- 1) div n) = (2 ^ 64 - 1) div unat n" by (simp add: unat_div unat_max)
  then have "a > (- 1) div n \<longleftrightarrow> (2 ^ 64 - 1) div unat n < unat a" by (simp add: word_less_nat_alt)
  also have "\<dots> \<longleftrightarrow> 2 ^ 64 - 1 < unat a * unat n" using n by (simp add: div_less_iff_less_mult)
  finally show ?thesis using False by auto
qed simp

lemma sum_check:
  fixes t x :: "64 word"
  shows "t > - 1 - x \<longleftrightarrow> 2 ^ 64 \<le> unat t + unat x"
proof -
  have "x \<le> - 1" by simp
  then have "unat (- 1 - x) = 2 ^ 64 - 1 - unat x" by (simp add: unat_sub unat_max)
  moreover have "unat x < 2 ^ LENGTH(64)" by (rule unsigned_less)
  ultimately show ?thesis by (auto simp: word_less_nat_alt)
qed

lemma sum_loop_sum:
  fixes a t :: amount
  assumes "sorted_wrt (<) (map fst m)" "\<forall>p \<in> set m. c \<le> fst p"
  defines "N \<equiv> unat t + spot_sum m a (unat c) (unat (fst (last ((c, a) # m))))"
  shows "sum_loop m (c, a) t = (if N < 2 ^ 64 then Some (last ((c, a) # m), of_nat N) else None)"
  using assms(1,2) unfolding N_def
proof (induction m arbitrary: t a c)
  case Nil
  have "unat t < 2 ^ LENGTH(64)" by (rule unsigned_less)
  then show ?case by (simp add: spot_sum_def)
next
  case (Cons p ps)
  obtain k v where p: "p = (k, v)" by (cases p)
  let ?h = "fst (last ((c, a) # p # ps))"
  have c: "unat c \<le> unat k" using Cons.prems p by (simp add: word_le_nat_alt)
  have kh: "unat k \<le> unat ?h" using Cons.prems p by (cases ps rule: rev_cases) (auto simp: sorted_wrt_append word_le_nat_alt [symmetric] less_imp_le)
  have n: "unat (k - c) = unat k - unat c" using c by (simp add: unat_sub word_le_nat_alt)
  define x where "x = unat a * unat (k - c)"
  have sum: "spot_sum (p # ps) a (unat c) (unat ?h) = x + spot_sum ps v (unat k) (unat ?h)"
    using spot_sum_Cons(2) [of "unat c" p ?h ps a] c kh p by (simp add: n x_def)
  show ?case
  proof (cases "x < 2 ^ 64 \<and> unat t + x < 2 ^ 64")
    case True
    then have ux: "unat (a * (k - c)) = x" by (simp add: x_def unat_word_ariths)
    then have ut: "unat (t + a * (k - c)) = unat t + x" using True by (simp add: unat_word_ariths)
    have "sum_loop ps (k, v) (t + a * (k - c)) = (if unat t + x + spot_sum ps v (unat k) (unat (fst (last ((k, v) # ps)))) < 2 ^ 64
        then Some (last ((k, v) # ps), of_nat (unat t + x + spot_sum ps v (unat k) (unat (fst (last ((k, v) # ps)))))) else None)"
      using Cons.IH [of k v "t + a * (k - c)"] Cons.prems p unfolding ut by (auto simp: less_imp_le)
    moreover have "sum_loop (p # ps) (c, a) t = sum_loop ps (k, v) (t + a * (k - c))"
      using True product_check [of "k - c" a] sum_check [of "a * (k - c)" t] unfolding ux x_def by (auto simp: p Let_def)
    ultimately show ?thesis unfolding sum using p by (simp add: add.assoc)
  next
    case False
    then have "sum_loop (p # ps) (c, a) t = None"
      using product_check [of "k - c" a] sum_check [of "a * (k - c)" t]
      by (cases "x < 2 ^ 64") (auto simp: p Let_def x_def unat_word_ariths)
    with False sum show ?thesis by (auto simp: x_def)
  qed
qed

text \<open>The height from which on the last amount holds.\<close>

definition last_inflation_height :: "inflation_map \<Rightarrow> height" where
  "last_inflation_height m = (if m = [] then 1 else fst (last m))"

lemma inflation_keys_ge: "inflation_inv m \<Longrightarrow> p \<in> set m \<Longrightarrow> 1 \<le> fst p"
  by (auto simp: inflation_inv_def image_iff word_le_nat_alt Suc_le_eq unat_gt_0)

subsection \<open>Properties\<close>

text \<open>
  C30: An entry can be added exactly above all others, which keeps the map in order.  The cumulative amount at a
  height is the sum of the spot amounts of the blocks below it, modulo \<open>2 ^ 64\<close>; the total is
  reported as valid exactly if the last amount is zero and the sum of all spot amounts fits into 64
  bits, and is then this sum.
\<close>

theorem inflation_sums:
  assumes "inflation_inv m"
  shows "(case inflation_add h a m of Ok m' \<Rightarrow> inflation_inv m' \<and> (\<forall>k. getSpotAmount m' k = (if k < h then getSpotAmount m k else a))
      | Err _ \<Rightarrow> h = 0 \<or> (\<exists>p \<in> set m. h \<le> fst p))
    \<and> getCumulativeAmount m h = of_nat (\<Sum>k = 1..<unat h. unat (getSpotAmount m (of_nat k)))
    \<and> (let N = (\<Sum>k = 1..<unat (last_inflation_height m). unat (getSpotAmount m (of_nat k)));
           valid = (N < 2 ^ 64 \<and> getSpotAmount m (last_inflation_height m) = 0)
       in sumAll m = (if valid then of_nat N else 0, valid))"
proof -
  have sorted: "sorted_wrt (<) (map fst m)" and ge: "\<forall>p \<in> set m. 1 \<le> fst p"
    using assms inflation_keys_ge by (auto simp: inflation_inv_def)
  have snoc: "spot_loop k (m @ [(h, a)]) b = (if k < h then spot_loop k m b else a)" if "sorted_wrt (<) (map fst m)" "\<forall>p \<in> set m. fst p < h" for k b m
    using that by (induction m arbitrary: b) auto
  have "case inflation_add h a m of Ok m' \<Rightarrow> inflation_inv m' \<and> (\<forall>k. getSpotAmount m' k = (if k < h then getSpotAmount m k else a))
      | Err _ \<Rightarrow> h = 0 \<or> (\<exists>p \<in> set m. h \<le> fst p)"
  proof (cases "h = 0 \<or> m \<noteq> [] \<and> h \<le> fst (last m)")
    case False
    then have "\<forall>p \<in> set m. fst p < h" using sorted by (cases m rule: rev_cases) (auto simp: sorted_wrt_append)
    with False sorted assms show ?thesis
      by (auto simp: inflation_add_def getSpotAmount_def snoc inflation_inv_def sorted_wrt_append)
  qed (auto simp: inflation_add_def)
  moreover have "getCumulativeAmount m h = of_nat (\<Sum>k = 1..<unat h. unat (getSpotAmount m (of_nat k)))"
  proof (cases "h = 0")
    case False
    then have "1 \<le> h" by (simp add: word_le_nat_alt Suc_le_eq unat_gt_0)
    from cumulative_loop_sum [OF sorted ge this, of 0 0] False show ?thesis
      by (simp add: getCumulativeAmount_def spot_sum_def getSpotAmount_def)
  qed (simp add: getCumulativeAmount_def)
  moreover have "sumAll m = (let N = spot_sum m 0 1 (unat (last_inflation_height m)); valid = (N < 2 ^ 64 \<and> getSpotAmount m (last_inflation_height m) = 0)
       in (if valid then of_nat N else 0, valid))"
  proof -
    have last: "fst (last ((1, 0) # m)) = last_inflation_height m" by (simp add: last_inflation_height_def)
    have "spot_loop (fst (last m)) m b = snd (last m)" if "m \<noteq> []" "sorted_wrt (<) (map fst m)" for m b
      using that by (induction m arbitrary: b) (auto dest!: last_in_set dest: order_less_asym)
    then have "getSpotAmount m (last_inflation_height m) = snd (last ((1, 0) # m))"
      using sorted by (simp add: getSpotAmount_def last_inflation_height_def)
    with sum_loop_sum [OF sorted ge, of 0 0] show ?thesis unfolding last by (auto simp: sumAll_def Let_def split: prod.splits)
  qed
  ultimately show ?thesis by (simp add: spot_sum_def getSpotAmount_def Let_def)
qed

theorem inflation_sums_witness:
  "getCumulativeAmount [(2, 10), (5, 3), (9, 0)] 7 = 36 \<and> sumAll [(2, 10), (5, 3), (9, 0)] = (42, True)"
proof -
  have inv: "inflation_inv [(2, 10), (5, 3), (9, 0)]" by (simp add: inflation_inv_def)
  have n: "[1..<7] = [1, 2, 3, 4, 5, 6]" "[1..<9] = [1, 2, 3, 4, 5, 6, 7, 8]" by code_simp+
  have s: "(\<Sum>k = 1..<7. unat (getSpotAmount [(2, 10), (5, 3), (9, 0)] (of_nat k))) = 36"
      "(\<Sum>k = 1..<9. unat (getSpotAmount [(2, 10), (5, 3), (9, 0)] (of_nat k))) = 42"
    by code_simp+
  have l: "unat (last_inflation_height [(2, 10), (5, 3), (9, 0)]) = 9" "getSpotAmount [(2, 10), (5, 3), (9, 0)] (last_inflation_height [(2, 10), (5, 3), (9, 0)]) = 0"
    by code_simp+
  have "unat (7 :: height) = 7" by simp
  with inflation_sums [OF inv, of 7 0] show ?thesis unfolding l Let_def by (simp only: s) simp
qed

end
