(* ===== verification/Chain_Score.thy ===== *)
theory Chain_Score
  imports Prelude "HOL-Library.Signed_Division"
begin

unbundle bit_operations_syntax

section \<open>Difficulties and scores\<close>

text \<open>
  How a chain of blocks is weighed: the cache of block statistics, \<^verbatim>\<open>src/src/bitxorcore/cache_core/BlockStatisticCache*\<close>, the
  difficulty of the next block, \<^verbatim>\<open>chain/BlockDifficultyScorer.cpp\<close>, scores of blocks and chains, \<^verbatim>\<open>chain/BlockScorer.cpp\<close>,
  \<^verbatim>\<open>chain/ChainUtils.cpp\<close> and \<^verbatim>\<open>model/ChainScore.h\<close>.  An ordered set of statistics is the list of its elements in
  order.  How boost converts a 128-bit integer to 64 bits is a parameter, \<open>narrow\<close>.
\<close>

subsection \<open>Difficulty values\<close>

definition Difficulty_Min :: "64 word" where "Difficulty_Min = 10000000000000"

definition Difficulty_Max :: "64 word" where "Difficulty_Max = 1000000000000000"

definition Difficulty_Default :: "64 word" where "Difficulty_Default = 100000000000000"

definition Difficulty_Clamp :: "64 word \<Rightarrow> 64 word" where
  "Difficulty_Clamp d = (if d < Difficulty_Min then Difficulty_Min else if d > Difficulty_Max then Difficulty_Max else d)"

subsection \<open>Block statistics\<close>

record block =
  b_Height :: height
  b_Timestamp :: "64 word"
  b_Difficulty :: "64 word"
  b_FeeMultiplier :: "32 word"
  b_PreviousBlockHash :: hash256

record block_statistic =
  st_Height :: height
  st_Timestamp :: "64 word"
  st_Difficulty :: "64 word"
  st_FeeMultiplier :: "32 word"

definition BlockStatistic :: "block \<Rightarrow> block_statistic" where
  "BlockStatistic b = \<lparr>st_Height = b_Height b, st_Timestamp = b_Timestamp b, st_Difficulty = b_Difficulty b, st_FeeMultiplier = b_FeeMultiplier b\<rparr>"

text \<open>Insertion into a set that is ordered by height; an element of the same height is kept.\<close>

fun statistic_insert :: "block_statistic \<Rightarrow> block_statistic list \<Rightarrow> block_statistic list" where
  "statistic_insert s [] = [s]"
| "statistic_insert s (x # xs) =
     (if st_Height s < st_Height x then s # x # xs else if st_Height x < st_Height s then x # statistic_insert s xs else x # xs)"

record statistic_cache =
  sc_statistics :: "block_statistic list"
  sc_historySize :: "64 word"
  sc_startHeight :: height
  sc_pruningBoundary :: "height option"

definition new_statistic_cache :: "block_statistic list \<Rightarrow> 64 word \<Rightarrow> statistic_cache" where
  "new_statistic_cache xs historySize = \<lparr>sc_statistics = xs, sc_historySize = historySize,
     sc_startHeight = (if xs = [] then 1 else st_Height (hd xs)), sc_pruningBoundary = None\<rparr>"

definition sc_nextHeight :: "statistic_cache \<Rightarrow> height" where
  "sc_nextHeight c = sc_startHeight c + of_nat (length (sc_statistics c))"

definition sc_checkInsert :: "height \<Rightarrow> statistic_cache \<Rightarrow> statistic_cache result" where
  "sc_checkInsert h c =
     (if sc_statistics c = [] then Ok (c\<lparr>sc_startHeight := h\<rparr>)
      else if sc_nextHeight c \<noteq> h then Err Invalid_Argument else Ok c)"

definition sc_insert :: "block_statistic \<Rightarrow> statistic_cache \<Rightarrow> statistic_cache result" where
  "sc_insert s c = map_result (\<lambda>c'. c'\<lparr>sc_statistics := statistic_insert s (sc_statistics c')\<rparr>) (sc_checkInsert (st_Height s) c)"

definition sc_checkRemove :: "height \<Rightarrow> statistic_cache \<Rightarrow> unit result" where
  "sc_checkRemove h c =
     (if sc_statistics c = [] then Err Runtime_Error
      else if sc_nextHeight c \<noteq> h + 1 then Err Invalid_Argument else Ok ())"

definition sc_remove :: "height \<Rightarrow> statistic_cache \<Rightarrow> statistic_cache result" where
  "sc_remove h c = map_result (\<lambda>_. c\<lparr>sc_statistics := filter (\<lambda>x. st_Height x \<noteq> h) (sc_statistics c)\<rparr>) (sc_checkRemove h c)"

definition sc_prune :: "height \<Rightarrow> statistic_cache \<Rightarrow> statistic_cache" where
  "sc_prune h c =
     (if h > sc_historySize c then c\<lparr>sc_pruningBoundary := Some (h - sc_historySize c)\<rparr> else c)"

text \<open>The statistics from the given height back, at most \<open>count\<close> of them.\<close>

definition statistics :: "height \<Rightarrow> 64 word \<Rightarrow> block_statistic list \<Rightarrow> block_statistic list result" where
  "statistics h count xs =
     (if xs = [] then Err Runtime_Error
      else if 0 = h \<or> 0 = count then Err Invalid_Argument
      else if h \<notin> set (map st_Height xs) then Err Invalid_Argument
      else let firstHeight = st_Height (hd xs);
               first = (if h - firstHeight < count - 1 then firstHeight else h - (count - 1))
           in Ok (takeWhile (\<lambda>x. st_Height x \<le> h) (dropWhile (\<lambda>x. st_Height x \<noteq> first) xs)))"

subsection \<open>Difficulty\<close>

text \<open>
  The two 128-bit multiplications wrap around; boost throws when the divisor is zero.  The
  comparisons that limit the change to five percent are done with 64 bits.
\<close>

definition CalculateDifficulty :: "(128 word \<Rightarrow> 64 word) \<Rightarrow> 64 word \<Rightarrow> block_statistic list \<Rightarrow> 64 word result" where
  "CalculateDifficulty narrow targetMillis xs =
     (let historySize = length xs; summed = (\<Sum>s \<leftarrow> xs. st_Difficulty s)
      in if historySize < 2 then Ok Difficulty_Default
      else let firstTimestamp = st_Timestamp (hd xs); lastTimestamp = st_Timestamp (last xs); lastDifficulty = st_Difficulty (last xs);
               timeDiff = lastTimestamp - firstTimestamp;
               averageDifficulty = summed div of_nat historySize;
               large = ucast averageDifficulty * ucast targetMillis * of_nat (historySize - 1)
      in if timeDiff = 0 then Err Range_Error
      else let difficulty = narrow (large div ucast timeDiff)
      in Ok (Difficulty_Clamp
           (if 19 * lastDifficulty > 20 * difficulty then (19 * lastDifficulty) div 20
            else if 21 * lastDifficulty < 20 * difficulty then (21 * lastDifficulty) div 20
            else difficulty)))"

definition CalculateDifficulty_cache :: "(128 word \<Rightarrow> 64 word) \<Rightarrow> 64 word \<Rightarrow> 64 word \<Rightarrow> block_statistic list \<Rightarrow> height \<Rightarrow> 64 word result" where
  "CalculateDifficulty_cache narrow targetMillis maxDifficultyBlocks xs h =
     bind_result (statistics h maxDifficultyBlocks xs) (CalculateDifficulty narrow targetMillis)"

definition TryCalculateDifficulty :: "(128 word \<Rightarrow> 64 word) \<Rightarrow> 64 word \<Rightarrow> 64 word \<Rightarrow> block_statistic list \<Rightarrow> height \<Rightarrow> 64 word option result" where
  "TryCalculateDifficulty narrow targetMillis maxDifficultyBlocks xs h =
     (if h \<notin> set (map st_Height xs) then Ok None
      else map_result Some (CalculateDifficulty_cache narrow targetMillis maxDifficultyBlocks xs h))"

subsection \<open>Chains\<close>

definition IsChainLink :: "block \<Rightarrow> hash256 \<Rightarrow> block \<Rightarrow> bool" where
  "IsChainLink parent parentHash child \<longleftrightarrow>
     \<not> (b_Height parent + 1 \<noteq> b_Height child \<or> parentHash \<noteq> b_PreviousBlockHash child) \<and> b_Timestamp parent < b_Timestamp child"

text \<open>The loop over the blocks: the window of statistics, the expected difficulty, and the number of good blocks.\<close>

fun check_difficulties_loop :: "(128 word \<Rightarrow> 64 word) \<Rightarrow> 64 word \<Rightarrow> 64 word \<Rightarrow> block list \<Rightarrow> block_statistic list \<Rightarrow> 64 word \<Rightarrow> nat \<Rightarrow> nat result" where
  "check_difficulties_loop narrow targetMillis maxBlocks [] window difficulty i = Ok i"
| "check_difficulties_loop narrow targetMillis maxBlocks (b # bs) window difficulty i =
     (if difficulty \<noteq> b_Difficulty b then Ok i
      else let inserted = statistic_insert (BlockStatistic b) window;
               window' = (if length inserted > unat maxBlocks then tl inserted else inserted)
           in bind_result (CalculateDifficulty narrow targetMillis window')
                (\<lambda>difficulty'. check_difficulties_loop narrow targetMillis maxBlocks bs window' difficulty' (Suc i)))"

definition CheckDifficulties :: "(128 word \<Rightarrow> 64 word) \<Rightarrow> 64 word \<Rightarrow> 64 word \<Rightarrow> block_statistic list \<Rightarrow> block list \<Rightarrow> nat result" where
  "CheckDifficulties narrow targetMillis maxBlocks xs blocks =
     (if blocks = [] then Ok 0
      else bind_result (statistics (b_Height (hd blocks) - 1) maxBlocks xs) (\<lambda>window.
           bind_result (CalculateDifficulty narrow targetMillis window) (\<lambda>difficulty.
           check_difficulties_loop narrow targetMillis maxBlocks blocks window difficulty 0)))"

subsection \<open>Scores\<close>

text \<open>A time span counts milliseconds in a signed 64-bit integer; the conversion to seconds truncates.\<close>

definition timespan_seconds :: "64 word \<Rightarrow> 64 word" where
  "timespan_seconds millis = word_of_int (sint millis sdiv 1000)"

definition TimeBetweenBlocks :: "block \<Rightarrow> block \<Rightarrow> 64 word" where
  "TimeBetweenBlocks parent b = b_Timestamp b - b_Timestamp parent"

definition CalculateScore :: "block \<Rightarrow> block \<Rightarrow> 64 word" where
  "CalculateScore parentBlock currentBlock =
     (if b_Timestamp currentBlock \<le> b_Timestamp parentBlock then 0
      else b_Difficulty currentBlock - timespan_seconds (TimeBetweenBlocks parentBlock currentBlock))"

text \<open>A chain score is a checked 128-bit integer: an overflow or a negative difference throws.\<close>

type_synonym chain_score = "128 word"

definition ChainScore_of_parts :: "64 word \<Rightarrow> 64 word \<Rightarrow> chain_score" where
  "ChainScore_of_parts scoreHigh scoreLow = push_bit 64 (ucast scoreHigh) + ucast scoreLow"

definition score_toArray :: "chain_score \<Rightarrow> 64 word \<times> 64 word" where
  "score_toArray s = (ucast (drop_bit 64 s), ucast (s AND mask 64))"

definition score_add :: "chain_score \<Rightarrow> chain_score \<Rightarrow> chain_score result" where
  "score_add s r = (if unat s + unat r \<ge> 2 ^ 128 then Err Range_Error else Ok (s + r))"

definition score_sub_checked :: "chain_score \<Rightarrow> chain_score \<Rightarrow> chain_score result" where
  "score_sub_checked s r = (if s < r then Err Range_Error else Ok (s - r))"

text \<open>A delta is a signed 64-bit integer.\<close>

definition score_add_delta :: "chain_score \<Rightarrow> 64 word \<Rightarrow> chain_score result" where
  "score_add_delta s d = (if sint d < 0 then score_sub_checked s (ucast (- d)) else score_add s (ucast d))"

definition score_difference :: "chain_score \<Rightarrow> chain_score \<Rightarrow> 64 word result" where
  "score_difference s r =
     (let absolute = (if r < s then s - r else r - s)
      in if absolute > 0x7FFFFFFFFFFFFFFF then Err Range_Error
         else if r < s then Ok (ucast absolute) else Ok (- ucast absolute))"

fun partial_score_loop :: "block \<Rightarrow> block list \<Rightarrow> chain_score \<Rightarrow> chain_score result" where
  "partial_score_loop previous [] score = Ok score"
| "partial_score_loop previous (b # bs) score =
     bind_result (score_add score (ucast (CalculateScore previous b))) (partial_score_loop b bs)"

definition CalculatePartialChainScore :: "block \<Rightarrow> block list \<Rightarrow> chain_score result" where
  "CalculatePartialChainScore parent blocks = partial_score_loop parent blocks 0"

subsection \<open>Windows of statistics\<close>

text \<open>The heights of the statistics follow each other, from a height above zero.\<close>

definition contiguous :: "block_statistic list \<Rightarrow> bool" where
  "contiguous xs \<longleftrightarrow> (\<exists>n > 0. map (\<lambda>s. unat (st_Height s)) xs = [n..<n + length xs])"

lemma contiguous_nth:
  assumes "contiguous xs"
  obtains n where "0 < n" "\<forall>i < length xs. unat (st_Height (xs ! i)) = n + i"
proof -
  obtain n where n: "0 < n" "map (\<lambda>s. unat (st_Height s)) xs = [n..<n + length xs]" using assms by (auto simp: contiguous_def)
  have "unat (st_Height (xs ! i)) = n + i" if "i < length xs" for i
    using arg_cong [OF n(2), of "\<lambda>l. l ! i"] that by simp
  with n(1) that show ?thesis by blast
qed

lemma contiguous_append:
  assumes "contiguous xs" "xs \<noteq> []" "unat (st_Height s) = Suc (unat (st_Height (last xs)))"
  shows "contiguous (xs @ [s])"
proof -
  obtain n where n: "0 < n" "map (\<lambda>s. unat (st_Height s)) xs = [n..<n + length xs]" using assms by (auto simp: contiguous_def)
  have "last (map (\<lambda>s. unat (st_Height s)) xs) = n + length xs - 1" unfolding n(2) using assms(2) by simp
  then have "unat (st_Height (last xs)) = n + length xs - 1" using assms(2) by (simp add: last_map)
  then have "unat (st_Height s) = n + length xs" using assms(2,3) by (cases xs) auto
  with n show ?thesis unfolding contiguous_def by (intro exI [of _ n]) simp
qed

lemma contiguous_drop: "contiguous xs \<Longrightarrow> contiguous (drop k xs)"
proof -
  assume "contiguous xs"
  then obtain n where n: "0 < n" "map (\<lambda>s. unat (st_Height s)) xs = [n..<n + length xs]" by (auto simp: contiguous_def)
  have "map (\<lambda>s. unat (st_Height s)) (drop k xs) = [n + k..<n + length xs]" using n(2) by (simp add: drop_map [symmetric])
  moreover have "[n + k..<n + length xs] = [n + k..<n + k + length (drop k xs)]" by (cases "k \<le> length xs") auto
  ultimately show ?thesis using n(1) unfolding contiguous_def by (intro exI [of _ "n + k"]) simp
qed

lemma statistic_insert_last: "\<forall>x \<in> set xs. st_Height x < st_Height s \<Longrightarrow> statistic_insert s xs = xs @ [s]"
  by (induction xs) (auto dest: order_less_asym)

lemma contiguous_below:
  assumes "contiguous xs" "xs \<noteq> []" "x \<in> set xs"
  shows "unat (st_Height x) \<le> unat (st_Height (last xs))"
proof -
  obtain n where n: "0 < n" "\<forall>i < length xs. unat (st_Height (xs ! i)) = n + i" by (rule contiguous_nth [OF assms(1)])
  obtain i where "i < length xs" "x = xs ! i" using assms(3) by (auto simp: in_set_conv_nth)
  with n assms(2) show ?thesis by (simp add: last_conv_nth)
qed

lemma takeWhile_all: "\<forall>x \<in> set xs. P x \<Longrightarrow> takeWhile P xs = xs"
  by (induction xs) auto

lemma statistics_last:
  assumes "contiguous xs" "xs \<noteq> []" "0 < count"
  shows "statistics (st_Height (last xs)) count xs = Ok (drop (length xs - unat count) xs)"
proof -
  obtain n where n: "0 < n" "\<forall>i < length xs. unat (st_Height (xs ! i)) = n + i" by (rule contiguous_nth [OF assms(1)])
  let ?h = "st_Height (last xs)" and ?len = "length xs"
  have len: "0 < ?len" using assms(2) by simp
  have h: "unat ?h = n + (?len - 1)" using n len by (simp add: last_conv_nth assms(2))
  have h0: "unat (st_Height (hd xs)) = n" using n len by (simp add: hd_conv_nth assms(2))
  have "st_Height (hd xs) \<le> ?h" unfolding word_le_nat_alt h h0 by simp
  from unat_sub [OF this] have d: "unat (?h - st_Height (hd xs)) = ?len - 1" unfolding h h0 by simp
  have pos: "0 < unat count" using assms(3) by (simp add: unat_gt_0)
  have count: "unat (count - 1) = unat count - 1" using assms(3) by (simp add: unat_sub word_le_nat_alt Suc_le_eq unat_gt_0)
  have cond: "?h - st_Height (hd xs) < count - 1 \<longleftrightarrow> ?len < unat count"
    unfolding word_less_nat_alt d count using len pos by linarith
  define first where "first = (if ?h - st_Height (hd xs) < count - 1 then st_Height (hd xs) else ?h - (count - 1))"
  have first: "unat first = n + (?len - unat count)"
  proof (cases "?len < unat count")
    case True
    then show ?thesis using cond h0 by (simp add: first_def)
  next
    case False
    then have "count - 1 \<le> ?h" unfolding word_le_nat_alt h count using n(1) by linarith
    from unat_sub [OF this] have "unat (?h - (count - 1)) = n + (?len - 1) - (unat count - 1)" unfolding h count .
    moreover have "n + (?len - 1) - (unat count - 1) = n + (?len - unat count)" using False pos by linarith
    ultimately show ?thesis using False cond unfolding first_def by simp
  qed
  have drop: "dropWhile (\<lambda>x. st_Height x \<noteq> first) xs = drop (?len - unat count) xs"
  proof -
    have "dropWhile (\<lambda>x. st_Height x \<noteq> first) xs = drop (length (takeWhile (\<lambda>x. st_Height x \<noteq> first) xs)) xs" by (rule dropWhile_eq_drop)
    moreover have "takeWhile (\<lambda>x. st_Height x \<noteq> first) xs = take (?len - unat count) xs"
      using n(2) first by (intro takeWhile_eq_take_P_nth) (auto simp: word_unat_eq_iff)
    ultimately show ?thesis by simp
  qed
  have "takeWhile (\<lambda>x. st_Height x \<le> ?h) (drop (?len - unat count) xs) = drop (?len - unat count) xs"
    using contiguous_below [OF assms(1,2)] by (intro takeWhile_all) (auto simp: word_le_nat_alt dest: in_set_dropD)
  moreover have "unat ?h \<noteq> 0" unfolding h using n(1) by simp
  then have "0 \<noteq> ?h" by auto
  ultimately show ?thesis using assms(2,3) drop by (auto simp: statistics_def Let_def first_def [symmetric])
qed

subsection \<open>The check of difficulties\<close>

text \<open>
  The reference: the difficulty of each block is computed from the cache with all earlier blocks.
\<close>

fun check_reference :: "(128 word \<Rightarrow> 64 word) \<Rightarrow> 64 word \<Rightarrow> 64 word \<Rightarrow> block list \<Rightarrow> block_statistic list \<Rightarrow> nat result" where
  "check_reference narrow targetMillis maxBlocks [] xs = Ok 0"
| "check_reference narrow targetMillis maxBlocks (b # bs) xs =
     bind_result (CalculateDifficulty_cache narrow targetMillis maxBlocks xs (b_Height b - 1)) (\<lambda>difficulty.
       if difficulty \<noteq> b_Difficulty b then Ok 0
       else map_result Suc (check_reference narrow targetMillis maxBlocks bs (xs @ [BlockStatistic b])))"

definition increasing_times :: "block_statistic list \<Rightarrow> bool" where
  "increasing_times xs \<longleftrightarrow> sorted_wrt (\<lambda>a b. st_Timestamp a < st_Timestamp b) xs"

lemma CalculateDifficulty_defined:
  assumes "increasing_times xs"
  shows "\<exists>d. CalculateDifficulty narrow targetMillis xs = Ok d"
proof (cases "length xs < 2")
  case False
  then obtain x y zs where xs: "xs = x # zs @ [y]"
    by (cases xs; cases "tl xs" rule: rev_cases) auto
  then have "st_Timestamp x < st_Timestamp y" using assms by (simp add: increasing_times_def sorted_wrt_append)
  then have "st_Timestamp y - st_Timestamp x \<noteq> 0" by auto
  then show ?thesis using False by (simp add: CalculateDifficulty_def Let_def xs)
qed (simp add: CalculateDifficulty_def)

lemma increasing_times_drop: "increasing_times xs \<Longrightarrow> increasing_times (drop k xs)"
  by (simp add: increasing_times_def sorted_wrt_drop)

lemma window_step:
  assumes "contiguous xs" "xs \<noteq> []" "0 < k" "unat (st_Height s) = Suc (unat (st_Height (last xs)))"
  shows "let w = statistic_insert s (drop (length xs - k) xs) in (if length w > k then tl w else w) = drop (length (xs @ [s]) - k) (xs @ [s])"
proof -
  have "statistic_insert s (drop (length xs - k) xs) = drop (length xs - k) xs @ [s]"
    using contiguous_below [OF assms(1,2)] assms(4) by (intro statistic_insert_last) (auto simp: word_less_nat_alt less_Suc_eq_le dest: in_set_dropD)
  moreover have "tl (drop (length xs - k) xs @ [s]) = drop (Suc (length xs) - k) xs @ [s]" if "k \<le> length xs"
  proof -
    have "drop (length xs - k) xs \<noteq> []" using that assms(3) by simp
    then show ?thesis using that by (simp add: tl_append2 Suc_diff_le drop_Suc tl_drop)
  qed
  ultimately show ?thesis using assms(3) by (cases "length xs < k") (auto simp: Let_def Suc_diff_le)
qed

fun blocks_follow :: "height \<Rightarrow> block list \<Rightarrow> bool" where
  "blocks_follow h [] \<longleftrightarrow> True"
| "blocks_follow h (b # bs) \<longleftrightarrow> unat (b_Height b) = Suc (unat h) \<and> blocks_follow (b_Height b) bs"

lemma check_loop_reference:
  assumes "contiguous xs" "xs \<noteq> []" "0 < maxBlocks" "blocks_follow (st_Height (last xs)) bs"
    and "increasing_times (xs @ map BlockStatistic bs)"
    and "CalculateDifficulty narrow targetMillis (drop (length xs - unat maxBlocks) xs) = Ok d"
  shows "check_difficulties_loop narrow targetMillis maxBlocks bs (drop (length xs - unat maxBlocks) xs) d i
    = map_result (\<lambda>n. i + n) (check_reference narrow targetMillis maxBlocks bs xs)"
  using assms
proof (induction bs arbitrary: xs d i)
  case (Cons b bs)
  have h: "unat (b_Height b) = Suc (unat (st_Height (last xs)))" using Cons.prems(4) by simp
  have "b_Height b = of_nat (unat (b_Height b))" by simp
  also have "\<dots> = st_Height (last xs) + 1" unfolding h by simp
  finally have prev: "b_Height b - 1 = st_Height (last xs)" by simp
  have cache: "CalculateDifficulty_cache narrow targetMillis maxBlocks xs (b_Height b - 1) = Ok d"
    unfolding prev CalculateDifficulty_cache_def using statistics_last [OF Cons.prems(1-3)] Cons.prems(6) by simp
  let ?xs = "xs @ [BlockStatistic b]"
  have hs: "unat (st_Height (BlockStatistic b)) = Suc (unat (st_Height (last xs)))" using h by (simp add: BlockStatistic_def)
  have k: "0 < unat maxBlocks" using Cons.prems(3) by (simp add: unat_gt_0)
  have c: "contiguous ?xs" by (rule contiguous_append [OF Cons.prems(1,2) hs])
  have t: "increasing_times (?xs @ map BlockStatistic bs)" using Cons.prems(5) by simp
  then have "increasing_times ?xs" by (auto simp: increasing_times_def sorted_wrt_append)
  then obtain d' where d': "CalculateDifficulty narrow targetMillis (drop (length ?xs - unat maxBlocks) ?xs) = Ok d'"
    using CalculateDifficulty_defined increasing_times_drop by blast
  have f: "blocks_follow (st_Height (last ?xs)) bs" using Cons.prems(4) by (simp add: BlockStatistic_def)
  from Cons.IH [OF c _ Cons.prems(3) f t d', of "Suc i"] window_step [OF Cons.prems(1,2) k hs] cache d'
  show ?case by (simp add: Let_def del: length_append) (cases "check_reference narrow targetMillis maxBlocks bs ?xs"; simp)
qed simp

subsection \<open>The exact difficulty\<close>

text \<open>The difficulty in unbounded arithmetic: five percent around the last one, and within the global limits.\<close>

definition exact_difficulty :: "nat \<Rightarrow> nat list \<Rightarrow> nat \<Rightarrow> nat" where
  "exact_difficulty targetMillis ds timeDiff =
     (let v = sum_list ds div length ds * targetMillis * (length ds - 1) div timeDiff; l = last ds
      in max 10000000000000 (min 1000000000000000
           (if 20 * v < 19 * l then 19 * l div 20 else if 21 * l < 20 * v then 21 * l div 20 else v)))"

lemma unat_ucast_128: "unat (ucast (w :: 64 word) :: 128 word) = unat w"
proof -
  have "unat w < 2 ^ LENGTH(64)" by (rule unsigned_less)
  then have "unat w < 2 ^ 128" by simp
  then show ?thesis by (simp add: unsigned_ucast_eq take_bit_nat_eq_self)
qed

lemma sum_list_le: "\<forall>x \<in> set xs. f x \<le> (m :: nat) \<Longrightarrow> (\<Sum>x \<leftarrow> xs. f x) \<le> length xs * m"
  by (induction xs) auto

lemma unat_Difficulty_Clamp: "unat (Difficulty_Clamp d) = max 10000000000000 (min 1000000000000000 (unat d))"
  by (auto simp: Difficulty_Clamp_def Difficulty_Min_def Difficulty_Max_def word_less_nat_alt)

lemma exact_difficulty_bounds:
  assumes "ds \<noteq> []" "10000000000000 \<le> last ds" "last ds \<le> 1000000000000000"
  shows "19 * last ds \<le> 20 * exact_difficulty t ds dt + 19" "20 * exact_difficulty t ds dt \<le> 21 * last ds"
    "10000000000000 \<le> exact_difficulty t ds dt" "exact_difficulty t ds dt \<le> 1000000000000000"
  using assms(2,3) by (auto simp: exact_difficulty_def Let_def)

lemma CalculateDifficulty_exact:
  assumes narrow: "\<forall>x. unat x < 2 ^ 64 \<longrightarrow> narrow x = ucast x"
    and xs: "2 \<le> length xs" "length xs \<le> 10000" "\<forall>s \<in> set xs. unat (st_Difficulty s) \<le> 1000000000000000"
    and t: "unat targetMillis \<le> 900000"
    and dt: "1000 * (length xs - 1) \<le> unat (st_Timestamp (last xs) - st_Timestamp (hd xs))"
  shows "\<exists>d. CalculateDifficulty narrow targetMillis xs = Ok d
    \<and> unat d = exact_difficulty (unat targetMillis) (map (\<lambda>s. unat (st_Difficulty s)) xs) (unat (st_Timestamp (last xs) - st_Timestamp (hd xs)))"
proof -
  let ?ds = "map (\<lambda>s. unat (st_Difficulty s)) xs" and ?n = "length xs" and ?dt = "unat (st_Timestamp (last xs) - st_Timestamp (hd xs))"
  define avg where "avg = (\<Sum>s \<leftarrow> xs. st_Difficulty s) div of_nat ?n"
  have sum: "sum_list ?ds \<le> ?n * 1000000000000000" using xs(3) by (intro sum_list_le) auto
  then have "sum_list ?ds < 2 ^ 64" using xs(2) by simp
  then have "unat (\<Sum>s \<leftarrow> xs. st_Difficulty s) = sum_list ?ds" by (rule unat_sum_list)
  moreover have "unat (of_nat ?n :: 64 word) = ?n" using xs(2) by (simp add: unat_of_nat take_bit_nat_eq_self)
  ultimately have avg: "unat avg = sum_list ?ds div ?n" by (simp add: avg_def unat_div)
  have avg_le: "unat avg \<le> 1000000000000000" unfolding avg using sum xs(1) by (metis div_le_mono nonzero_mult_div_cancel_left not_numeral_le_zero)
  define large :: "128 word" where "large = ucast avg * ucast targetMillis * of_nat (?n - 1)"
  have "unat avg * unat targetMillis * (?n - 1) \<le> 1000000000000000 * 900000 * 10000"
    using avg_le t xs(2) by (intro mult_le_mono) auto
  then have "unat avg * unat targetMillis * (?n - 1) < 2 ^ 128" by simp
  moreover have "unat avg * unat targetMillis < 2 ^ 128"
    using mult_le_mono [OF avg_le t] by simp
  moreover have "unat (of_nat (?n - 1) :: 128 word) = ?n - 1" using xs(2) by (simp add: unat_of_nat take_bit_nat_eq_self)
  ultimately have large: "unat large = unat avg * unat targetMillis * (?n - 1)"
    unfolding large_def by (simp only: unat_word_ariths unat_ucast_128) simp
  define q :: "128 word" where "q = large div ucast (st_Timestamp (last xs) - st_Timestamp (hd xs))"
  have q: "unat q = unat avg * unat targetMillis * (?n - 1) div ?dt" by (simp add: q_def unat_div large unat_ucast_128)
  have q_le: "unat q \<le> 900000000000000000"
  proof -
    have "unat q \<le> 1000000000000000 * 900000 * (?n - 1) div (1000 * (?n - 1))"
      unfolding q using avg_le t dt xs(1) by (intro div_le_mono2 order_trans [OF div_le_mono div_le_mono2] mult_le_mono) auto
    also have "\<dots> \<le> 900000000000000000" using xs(1) by simp
    finally show ?thesis .
  qed
  define v where "v = narrow q"
  have v: "unat v = unat q"
  proof -
    have "unat q < 2 ^ 64" using q_le by simp
    then show ?thesis using narrow by (simp add: v_def unsigned_ucast_eq take_bit_nat_eq_self)
  qed
  let ?l = "st_Difficulty (last xs)"
  have ne: "xs \<noteq> []" using xs(1) by auto
  have l: "unat ?l \<le> 1000000000000000" using xs(3) ne by simp
  have "0 < ?dt" using dt xs(1) by auto
  then have "st_Timestamp (last xs) - st_Timestamp (hd xs) \<noteq> 0" by (metis unat_0 less_irrefl)
  then have run: "CalculateDifficulty narrow targetMillis xs = Ok (Difficulty_Clamp
      (if 19 * ?l > 20 * v then (19 * ?l) div 20 else if 21 * ?l < 20 * v then (21 * ?l) div 20 else v))"
    using xs(1) unfolding CalculateDifficulty_def Let_def avg_def [symmetric] large_def [symmetric] q_def [symmetric] v_def [symmetric] by simp
  have m: "unat (19 * ?l) = 19 * unat ?l" "unat (21 * ?l) = 21 * unat ?l" "unat (20 * v) = 20 * unat v"
    using l q_le v by (simp_all add: unat_word_ariths)
  have "unat (Difficulty_Clamp (if 19 * ?l > 20 * v then (19 * ?l) div 20 else if 21 * ?l < 20 * v then (21 * ?l) div 20 else v))
      = exact_difficulty (unat targetMillis) ?ds ?dt"
    unfolding unat_Difficulty_Clamp exact_difficulty_def Let_def word_less_nat_alt length_map avg [symmetric] q [symmetric] v [symmetric] last_map [OF ne]
    by (simp add: m unat_div)
  with run show ?thesis by blast
qed

subsection \<open>Properties\<close>

text \<open>
  C25: For up to 10000 blocks whose difficulties are within the limits, that are a second or more apart on
  average, with a target time of up to fifteen minutes, no step of the computation overflows: the
  difficulty of the next block is the one of unbounded arithmetic, it stays within the limits and within five percent of
  the last one.
\<close>

theorem difficulty_exact:
  assumes "\<forall>x. unat x < 2 ^ 64 \<longrightarrow> narrow x = ucast x"
    and "2 \<le> length xs" "length xs \<le> 10000"
    and "\<forall>s \<in> set xs. Difficulty_Min \<le> st_Difficulty s \<and> st_Difficulty s \<le> Difficulty_Max"
    and "unat targetMillis \<le> 900000" "1000 * (length xs - 1) \<le> unat (st_Timestamp (last xs) - st_Timestamp (hd xs))"
  shows "\<exists>d. CalculateDifficulty narrow targetMillis xs = Ok d
    \<and> unat d = exact_difficulty (unat targetMillis) (map (\<lambda>s. unat (st_Difficulty s)) xs) (unat (st_Timestamp (last xs) - st_Timestamp (hd xs)))
    \<and> Difficulty_Min \<le> d \<and> d \<le> Difficulty_Max
    \<and> 19 * unat (st_Difficulty (last xs)) \<le> 20 * unat d + 19 \<and> 20 * unat d \<le> 21 * unat (st_Difficulty (last xs))"
proof -
  have lim: "\<forall>s \<in> set xs. 10000000000000 \<le> unat (st_Difficulty s) \<and> unat (st_Difficulty s) \<le> 1000000000000000"
    using assms(4) by (simp add: Difficulty_Min_def Difficulty_Max_def word_le_nat_alt)
  then obtain d where d: "CalculateDifficulty narrow targetMillis xs = Ok d"
      "unat d = exact_difficulty (unat targetMillis) (map (\<lambda>s. unat (st_Difficulty s)) xs) (unat (st_Timestamp (last xs) - st_Timestamp (hd xs)))"
    using CalculateDifficulty_exact [OF assms(1-3) _ assms(5,6)] by blast
  have ne: "xs \<noteq> []" using assms(2) by auto
  have l: "10000000000000 \<le> last (map (\<lambda>s. unat (st_Difficulty s)) xs)" "last (map (\<lambda>s. unat (st_Difficulty s)) xs) \<le> 1000000000000000"
    using lim ne by (simp_all add: last_map)
  have ne': "map (\<lambda>s. unat (st_Difficulty s)) xs \<noteq> []" using ne by simp
  note b = exact_difficulty_bounds [OF ne' l, of "unat targetMillis" "unat (st_Timestamp (last xs) - st_Timestamp (hd xs))", folded d(2)]
  have "19 * unat (st_Difficulty (last xs)) \<le> 20 * unat d + 19" "20 * unat d \<le> 21 * unat (st_Difficulty (last xs))"
    using b(1,2) unfolding last_map [OF ne] by auto
  moreover have "Difficulty_Min \<le> d" "d \<le> Difficulty_Max" using b(3,4) by (auto simp: Difficulty_Min_def Difficulty_Max_def word_le_nat_alt)
  ultimately show ?thesis using d by blast
qed

definition sample_statistic :: "height \<Rightarrow> 64 word \<Rightarrow> 64 word \<Rightarrow> block_statistic" where
  "sample_statistic h t d = \<lparr>st_Height = h, st_Timestamp = t, st_Difficulty = d, st_FeeMultiplier = 0\<rparr>"

theorem difficulty_exact_witness:
  "\<exists>d. CalculateDifficulty ucast 15000 [sample_statistic 1 0 100000000000000, sample_statistic 2 10000 100000000000000] = Ok d
    \<and> 20 * unat d \<le> 21 * 100000000000000"
  using difficulty_exact [of "ucast" "[sample_statistic 1 0 100000000000000, sample_statistic 2 10000 100000000000000]" 15000]
  by (auto simp: sample_statistic_def Difficulty_Min_def Difficulty_Max_def)

text \<open>
  The check of the difficulties of a chain part, which keeps a sliding window of statistics, counts exactly
  the leading blocks whose difficulty is the one computed from the cache with all the blocks before
  them.
\<close>

theorem check_difficulties_window:
  assumes "contiguous xs" "xs \<noteq> []" "0 < maxBlocks" "blocks_follow (st_Height (last xs)) blocks"
    and "increasing_times (xs @ map BlockStatistic blocks)"
  shows "CheckDifficulties narrow targetMillis maxBlocks xs blocks = check_reference narrow targetMillis maxBlocks blocks xs"
proof (cases blocks)
  case (Cons b bs)
  have h: "unat (b_Height b) = Suc (unat (st_Height (last xs)))" using assms(4) Cons by simp
  have "b_Height b = of_nat (unat (b_Height b))" by simp
  also have "\<dots> = st_Height (last xs) + 1" unfolding h by simp
  finally have prev: "b_Height b - 1 = st_Height (last xs)" by simp
  have "increasing_times xs" using assms(5) by (auto simp: increasing_times_def sorted_wrt_append)
  then obtain d where d: "CalculateDifficulty narrow targetMillis (drop (length xs - unat maxBlocks) xs) = Ok d"
    using CalculateDifficulty_defined increasing_times_drop by blast
  have "map_result (\<lambda>n. 0 + n) r = r" for r :: "nat result" by (cases r) auto
  with check_loop_reference [OF assms d, of 0] have
    "check_difficulties_loop narrow targetMillis maxBlocks blocks (drop (length xs - unat maxBlocks) xs) d 0 = check_reference narrow targetMillis maxBlocks blocks xs"
    by simp
  then show ?thesis using Cons statistics_last [OF assms(1-3)] d by (simp add: CheckDifficulties_def prev)
qed (simp add: CheckDifficulties_def)

theorem check_difficulties_window_witness:
  "CheckDifficulties ucast 15000 2 [sample_statistic 1 0 100000000000000]
      [\<lparr>b_Height = 2, b_Timestamp = 15000, b_Difficulty = 100000000000000, b_FeeMultiplier = 0, b_PreviousBlockHash = 0\<rparr>,
       \<lparr>b_Height = 3, b_Timestamp = 30000, b_Difficulty = 7, b_FeeMultiplier = 0, b_PreviousBlockHash = 0\<rparr>] = Ok 1"
  (is "CheckDifficulties _ _ _ ?xs ?bs = _")
proof -
  have "CheckDifficulties ucast 15000 2 ?xs ?bs = check_reference ucast 15000 2 ?bs ?xs"
    by (rule check_difficulties_window) (simp_all add: contiguous_def sample_statistic_def increasing_times_def BlockStatistic_def)
  also have "\<dots> = Ok 1" by code_simp
  finally show ?thesis .
qed

lemma ucast_64_128: "unat x < 2 ^ 64 \<Longrightarrow> ucast (ucast (x :: 128 word) :: 64 word) = x"
  by (simp add: word_unat_eq_iff unsigned_ucast_eq unsigned_take_bit_eq take_bit_nat_eq_self)

lemma sint_neg_iff: "sint (w :: 64 word) < 0 \<longleftrightarrow> 2 ^ 63 \<le> unat w"
proof -
  have w: "unat w < 2 ^ 64" using unsigned_less [of w] by simp
  have "sint w < 0 \<longleftrightarrow> bit w 63" by (simp add: sint_uint signed_take_bit_negative_iff bit_uint_iff)
  also have "\<dots> \<longleftrightarrow> bit (unat w) 63" by (simp add: bit_unsigned_iff)
  also have "\<dots> \<longleftrightarrow> 2 ^ 63 \<le> unat w"
  proof
    assume "bit (unat w) 63"
    then show "2 ^ 63 \<le> unat w" by (intro leI notI) (simp add: bit_iff_odd)
  next
    assume "2 ^ 63 \<le> unat w"
    then have "unat w div 2 ^ 63 = 1" using w by (intro div_nat_eqI) auto
    then show "bit (unat w) 63" by (simp add: bit_iff_odd)
  qed
  finally show ?thesis .
qed

lemma sint_64_nonneg: "unat (x :: 128 word) < 2 ^ 63 \<Longrightarrow> 0 \<le> sint (ucast x :: 64 word)"
  using sint_neg_iff [of "ucast x"] by (simp add: unsigned_ucast_eq take_bit_nat_eq_self)

lemma sint_64_neg:
  assumes "unat (x :: 128 word) < 2 ^ 63" "x \<noteq> 0"
  shows "sint (- ucast x :: 64 word) < 0"
proof -
  have u: "unat (ucast x :: 64 word) = unat x" using assms(1) by (simp add: unsigned_ucast_eq take_bit_nat_eq_self)
  have "0 < unat x" using assms(2) by (simp add: unat_gt_0)
  moreover have "of_nat (unat (ucast x :: 64 word)) = (ucast x :: 64 word)" by simp
  then have "- ucast x = (of_nat (2 ^ 64 - unat x) :: 64 word)" using assms(1) unfolding u by (simp add: of_nat_diff)
  ultimately have "unat (- ucast x :: 64 word) = 2 ^ 64 - unat x" by (simp add: unat_of_nat take_bit_nat_eq_self)
  then show ?thesis using assms(1) by (simp add: sint_neg_iff)
qed

lemma score_parts: "ChainScore_of_parts (fst (score_toArray s)) (snd (score_toArray s)) = s"
proof -
  have h: "unat (drop_bit 64 s) = unat s div 2 ^ 64" by (simp add: drop_bit_eq_div unat_div)
  have l: "unat (s AND mask 64) = unat s mod 2 ^ 64" by (simp add: take_bit_eq_mask [symmetric] take_bit_eq_mod unat_mod)
  have s: "unat s < 2 ^ 128" using unsigned_less [of s] by simp
  have "ucast (ucast (drop_bit 64 s) :: 64 word) = drop_bit 64 s" "ucast (ucast (s AND mask 64) :: 64 word) = s AND mask 64"
    using s by (intro ucast_64_128; simp add: h l less_mult_imp_div_less)+
  then show ?thesis using h l s by (simp add: ChainScore_of_parts_def score_toArray_def push_bit_eq_mult word_unat_eq_iff unat_word_ariths)
qed

text \<open>
  The difference of two chain scores exists exactly if they are less than \<open>2 ^ 63\<close> apart, and adding it
  to the second score gives the first; the two 64-bit halves of a score determine it.
\<close>

theorem chain_score_difference:
  "(case score_difference s r of
      Ok d \<Rightarrow> score_add_delta r d = Ok s
    | Err _ \<Rightarrow> unat s + 2 ^ 63 \<le> unat r \<or> unat r + 2 ^ 63 \<le> unat s)
    \<and> ChainScore_of_parts (fst (score_toArray s)) (snd (score_toArray s)) = s"
proof
  show "ChainScore_of_parts (fst (score_toArray s)) (snd (score_toArray s)) = s" by (rule score_parts)
  have s: "unat s < 2 ^ 128" and r: "unat r < 2 ^ 128" using unsigned_less [of s] unsigned_less [of r] by simp_all
  show "case score_difference s r of Ok d \<Rightarrow> score_add_delta r d = Ok s
    | Err _ \<Rightarrow> unat s + 2 ^ 63 \<le> unat r \<or> unat r + 2 ^ 63 \<le> unat s"
  proof (cases "r < s")
    case True
    have d: "unat (s - r) = unat s - unat r" "unat r < unat s" using True unat_sub [OF less_imp_le [OF True]] by (auto simp: word_less_nat_alt)
    show ?thesis
    proof (cases "s - r > 0x7FFFFFFFFFFFFFFF")
      case small: False
      then have lt: "unat (s - r) < 2 ^ 63" by (simp add: word_less_nat_alt)
      then show ?thesis using True small d s sint_64_nonneg [OF lt] ucast_64_128 [of "s - r"]
        by (simp add: score_difference_def score_add_delta_def score_add_def)
    qed (use True d in \<open>auto simp: score_difference_def word_less_nat_alt\<close>)
  next
    case False
    then have d: "unat (r - s) = unat r - unat s" "unat s \<le> unat r" by (auto simp: unat_sub word_less_nat_alt word_le_nat_alt not_less)
    show ?thesis
    proof (cases "r - s > 0x7FFFFFFFFFFFFFFF")
      case small: False
      then have lt: "unat (r - s) < 2 ^ 63" by (simp add: word_less_nat_alt)
      show ?thesis
      proof (cases "r = s")
        case True
        then show ?thesis using r by (simp add: score_difference_def score_add_delta_def score_add_def)
      next
        case ne: False
        then have "r - s \<noteq> 0" by simp
        then show ?thesis using False small d lt sint_64_neg [OF lt] ucast_64_128 [of "r - s"]
          by (simp add: score_difference_def score_add_delta_def score_sub_checked_def word_less_nat_alt)
      qed
    qed (use False d in \<open>auto simp: score_difference_def word_less_nat_alt\<close>)
  qed
qed

end
