(* ===== verification/Block_Hit.thy ===== *)
theory Block_Hit
  imports Chain_Score
begin

section \<open>Hits and targets\<close>

text \<open>
  Whether a block may be harvested, \<^verbatim>\<open>src/src/bitxorcore/chain/BlockScorer.cpp\<close>: the hit is a logarithm of the
  generation hash in fixed-point arithmetic, \<^verbatim>\<open>utils/IntegerMath.cpp\<close>, and has to be below a target that grows
  with the time since the last block and the importance of the signer.  Boost's unsigned 256-bit integers wrap
  around; its signed 128-bit integers do not overflow here and are integers; its division by zero
  throws.
\<close>

subsection \<open>Logarithm and power of two\<close>

fun highest_bit :: "nat \<Rightarrow> nat" where
  "highest_bit n = (if n < 2 then 0 else Suc (highest_bit (n div 2)))"

declare highest_bit.simps [simp del]

text \<open>\<^verbatim>\<open>Log2\<close> of a byte; of zero it is the largest byte.\<close>

definition Log2_byte :: "8 word \<Rightarrow> nat" where
  "Log2_byte w = (if w = 0 then 255 else highest_bit (unat w))"

text \<open>The loop that doubles \<open>x\<close> until it has 32 bits; \<open>None\<close> if it needs more steps than given.\<close>

fun log2_normalize :: "nat \<Rightarrow> 64 word \<Rightarrow> 64 word \<Rightarrow> (64 word \<times> 64 word) option" where
  "log2_normalize 0 x y = None"
| "log2_normalize (Suc fuel) x y = (if x < 2 ^ 31 then log2_normalize fuel (push_bit 1 x) (y - 1) else Some (x, y))"

fun log2_iterate :: "nat \<Rightarrow> 64 word \<Rightarrow> 64 word \<Rightarrow> 64 word" where
  "log2_iterate 0 x y = y"
| "log2_iterate (Suc n) x y =
     (let x' = drop_bit 31 (x * x); y' = push_bit 1 y
      in if x' \<ge> 2 * 2 ^ 31 then log2_iterate n (drop_bit 1 x') (y' + 1) else log2_iterate n x' y')"

definition Log2TimesPowerOfTwo :: "nat \<Rightarrow> 64 word \<Rightarrow> nat \<Rightarrow> 64 word result option" where
  "Log2TimesPowerOfTwo fuel v n =
     (if 0 = v then Some (Err Invalid_Argument)
      else map_option (\<lambda>(x, y). Ok (log2_iterate n x y)) (log2_normalize fuel v 31))"

definition FixedPointPowerOfTwo :: "int \<Rightarrow> 32 word" where
  "FixedPointPowerOfTwo v =
     (let i = (v + 0x8000) AND NOT 0xFFFF; f = v - i; s = (15 * 65536 - i) sdiv 65536;
          r1 = (0xE20 * f + 0x3E1CC333) sdiv 131072;
          r2 = (r1 * f + 0x58BD46A6) sdiv 65536;
          r3 = r2 * f + 0x7FFDE4A3
      in drop_bit (nat s) (word_of_int r3))"

subsection \<open>Hit\<close>

text \<open>Byte \<open>i\<close> of a hash, and the big-endian 32-bit value from byte \<open>i\<close> on.\<close>

definition hash_byte :: "hash256 \<Rightarrow> nat \<Rightarrow> 8 word" where
  "hash_byte h i = ucast (drop_bit (8 * (31 - i)) h)"

definition ExtractFromHashAtPosition :: "hash256 \<Rightarrow> nat \<Rightarrow> 32 word" where
  "ExtractFromHashAtPosition h i = ucast (drop_bit (8 * (28 - i)) h)"

fun leading_zeros_loop :: "hash256 \<Rightarrow> nat list \<Rightarrow> nat" where
  "leading_zeros_loop h [] = 256"
| "leading_zeros_loop h (i # is) = (if 0 \<noteq> hash_byte h i then 8 * i + 7 - Log2_byte (hash_byte h i) else leading_zeros_loop h is)"

definition NumLeadingZeros :: "hash256 \<Rightarrow> nat" where
  "NumLeadingZeros h = leading_zeros_loop h [0..<32]"

definition ExtractGenerationHashInfo :: "hash256 \<Rightarrow> 32 word \<times> nat" where
  "ExtractGenerationHashInfo h =
     (let numLeadingZeros = NumLeadingZeros h
      in if 224 \<le> numLeadingZeros then (ExtractFromHashAtPosition h 28, 224)
         else let quotient = numLeadingZeros div 8; remainder = numLeadingZeros mod 8;
                  v = push_bit remainder (ExtractFromHashAtPosition h quotient)
              in (v + ucast (drop_bit (8 - remainder) (hash_byte h (quotient + 4))), numLeadingZeros))"

text \<open>The normalization of a 32-bit value takes at most 31 steps.\<close>

definition CalculateHit :: "hash256 \<Rightarrow> 64 word result option" where
  "CalculateHit h =
     (let info = ExtractGenerationHashInfo h
      in if 0 = fst info then Some (Ok (- 1))
         else if 0xFFFFFFFF = fst info then Some (Ok 0)
         else map_option (map_result (\<lambda>logValue.
                let r = ucast (of_nat (32 + snd info) * 2 ^ 54 - logValue) :: 128 word
                in ucast (r * 10000000000000000 div 14426950408889634)))
              (Log2TimesPowerOfTwo 32 (ucast (fst info)) 54))"

subsection \<open>Target\<close>

record hit_configuration =
  BlockTimeSmoothingFactor :: "32 word"
  BlockGenerationTargetTime :: "64 word"
  TotalChainImportance :: importance

definition GetMultiplier :: "64 word \<Rightarrow> hit_configuration \<Rightarrow> 256 word result" where
  "GetMultiplier timeDiff config =
     (let smoother =
        (if 0 \<noteq> BlockTimeSmoothingFactor config
         then let factor = (uint (push_bit 16 (BlockTimeSmoothingFactor config)) * 65536) div (1000 * 65536);
                  targetTime = uint (push_bit 16 (timespan_seconds (BlockGenerationTargetTime config)));
                  elapsedTime = uint (push_bit 16 timeDiff)
              in if targetTime = 0 then Err Range_Error
                 else let power = ((factor * (elapsedTime - targetTime)) sdiv targetTime * 14426950408) sdiv 10000000000
                      in Ok (if - (5 * 65536) > power then 0 else if 435411 < power then 100 * 65536 else FixedPointPowerOfTwo power)
         else Ok (65536 :: 32 word))
      in map_result (\<lambda>s. push_bit 10 (ucast (push_bit 38 (ucast s :: 64 word)))) smoother)"

definition CalculateTarget :: "64 word \<Rightarrow> 64 word \<Rightarrow> importance \<Rightarrow> hit_configuration \<Rightarrow> 256 word result" where
  "CalculateTarget timeSpan difficulty signerImportance config =
     bind_result (GetMultiplier (timespan_seconds timeSpan) config) (\<lambda>multiplier.
       let target = ucast (timespan_seconds timeSpan) * ucast signerImportance * multiplier * 8999999998
       in if TotalChainImportance config = 0 then Err Range_Error
          else if difficulty = 0 then Err Range_Error
          else Ok (target div ucast (TotalChainImportance config) div ucast difficulty))"

definition CalculateTarget_blocks :: "block \<Rightarrow> block \<Rightarrow> importance \<Rightarrow> hit_configuration \<Rightarrow> 256 word result" where
  "CalculateTarget_blocks parentBlock currentBlock signerImportance config =
     (if b_Timestamp currentBlock \<le> b_Timestamp parentBlock then Ok 0
      else CalculateTarget (TimeBetweenBlocks parentBlock currentBlock) (b_Difficulty currentBlock) signerImportance config)"

text \<open>The importance of the signer at the height of the block is what the lookup returns.\<close>

definition BlockHitPredicate :: "hit_configuration \<Rightarrow> importance \<Rightarrow> block \<Rightarrow> block \<Rightarrow> hash256 \<Rightarrow> bool result option" where
  "BlockHitPredicate config signerImportance parentBlock b generationHash =
     map_option (\<lambda>r. bind_result r (\<lambda>hit. map_result (\<lambda>target. ucast hit < target)
         (CalculateTarget_blocks parentBlock b signerImportance config)))
       (CalculateHit generationHash)"

definition BlockHitPredicate_context :: "hit_configuration \<Rightarrow> importance \<Rightarrow> 64 word \<Rightarrow> 64 word \<Rightarrow> hash256 \<Rightarrow> bool result option" where
  "BlockHitPredicate_context config signerImportance elapsedTime difficulty generationHash =
     map_option (\<lambda>r. bind_result r (\<lambda>hit. map_result (\<lambda>target. ucast hit < target)
         (CalculateTarget elapsedTime difficulty signerImportance config)))
       (CalculateHit generationHash)"

subsection \<open>The logarithm\<close>

lemma unat_less_2_64: "unat (w :: 64 word) < 2 ^ 64"
  using unsigned_less [of w] by simp

lemma unat_double: "unat (w :: 64 word) < 2 ^ 63 \<Longrightarrow> unat (push_bit 1 w) = 2 * unat w"
  by (simp add: push_bit_eq_mult unat_word_ariths)

lemma log2_normalize_spec:
  assumes "0 < v" "unat x = v * 2 ^ k" "v * 2 ^ k < 2 ^ 32" "unat y = 31 - k" "k \<le> 31" "32 \<le> fuel + k"
  shows "\<exists>x' y'. log2_normalize fuel x y = Some (x', y') \<and> 2 ^ 31 \<le> unat x' \<and> unat x' < 2 ^ 32
    \<and> unat x' * 2 ^ unat y' = v * 2 ^ 31 \<and> unat y' \<le> 31"
  using assms(2-)
proof (induction fuel arbitrary: x y k)
  case (Suc fuel)
  show ?case
  proof (cases "x < 2 ^ 31")
    case True
    then have lt: "v * 2 ^ k < 2 ^ 31" using Suc.prems(1) by (simp add: word_less_nat_alt)
    have "(2 :: nat) ^ k \<le> v * 2 ^ k" using assms(1) by simp
    with lt have "(2 :: nat) ^ k < 2 ^ 31" by linarith
    then have k: "k < 31" by (simp only: power_strict_increasing_iff one_less_numeral_iff semiring_norm)
    have "unat (push_bit 1 x) = 2 * unat x" using lt Suc.prems(1) by (intro unat_double) simp
    then have "unat (push_bit 1 x) = v * 2 ^ Suc k" unfolding Suc.prems(1) by simp
    moreover have "unat (y - 1) = 31 - Suc k" using Suc.prems(3) k by (simp add: unat_sub word_le_nat_alt)
    moreover have "v * 2 ^ Suc k < 2 ^ 32" using lt by simp
    ultimately show ?thesis using Suc.IH [of "push_bit 1 x" "Suc k" "y - 1"] Suc.prems k True by simp
  next
    case False
    have "(2 :: nat) ^ k * 2 ^ (31 - k) = 2 ^ 31" using Suc.prems(4) by (simp flip: power_add)
    then have "unat x * 2 ^ unat y = v * 2 ^ 31" using Suc.prems(1,3) by (simp add: mult.assoc)
    with False Suc.prems show ?thesis by (simp add: word_less_nat_alt)
  qed
qed simp

lemma log2_iterate_spec:
  assumes "2 ^ 31 \<le> unat x" "unat x < 2 ^ 32" "unat x * 2 ^ unat y \<le> V * 2 ^ 31" "unat y < c" "c * 2 ^ n \<le> 2 ^ 64"
  shows "2 ^ unat (log2_iterate n x y) \<le> V ^ 2 ^ n \<and> unat (log2_iterate n x y) < c * 2 ^ n"
  using assms
proof (induction n arbitrary: x y V c)
  case 0
  then have "2 ^ 31 * 2 ^ unat y \<le> V * (2 ^ 31 :: nat)" by (meson le_trans mult_le_mono1)
  then show ?case using 0 by simp
next
  case (Suc n)
  define q where "q = unat x * unat x div 2 ^ 31"
  have xx: "unat x * unat x < 2 ^ 64" using mult_strict_mono [OF Suc.prems(2) Suc.prems(2)] by simp
  have ux: "unat (drop_bit 31 (x * x)) = q" using xx by (simp add: q_def drop_bit_eq_div unat_div unat_word_ariths)
  have q: "2 ^ 31 \<le> q" "q < 2 ^ 33"
  proof -
    have "(2 ^ 31 * 2 ^ 31 :: nat) \<le> unat x * unat x" using Suc.prems(1) by (intro mult_le_mono)
    from div_le_mono [OF this, of "2 ^ 31"] show "2 ^ 31 \<le> q" by (simp add: q_def)
    have "unat x * unat x < 2 ^ 33 * 2 ^ 31" using xx by simp
    then show "q < 2 ^ 33" unfolding q_def by (rule less_mult_imp_div_less)
  qed
  have c1: "2 * c \<le> 2 ^ 64" using Suc.prems(5) by (metis mult.commute mult_le_mono2 order_trans one_le_power one_le_numeral mult.assoc power_Suc nat_mult_1)
  then have uy: "unat (push_bit 1 y) = 2 * unat y" using Suc.prems(4) by (intro unat_double) simp
  have bound: "q * 2 ^ (2 * unat y) \<le> V * V * 2 ^ 31"
  proof -
    have "(unat x * 2 ^ unat y) * (unat x * 2 ^ unat y) \<le> (V * 2 ^ 31) * (V * 2 ^ 31)"
      by (rule mult_le_mono [OF Suc.prems(3) Suc.prems(3)])
    moreover have "(2 :: nat) ^ (2 * unat y) = 2 ^ unat y * 2 ^ unat y" by (simp add: mult_2 power_add)
    ultimately have "unat x * unat x * 2 ^ (2 * unat y) \<le> V * V * 2 ^ 31 * 2 ^ 31" by (simp add: mult_ac del: power_mult_numeral)
    moreover have "q * 2 ^ 31 \<le> unat x * unat x" by (simp add: q_def)
    then have "q * 2 ^ 31 * 2 ^ (2 * unat y) \<le> unat x * unat x * 2 ^ (2 * unat y)" by (rule mult_le_mono1)
    ultimately have "q * 2 ^ 31 * 2 ^ (2 * unat y) \<le> V * V * 2 ^ 31 * 2 ^ 31" by (rule order_trans [rotated])
    then have "(q * 2 ^ (2 * unat y)) * 2 ^ 31 \<le> (V * V * 2 ^ 31) * 2 ^ 31" by (simp only: mult.assoc mult.commute mult.left_commute)
    then show ?thesis by (rule mult_le_cancel2 [THEN iffD1, rule_format]) simp
  qed
  have V: "(V * V) ^ 2 ^ n = V ^ 2 ^ Suc n" by (simp add: power_mult power2_eq_square)
  have c2: "(2 * c) * 2 ^ n \<le> 2 ^ 64" "(2 * c) * 2 ^ n = c * 2 ^ Suc n" using Suc.prems(5) by (simp_all add: mult_ac)
  show ?case
  proof (cases "q < 2 ^ 32")
    case True
    have "2 ^ unat (log2_iterate n (drop_bit 31 (x * x)) (push_bit 1 y)) \<le> (V * V) ^ 2 ^ n
        \<and> unat (log2_iterate n (drop_bit 31 (x * x)) (push_bit 1 y)) < 2 * c * 2 ^ n"
      using q(1) True bound Suc.prems(4) c2(1) ux uy by (intro Suc.IH) simp_all
    with True ux show ?thesis unfolding V c2(2) by (simp add: Let_def word_le_nat_alt)
  next
    case False
    let ?x = "drop_bit 1 (drop_bit 31 (x * x))" and ?y = "push_bit 1 y + 1"
    have ux': "unat ?x = q div 2" using ux by (simp add: drop_bit_eq_div unat_div)
    have "2 * unat y + 1 < 2 ^ 64" using c1 Suc.prems(4) by simp
    then have uy': "unat ?y = Suc (2 * unat y)" using uy by (simp add: unat_word_ariths)
    have "q div 2 * 2 ^ Suc (2 * unat y) \<le> q * 2 ^ (2 * unat y)" by simp
    then have "unat ?x * 2 ^ unat ?y \<le> V * V * 2 ^ 31" using bound unfolding ux' uy' by linarith
    moreover have "2 ^ 31 \<le> unat ?x" "unat ?x < 2 ^ 32" using False q(2) unfolding ux' by simp_all
    moreover have "unat ?y < 2 * c" using Suc.prems(4) unfolding uy' by simp
    ultimately have "2 ^ unat (log2_iterate n ?x ?y) \<le> (V * V) ^ 2 ^ n \<and> unat (log2_iterate n ?x ?y) < 2 * c * 2 ^ n"
      using c2(1) by (intro Suc.IH)
    with False ux show ?thesis unfolding V c2(2) by (simp add: Let_def word_le_nat_alt)
  qed
qed

lemma Log2TimesPowerOfTwo_spec:
  assumes "0 < v" "unat v < 2 ^ 32" "n \<le> 59"
  shows "\<exists>y. Log2TimesPowerOfTwo 32 v n = Some (Ok y) \<and> 2 ^ unat y \<le> unat v ^ 2 ^ n \<and> unat y < 32 * 2 ^ n"
proof -
  have "0 < unat v" using assms(1) by (simp add: unat_gt_0)
  from log2_normalize_spec [OF this, of v 0 31 32] assms(2)
  obtain x y where xy: "log2_normalize 32 v 31 = Some (x, y)" "2 ^ 31 \<le> unat x" "unat x < 2 ^ 32" "unat x * 2 ^ unat y = unat v * 2 ^ 31" "unat y \<le> 31"
    by auto
  have "(2 :: nat) ^ n \<le> 2 ^ 59" using assms(3) by (intro power_increasing) auto
  then have "32 * 2 ^ n \<le> (2 ^ 64 :: nat)" by simp
  then have "2 ^ unat (log2_iterate n x y) \<le> unat v ^ 2 ^ n \<and> unat (log2_iterate n x y) < 32 * 2 ^ n"
    using xy by (intro log2_iterate_spec) auto
  with xy(1) assms(1) show ?thesis by (simp add: Log2TimesPowerOfTwo_def)
qed

subsection \<open>Hits\<close>

lemma highest_bit_le: "n < 2 ^ Suc k \<Longrightarrow> highest_bit n \<le> k"
proof (induction k arbitrary: n)
  case (Suc k)
  then have "highest_bit (n div 2) \<le> k" by simp
  then show ?case by (subst highest_bit.simps) simp
qed (simp add: highest_bit.simps)

lemma ExtractGenerationHashInfo_le: "snd (ExtractGenerationHashInfo h) \<le> 224"
  by (simp add: ExtractGenerationHashInfo_def Let_def)

lemma CalculateHit_value:
  assumes "info = ExtractGenerationHashInfo h" "fst info \<noteq> 0" "fst info \<noteq> 0xFFFFFFFF"
  shows "\<exists>hit y. CalculateHit h = Some (Ok hit) \<and> 2 ^ y \<le> unat (fst info) ^ 2 ^ 54 \<and> y < 32 * 2 ^ 54
    \<and> unat hit = ((32 + snd info) * 2 ^ 54 - y) * 10000000000000000 div 14426950408889634"
proof -
  let ?z = "snd info"
  have z: "?z \<le> 224" using ExtractGenerationHashInfo_le assms(1) by simp
  have u: "unat (ucast (fst info) :: 64 word) = unat (fst info)"
  proof -
    have "unat (fst info) < 2 ^ 32" using unsigned_less [of "fst info"] by simp
    then have "unat (fst info) < 2 ^ 64" by simp
    then show ?thesis by (simp add: unsigned_ucast_eq take_bit_nat_eq_self)
  qed
  have "unat (fst info) \<noteq> 0" using assms(2) by (simp add: unat_eq_zero)
  then have pos: "0 < (ucast (fst info) :: 64 word)" by (simp add: word_less_nat_alt u)
  have "unat (ucast (fst info) :: 64 word) < 2 ^ 32" unfolding u using unsigned_less [of "fst info"] by simp
  from Log2TimesPowerOfTwo_spec [OF pos this, of 54]
  obtain y where y: "Log2TimesPowerOfTwo 32 (ucast (fst info)) 54 = Some (Ok y)" "2 ^ unat y \<le> unat (fst info) ^ 2 ^ 54" "unat y < 32 * 2 ^ 54"
    unfolding u by auto
  let ?a = "of_nat (32 + ?z) * 2 ^ 54 :: 64 word"
  have "(32 + ?z) * 2 ^ 54 < 2 ^ 64" using z by simp
  then have a: "unat ?a = (32 + ?z) * 2 ^ 54" using z by (simp add: unat_word_ariths unat_of_nat take_bit_nat_eq_self)
  have "y \<le> ?a" unfolding word_le_nat_alt a using y(3) by simp
  then have s: "unat (?a - y) = (32 + ?z) * 2 ^ 54 - unat y" by (simp only: unat_sub a)
  have "unat (?a - y) * 10000000000000000 < 2 ^ 128" using unat_less_2_64 [of "?a - y"] by simp
  then have m: "unat ((ucast (?a - y) :: 128 word) * 10000000000000000) = unat (?a - y) * 10000000000000000"
    by (simp add: unat_word_ariths unat_ucast_128)
  define q :: "128 word" where "q = (ucast (?a - y) :: 128 word) * 10000000000000000 div 14426950408889634"
  have q: "unat q = unat (?a - y) * 10000000000000000 div 14426950408889634" unfolding q_def by (simp only: unat_div m) simp
  have "unat q < 2 ^ 64" unfolding q using unat_less_2_64 [of "?a - y"] by simp
  then have "unat (ucast q :: 64 word) = unat q" by (simp add: unsigned_ucast_eq take_bit_nat_eq_self)
  moreover have "CalculateHit h = Some (Ok (ucast q))" using assms y(1) by (simp add: CalculateHit_def Let_def q_def)
  ultimately show ?thesis using y(2,3) q s by (intro exI [of _ "ucast q"] exI [of _ "unat y"]) (simp only:)
qed

lemma CalculateHit_total: "\<exists>hit. CalculateHit h = Some (Ok hit)"
proof (cases "fst (ExtractGenerationHashInfo h) = 0 \<or> fst (ExtractGenerationHashInfo h) = 0xFFFFFFFF")
  case True
  then show ?thesis by (auto simp: CalculateHit_def Let_def)
next
  case False
  then show ?thesis using CalculateHit_value [OF refl, of h] by blast
qed

subsection \<open>Properties\<close>

text \<open>
  The hit is defined for every generation hash, and neither the logarithm nor the products
  overflow: apart from the two extreme values it is the exact quotient for a logarithm that
  is never above the one of the leading 32 bits of the hash.
\<close>

theorem calculate_hit:
  "\<exists>hit. CalculateHit h = Some (Ok hit)
    \<and> (let (v, zeros) = ExtractGenerationHashInfo h
       in if v = 0 then unat hit = 2 ^ 64 - 1
          else if v = 0xFFFFFFFF then hit = 0
          else (\<exists>y. 2 ^ y \<le> unat v ^ 2 ^ 54 \<and> y < 32 * 2 ^ 54
                 \<and> unat hit = ((32 + zeros) * 2 ^ 54 - y) * 10000000000000000 div 14426950408889634))"
proof -
  obtain v zeros where info: "ExtractGenerationHashInfo h = (v, zeros)" by fastforce
  consider "v = 0" | "v = 0xFFFFFFFF" | "v \<noteq> 0" "v \<noteq> 0xFFFFFFFF" by blast
  then show ?thesis
  proof cases
    case 1
    have "unat (- 1 :: 64 word) = 2 ^ 64 - 1" by (simp add: unsigned_minus_1_eq_mask mask_eq_exp_minus_1)
    with 1 show ?thesis by (simp add: CalculateHit_def info)
  next
    case 2
    then show ?thesis by (simp add: CalculateHit_def info)
  next
    case 3
    then show ?thesis using CalculateHit_value [OF info [symmetric]] by (auto simp: info)
  qed
qed

lemma timespan_seconds_small:
  assumes "unat millis < 1000"
  shows "timespan_seconds millis = 0"
proof -
  have lt: "uint millis < 1000" "0 \<le> uint millis" using assms unfolding uint_nat by linarith+
  then have "sint millis = uint millis" unfolding sint_uint by (intro signed_take_bit_int_eq_self; simp; linarith)
  with lt have "sint millis sdiv 1000 = 0" by (simp add: signed_divide_int_def)
  then show ?thesis by (simp add: timespan_seconds_def)
qed

text \<open>
  A block that hits has a timestamp at least a second after the one of its parent, and its
  signer has some importance, whatever the generation hash and the configuration are.
\<close>

theorem block_hit_needs_time:
  assumes "BlockHitPredicate config signerImportance parent b h = Some (Ok True)"
  shows "b_Timestamp parent < b_Timestamp b \<and> 1000 \<le> unat (b_Timestamp b - b_Timestamp parent) \<and> signerImportance \<noteq> 0"
proof -
  obtain hit target where t: "CalculateTarget_blocks parent b signerImportance config = Ok target" "ucast (hit :: 64 word) < target"
    using assms by (auto simp: BlockHitPredicate_def)
  then have pos: "target \<noteq> 0" by auto
  then have time: "b_Timestamp parent < b_Timestamp b" using t(1) by (auto simp: CalculateTarget_blocks_def not_less split: if_splits)
  with t(1) have target: "CalculateTarget (b_Timestamp b - b_Timestamp parent) (b_Difficulty b) signerImportance config = Ok target"
    by (simp add: CalculateTarget_blocks_def TimeBetweenBlocks_def not_le [symmetric] split: if_splits)
  then have "timespan_seconds (b_Timestamp b - b_Timestamp parent) \<noteq> 0" "signerImportance \<noteq> 0"
    using pos by (auto simp: CalculateTarget_def Let_def split: if_splits)
  with time show ?thesis using timespan_seconds_small by (meson not_le)
qed

theorem block_hit_needs_time_witness:
  "BlockHitPredicate \<lparr>BlockTimeSmoothingFactor = 3000, BlockGenerationTargetTime = 15000, TotalChainImportance = 9000000000\<rparr> 1000
      \<lparr>b_Height = 1, b_Timestamp = 0, b_Difficulty = 100000000000000, b_FeeMultiplier = 0, b_PreviousBlockHash = 0\<rparr>
      \<lparr>b_Height = 2, b_Timestamp = 15000, b_Difficulty = 100000000000000, b_FeeMultiplier = 0, b_PreviousBlockHash = 0\<rparr> (- 1) = Some (Ok True)
    \<and> (0 :: 64 word) < 15000 \<and> 1000 \<le> unat (15000 - 0 :: 64 word)"
  (is "BlockHitPredicate ?c ?i ?p ?b ?h = _ \<and> _")
proof -
  have "BlockHitPredicate ?c ?i ?p ?b ?h = Some (Ok True)" by code_simp
  with block_hit_needs_time [OF this] show ?thesis by simp
qed

end
