(* ===== verification/Namespace_State.thy ===== *)
theory Namespace_State
  imports Prelude "HOL-Library.Finite_Map"
begin

section \<open>Namespaces, root namespaces and their histories\<close>

text \<open>
  The state of the namespace plugin, \<^verbatim>\<open>src/plugins/txes/namespace/src/state\<close>.  A root namespace that is
  renewed by its owner shares the children of the root it extends through a \<^verbatim>\<open>shared_ptr\<close>, so a child
  that is added to the newest root appears in all the roots it extends.  The sharing is explicit: a
  root holds an address, and the history holds the store that maps addresses to children.  An
  address that no root holds is free and its children are empty; a fresh address is the successor
  of the address of the newest root, which is the largest one in use.
\<close>

type_synonym namespace_id = "64 word"
type_synonym namespace_path = "namespace_id list"

subsection \<open>Namespaces\<close>

definition Namespace_Base_Id :: namespace_id where
  "Namespace_Base_Id = 0"

definition new_Namespace :: "namespace_path \<Rightarrow> namespace_path result" where
  "new_Namespace path = (if path = [] then Err Out_Of_Range else Ok path)"

definition ns_id :: "namespace_path \<Rightarrow> namespace_id" where
  "ns_id path = path ! (length path - 1)"

definition ns_parentId :: "namespace_path \<Rightarrow> namespace_id" where
  "ns_parentId path = (if 1 = length path then Namespace_Base_Id else path ! (length path - 2))"

definition ns_rootId :: "namespace_path \<Rightarrow> namespace_id" where
  "ns_rootId path = path ! 0"

definition ns_isRoot :: "namespace_path \<Rightarrow> bool" where
  "ns_isRoot path \<longleftrightarrow> 1 = length path"

definition createChild :: "namespace_path \<Rightarrow> namespace_id \<Rightarrow> namespace_path result" where
  "createChild path i = new_Namespace (path @ [i])"

subsection \<open>Aliases\<close>

datatype alias_type = AliasType_None | AliasType_Token | AliasType_Address

datatype namespace_alias = No_Alias | Token_Alias token_id | Address_Alias address

fun alias_type_of :: "namespace_alias \<Rightarrow> alias_type" where
  "alias_type_of No_Alias = AliasType_None"
| "alias_type_of (Token_Alias _) = AliasType_Token"
| "alias_type_of (Address_Alias _) = AliasType_Address"

fun alias_tokenId :: "namespace_alias \<Rightarrow> token_id result" where
  "alias_tokenId (Token_Alias t) = Ok t"
| "alias_tokenId _ = Err Runtime_Error"

fun alias_address :: "namespace_alias \<Rightarrow> address result" where
  "alias_address (Address_Alias a) = Ok a"
| "alias_address _ = Err Runtime_Error"

subsection \<open>Lifetimes\<close>

record namespace_lifetime =
  Start :: height
  End :: height

definition max_height :: height where
  "max_height = - 1"

definition new_NamespaceLifetime :: "height \<Rightarrow> height \<Rightarrow> block_duration \<Rightarrow> namespace_lifetime result" where
  "new_NamespaceLifetime start end' grace =
     (if end' \<le> start then Err Invalid_Argument
      else let e = (if end' \<noteq> max_height then end' + grace else end')
           in if e < end' then Err Invalid_Argument else Ok \<lparr>Start = start, End = e\<rparr>)"

definition lifetime_isActive :: "namespace_lifetime \<Rightarrow> height \<Rightarrow> bool" where
  "lifetime_isActive l h \<longleftrightarrow> Start l \<le> h \<and> h < End l"

definition isActiveExcludingGracePeriod :: "namespace_lifetime \<Rightarrow> height \<Rightarrow> block_duration \<Rightarrow> bool result" where
  "isActiveExcludingGracePeriod l h grace =
     (if End l - Start l \<le> grace then Err Invalid_Argument
      else Ok (Start l \<le> h \<and> h < End l - grace))"

subsection \<open>Root namespaces\<close>

record child_namespace_data =
  Path :: namespace_path
  Alias :: namespace_alias

type_synonym children = "(namespace_id, child_namespace_data) fmap"
type_synonym children_store = "nat \<Rightarrow> children"

record root_namespace =
  m_id :: namespace_id
  m_alias :: namespace_alias
  m_ownerAddress :: address
  m_lifetime :: namespace_lifetime
  m_pChildren :: nat

definition new_RootNamespace :: "namespace_id \<Rightarrow> address \<Rightarrow> namespace_lifetime \<Rightarrow> nat \<Rightarrow> root_namespace" where
  "new_RootNamespace i owner lifetime p =
     \<lparr>m_id = i, m_alias = No_Alias, m_ownerAddress = owner, m_lifetime = lifetime, m_pChildren = p\<rparr>"

definition root_children :: "children_store \<Rightarrow> root_namespace \<Rightarrow> children" where
  "root_children store r = store (m_pChildren r)"

definition children_size :: "children \<Rightarrow> nat" where
  "children_size cs = fcard (fmdom cs)"

definition root_size :: "children_store \<Rightarrow> root_namespace \<Rightarrow> nat" where
  "root_size store r = children_size (root_children store r)"

definition root_empty :: "children_store \<Rightarrow> root_namespace \<Rightarrow> bool" where
  "root_empty store r \<longleftrightarrow> root_size store r = 0"

definition root_child :: "children_store \<Rightarrow> root_namespace \<Rightarrow> namespace_id \<Rightarrow> namespace_path result" where
  "root_child store r i =
     (case fmlookup (root_children store r) i of None \<Rightarrow> Err Invalid_Argument | Some d \<Rightarrow> new_Namespace (Path d))"

definition root_alias :: "children_store \<Rightarrow> root_namespace \<Rightarrow> namespace_id \<Rightarrow> namespace_alias result" where
  "root_alias store r i =
     (if m_id r = i then Ok (m_alias r)
      else case fmlookup (root_children store r) i of None \<Rightarrow> Err Invalid_Argument | Some d \<Rightarrow> Ok (Alias d))"

text \<open>The children of a root with identifier \<open>i\<close> after a namespace is added.\<close>

definition children_add :: "namespace_id \<Rightarrow> namespace_path \<Rightarrow> children \<Rightarrow> children result" where
  "children_add i ns cs =
     (if fmlookup cs (ns_id ns) \<noteq> None then Err Invalid_Argument
      else bind_result
        (if i \<noteq> ns_parentId ns
         then case fmlookup cs (ns_parentId ns) of
                None \<Rightarrow> Err Invalid_Argument
              | Some d \<Rightarrow> if length (Path d) \<noteq> length ns - 1 then Err Invalid_Argument else Ok ()
         else Ok ())
        (\<lambda>_. if i \<noteq> ns_rootId ns then Err Invalid_Argument
              else Ok (fmupd (ns_id ns) \<lparr>Path = ns, Alias = No_Alias\<rparr> cs)))"

definition root_add :: "namespace_path \<Rightarrow> root_namespace \<Rightarrow> children_store \<Rightarrow> children_store result" where
  "root_add ns r store = map_result (\<lambda>cs. store(m_pChildren r := cs)) (children_add (m_id r) ns (root_children store r))"

definition hasDescendents :: "namespace_id \<Rightarrow> nat \<Rightarrow> children \<Rightarrow> bool" where
  "hasDescendents i level cs \<longleftrightarrow> \<not> fmpred (\<lambda>_ d. \<not> (level < length (Path d) \<and> i = Path d ! (level - 1))) cs"

definition children_remove :: "namespace_id \<Rightarrow> children \<Rightarrow> children result" where
  "children_remove i cs =
     (case fmlookup cs i of
        None \<Rightarrow> Err Invalid_Argument
      | Some d \<Rightarrow> if hasDescendents i (length (Path d)) cs then Err Invalid_Argument else Ok (fmdrop i cs))"

definition root_remove :: "namespace_id \<Rightarrow> root_namespace \<Rightarrow> children_store \<Rightarrow> children_store result" where
  "root_remove i r store = map_result (\<lambda>cs. store(m_pChildren r := cs)) (children_remove i (root_children store r))"

definition root_setAlias :: "namespace_id \<Rightarrow> namespace_alias \<Rightarrow> root_namespace \<times> children_store \<Rightarrow> (root_namespace \<times> children_store) result" where
  "root_setAlias i alias s =
     (if m_id (fst s) = i then Ok ((fst s)\<lparr>m_alias := alias\<rparr>, snd s)
      else case fmlookup (root_children (snd s) (fst s)) i of
             None \<Rightarrow> Err Invalid_Argument
           | Some d \<Rightarrow> Ok (fst s, (snd s)(m_pChildren (fst s) := fmupd i (d\<lparr>Alias := alias\<rparr>) (root_children (snd s) (fst s)))))"

definition canExtend :: "root_namespace \<Rightarrow> root_namespace \<Rightarrow> bool" where
  "canExtend r previous \<longleftrightarrow> m_id r = m_id previous \<and> m_ownerAddress r = m_ownerAddress previous
     \<and> lifetime_isActive (m_lifetime previous) (Start (m_lifetime r))"

definition renew :: "namespace_lifetime \<Rightarrow> root_namespace \<Rightarrow> root_namespace" where
  "renew lifetime r = new_RootNamespace (m_id r) (m_ownerAddress r) lifetime (m_pChildren r)"

subsection \<open>Histories\<close>

record root_namespace_history =
  rh_id :: namespace_id
  m_rootHistory :: "root_namespace list"
  m_store :: children_store

definition new_RootNamespaceHistory :: "namespace_id \<Rightarrow> root_namespace_history" where
  "new_RootNamespaceHistory i = \<lparr>rh_id = i, m_rootHistory = [], m_store = (\<lambda>_. fmempty)\<rparr>"

definition rh_empty :: "root_namespace_history \<Rightarrow> bool" where
  "rh_empty h \<longleftrightarrow> m_rootHistory h = []"

definition rh_back :: "root_namespace_history \<Rightarrow> root_namespace" where
  "rh_back h = last (m_rootHistory h)"

definition rh_historyDepth :: "root_namespace_history \<Rightarrow> nat" where
  "rh_historyDepth h = length (m_rootHistory h)"

text \<open>The loop of \<^verbatim>\<open>activeOwnerHistoryDepth\<close> over the reversed history, with the root visited before.\<close>

fun owner_depth :: "root_namespace \<Rightarrow> root_namespace list \<Rightarrow> nat" where
  "owner_depth next' [] = 0"
| "owner_depth next' (r # rs) = (if \<not> canExtend next' r then 0 else Suc (owner_depth r rs))"

definition activeOwnerHistoryDepth :: "root_namespace_history \<Rightarrow> nat" where
  "activeOwnerHistoryDepth h =
     (if m_rootHistory h = [] then 0 else owner_depth (rh_back h) (rev (m_rootHistory h)))"

definition numActiveRootChildren :: "root_namespace_history \<Rightarrow> nat" where
  "numActiveRootChildren h = (if rh_empty h then 0 else root_size (m_store h) (rh_back h))"

definition numAllHistoricalChildren :: "root_namespace_history \<Rightarrow> nat" where
  "numAllHistoricalChildren h = sum_list (map (root_size (m_store h)) (m_rootHistory h))"

text \<open>\<^verbatim>\<open>make_shared\<close>: a fresh address.\<close>

definition fresh_children :: "root_namespace list \<Rightarrow> nat" where
  "fresh_children rs = (if rs = [] then 0 else Suc (m_pChildren (last rs)))"

definition rh_push_back :: "address \<Rightarrow> namespace_lifetime \<Rightarrow> root_namespace_history \<Rightarrow> root_namespace_history" where
  "rh_push_back owner lifetime h =
     (let new = new_RootNamespace (rh_id h) owner lifetime (fresh_children (m_rootHistory h))
      in if \<not> rh_empty h \<and> canExtend new (rh_back h)
         then h\<lparr>m_rootHistory := m_rootHistory h @ [(renew lifetime (rh_back h))\<lparr>m_alias := m_alias (rh_back h)\<rparr>]\<rparr>
         else h\<lparr>m_rootHistory := m_rootHistory h @ [new], m_store := (m_store h)(m_pChildren new := fmempty)\<rparr>)"

text \<open>Destroying roots frees the children that no other root shares.\<close>

definition free_unshared :: "root_namespace list \<Rightarrow> children_store \<Rightarrow> children_store" where
  "free_unshared rs store = (\<lambda>p. if \<exists>r \<in> set rs. m_pChildren r = p then store p else fmempty)"

definition rh_pop_back :: "root_namespace_history \<Rightarrow> root_namespace_history" where
  "rh_pop_back h =
     (let rs = butlast (m_rootHistory h) in h\<lparr>m_rootHistory := rs, m_store := free_unshared rs (m_store h)\<rparr>)"

text \<open>The loop of \<^verbatim>\<open>prune\<close>, with the identifiers collected so far.\<close>

fun prune_roots :: "children_store \<Rightarrow> height \<Rightarrow> root_namespace list \<Rightarrow> namespace_id set \<Rightarrow> root_namespace list \<times> namespace_id set" where
  "prune_roots store height [] ids = ([], ids)"
| "prune_roots store height (r # rs) ids =
     (if End (m_lifetime r) \<le> height
      then prune_roots store height rs (ids \<union> fset (fmdom (root_children store r)))
      else case prune_roots store height rs (ids - fset (fmdom (root_children store r))) of
             (rs', ids') \<Rightarrow> (r # rs', ids'))"

definition rh_prune :: "height \<Rightarrow> root_namespace_history \<Rightarrow> root_namespace_history \<times> namespace_id set" where
  "rh_prune height h =
     (case prune_roots (m_store h) height (m_rootHistory h) {} of
        (rs, ids) \<Rightarrow> (h\<lparr>m_rootHistory := rs, m_store := free_unshared rs (m_store h)\<rparr>,
                       if rs = [] then insert (rh_id h) ids else ids))"

definition rh_isActive :: "root_namespace_history \<Rightarrow> height \<Rightarrow> bool" where
  "rh_isActive h height \<longleftrightarrow> \<not> rh_empty h \<and> lifetime_isActive (m_lifetime (rh_back h)) height"

text \<open>The loop of the copy constructor: the roots and the store of the copy, and the root copied before.\<close>

fun copy_roots :: "children_store \<Rightarrow> root_namespace option \<Rightarrow> root_namespace list \<Rightarrow> root_namespace_history \<Rightarrow> root_namespace_history" where
  "copy_roots store previous [] h = h"
| "copy_roots store previous (r # rs) h =
     (let share = (case previous of None \<Rightarrow> False | Some q \<Rightarrow> canExtend r q);
          p = (if share then m_pChildren (rh_back h) else fresh_children (m_rootHistory h));
          r' = (new_RootNamespace (m_id r) (m_ownerAddress r) (m_lifetime r) p)\<lparr>m_alias := m_alias r\<rparr>;
          store' = (if share then m_store h else (m_store h)(p := root_children store r))
      in copy_roots store (Some r) rs (h\<lparr>m_rootHistory := m_rootHistory h @ [r'], m_store := store'\<rparr>))"

definition copy_RootNamespaceHistory :: "root_namespace_history \<Rightarrow> root_namespace_history" where
  "copy_RootNamespaceHistory h =
     (if rh_empty h then new_RootNamespaceHistory (rh_id h)
      else copy_roots (m_store h) None (m_rootHistory h) (new_RootNamespaceHistory (rh_id h)))"

subsection \<open>Invariants\<close>

text \<open>The children of the root \<open>i\<close>: with a namespace, every namespace on its path is a child too.\<close>

definition children_wf :: "namespace_id \<Rightarrow> children \<Rightarrow> bool" where
  "children_wf i cs \<longleftrightarrow> fmlookup cs i = None \<and>
     (\<forall>j d. fmlookup cs j = Some d \<longrightarrow> 2 \<le> length (Path d) \<and> ns_id (Path d) = j \<and> Path d ! 0 = i
        \<and> (\<forall>k. 1 \<le> k \<longrightarrow> k < length (Path d) \<longrightarrow> (\<exists>d'. fmlookup cs (Path d ! k) = Some d' \<and> Path d' = take (Suc k) (Path d))))"

text \<open>Two consecutive roots share their children exactly if the newer one extends the older one.\<close>

fun linked :: "root_namespace list \<Rightarrow> bool" where
  "linked (r # s # rs) \<longleftrightarrow> m_pChildren s = (if canExtend s r then m_pChildren r else Suc (m_pChildren r)) \<and> linked (s # rs)"
| "linked _ = True"

definition root_ok :: "namespace_id \<Rightarrow> root_namespace \<Rightarrow> bool" where
  "root_ok i r \<longleftrightarrow> m_id r = i \<and> Start (m_lifetime r) < End (m_lifetime r)"

definition history_inv :: "root_namespace_history \<Rightarrow> bool" where
  "history_inv h \<longleftrightarrow> (\<forall>r \<in> set (m_rootHistory h). root_ok (rh_id h) r) \<and> linked (m_rootHistory h)
     \<and> sorted (map (\<lambda>r. End (m_lifetime r)) (m_rootHistory h))
     \<and> (\<forall>p. p \<notin> m_pChildren ` set (m_rootHistory h) \<longrightarrow> m_store h p = fmempty)
     \<and> (\<forall>p. children_wf (rh_id h) (m_store h p))"

lemma children_wf_empty [simp]: "children_wf i fmempty"
  by (simp add: children_wf_def)

lemma linked_append1:
  "linked (rs @ [s]) \<longleftrightarrow> linked rs \<and> (rs = [] \<or> m_pChildren s = (if canExtend s (last rs) then m_pChildren (last rs) else Suc (m_pChildren (last rs))))"
  by (induction rs rule: linked.induct) auto

lemma linked_butlast: "linked rs \<Longrightarrow> linked (butlast rs)"
  by (cases rs rule: rev_cases) (auto simp: linked_append1)

lemma linked_drop: "linked rs \<Longrightarrow> linked (drop n rs)"
proof (induction rs arbitrary: n rule: linked.induct)
  case (1 r s rs)
  then show ?case by (cases n) auto
qed (auto simp: drop_Cons' split: nat.splits)

lemma linked_le_last: "linked rs \<Longrightarrow> r \<in> set rs \<Longrightarrow> m_pChildren r \<le> m_pChildren (last rs)"
  by (induction rs arbitrary: r rule: rev_induct) (fastforce simp: linked_append1 split: if_splits)+

lemma linked_fresh: "linked rs \<Longrightarrow> fresh_children rs \<notin> m_pChildren ` set rs"
  using linked_le_last [of rs] by (cases "rs = []") (auto simp: fresh_children_def image_iff, metis Suc_n_not_le_n)

lemma canExtend_refl: "root_ok i r \<Longrightarrow> canExtend r r"
  by (auto simp: canExtend_def lifetime_isActive_def root_ok_def)

lemma owner_depth_count:
  assumes "linked (rs @ [r])" "\<forall>x \<in> set rs. root_ok i x"
  shows "owner_depth r (rev rs) = length (filter (\<lambda>x. m_pChildren x = m_pChildren r) rs)"
  using assms
proof (induction rs arbitrary: r rule: rev_induct)
  case (snoc s rs)
  from snoc.prems have s: "linked (rs @ [s])" "\<forall>x \<in> set rs. root_ok i x"
    using linked_append1 [of "rs @ [s]" r] by auto
  have r: "m_pChildren r = (if canExtend r s then m_pChildren s else Suc (m_pChildren s))"
    using snoc.prems(1) linked_append1 [of "rs @ [s]" r] by simp
  show ?case
  proof (cases "canExtend r s")
    case False
    have "\<forall>x \<in> set (rs @ [s]). m_pChildren x \<le> m_pChildren s"
      using linked_le_last [OF s(1)] by simp
    with False r have "filter (\<lambda>x. m_pChildren x = m_pChildren r) (rs @ [s]) = []"
      by (auto simp: filter_empty_conv)
    with False show ?thesis by simp
  qed (use snoc.IH [OF s] r in simp)
qed simp

text \<open>The newest roots that share their children are as many as the source counts.\<close>

lemma activeOwnerHistoryDepth_count:
  assumes "history_inv h" "\<not> rh_empty h"
  shows "activeOwnerHistoryDepth h
    = length (filter (\<lambda>r. m_pChildren r = m_pChildren (rh_back h)) (m_rootHistory h))"
proof -
  obtain rs r where rs: "m_rootHistory h = rs @ [r]"
    using assms(2) by (metis rh_empty_def rev_exhaust)
  with assms(1) have "linked (rs @ [r])" "\<forall>x \<in> set rs. root_ok (rh_id h) x" "canExtend r r"
    by (auto simp: history_inv_def intro: canExtend_refl)
  with owner_depth_count [OF this(1,2)] rs show ?thesis
    by (simp add: activeOwnerHistoryDepth_def rh_back_def)
qed


subsection \<open>Children\<close>

lemma children_add_wf:
  assumes wf: "children_wf i cs" and "path = [i] \<or> (\<exists>d. fmlookup cs (ns_id path) = Some d \<and> Path d = path)"
    and "j \<noteq> i" "fmlookup cs j = None"
  shows "children_add i (path @ [j]) cs = Ok (fmupd j \<lparr>Path = path @ [j], Alias = No_Alias\<rparr> cs)
    \<and> children_wf i (fmupd j \<lparr>Path = path @ [j], Alias = No_Alias\<rparr> cs)"
proof
  have path: "path \<noteq> []" "path ! 0 = i" "\<forall>k. 1 \<le> k \<longrightarrow> k < length path \<longrightarrow>
      (\<exists>d'. fmlookup cs (path ! k) = Some d' \<and> Path d' = take (Suc k) path)"
    using assms(2) wf unfolding children_wf_def by fastforce+
  have ids: "ns_id (path @ [j]) = j" "ns_rootId (path @ [j]) = i" "ns_parentId (path @ [j]) = ns_id path"
    using path(1,2) by (auto simp: ns_id_def ns_rootId_def ns_parentId_def nth_append)
  show "children_add i (path @ [j]) cs = Ok (fmupd j \<lparr>Path = path @ [j], Alias = No_Alias\<rparr> cs)"
    using assms(2,4) by (auto simp: children_add_def ids ns_id_def)
  show "children_wf i (fmupd j \<lparr>Path = path @ [j], Alias = No_Alias\<rparr> cs)"
    unfolding children_wf_def
  proof (intro conjI allI impI)
    show "fmlookup (fmupd j \<lparr>Path = path @ [j], Alias = No_Alias\<rparr> cs) i = None"
      using wf assms(3) by (simp add: children_wf_def)
  next
    fix j' d assume d: "fmlookup (fmupd j \<lparr>Path = path @ [j], Alias = No_Alias\<rparr> cs) j' = Some d"
    show "2 \<le> length (Path d)" "ns_id (Path d) = j'" "Path d ! 0 = i"
      using d wf path ids by (auto simp: children_wf_def nth_append Suc_le_eq split: if_splits)
    fix k assume k: "1 \<le> k" "k < length (Path d)"
    show "\<exists>d'. fmlookup (fmupd j \<lparr>Path = path @ [j], Alias = No_Alias\<rparr> cs) (Path d ! k) = Some d' \<and> Path d' = take (Suc k) (Path d)"
    proof (cases "j' = j")
      case True
      with d have "Path d = path @ [j]" by auto
      with k path(3) assms(4) show ?thesis
        by (cases "k < length path") (force simp: nth_append)+
    next
      case False
      with d have "fmlookup cs j' = Some d" by simp
      with wf k obtain d' where "fmlookup cs (Path d ! k) = Some d'" "Path d' = take (Suc k) (Path d)"
        unfolding children_wf_def by blast
      with assms(4) show ?thesis by auto
    qed
  qed
qed

text \<open>Nothing is below a namespace that is not yet a child.\<close>

lemma no_descendents:
  assumes "children_wf i cs" "fmlookup cs j = None" "2 \<le> level"
  shows "\<not> hasDescendents j level cs"
proof -
  have "Path d ! (level - 1) \<noteq> j" if "fmlookup cs j' = Some d" "level < length (Path d)" for j' d
  proof -
    have "1 \<le> level - 1" "level - 1 < length (Path d)" using assms(3) that(2) by auto
    with assms(1) that(1) have "\<exists>d'. fmlookup cs (Path d ! (level - 1)) = Some d'"
      unfolding children_wf_def by blast
    with assms(2) show ?thesis by auto
  qed
  then show ?thesis by (auto simp: hasDescendents_def fmpred_iff)
qed

lemma children_add_remove:
  assumes "children_wf i cs" "fmlookup cs j = None" "2 \<le> length (Path d)"
  shows "children_remove j (fmupd j d cs) = Ok cs"
proof -
  have "fmdrop j (fmupd j d cs) = cs"
    using assms(2) by (intro fmap_ext) auto
  moreover have "\<not> hasDescendents j (length (Path d)) (fmupd j d cs)"
    using no_descendents [OF assms] by (auto simp: hasDescendents_def fmpred_iff)
  ultimately show ?thesis by (simp add: children_remove_def)
qed

lemma children_remove_wf:
  assumes wf: "children_wf i cs" and rem: "children_remove j cs = Ok cs'"
  shows "children_wf i cs' \<and> cs' = fmdrop j cs \<and> fmlookup cs j \<noteq> None"
proof -
  obtain d where d: "fmlookup cs j = Some d" "\<not> hasDescendents j (length (Path d)) cs" "cs' = fmdrop j cs"
    using rem by (auto simp: children_remove_def split: option.splits if_splits)
  have "Path d'' ! k \<noteq> j" if "fmlookup cs j' = Some d''" "j' \<noteq> j" "1 \<le> k" "k < length (Path d'')" for j' d'' k
  proof
    assume k: "Path d'' ! k = j"
    have "\<exists>d'. fmlookup cs (Path d'' ! k) = Some d' \<and> Path d' = take (Suc k) (Path d'')"
      using wf that unfolding children_wf_def by blast
    with k d(1) have len: "length (Path d) = Suc k" using that by simp
    have "ns_id (Path d'') = j'" using wf that unfolding children_wf_def by blast
    with k that(2) have "k \<noteq> length (Path d'') - 1" by (auto simp: ns_id_def)
    with that(4) have "Suc k < length (Path d'')" by linarith
    with d(2) that k len show False by (auto simp: hasDescendents_def fmpred_iff)
  qed
  with wf have "children_wf i (fmdrop j cs)" by (auto simp: children_wf_def)
  with d show ?thesis by simp
qed

subsection \<open>Changes of the newest root\<close>

definition rh_back_add :: "namespace_path \<Rightarrow> root_namespace_history \<Rightarrow> root_namespace_history result" where
  "rh_back_add ns h = map_result (\<lambda>store. h\<lparr>m_store := store\<rparr>) (root_add ns (rh_back h) (m_store h))"

definition rh_back_remove :: "namespace_id \<Rightarrow> root_namespace_history \<Rightarrow> root_namespace_history result" where
  "rh_back_remove i h = map_result (\<lambda>store. h\<lparr>m_store := store\<rparr>) (root_remove i (rh_back h) (m_store h))"

definition rh_back_setAlias :: "namespace_id \<Rightarrow> namespace_alias \<Rightarrow> root_namespace_history \<Rightarrow> root_namespace_history result" where
  "rh_back_setAlias i alias h =
     map_result (\<lambda>s. h\<lparr>m_rootHistory := butlast (m_rootHistory h) @ [fst s], m_store := snd s\<rparr>)
       (root_setAlias i alias (rh_back h, m_store h))"

abbreviation back_children :: "root_namespace_history \<Rightarrow> children" where
  "back_children h \<equiv> root_children (m_store h) (rh_back h)"

lemma new_history_inv [simp]: "history_inv (new_RootNamespaceHistory i)"
  by (simp add: history_inv_def new_RootNamespaceHistory_def)

lemma back_in_history: "\<not> rh_empty h \<Longrightarrow> rh_back h \<in> set (m_rootHistory h)"
  by (simp add: rh_empty_def rh_back_def)

lemma set_children_inv:
  assumes "history_inv h" "\<not> rh_empty h" "children_wf (rh_id h) cs"
  shows "history_inv (h\<lparr>m_store := (m_store h)(m_pChildren (rh_back h) := cs)\<rparr>)"
  using assms back_in_history [OF assms(2)] by (auto simp: history_inv_def)

text \<open>What a change of the children of the newest root adds to the children of all roots.\<close>

lemma sum_shared:
  "sum_list (map (\<lambda>r. f ((store(p := cs)) (m_pChildren r))) rs) + length (filter (\<lambda>r. m_pChildren r = p) rs) * f (store p)
    = sum_list (map (\<lambda>r. f (store (m_pChildren r))) rs) + length (filter (\<lambda>r. m_pChildren r = p) rs) * f cs"
  for f :: "children \<Rightarrow> nat"
  by (induction rs) auto

lemma root_size_eq: "root_size store = (\<lambda>r. children_size (store (m_pChildren r)))"
  by (simp add: fun_eq_iff root_size_def root_children_def)

lemma set_children_total:
  assumes "history_inv h" "\<not> rh_empty h"
  shows "numAllHistoricalChildren (h\<lparr>m_store := (m_store h)(m_pChildren (rh_back h) := cs)\<rparr>) + activeOwnerHistoryDepth h * children_size (back_children h)
    = numAllHistoricalChildren h + activeOwnerHistoryDepth h * children_size cs"
  using sum_shared [of children_size "m_store h" "m_pChildren (rh_back h)" cs "m_rootHistory h"]
  by (simp add: numAllHistoricalChildren_def root_size_eq root_children_def activeOwnerHistoryDepth_count [OF assms])

lemma children_size_upd: "fmlookup cs j = None \<Longrightarrow> children_size (fmupd j d cs) = Suc (children_size cs)"
  by (simp add: children_size_def fcard_finsert_disjoint fmdom_notI)

lemma children_size_drop: "fmlookup cs j \<noteq> None \<Longrightarrow> Suc (children_size (fmdrop j cs)) = children_size cs"
  by (auto simp: children_size_def intro!: fcard_Suc_fminus1 intro: fmdomI)

lemma rh_back_add_spec:
  assumes "history_inv h" "\<not> rh_empty h" "path = [rh_id h] \<or> (\<exists>d. fmlookup (back_children h) (ns_id path) = Some d \<and> Path d = path)"
    and "j \<noteq> rh_id h" "fmlookup (back_children h) j = None"
  shows "\<exists>h'. rh_back_add (path @ [j]) h = Ok h' \<and> history_inv h'
    \<and> h' = h\<lparr>m_store := (m_store h)(m_pChildren (rh_back h) := fmupd j \<lparr>Path = path @ [j], Alias = No_Alias\<rparr> (back_children h))\<rparr>
    \<and> back_children h' = fmupd j \<lparr>Path = path @ [j], Alias = No_Alias\<rparr> (back_children h)
    \<and> numActiveRootChildren h' = Suc (numActiveRootChildren h)
    \<and> numAllHistoricalChildren h' = numAllHistoricalChildren h + activeOwnerHistoryDepth h
    \<and> rh_back_remove j h' = Ok h"
proof -
  define cs where "cs = fmupd j \<lparr>Path = path @ [j], Alias = No_Alias\<rparr> (back_children h)"
  define h' where "h' = h\<lparr>m_store := (m_store h)(m_pChildren (rh_back h) := cs)\<rparr>"
  have wf: "children_wf (rh_id h) (back_children h)" using assms(1) by (simp add: history_inv_def root_children_def)
  have ident: "m_id (rh_back h) = rh_id h"
    using assms(1) back_in_history [OF assms(2)] by (simp add: history_inv_def root_ok_def)
  note add = children_add_wf [OF wf assms(3-5), folded cs_def]
  have run: "rh_back_add (path @ [j]) h = Ok h'"
    using add by (simp add: rh_back_add_def root_add_def ident h'_def)
  have inv: "history_inv h'" unfolding h'_def using set_children_inv [OF assms(1,2)] add by blast
  have bk: "rh_back h' = rh_back h" "back_children h' = cs"
    by (simp_all add: h'_def rh_back_def root_children_def)
  have sz: "children_size cs = Suc (children_size (back_children h))"
    unfolding cs_def by (rule children_size_upd [OF assms(5)])
  have tot: "numAllHistoricalChildren h' = numAllHistoricalChildren h + activeOwnerHistoryDepth h"
    using set_children_total [OF assms(1,2), of cs] by (simp add: h'_def sz)
  have "path \<noteq> []" using assms(3) wf unfolding children_wf_def by fastforce
  then have "children_remove j cs = Ok (back_children h)"
    unfolding cs_def by (intro children_add_remove [OF wf assms(5)]) (simp add: Suc_le_eq)
  then have "rh_back_remove j h' = Ok h"
    using bk by (simp add: rh_back_remove_def root_remove_def) (simp add: h'_def root_children_def)
  with run inv bk sz tot show ?thesis
    using assms(2) by (auto simp: numActiveRootChildren_def root_size_def cs_def h'_def rh_empty_def)
qed

lemma rh_back_remove_spec:
  assumes "history_inv h" "\<not> rh_empty h" "rh_back_remove j h = Ok h'"
  shows "history_inv h' \<and> fmlookup (back_children h) j \<noteq> None \<and> back_children h' = fmdrop j (back_children h)
    \<and> h' = h\<lparr>m_store := (m_store h)(m_pChildren (rh_back h) := fmdrop j (back_children h))\<rparr>
    \<and> Suc (numActiveRootChildren h') = numActiveRootChildren h
    \<and> numAllHistoricalChildren h' + activeOwnerHistoryDepth h = numAllHistoricalChildren h"
proof -
  have wf: "children_wf (rh_id h) (back_children h)" using assms(1) by (simp add: history_inv_def root_children_def)
  obtain cs where "children_remove j (back_children h) = Ok cs" and h': "h' = h\<lparr>m_store := (m_store h)(m_pChildren (rh_back h) := cs)\<rparr>"
    using assms(3) by (auto simp: rh_back_remove_def root_remove_def)
  with children_remove_wf [OF wf] have cs: "children_wf (rh_id h) cs" "cs = fmdrop j (back_children h)" "fmlookup (back_children h) j \<noteq> None"
    by auto
  have bk: "rh_back h' = rh_back h" "back_children h' = cs"
    by (simp_all add: h' rh_back_def root_children_def)
  have sz: "Suc (children_size cs) = children_size (back_children h)"
    using children_size_drop [OF cs(3)] cs(2) by simp
  have tot: "numAllHistoricalChildren h' + activeOwnerHistoryDepth h = numAllHistoricalChildren h"
    using set_children_total [OF assms(1,2), of cs] by (simp add: h' sz [symmetric])
  have inv: "history_inv h'" unfolding h' by (rule set_children_inv [OF assms(1,2) cs(1)])
  show ?thesis
    using inv cs bk sz tot h' assms(2)
    by (auto simp: numActiveRootChildren_def root_size_def rh_empty_def)
qed


lemma rh_back_setAlias_spec:
  assumes "history_inv h" "\<not> rh_empty h" "rh_back_setAlias i alias h = Ok h'"
  shows "history_inv h' \<and> \<not> rh_empty h' \<and> rh_id h' = rh_id h \<and> rh_historyDepth h' = rh_historyDepth h
    \<and> map m_pChildren (m_rootHistory h') = map m_pChildren (m_rootHistory h)
    \<and> map m_lifetime (m_rootHistory h') = map m_lifetime (m_rootHistory h)
    \<and> (\<forall>p j. map_option Path (fmlookup (m_store h' p) j) = map_option Path (fmlookup (m_store h p) j))
    \<and> (\<forall>p. fmdom (m_store h' p) = fmdom (m_store h p))"
proof -
  obtain rs r where rs: "m_rootHistory h = rs @ [r]" using assms(2) by (metis rh_empty_def rev_exhaust)
  then have last: "rh_back h = r" "m_id r = rh_id h" using assms(1) by (auto simp: rh_back_def history_inv_def root_ok_def)
  show ?thesis
  proof (cases "i = rh_id h")
    case True
    with assms(3) last rs have h': "h' = h\<lparr>m_rootHistory := rs @ [r\<lparr>m_alias := alias\<rparr>]\<rparr>"
      by (auto simp: rh_back_setAlias_def root_setAlias_def)
    from assms(1) rs have "history_inv h'"
      by (auto simp: h' history_inv_def linked_append1 canExtend_def root_ok_def)
    with h' rs show ?thesis by (auto simp: rh_empty_def rh_historyDepth_def)
  next
    case False
    with assms(3) last obtain d where d: "fmlookup (back_children h) i = Some d"
      and "h' = h\<lparr>m_rootHistory := butlast (m_rootHistory h) @ [rh_back h],
            m_store := (m_store h)(m_pChildren r := fmupd i (d\<lparr>Alias := alias\<rparr>) (back_children h))\<rparr>"
      by (auto simp: rh_back_setAlias_def root_setAlias_def split: option.splits)
    then have h': "h' = h\<lparr>m_store := (m_store h)(m_pChildren r := fmupd i (d\<lparr>Alias := alias\<rparr>) (back_children h))\<rparr>"
      using rs last by simp
    have "children_wf (rh_id h) (back_children h)" using assms(1) by (simp add: history_inv_def root_children_def)
    with d have wf: "children_wf (rh_id h) (fmupd i (d\<lparr>Alias := alias\<rparr>) (back_children h))"
      unfolding children_wf_def by (fastforce split: if_splits)
    from set_children_inv [OF assms(1,2) this] have "history_inv h'" by (simp add: h' last)
    moreover have "fmdom (m_store h' p) = fmdom (m_store h p)" for p
      using d last by (auto simp: h' root_children_def fmdomI)
    moreover have "map_option Path (fmlookup (m_store h' p) j) = map_option Path (fmlookup (m_store h p) j)" for p j
      using d last by (auto simp: h' root_children_def)
    ultimately show ?thesis using h' rs by (auto simp: rh_empty_def rh_historyDepth_def)
  qed
qed

subsection \<open>Renewals and removals of roots\<close>

lemma free_unshared_id:
  assumes "\<forall>p. p \<notin> m_pChildren ` set rs \<longrightarrow> store p = fmempty"
  shows "free_unshared rs store = store"
proof
  fix p show "free_unshared rs store p = store p"
    using assms [THEN spec, of p] by (auto simp: free_unshared_def)
qed

definition extends_history :: "address \<Rightarrow> namespace_lifetime \<Rightarrow> root_namespace_history \<Rightarrow> bool" where
  "extends_history owner lifetime h \<longleftrightarrow> \<not> rh_empty h \<and> owner = m_ownerAddress (rh_back h)
     \<and> lifetime_isActive (m_lifetime (rh_back h)) (Start lifetime)"

lemma rh_push_back_spec:
  assumes inv: "history_inv h" and "Start l < End l" "rh_empty h \<or> End (m_lifetime (rh_back h)) \<le> End l"
    and h'_def: "h' = rh_push_back owner l h"
  shows "history_inv h' \<and> rh_pop_back h' = h \<and> \<not> rh_empty h' \<and> rh_id h' = rh_id h \<and> m_store h' = m_store h
    \<and> rh_historyDepth h' = Suc (rh_historyDepth h) \<and> m_lifetime (rh_back h') = l \<and> m_ownerAddress (rh_back h') = owner
    \<and> back_children h' = (if extends_history owner l h then back_children h else fmempty)
    \<and> m_alias (rh_back h') = (if extends_history owner l h then m_alias (rh_back h) else No_Alias)"
proof -
  let ?p = "fresh_children (m_rootHistory h)"
  define new where "new = new_RootNamespace (rh_id h) owner l ?p"
  have fresh: "m_store h ?p = fmempty"
    using inv linked_fresh by (auto simp: history_inv_def)
  have free: "free_unshared (m_rootHistory h) (m_store h) = m_store h"
    using inv by (intro free_unshared_id) (auto simp: history_inv_def)
  have ext: "\<not> rh_empty h \<and> canExtend new (rh_back h) \<longleftrightarrow> extends_history owner l h"
    using inv back_in_history [of h]
    by (auto simp: new_def canExtend_def new_RootNamespace_def extends_history_def history_inv_def root_ok_def)
  define r where "r = (if extends_history owner l h then (renew l (rh_back h))\<lparr>m_alias := m_alias (rh_back h)\<rparr> else new)"
  have h': "h' = h\<lparr>m_rootHistory := m_rootHistory h @ [r]\<rparr>"
    using fresh by (auto simp: h'_def rh_push_back_def Let_def new_def [symmetric] ext r_def)
      (simp add: new_def new_RootNamespace_def fun_upd_idem)
  have r: "m_lifetime r = l" "m_ownerAddress r = owner" "m_id r = rh_id h"
    using inv back_in_history [of h]
    by (auto simp: r_def new_def renew_def new_RootNamespace_def extends_history_def history_inv_def root_ok_def)
  have pop: "rh_pop_back h' = h" by (simp add: rh_pop_back_def Let_def h' free)
  have ends: "sorted (map (\<lambda>r. End (m_lifetime r)) (m_rootHistory h @ [r]))"
    using inv assms(3) r(1)
    by (cases "m_rootHistory h" rule: rev_cases) (auto simp: history_inv_def sorted_append rh_empty_def rh_back_def)
  have "canExtend r (rh_back h) \<longleftrightarrow> extends_history owner l h" if "\<not> rh_empty h"
    using ext that by (auto simp: r_def canExtend_def renew_def new_def new_RootNamespace_def extends_history_def)
  moreover have "m_pChildren r = (if extends_history owner l h then m_pChildren (rh_back h) else ?p)"
    by (simp add: r_def renew_def new_def new_RootNamespace_def)
  ultimately have "linked (m_rootHistory h @ [r])"
    using inv by (auto simp: linked_append1 history_inv_def rh_empty_def rh_back_def fresh_children_def)
  then have "history_inv h'"
    using inv ends assms(2) r by (auto simp: h' history_inv_def root_ok_def)
  moreover have "back_children h' = (if extends_history owner l h then back_children h else fmempty)"
    "m_alias (rh_back h') = (if extends_history owner l h then m_alias (rh_back h) else No_Alias)"
    using fresh by (auto simp: h' rh_back_def r_def root_children_def renew_def new_def new_RootNamespace_def)
  ultimately show ?thesis
    using pop r by (simp add: h' rh_empty_def rh_back_def rh_historyDepth_def)
qed


lemma rh_pop_back_spec:
  assumes "history_inv h" "1 < rh_historyDepth h" and h'_def: "h' = rh_pop_back h"
  shows "history_inv h' \<and> \<not> rh_empty h' \<and> rh_id h' = rh_id h \<and> Suc (rh_historyDepth h') = rh_historyDepth h
    \<and> m_rootHistory h = m_rootHistory h' @ [rh_back h]
    \<and> (\<forall>r \<in> set (m_rootHistory h'). root_children (m_store h') r = root_children (m_store h) r)
    \<and> numAllHistoricalChildren h = numAllHistoricalChildren h' + children_size (back_children h)
    \<and> (canExtend (rh_back h) (rh_back h') \<longrightarrow> back_children h' = back_children h)"
proof -
  obtain rs r where rs: "m_rootHistory h = rs @ [r]" "rs \<noteq> []"
    using assms(2) by (cases "m_rootHistory h" rule: rev_cases) (auto simp: rh_historyDepth_def)
  have h': "m_rootHistory h' = rs" "m_store h' = free_unshared rs (m_store h)" "rh_id h' = rh_id h"
    by (simp_all add: h'_def rh_pop_back_def rs)
  have same: "\<forall>x \<in> set rs. root_children (m_store h') x = root_children (m_store h) x"
    by (auto simp: h' root_children_def free_unshared_def)
  have "history_inv h'"
    using assms(1) by (auto simp: history_inv_def h' rs linked_append1 sorted_append free_unshared_def)
  moreover have "numAllHistoricalChildren h = numAllHistoricalChildren h' + children_size (back_children h)"
    using same by (simp add: numAllHistoricalChildren_def h' rs rh_back_def root_size_def cong: map_cong)
  moreover have "canExtend (rh_back h) (rh_back h') \<longrightarrow> back_children h' = back_children h"
    using assms(1) rs same by (simp add: history_inv_def rh_back_def h' linked_append1 root_children_def)
  ultimately show ?thesis
    using same rs by (simp add: h' rh_empty_def rh_historyDepth_def rh_back_def)
qed

subsection \<open>Pruning\<close>

lemma prune_roots_spec:
  assumes "sorted (map (\<lambda>r. End (m_lifetime r)) rs)"
  shows "prune_roots store height rs ids =
    (filter (\<lambda>r. height < End (m_lifetime r)) rs,
     ids \<union> (\<Union>r \<in> {r \<in> set rs. End (m_lifetime r) \<le> height}. fset (fmdom (root_children store r)))
       - (\<Union>r \<in> {r \<in> set rs. height < End (m_lifetime r)}. fset (fmdom (root_children store r))))"
  using assms
proof (induction rs arbitrary: ids)
  case (Cons r rs)
  show ?case
  proof (cases "End (m_lifetime r) \<le> height")
    case True
    with Cons show ?thesis by auto
  next
    case False
    with Cons.prems have "{x \<in> set rs. End (m_lifetime x) \<le> height} = {}" by fastforce
    with False Cons show ?thesis by (auto simp: not_le)
  qed
qed simp

lemma sorted_filter_drop:
  "sorted (map f rs) \<Longrightarrow> \<exists>n. filter (\<lambda>r. b < f r) rs = drop n rs" for b :: "'a::linorder"
proof (induction rs)
  case (Cons r rs)
  show ?case
  proof (cases "b < f r")
    case True
    with Cons.prems have "filter (\<lambda>r. b < f r) (r # rs) = drop 0 (r # rs)" by (auto intro!: filter_True)
    then show ?thesis by blast
  next
    case False
    with Cons obtain n where "filter (\<lambda>r. b < f r) (r # rs) = drop (Suc n) (r # rs)" by auto
    then show ?thesis by blast
  qed
qed simp

lemma rh_prune_spec:
  assumes inv: "history_inv h" and h': "rh_prune height h = (h', ids)"
  shows "history_inv h' \<and> rh_id h' = rh_id h
    \<and> m_rootHistory h' = filter (\<lambda>r. height < End (m_lifetime r)) (m_rootHistory h)
    \<and> (\<forall>r \<in> set (m_rootHistory h'). root_children (m_store h') r = root_children (m_store h) r)
    \<and> (\<not> rh_empty h' \<longrightarrow> rh_back h' = rh_back h \<and> back_children h' = back_children h)
    \<and> ids = (\<Union>r \<in> set (m_rootHistory h). fset (fmdom (root_children (m_store h) r)))
        - (\<Union>r \<in> set (m_rootHistory h'). fset (fmdom (root_children (m_store h) r)))
        \<union> (if rh_empty h' then {rh_id h} else {})"
proof -
  define rs where "rs = filter (\<lambda>r. height < End (m_lifetime r)) (m_rootHistory h)"
  have ends: "sorted (map (\<lambda>r. End (m_lifetime r)) (m_rootHistory h))" using inv by (simp add: history_inv_def)
  obtain n where n: "rs = drop n (m_rootHistory h)"
    using sorted_filter_drop [OF ends, of height] by (auto simp: rs_def)
  have rs: "h' = h\<lparr>m_rootHistory := rs, m_store := free_unshared rs (m_store h)\<rparr>"
    "ids = (\<Union>r \<in> {r \<in> set (m_rootHistory h). End (m_lifetime r) \<le> height}. fset (fmdom (root_children (m_store h) r)))
       - (\<Union>r \<in> set rs. fset (fmdom (root_children (m_store h) r))) \<union> (if rs = [] then {rh_id h} else {})"
    using h' by (auto simp: rh_prune_def prune_roots_spec [OF ends] rs_def)
  have same: "\<forall>x \<in> set rs. root_children (m_store h') x = root_children (m_store h) x"
    by (auto simp: rs root_children_def free_unshared_def)
  have "linked rs" using inv by (simp add: n linked_drop history_inv_def)
  moreover have "sorted (map (\<lambda>r. End (m_lifetime r)) rs)" using ends by (simp add: n drop_map [symmetric] sorted_wrt_drop)
  ultimately have inv': "history_inv h'"
    using inv by (auto simp: history_inv_def rs free_unshared_def) (auto simp: rs_def)
  have last: "rs \<noteq> [] \<Longrightarrow> last rs = last (m_rootHistory h)" by (simp add: n)
  have bk: "\<not> rh_empty h' \<longrightarrow> rh_back h' = rh_back h \<and> back_children h' = back_children h"
    using last same last_in_set [of rs] by (auto simp: rh_empty_def rh_back_def rs)
  have "set (m_rootHistory h) = {r \<in> set (m_rootHistory h). End (m_lifetime r) \<le> height} \<union> set rs"
    by (auto simp: rs_def not_le)
  then have ids: "ids = (\<Union>r \<in> set (m_rootHistory h). fset (fmdom (root_children (m_store h) r)))
       - (\<Union>r \<in> set rs. fset (fmdom (root_children (m_store h) r))) \<union> (if rs = [] then {rh_id h} else {})"
    unfolding rs(2) by (metis (no_types, lifting) UN_Un Un_Diff Diff_cancel Un_empty_right)
  have rs': "m_rootHistory h' = rs" "rh_id h' = rh_id h" "rh_empty h' \<longleftrightarrow> rs = []" by (simp_all add: rs(1) rh_empty_def)
  show ?thesis unfolding rs' rs_def [symmetric] using inv' same bk [unfolded rs'] ids by blast
qed

subsection \<open>Copies\<close>

text \<open>What is visible of a history: the owners, lifetimes, aliases and children of its roots.\<close>

definition rh_view :: "root_namespace_history \<Rightarrow> (namespace_id \<times> address \<times> namespace_lifetime \<times> namespace_alias \<times> children) list" where
  "rh_view h = map (\<lambda>r. (m_id r, m_ownerAddress r, m_lifetime r, m_alias r, root_children (m_store h) r)) (m_rootHistory h)"

definition same_root :: "children_store \<Rightarrow> children_store \<Rightarrow> root_namespace \<Rightarrow> root_namespace \<Rightarrow> bool" where
  "same_root store store' r r' \<longleftrightarrow> m_id r' = m_id r \<and> m_ownerAddress r' = m_ownerAddress r \<and> m_lifetime r' = m_lifetime r
     \<and> m_alias r' = m_alias r \<and> root_children store' r' = root_children store r"

definition copied :: "children_store \<Rightarrow> root_namespace list \<Rightarrow> root_namespace_history \<Rightarrow> bool" where
  "copied store xs h \<longleftrightarrow> list_all2 (same_root store (m_store h)) xs (m_rootHistory h) \<and> linked (m_rootHistory h)
     \<and> (\<forall>p. p \<notin> m_pChildren ` set (m_rootHistory h) \<longrightarrow> m_store h p = fmempty)"

lemma same_root_canExtend: "same_root s t r r' \<Longrightarrow> same_root s' t' q q' \<Longrightarrow> canExtend r' q' = canExtend r q"
  by (simp add: same_root_def canExtend_def)

lemma linked_prefix: "linked (xs @ ys) \<Longrightarrow> linked xs"
proof (induction ys rule: rev_induct)
  case (snoc y ys)
  then show ?case using linked_append1 [of "xs @ ys" y] by simp
qed simp

lemma copied_step:
  assumes "copied store xs h" "linked (xs @ [r])"
    and share: "share \<longleftrightarrow> xs \<noteq> [] \<and> canExtend r (last xs)"
    and p: "p = (if share then m_pChildren (rh_back h) else fresh_children (m_rootHistory h))"
  shows "copied store (xs @ [r]) (h\<lparr>m_rootHistory := m_rootHistory h @ [(new_RootNamespace (m_id r) (m_ownerAddress r) (m_lifetime r) p)\<lparr>m_alias := m_alias r\<rparr>],
    m_store := (if share then m_store h else (m_store h)(p := root_children store r))\<rparr>)"
    (is "copied _ _ (h\<lparr>m_rootHistory := _ @ [?r], m_store := ?store\<rparr>)")
proof -
  let ?rs = "m_rootHistory h"
  have pre: "list_all2 (same_root store (m_store h)) xs ?rs" "linked ?rs"
    "\<forall>p. p \<notin> m_pChildren ` set ?rs \<longrightarrow> m_store h p = fmempty"
    using assms(1) by (simp_all add: copied_def)
  have none: "xs = [] \<longleftrightarrow> ?rs = []" using pre(1) by auto
  have last: "xs \<noteq> [] \<Longrightarrow> same_root store (m_store h) (last xs) (last ?rs)"
    using pre(1) none list_all2_lengthD [OF pre(1)] by (simp add: list_all2_conv_all_nth last_conv_nth)
  have keep: "same_root store ?store x y" if "same_root store (m_store h) x y" "y \<in> set ?rs" for x y
  proof -
    have "m_pChildren y \<noteq> fresh_children ?rs" using that(2) linked_fresh [OF pre(2)] by (metis imageI)
    with that(1) p show ?thesis by (auto simp: same_root_def root_children_def)
  qed
  then have old: "list_all2 (same_root store ?store) xs ?rs"
    by (intro list.rel_mono_strong [OF pre(1)]) simp
  have "root_children store r = root_children store (last xs)" if share
    using that share assms(2) by (auto simp: linked_append1 root_children_def)
  with last share none have new: "same_root store ?store r ?r"
    by (auto simp: same_root_def new_RootNamespace_def p rh_back_def root_children_def)
  have "canExtend ?r (last ?rs) \<longleftrightarrow> share" if "?rs \<noteq> []"
    using same_root_canExtend [OF new last] that none share by simp
  then have "linked (?rs @ [?r])"
    using pre(2) none share by (auto simp: linked_append1 new_RootNamespace_def p rh_back_def fresh_children_def)
  with old new pre(3) show ?thesis
    by (auto simp: copied_def list_all2_appendI new_RootNamespace_def p)
qed

lemma copy_roots_spec:
  assumes "copied store xs h" "linked (xs @ rs)" "previous = (if xs = [] then None else Some (last xs))"
  shows "copied store (xs @ rs) (copy_roots store previous rs h) \<and> rh_id (copy_roots store previous rs h) = rh_id h"
  using assms
proof (induction rs arbitrary: xs h previous)
  case (Cons r rs)
  define share where "share = (case previous of None \<Rightarrow> False | Some q \<Rightarrow> canExtend r q)"
  have share: "share \<longleftrightarrow> xs \<noteq> [] \<and> canExtend r (last xs)" using Cons.prems(3) by (simp add: share_def)
  have linked: "linked (xs @ [r])"
    using Cons.prems(2) linked_prefix [of "xs @ [r]" rs] by simp
  note step = copied_step [OF Cons.prems(1) linked share refl]
  show ?case
    using Cons.IH [OF step _ refl] Cons.prems(2) by (simp add: share_def [symmetric] Let_def)
qed simp

lemma copied_history:
  assumes "history_inv h" and h': "copied (m_store h) (m_rootHistory h) h'" "rh_id h' = rh_id h"
  shows "history_inv h' \<and> rh_view h' = rh_view h"
proof -
  from h'(1) have same: "list_all2 (same_root (m_store h) (m_store h')) (m_rootHistory h) (m_rootHistory h')"
    by (simp add: copied_def)
  have view: "rh_view h' = rh_view h"
    using same by (auto simp: rh_view_def list_all2_conv_all_nth same_root_def intro!: nth_equalityI)
  have lifetimes: "map m_lifetime (m_rootHistory h') = map m_lifetime (m_rootHistory h)"
    using same by (auto simp: list_all2_conv_all_nth same_root_def intro!: nth_equalityI)
  have "root_ok (rh_id h') r'" if r': "r' \<in> set (m_rootHistory h')" for r'
  proof -
    obtain k where "k < length (m_rootHistory h')" "r' = m_rootHistory h' ! k" using r' by (auto simp: in_set_conv_nth)
    with same have "k < length (m_rootHistory h)" "m_id r' = m_id (m_rootHistory h ! k)" "m_lifetime r' = m_lifetime (m_rootHistory h ! k)"
      by (auto simp: list_all2_conv_all_nth same_root_def)
    with assms h'(2) show ?thesis by (simp add: history_inv_def root_ok_def)
  qed
  moreover have "sorted (map (\<lambda>r. End (m_lifetime r)) (m_rootHistory h'))"
    using assms arg_cong [OF lifetimes, of "map End"] by (simp add: history_inv_def comp_def)
  moreover have "children_wf (rh_id h') (m_store h' p)" for p
  proof (cases "p \<in> m_pChildren ` set (m_rootHistory h')")
    case True
    then obtain k where k: "k < length (m_rootHistory h')" "p = m_pChildren (m_rootHistory h' ! k)"
      by (auto simp: in_set_conv_nth)
    with same have "m_store h' p = root_children (m_store h) (m_rootHistory h ! k)"
      by (auto simp: list_all2_conv_all_nth same_root_def root_children_def)
    with assms h'(2) show ?thesis by (simp add: history_inv_def root_children_def)
  next
    case False
    with h'(1) have "m_store h' p = fmempty" by (simp add: copied_def)
    then show ?thesis by simp
  qed
  ultimately have "history_inv h'" using h'(1) by (simp add: history_inv_def copied_def)
  with view show ?thesis by simp
qed

text \<open>
  The copy constructor of a root namespace history, which the delta set calls whenever an element is
  changed, keeps the identifier and the owner, lifetime, alias and children of every root, and two
  roots of the copy share their children exactly if the newer one extends the older one, so later
  changes act on the copy as they would act on the original.
\<close>

theorem history_copy:
  assumes "history_inv h"
  shows "history_inv (copy_RootNamespaceHistory h) \<and> rh_id (copy_RootNamespaceHistory h) = rh_id h
    \<and> rh_view (copy_RootNamespaceHistory h) = rh_view h"
proof (cases "rh_empty h")
  case True
  then show ?thesis
    by (simp add: copy_RootNamespaceHistory_def rh_view_def rh_empty_def) (simp add: new_RootNamespaceHistory_def)
next
  case False
  define h' where "h' = copy_RootNamespaceHistory h"
  have "copied (m_store h) [] (new_RootNamespaceHistory (rh_id h))"
    by (simp add: copied_def new_RootNamespaceHistory_def)
  from copy_roots_spec [OF this, of "m_rootHistory h" None] assms False
  have h': "copied (m_store h) (m_rootHistory h) h'" "rh_id h' = rh_id h"
    by (simp_all add: h'_def copy_RootNamespaceHistory_def history_inv_def new_RootNamespaceHistory_def)
  with copied_history [OF assms] show ?thesis by (simp add: h'_def)
qed

theorem history_copy_witness:
  "let h = rh_push_back 7 \<lparr>Start = 1, End = 20\<rparr> (new_RootNamespaceHistory 5);
       h' = rh_push_back 7 \<lparr>Start = 1, End = 30\<rparr> (the_ok (rh_back_add [5, 6] h));
       cs = fmupd 6 \<lparr>Path = [5, 6], Alias = No_Alias\<rparr> fmempty
   in rh_view (copy_RootNamespaceHistory h')
      = [(5, 7, \<lparr>Start = 1, End = 20\<rparr>, No_Alias, cs), (5, 7, \<lparr>Start = 1, End = 30\<rparr>, No_Alias, cs)]"
proof -
  define h where "h = rh_push_back 7 \<lparr>Start = 1, End = 20\<rparr> (new_RootNamespaceHistory 5)"
  define cs where "cs = fmupd 6 \<lparr>Path = [5, 6], Alias = No_Alias\<rparr> (fmempty :: children)"
  have h: "h = \<lparr>rh_id = 5, m_rootHistory = [\<lparr>m_id = 5, m_alias = No_Alias, m_ownerAddress = 7, m_lifetime = \<lparr>Start = 1, End = 20\<rparr>, m_pChildren = 0\<rparr>], m_store = (\<lambda>_. fmempty)\<rparr>"
    by (simp add: h_def rh_push_back_def rh_empty_def new_RootNamespaceHistory_def new_RootNamespace_def fresh_children_def fun_upd_idem)
  have "history_inv h"
    by (auto simp: h history_inv_def root_ok_def)
  with h rh_back_add_spec [of h "[5]" 6] obtain h1 where h1: "rh_back_add [5, 6] h = Ok h1" "history_inv h1" "h1 = h\<lparr>m_store := (m_store h)(0 := cs)\<rparr>"
    by (auto simp: rh_empty_def rh_back_def root_children_def cs_def)
  define h' where "h' = rh_push_back 7 \<lparr>Start = 1, End = 30\<rparr> h1"
  have "history_inv h'"
    using rh_push_back_spec [OF h1(2), of "\<lparr>Start = 1, End = 30\<rparr>" h' 7] h'_def by (simp add: h1(3) h rh_back_def)
  from history_copy [OF this]
  have "rh_view (copy_RootNamespaceHistory h') = rh_view h'" by simp
  also have "\<dots> = [(5, 7, \<lparr>Start = 1, End = 20\<rparr>, No_Alias, cs), (5, 7, \<lparr>Start = 1, End = 30\<rparr>, No_Alias, cs)]"
    by (simp add: h'_def h1(3) h rh_view_def rh_push_back_def rh_empty_def rh_back_def canExtend_def lifetime_isActive_def
        new_RootNamespace_def renew_def root_children_def)
  finally show ?thesis
    using h1(1) by (simp add: Let_def h_def [symmetric] h'_def [symmetric] cs_def)
qed

end
