(* ===== verification/Namespace_Cache.thy ===== *)
theory Namespace_Cache
  imports Namespace_State Lock_Cache
begin

section \<open>The namespace cache\<close>

text \<open>
  The delta of the namespace cache, \<^verbatim>\<open>src/plugins/txes/namespace/src/cache\<close>: the histories of the root
  namespaces, the flat map from every active namespace to its path, the groups of roots by the
  height at which they expire, and the two sizes that are reported by the diagnostic counters.  The
  sets of the delta are given by their contents; a pointer that the source dereferences without a
  check is read with \<open>the\<close>.
\<close>

record namespace_cache =
  m_historyById :: "namespace_id \<rightharpoonup> root_namespace_history"
  m_namespaceById :: "namespace_id \<rightharpoonup> namespace_path"
  m_rootNamespaceIdsByExpiryHeight :: "(height, namespace_id) identifier_groups"
  m_gracePeriodDuration :: block_duration
  m_activeSize :: "64 word"
  m_deepSize :: "64 word"

definition empty_namespace_cache :: "block_duration \<Rightarrow> namespace_cache" where
  "empty_namespace_cache grace =
     \<lparr>m_historyById = Map.empty, m_namespaceById = Map.empty, m_rootNamespaceIdsByExpiryHeight = Map.empty,
      m_gracePeriodDuration = grace, m_activeSize = 0, m_deepSize = 0\<rparr>"

text \<open>A child is stored under the last identifier of its path, so both loops are given by the keys.\<close>

definition AddAll_children :: "children \<Rightarrow> (namespace_id \<rightharpoonup> namespace_path) \<Rightarrow> namespace_id \<rightharpoonup> namespace_path" where
  "AddAll_children cs byId = (\<lambda>i. case fmlookup cs i of None \<Rightarrow> byId i | Some d \<Rightarrow> Some (Path d))"

definition RemoveAll_children :: "children \<Rightarrow> (namespace_id \<rightharpoonup> namespace_path) \<Rightarrow> namespace_id \<rightharpoonup> namespace_path" where
  "RemoveAll_children cs byId = (\<lambda>i. if fmlookup cs i = None then byId i else None)"

definition nc_contains :: "namespace_cache \<Rightarrow> namespace_id \<Rightarrow> bool" where
  "nc_contains c i \<longleftrightarrow> m_namespaceById c i \<noteq> None"

text \<open>
  The iterator that \<^verbatim>\<open>find\<close> returns: nothing, or the path of the namespace and the history whose
  newest root is the root of the entry.
\<close>

definition nc_find :: "namespace_cache \<Rightarrow> namespace_id \<Rightarrow> (namespace_path \<times> root_namespace_history) option result" where
  "nc_find c i =
     (case m_namespaceById c i of
        None \<Rightarrow> Ok None
      | Some ns \<Rightarrow>
          let h = the (m_historyById c (ns_rootId ns))
          in if ns_rootId ns \<noteq> m_id (rh_back h) then Err Invalid_Argument else Ok (Some (ns, h)))"

definition nc_get :: "namespace_cache \<Rightarrow> namespace_id \<Rightarrow> (namespace_path \<times> root_namespace_history) result" where
  "nc_get c i = bind_result (nc_find c i) (\<lambda>e. case e of None \<Rightarrow> Err Invalid_Argument | Some e \<Rightarrow> Ok e)"

definition nc_insert_root :: "root_namespace \<Rightarrow> namespace_cache \<Rightarrow> namespace_cache" where
  "nc_insert_root ns c =
     (let c1 = c\<lparr>m_rootNamespaceIdsByExpiryHeight :=
                  AddIdentifierWithGroup (End (m_lifetime ns)) (m_id ns) (m_rootNamespaceIdsByExpiryHeight c)\<rparr>
      in case m_historyById c1 (m_id ns) of
           Some h \<Rightarrow>
             let activeChildren = back_children h;
                 n = of_nat (children_size activeChildren);
                 c2 = (if \<not> canExtend ns (rh_back h)
                       then c1\<lparr>m_namespaceById := RemoveAll_children activeChildren (m_namespaceById c1), m_activeSize := m_activeSize c1 - n\<rparr>
                       else c1\<lparr>m_deepSize := m_deepSize c1 + n\<rparr>)
             in c2\<lparr>m_historyById := (m_historyById c2)(m_id ns \<mapsto> rh_push_back (m_ownerAddress ns) (m_lifetime ns) h),
                   m_deepSize := m_deepSize c2 + 1\<rparr>
         | None \<Rightarrow>
             c1\<lparr>m_historyById := (m_historyById c1)(m_id ns \<mapsto>
                   rh_push_back (m_ownerAddress ns) (m_lifetime ns) (new_RootNamespaceHistory (m_id ns))),
                m_activeSize := m_activeSize c1 + 1,
                m_deepSize := m_deepSize c1 + 1,
                m_namespaceById := (m_namespaceById c1)(m_id ns \<mapsto> [m_id ns])\<rparr>)"

definition nc_insert_child :: "namespace_path \<Rightarrow> namespace_cache \<Rightarrow> namespace_cache result" where
  "nc_insert_child ns c =
     (case m_historyById c (ns_rootId ns) of
        None \<Rightarrow> Err Invalid_Argument
      | Some h \<Rightarrow> map_result (\<lambda>h'. c\<lparr>m_historyById := (m_historyById c)(ns_rootId ns \<mapsto> h'),
            m_activeSize := m_activeSize c + 1,
            m_deepSize := m_deepSize c + of_nat (activeOwnerHistoryDepth h'),
            m_namespaceById := (m_namespaceById c)(ns_id ns \<mapsto> ns)\<rparr>) (rh_back_add ns h))"

definition nc_setAlias :: "namespace_id \<Rightarrow> namespace_alias \<Rightarrow> namespace_cache \<Rightarrow> namespace_cache result" where
  "nc_setAlias i alias c =
     (case m_namespaceById c i of
        None \<Rightarrow> Err Invalid_Argument
      | Some ns \<Rightarrow> map_result (\<lambda>h. c\<lparr>m_historyById := (m_historyById c)(ns_rootId ns \<mapsto> h)\<rparr>)
                    (rh_back_setAlias i alias (the (m_historyById c (ns_rootId ns)))))"

definition removeRoot :: "namespace_id \<Rightarrow> namespace_cache \<Rightarrow> namespace_cache result" where
  "removeRoot i c =
     (let h = the (m_historyById c i)
      in if 1 = rh_historyDepth h \<and> \<not> root_empty (m_store h) (rh_back h) then Err Runtime_Error
         else
           let removedRoot = rh_back h;
               removedChildren = back_children h;
               h' = rh_pop_back h;
               c1 = c\<lparr>m_rootNamespaceIdsByExpiryHeight :=
                      RemoveIdentifierWithGroup (End (m_lifetime removedRoot)) i (m_rootNamespaceIdsByExpiryHeight c)\<rparr>
           in if rh_empty h'
              then Ok (c1\<lparr>m_historyById := (m_historyById c1)(i := None), m_namespaceById := (m_namespaceById c1)(i := None),
                          m_activeSize := m_activeSize c1 - 1, m_deepSize := m_deepSize c1 - 1\<rparr>)
              else
                let numRemovedChildren = of_nat (children_size removedChildren);
                    c2 = c1\<lparr>m_historyById := (m_historyById c1)(i \<mapsto> h')\<rparr>;
                    c3 = (if \<not> canExtend removedRoot (rh_back h')
                          then c2\<lparr>m_namespaceById := AddAll_children (back_children h') (RemoveAll_children removedChildren (m_namespaceById c2)),
                                  m_activeSize := m_activeSize c2 - numRemovedChildren + of_nat (children_size (back_children h'))\<rparr>
                          else c2)
                in Ok (c3\<lparr>m_deepSize := m_deepSize c3 - (1 + numRemovedChildren)\<rparr>))"

definition removeChild :: "namespace_path \<Rightarrow> namespace_cache \<Rightarrow> namespace_cache result" where
  "removeChild ns c =
     map_result (\<lambda>h'. c\<lparr>m_historyById := (m_historyById c)(ns_rootId ns \<mapsto> h'),
         m_namespaceById := (m_namespaceById c)(ns_id ns := None),
         m_activeSize := m_activeSize c - 1,
         m_deepSize := m_deepSize c - of_nat (activeOwnerHistoryDepth h')\<rparr>)
       (rh_back_remove (ns_id ns) (the (m_historyById c (ns_rootId ns))))"

definition nc_remove :: "namespace_id \<Rightarrow> namespace_cache \<Rightarrow> namespace_cache result" where
  "nc_remove i c =
     (case m_namespaceById c i of
        None \<Rightarrow> Err Invalid_Argument
      | Some ns \<Rightarrow> if ns_rootId ns = i then removeRoot i c else removeChild ns c)"

definition GetNamespaceSizes :: "root_namespace_history \<Rightarrow> 64 word \<times> 64 word" where
  "GetNamespaceSizes h =
     (of_nat ((if rh_empty h then 0 else 1) + numActiveRootChildren h),
      of_nat (rh_historyDepth h + numAllHistoricalChildren h))"

text \<open>The action of \<^verbatim>\<open>prune\<close> for one history, with the identifiers collected so far.\<close>

definition prune_history :: "height \<Rightarrow> root_namespace_history \<Rightarrow> namespace_cache \<times> namespace_id set \<Rightarrow> namespace_cache \<times> namespace_id set" where
  "prune_history height h s =
     (let c = fst s;
          h' = fst (rh_prune height h);
          removedIds = snd (rh_prune height h)
      in (c\<lparr>m_historyById := (m_historyById c)(rh_id h := if rh_empty h' then None else Some h'),
            m_namespaceById := (\<lambda>i. if i \<in> removedIds then None else m_namespaceById c i),
            m_activeSize := m_activeSize c - (fst (GetNamespaceSizes h) - fst (GetNamespaceSizes h')),
            m_deepSize := m_deepSize c - (snd (GetNamespaceSizes h) - snd (GetNamespaceSizes h'))\<rparr>,
          snd s \<union> removedIds))"

definition nc_prune :: "(namespace_id set \<Rightarrow> namespace_id list) \<Rightarrow> height \<Rightarrow> namespace_cache \<Rightarrow> namespace_cache \<times> namespace_id set" where
  "nc_prune enum height c =
     fold (prune_history height) (ForEachIdentifierWithGroup enum (m_historyById c) (m_rootNamespaceIdsByExpiryHeight c) height) (c, {})"

text \<open>
  \<^verbatim>\<open>touch\<close>: the mutable \<^verbatim>\<open>find\<close> that marks the elements of the group as changed does not change their
  values, so the effect on the contents is the returned set.
\<close>

definition nc_touch :: "height \<Rightarrow> namespace_cache \<Rightarrow> namespace_id set" where
  "nc_touch height c = FindDeactivatingIdentifiersAtHeight rh_isActive (m_historyById c) (m_rootNamespaceIdsByExpiryHeight c) height"

subsection \<open>Invariant\<close>

definition owned_ids :: "root_namespace_history \<Rightarrow> namespace_id set" where
  "owned_ids h = insert (rh_id h) (\<Union>r \<in> set (m_rootHistory h). fset (fmdom (root_children (m_store h) r)))"

text \<open>The namespaces that are active through a history, with their paths.\<close>

definition visible :: "root_namespace_history \<Rightarrow> namespace_id \<rightharpoonup> namespace_path" where
  "visible h = (\<lambda>i. if i = rh_id h then Some [rh_id h] else map_option Path (fmlookup (back_children h) i))"

definition active_count :: "root_namespace_history \<Rightarrow> nat" where
  "active_count h = Suc (children_size (back_children h))"

definition deep_count :: "root_namespace_history \<Rightarrow> nat" where
  "deep_count h = rh_historyDepth h + numAllHistoricalChildren h"

definition sum_histories :: "(root_namespace_history \<Rightarrow> nat) \<Rightarrow> (namespace_id \<rightharpoonup> root_namespace_history) \<Rightarrow> nat" where
  "sum_histories f hs = (\<Sum>i \<in> dom hs. f (the (hs i)))"

definition histories_ok :: "(namespace_id \<rightharpoonup> root_namespace_history) \<Rightarrow> bool" where
  "histories_ok hs \<longleftrightarrow> finite (dom hs)
     \<and> (\<forall>i h. hs i = Some h \<longrightarrow> history_inv h \<and> rh_id h = i \<and> \<not> rh_empty h)
     \<and> (\<forall>i j h h'. hs i = Some h \<longrightarrow> hs j = Some h' \<longrightarrow> i \<noteq> j \<longrightarrow> owned_ids h \<inter> owned_ids h' = {})"

definition namespace_cache_inv :: "namespace_cache \<Rightarrow> bool" where
  "namespace_cache_inv c \<longleftrightarrow> histories_ok (m_historyById c)
     \<and> (\<forall>i p. m_namespaceById c i = Some p \<longleftrightarrow> (\<exists>k h. m_historyById c k = Some h \<and> visible h i = Some p))
     \<and> m_activeSize c = of_nat (sum_histories active_count (m_historyById c))
     \<and> m_deepSize c = of_nat (sum_histories deep_count (m_historyById c))"

text \<open>Every root is in the group of the height at which it expires, and no group is empty.\<close>

definition expiry_registered :: "namespace_cache \<Rightarrow> bool" where
  "expiry_registered c \<longleftrightarrow>
     (\<forall>i h. m_historyById c i = Some h \<longrightarrow>
        (\<forall>r \<in> set (m_rootHistory h). in_group (m_rootNamespaceIdsByExpiryHeight c) (End (m_lifetime r)) i))
     \<and> (\<forall>k g. m_rootNamespaceIdsByExpiryHeight c k = Some g \<longrightarrow> g \<noteq> {} \<and> finite g)"

lemma empty_namespace_cache_inv: "namespace_cache_inv (empty_namespace_cache g)" "expiry_registered (empty_namespace_cache g)"
  by (simp_all add: namespace_cache_inv_def expiry_registered_def empty_namespace_cache_def histories_ok_def sum_histories_def)

lemma visible_owned: "\<not> rh_empty h \<Longrightarrow> visible h i = Some p \<Longrightarrow> i \<in> owned_ids h"
  using back_in_history [of h] by (auto simp: visible_def owned_ids_def fmlookup_dom_iff split: if_splits)

lemma sum_histories_upd:
  assumes "finite (dom hs)"
  shows "sum_histories f (hs(k \<mapsto> h')) + (case hs k of None \<Rightarrow> 0 | Some h \<Rightarrow> f h) = sum_histories f hs + f h'"
proof -
  have "sum_histories f (hs(k \<mapsto> h')) = f h' + (\<Sum>i \<in> dom hs - {k}. f (the (hs i)))"
    using assms unfolding sum_histories_def by (auto simp: sum.insert_remove intro: sum.cong)
  moreover have "sum_histories f hs = (case hs k of None \<Rightarrow> 0 | Some h \<Rightarrow> f h) + (\<Sum>i \<in> dom hs - {k}. f (the (hs i)))"
    using assms unfolding sum_histories_def by (cases "hs k") (auto simp: sum.remove [of _ k] domIff)
  ultimately show ?thesis by simp
qed

lemma sum_histories_remove:
  assumes "finite (dom hs)" "hs k = Some h"
  shows "sum_histories f (hs(k := None)) + f h = sum_histories f hs"
  using assms unfolding sum_histories_def by (auto simp: sum.remove [of "dom hs" k] domIff intro: sum.cong)

text \<open>The cache after one history has been replaced, or a first history has been put under its identifier.\<close>

definition put_history :: "root_namespace_history \<Rightarrow> namespace_cache \<Rightarrow> namespace_cache" where
  "put_history h' c = c\<lparr>m_historyById := (m_historyById c)(rh_id h' \<mapsto> h'),
     m_namespaceById := (case m_historyById c (rh_id h') of
        None \<Rightarrow> m_namespaceById c ++ visible h'
      | Some h \<Rightarrow> (\<lambda>i. if visible h i \<noteq> None \<or> visible h' i \<noteq> None then visible h' i else m_namespaceById c i)),
     m_activeSize := m_activeSize c + of_nat (active_count h') - of_nat (case m_historyById c (rh_id h') of None \<Rightarrow> 0 | Some h \<Rightarrow> active_count h),
     m_deepSize := m_deepSize c + of_nat (deep_count h') - of_nat (case m_historyById c (rh_id h') of None \<Rightarrow> 0 | Some h \<Rightarrow> deep_count h)\<rparr>"

definition separate :: "root_namespace_history \<Rightarrow> namespace_cache \<Rightarrow> bool" where
  "separate h' c \<longleftrightarrow> (\<forall>i h. m_historyById c i = Some h \<longrightarrow> i \<noteq> rh_id h' \<longrightarrow> owned_ids h \<inter> owned_ids h' = {})"

lemma of_nat_diff_eq: "a + x = b + y \<Longrightarrow> of_nat a = of_nat b + of_nat y - (of_nat x :: 64 word)"
  by (metis add_diff_cancel_right' of_nat_add)

lemma put_history_inv:
  assumes inv: "namespace_cache_inv c" and h': "history_inv h'" "\<not> rh_empty h'" "separate h' c"
  shows "namespace_cache_inv (put_history h' c)"
proof -
  let ?hs = "m_historyById c" and ?k = "rh_id h'"
  have fin: "finite (dom ?hs)" using inv by (simp add: namespace_cache_inv_def histories_ok_def)
  have ok: "histories_ok (?hs(?k \<mapsto> h'))"
    using inv h' unfolding namespace_cache_inv_def histories_ok_def separate_def by (auto simp: Int_commute)
  have flat: "m_namespaceById c i = Some p \<longleftrightarrow> (\<exists>k h. ?hs k = Some h \<and> visible h i = Some p)" for i p
    using inv by (simp add: namespace_cache_inv_def)
  have other: "visible h i = None" if "?hs k = Some h" "k \<noteq> ?k" "i \<in> owned_ids h'" for k h i
  proof -
    have "owned_ids h \<inter> owned_ids h' = {}" using that h'(3) by (simp add: separate_def)
    moreover have "\<not> rh_empty h" using that inv by (simp add: namespace_cache_inv_def histories_ok_def)
    ultimately show ?thesis using visible_owned that(3) by (cases "visible h i") auto
  qed
  have old: "visible h2 i = None" if "?hs ?k = Some h" "?hs k = Some h2" "k \<noteq> ?k" "visible h i \<noteq> None" for h h2 k i
  proof -
    have "owned_ids h \<inter> owned_ids h2 = {}" "\<not> rh_empty h" "\<not> rh_empty h2"
      using that inv unfolding namespace_cache_inv_def histories_ok_def by metis+
    with that(4) visible_owned [of h i] visible_owned [of h2 i] show ?thesis by (cases "visible h2 i") auto
  qed
  have "m_namespaceById (put_history h' c) i = Some p \<longleftrightarrow> (\<exists>k h. (?hs(?k \<mapsto> h')) k = Some h \<and> visible h i = Some p)" for i p
  proof (cases "visible h' i")
    case None
    then have rest: "(\<exists>k h. (?hs(?k \<mapsto> h')) k = Some h \<and> visible h i = Some p)
        \<longleftrightarrow> (\<exists>k h. k \<noteq> ?k \<and> ?hs k = Some h \<and> visible h i = Some p)" by auto
    show ?thesis
    proof (cases "?hs ?k")
      case (Some h)
      show ?thesis
      proof (cases "visible h i")
        case None
        with Some have "(\<exists>k h. ?hs k = Some h \<and> visible h i = Some p)
            \<longleftrightarrow> (\<exists>k h. k \<noteq> ?k \<and> ?hs k = Some h \<and> visible h i = Some p)" by force
        with None Some \<open>visible h' i = None\<close> rest flat [of i p] show ?thesis by (simp add: put_history_def)
      next
        case (Some q)
        have "\<not> (\<exists>k h. k \<noteq> ?k \<and> ?hs k = Some h \<and> visible h i = Some p)"
          using old [OF \<open>?hs ?k = Some h\<close>] Some by (metis option.distinct(1))
        with Some \<open>?hs ?k = Some h\<close> \<open>visible h' i = None\<close> show ?thesis
          unfolding rest by (simp add: put_history_def)
      qed
    next
      case None
      then have "(\<exists>k h. ?hs k = Some h \<and> visible h i = Some p)
          \<longleftrightarrow> (\<exists>k h. k \<noteq> ?k \<and> ?hs k = Some h \<and> visible h i = Some p)" by force
      with None \<open>visible h' i = None\<close> flat [of i p] show ?thesis
        unfolding rest by (simp add: put_history_def map_add_def)
    qed
  next
    case (Some q)
    with other visible_owned [OF h'(2) Some] show ?thesis
      by (auto simp: put_history_def map_add_def split: option.splits)
  qed
  moreover have "m_activeSize (put_history h' c) = of_nat (sum_histories active_count (?hs(?k \<mapsto> h')))"
    using inv of_nat_diff_eq [OF sum_histories_upd [OF fin]] by (simp add: put_history_def namespace_cache_inv_def)
  moreover have "m_deepSize (put_history h' c) = of_nat (sum_histories deep_count (?hs(?k \<mapsto> h')))"
    using inv of_nat_diff_eq [OF sum_histories_upd [OF fin]] by (simp add: put_history_def namespace_cache_inv_def)
  ultimately show ?thesis using ok by (simp add: namespace_cache_inv_def) (simp add: put_history_def)
qed

text \<open>The cache after a history has been removed.\<close>

definition drop_history :: "root_namespace_history \<Rightarrow> namespace_cache \<Rightarrow> namespace_cache" where
  "drop_history h c = c\<lparr>m_historyById := (m_historyById c)(rh_id h := None),
     m_namespaceById := (\<lambda>i. if visible h i \<noteq> None then None else m_namespaceById c i),
     m_activeSize := m_activeSize c - of_nat (active_count h), m_deepSize := m_deepSize c - of_nat (deep_count h)\<rparr>"

lemma visible_unique:
  assumes "namespace_cache_inv c" "m_historyById c k = Some h" "visible h i = Some p" "m_historyById c k' = Some h'" "visible h' i = Some p'"
  shows "k' = k"
proof (rule ccontr)
  assume "k' \<noteq> k"
  with assms have "owned_ids h \<inter> owned_ids h' = {}" "\<not> rh_empty h" "\<not> rh_empty h'"
    unfolding namespace_cache_inv_def histories_ok_def by metis+
  with assms(3,5) visible_owned show False by blast
qed

lemma inv_namespaceById:
  assumes "namespace_cache_inv c" "m_historyById c k = Some h" "visible h i = Some p"
  shows "m_namespaceById c i = Some p"
  using assms unfolding namespace_cache_inv_def by blast

lemma inv_history:
  assumes "namespace_cache_inv c" "m_historyById c k = Some h"
  shows "history_inv h" "rh_id h = k" "\<not> rh_empty h"
  using assms unfolding namespace_cache_inv_def histories_ok_def by blast+

lemma drop_history_inv:
  assumes inv: "namespace_cache_inv c" and k: "m_historyById c k = Some h"
  shows "namespace_cache_inv (drop_history h c)"
proof -
  let ?hs = "m_historyById c"
  note h = inv_history [OF inv k]
  have fin: "finite (dom ?hs)" using inv by (simp add: namespace_cache_inv_def histories_ok_def)
  have ok: "histories_ok (?hs(k := None))"
    using inv unfolding namespace_cache_inv_def histories_ok_def by (auto split: if_splits)
  have "m_namespaceById (drop_history h c) i = Some p \<longleftrightarrow> (\<exists>k' h'. (?hs(k := None)) k' = Some h' \<and> visible h' i = Some p)" for i p
  proof (cases "visible h i")
    case None
    then have "(\<exists>k' h'. ?hs k' = Some h' \<and> visible h' i = Some p) \<longleftrightarrow> (\<exists>k' h'. (?hs(k := None)) k' = Some h' \<and> visible h' i = Some p)"
      using k by (metis fun_upd_apply option.distinct(1) option.inject)
    with None inv show ?thesis by (simp add: drop_history_def namespace_cache_inv_def)
  next
    case (Some q)
    have "\<not> (\<exists>k' h'. (?hs(k := None)) k' = Some h' \<and> visible h' i = Some p)"
      using visible_unique [OF inv k Some] by (auto split: if_splits)
    with Some show ?thesis by (simp add: drop_history_def)
  qed
  moreover have "of_nat (sum_histories f ?hs) - of_nat (f h) = (of_nat (sum_histories f (?hs(k := None))) :: 64 word)" for f
    using sum_histories_remove [OF fin k, of f] by (metis add_diff_cancel_right' of_nat_add)
  ultimately show ?thesis
    using ok inv h(2) by (simp add: namespace_cache_inv_def) (simp add: drop_history_def)
qed

subsection \<open>Root namespaces\<close>

definition history_or_new :: "namespace_cache \<Rightarrow> namespace_id \<Rightarrow> root_namespace_history" where
  "history_or_new c k = (case m_historyById c k of None \<Rightarrow> new_RootNamespaceHistory k | Some h \<Rightarrow> h)"

text \<open>What is required of a root that is inserted: a lifetime that ends no earlier than the one before.\<close>

definition insertable_root :: "root_namespace \<Rightarrow> namespace_cache \<Rightarrow> bool" where
  "insertable_root ns c \<longleftrightarrow> Start (m_lifetime ns) < End (m_lifetime ns)
     \<and> (\<forall>h. m_historyById c (m_id ns) = Some h \<longrightarrow> End (m_lifetime (rh_back h)) \<le> End (m_lifetime ns))
     \<and> (\<forall>k h. m_historyById c k = Some h \<longrightarrow> k \<noteq> m_id ns \<longrightarrow> m_id ns \<notin> owned_ids h)"

lemma push_back_roots:
  "m_rootHistory (rh_push_back o' l h) = m_rootHistory h @ [rh_back (rh_push_back o' l h)]"
  by (simp add: rh_push_back_def rh_back_def Let_def)

lemma push_counts:
  assumes "history_inv h" "Start l < End l" "rh_empty h \<or> End (m_lifetime (rh_back h)) \<le> End l"
  shows "deep_count (rh_push_back o' l h) = Suc (deep_count h + (if extends_history o' l h then children_size (back_children h) else 0))"
    "active_count (rh_push_back o' l h) = Suc (if extends_history o' l h then children_size (back_children h) else 0)"
    "visible (rh_push_back o' l h) = (if extends_history o' l h then visible h else [rh_id h \<mapsto> [rh_id h]])"
    "owned_ids (rh_push_back o' l h) = owned_ids h"
proof -
  note spec = rh_push_back_spec [OF assms refl, of o']
  have bc: "root_children (m_store h) (rh_back (rh_push_back o' l h)) = (if extends_history o' l h then back_children h else fmempty)"
  proof -
    have "m_store (rh_push_back o' l h) = m_store h" using spec by blast
    moreover have "back_children (rh_push_back o' l h) = (if extends_history o' l h then back_children h else fmempty)"
      using spec by blast
    ultimately show ?thesis by simp
  qed
  have "children_size fmempty = 0" by (simp add: children_size_def)
  then show "active_count (rh_push_back o' l h) = Suc (if extends_history o' l h then children_size (back_children h) else 0)"
    using spec bc by (simp add: active_count_def)
  show "deep_count (rh_push_back o' l h) = Suc (deep_count h + (if extends_history o' l h then children_size (back_children h) else 0))"
    using spec bc \<open>children_size fmempty = 0\<close>
    by (simp add: deep_count_def numAllHistoricalChildren_def push_back_roots root_size_def [abs_def])
  show "visible (rh_push_back o' l h) = (if extends_history o' l h then visible h else [rh_id h \<mapsto> [rh_id h]])"
    using spec bc by (auto simp: visible_def fun_eq_iff)
  have "fset (fmdom (back_children h)) \<subseteq> owned_ids h" if "extends_history o' l h"
    using that back_in_history [of h] by (auto simp: extends_history_def owned_ids_def)
  then show "owned_ids (rh_push_back o' l h) = owned_ids h"
    using spec bc by (auto simp: owned_ids_def push_back_roots)
qed

lemma insert_root_put:
  assumes inv: "namespace_cache_inv c" and ins: "insertable_root ns c"
  defines "h \<equiv> history_or_new c (m_id ns)"
  shows "nc_insert_root ns c = (put_history (rh_push_back (m_ownerAddress ns) (m_lifetime ns) h) c)
      \<lparr>m_rootNamespaceIdsByExpiryHeight := AddIdentifierWithGroup (End (m_lifetime ns)) (m_id ns) (m_rootNamespaceIdsByExpiryHeight c)\<rparr>"
    "namespace_cache_inv (nc_insert_root ns c)"
proof -
  let ?k = "m_id ns" and ?h' = "rh_push_back (m_ownerAddress ns) (m_lifetime ns) h"
  have h: "history_inv h" "rh_id h = ?k"
    using inv_history [OF inv] by (auto simp: h_def history_or_new_def new_RootNamespaceHistory_def split: option.splits)
      (simp add: new_RootNamespaceHistory_def [symmetric])
  have l: "Start (m_lifetime ns) < End (m_lifetime ns)" "rh_empty h \<or> End (m_lifetime (rh_back h)) \<le> End (m_lifetime ns)"
    using ins by (auto simp: insertable_root_def h_def history_or_new_def rh_empty_def new_RootNamespaceHistory_def split: option.splits)
  note spec = rh_push_back_spec [OF h(1) l refl, of "m_ownerAddress ns"] and counts = push_counts [OF h(1) l, of "m_ownerAddress ns"]
  have rh: "rh_id ?h' = ?k" using spec h(2) by simp
  show put: "nc_insert_root ns c = (put_history ?h' c)
      \<lparr>m_rootNamespaceIdsByExpiryHeight := AddIdentifierWithGroup (End (m_lifetime ns)) (m_id ns) (m_rootNamespaceIdsByExpiryHeight c)\<rparr>"
  proof (cases "m_historyById c ?k")
    case None
    then have new: "h = new_RootNamespaceHistory ?k" by (simp add: h_def history_or_new_def)
    have "deep_count h = 0" "\<not> extends_history (m_ownerAddress ns) (m_lifetime ns) h"
      by (simp_all add: new extends_history_def deep_count_def new_RootNamespaceHistory_def rh_historyDepth_def numAllHistoricalChildren_def rh_empty_def)
    with None counts rh h(2) show ?thesis
      by (simp add: nc_insert_root_def put_history_def new map_add_upd_left Let_def)
  next
    case (Some h0)
    then have h0: "h0 = h" by (simp add: h_def history_or_new_def)
    note hist = inv_history [OF inv Some, unfolded h0]
    have ext: "canExtend ns (rh_back h) \<longleftrightarrow> extends_history (m_ownerAddress ns) (m_lifetime ns) h"
      using hist back_in_history [OF hist(3)]
      by (auto simp: canExtend_def extends_history_def history_inv_def root_ok_def)
    have vis: "m_namespaceById c i = visible h i" if "visible h i \<noteq> None" for i
      using that inv_namespaceById [OF inv Some [unfolded h0]] by auto
    show ?thesis
    proof (cases "extends_history (m_ownerAddress ns) (m_lifetime ns) h")
      case True
      with vis have "(\<lambda>i. if visible h i \<noteq> None \<or> visible ?h' i \<noteq> None then visible ?h' i else m_namespaceById c i) = m_namespaceById c"
        using counts by (auto simp: fun_eq_iff)
      with True ext Some h0 counts rh show ?thesis
        by (simp add: nc_insert_root_def put_history_def Let_def active_count_def)
    next
      case False
      have "(\<lambda>i. if visible h i \<noteq> None \<or> visible ?h' i \<noteq> None then visible ?h' i else m_namespaceById c i) = RemoveAll_children (back_children h) (m_namespaceById c)"
      proof
        fix i
        have "fmlookup (back_children h) (rh_id h) = None"
          using hist(1) by (simp add: history_inv_def children_wf_def root_children_def)
        with False counts vis [of ?k] h(2)
        show "(if visible h i \<noteq> None \<or> visible ?h' i \<noteq> None then visible ?h' i else m_namespaceById c i) = RemoveAll_children (back_children h) (m_namespaceById c) i"
          by (auto simp: RemoveAll_children_def visible_def)
      qed
      with False ext Some h0 counts rh show ?thesis
        by (simp add: nc_insert_root_def put_history_def Let_def active_count_def)
    qed
  qed
  have "separate ?h' c"
    unfolding separate_def
  proof (intro allI impI)
    fix i h1 assume h1: "m_historyById c i = Some h1" "i \<noteq> rh_id ?h'"
    show "owned_ids h1 \<inter> owned_ids ?h' = {}"
    proof (cases "m_historyById c ?k")
      case None
      then have "owned_ids h = {?k}" by (simp add: h_def history_or_new_def owned_ids_def new_RootNamespaceHistory_def)
      with ins h1 rh counts(4) show ?thesis by (auto simp: insertable_root_def)
    next
      case (Some h0)
      with inv h1 rh show ?thesis unfolding counts(4)
        by (simp add: h_def history_or_new_def namespace_cache_inv_def histories_ok_def)
    qed
  qed
  with spec have "namespace_cache_inv (put_history ?h' c)" by (intro put_history_inv [OF inv]) auto
  then show "namespace_cache_inv (nc_insert_root ns c)" unfolding put by (simp add: namespace_cache_inv_def)
qed

lemma root_visible: "namespace_cache_inv c \<Longrightarrow> m_historyById c k = Some h \<Longrightarrow> m_namespaceById c k = Some [k]"
  using inv_namespaceById [of c k h k "[k]"] inv_history [of c k h] by (simp add: visible_def)

lemma AddAll_visible:
  assumes "namespace_cache_inv c" "m_historyById c k = Some h"
  shows "AddAll_children (back_children h) (m_namespaceById c) = m_namespaceById c"
proof
  fix i
  note h = inv_history [OF assms]
  have "children_wf k (back_children h)" using h(1,2) by (simp add: history_inv_def root_children_def)
  then have none: "fmlookup (back_children h) (rh_id h) = None" using h(2) by (simp add: children_wf_def)
  show "AddAll_children (back_children h) (m_namespaceById c) i = m_namespaceById c i"
  proof (cases "fmlookup (back_children h) i")
    case (Some d)
    with none have "visible h i = Some (Path d)" by (auto simp: visible_def)
    with inv_namespaceById [OF assms] Some show ?thesis by (simp add: AddAll_children_def)
  qed (simp add: AddAll_children_def)
qed

lemma AddAll_RemoveAll_visible:
  assumes "namespace_cache_inv c" "m_historyById c k = Some h"
  shows "AddAll_children (back_children h) (RemoveAll_children fmempty (RemoveAll_children (back_children h) (m_namespaceById c))) = m_namespaceById c"
proof -
  have "AddAll_children (back_children h) (RemoveAll_children fmempty (RemoveAll_children (back_children h) (m_namespaceById c))) = AddAll_children (back_children h) (m_namespaceById c)"
    by (auto simp: AddAll_children_def RemoveAll_children_def fun_eq_iff split: option.splits)
  with AddAll_visible [OF assms] show ?thesis by simp
qed

lemma absent_root:
  assumes inv: "namespace_cache_inv c" and ins: "insertable_root ns c" and none: "m_historyById c (m_id ns) = None"
  shows "m_namespaceById c (m_id ns) = None"
proof (rule ccontr)
  assume "m_namespaceById c (m_id ns) \<noteq> None"
  then obtain k h p where h: "m_historyById c k = Some h" "visible h (m_id ns) = Some p"
    using inv by (auto simp: namespace_cache_inv_def)
  with visible_owned inv_history(3) [OF inv] have "m_id ns \<in> owned_ids h" by blast
  moreover have "k \<noteq> m_id ns" using h(1) none by auto
  ultimately show False using ins h(1) unfolding insertable_root_def by blast
qed

lemma insert_remove_root:
  assumes inv: "namespace_cache_inv c" and ins: "insertable_root ns c"
  shows "nc_remove (m_id ns) (nc_insert_root ns c) = Ok (c\<lparr>m_rootNamespaceIdsByExpiryHeight :=
    RemoveIdentifierWithGroup (End (m_lifetime ns)) (m_id ns) (AddIdentifierWithGroup (End (m_lifetime ns)) (m_id ns) (m_rootNamespaceIdsByExpiryHeight c))\<rparr>)"
proof -
  define k where "k = m_id ns"
  define h where "h = history_or_new c k"
  define h' where "h' = rh_push_back (m_ownerAddress ns) (m_lifetime ns) h"
  define c' where "c' = nc_insert_root ns c"
  note put = insert_root_put [OF inv ins, folded k_def, folded h_def, folded h'_def c'_def]
  have h: "history_inv h" "rh_id h = k"
    using inv_history [OF inv, of k] by (auto simp: h_def history_or_new_def new_RootNamespaceHistory_def split: option.splits)
      (simp add: new_RootNamespaceHistory_def [symmetric])
  have l: "Start (m_lifetime ns) < End (m_lifetime ns)" "rh_empty h \<or> End (m_lifetime (rh_back h)) \<le> End (m_lifetime ns)"
    using ins by (auto simp: insertable_root_def h_def k_def history_or_new_def rh_empty_def new_RootNamespaceHistory_def split: option.splits)
  note spec = rh_push_back_spec [OF h(1) l h'_def]
  have hist: "m_historyById c' k = Some h'" using spec h(2) by (simp add: put(1) put_history_def)
  have run: "nc_remove k c' = removeRoot k c'"
    using root_visible [OF put(2) hist] by (simp add: nc_remove_def ns_rootId_def)
  have pop: "rh_pop_back h' = h" and life: "m_lifetime (rh_back h') = m_lifetime ns" using spec by blast+
  have "removeRoot k c' = Ok (c\<lparr>m_rootNamespaceIdsByExpiryHeight :=
    RemoveIdentifierWithGroup (End (m_lifetime ns)) k (AddIdentifierWithGroup (End (m_lifetime ns)) k (m_rootNamespaceIdsByExpiryHeight c))\<rparr>)"
  proof (cases "m_historyById c k")
    case None
    then have new: "rh_empty h" by (simp add: h_def history_or_new_def new_RootNamespaceHistory_def rh_empty_def)
    then have "\<not> extends_history (m_ownerAddress ns) (m_lifetime ns) h" by (simp add: extends_history_def)
    then have "back_children h' = fmempty" using spec by auto
    then have empty: "root_empty (m_store h') (rh_back h')" by (simp add: root_empty_def root_size_def children_size_def)
    have "m_namespaceById c k = None" using absent_root [OF inv ins] None by (simp add: k_def)
    with None have upd: "(m_historyById c)(k := None) = m_historyById c" "(m_namespaceById c)(k := None) = m_namespaceById c"
      by (auto simp: fun_upd_idem)
    show ?thesis
      using hist empty pop new life None upd
      by (simp add: removeRoot_def Let_def) (simp add: c'_def nc_insert_root_def k_def)
  next
    case (Some h0)
    then have h0: "h0 = h" by (simp add: h_def history_or_new_def)
    note old = inv_history [OF inv Some, unfolded h0]
    have depth: "rh_historyDepth h' \<noteq> 1" using spec old(3) by (simp add: rh_historyDepth_def rh_empty_def)
    have ext: "canExtend ns (rh_back h) \<longleftrightarrow> extends_history (m_ownerAddress ns) (m_lifetime ns) h"
      using old back_in_history [OF old(3)]
      by (auto simp: canExtend_def extends_history_def history_inv_def root_ok_def k_def)
    have ext': "canExtend (rh_back h') (rh_back h) \<longleftrightarrow> canExtend ns (rh_back h)"
      using spec old back_in_history [of h'] back_in_history [OF old(3)]
      by (simp add: canExtend_def history_inv_def root_ok_def k_def)
    have bc: "back_children h' = (if canExtend ns (rh_back h) then back_children h else fmempty)"
      unfolding ext using spec by blast
    have upd: "(m_historyById c)(k \<mapsto> h) = m_historyById c" using Some h0 by (simp add: fun_upd_idem)
    note restore = AddAll_RemoveAll_visible [OF inv Some, unfolded h0]
    have "children_size fmempty = 0" by (simp add: children_size_def)
    note facts = hist depth pop life old(3) ext' bc this
    have run': "c' = (let c1 = c\<lparr>m_rootNamespaceIdsByExpiryHeight := AddIdentifierWithGroup (End (m_lifetime ns)) k (m_rootNamespaceIdsByExpiryHeight c)\<rparr>;
        c2 = (if \<not> canExtend ns (rh_back h)
              then c1\<lparr>m_namespaceById := RemoveAll_children (back_children h) (m_namespaceById c1), m_activeSize := m_activeSize c1 - of_nat (children_size (back_children h))\<rparr>
              else c1\<lparr>m_deepSize := m_deepSize c1 + of_nat (children_size (back_children h))\<rparr>)
        in c2\<lparr>m_historyById := (m_historyById c2)(k \<mapsto> h'), m_deepSize := m_deepSize c2 + 1\<rparr>)"
      using Some h0 by (simp add: c'_def nc_insert_root_def Let_def k_def [symmetric] h'_def)
    show ?thesis
    proof (cases "canExtend ns (rh_back h)")
      case True
      then show ?thesis using facts upd by (simp add: removeRoot_def Let_def) (simp add: run' Let_def)
    next
      case False
      then show ?thesis using facts upd restore by (simp add: removeRoot_def Let_def) (simp add: run' Let_def)
    qed
  qed
  with run show ?thesis by (simp add: k_def c'_def)
qed

lemma owned_pop: "set (m_rootHistory h') \<subseteq> set (m_rootHistory h) \<Longrightarrow> rh_id h' = rh_id h
    \<Longrightarrow> \<forall>r \<in> set (m_rootHistory h'). root_children (m_store h') r = root_children (m_store h) r
    \<Longrightarrow> owned_ids h' \<subseteq> owned_ids h"
  by (auto simp: owned_ids_def)

lemma separate_owned:
  assumes "namespace_cache_inv c" "m_historyById c k = Some h" "rh_id h' = k" "owned_ids h' \<subseteq> owned_ids h"
  shows "separate h' c"
  unfolding separate_def
proof (intro allI impI)
  fix i h1 assume "m_historyById c i = Some h1" "i \<noteq> rh_id h'"
  then have "owned_ids h1 \<inter> owned_ids h = {}"
    using assms unfolding namespace_cache_inv_def histories_ok_def by metis
  with assms(4) show "owned_ids h1 \<inter> owned_ids h' = {}" by blast
qed

lemma remove_root_put:
  assumes inv: "namespace_cache_inv c" and k: "m_historyById c k = Some h" and run: "removeRoot k c = Ok c'"
  shows "c' = (if rh_historyDepth h = 1 then drop_history h c else put_history (rh_pop_back h) c)
      \<lparr>m_rootNamespaceIdsByExpiryHeight := RemoveIdentifierWithGroup (End (m_lifetime (rh_back h))) k (m_rootNamespaceIdsByExpiryHeight c)\<rparr>
    \<and> namespace_cache_inv c'"
proof (cases "rh_historyDepth h = 1")
  case True
  note h = inv_history [OF inv k]
  obtain r where r: "m_rootHistory h = [r]" using True by (auto simp: rh_historyDepth_def length_Suc_conv)
  have none: "children_size (back_children h) = 0"
    using run k True by (auto simp: removeRoot_def Let_def root_empty_def root_size_def split: if_splits)
  then have "back_children h = fmempty" by (intro fmap_ext) (simp add: children_size_def fmdom_notD)
  moreover from this have "deep_count h = 1" "active_count h = 1"
    using none r True by (auto simp: deep_count_def active_count_def numAllHistoricalChildren_def root_size_def rh_back_def)
  moreover have "rh_empty (rh_pop_back h)" by (simp add: r rh_pop_back_def rh_empty_def)
  moreover have "(m_namespaceById c)(k := None) = (\<lambda>i. if visible h i \<noteq> None then None else m_namespaceById c i)"
    using \<open>back_children h = fmempty\<close> h(2) by (simp add: visible_def fun_eq_iff)
  ultimately have "c' = (drop_history h c)\<lparr>m_rootNamespaceIdsByExpiryHeight := RemoveIdentifierWithGroup (End (m_lifetime (rh_back h))) k (m_rootNamespaceIdsByExpiryHeight c)\<rparr>"
    using run k h(2) none
    by (auto simp: removeRoot_def Let_def drop_history_def root_empty_def root_size_def)
  with True drop_history_inv [OF inv k] show ?thesis by (simp add: namespace_cache_inv_def)
next
  case False
  note h = inv_history [OF inv k]
  let ?h' = "rh_pop_back h"
  have "1 < rh_historyDepth h" using False h(3) by (cases "m_rootHistory h") (auto simp: rh_historyDepth_def rh_empty_def)
  note pop = rh_pop_back_spec [OF h(1) this refl]
  have rh: "rh_id ?h' = k" using pop h(2) by simp
  have wf: "fmlookup (back_children h) k = None" "fmlookup (back_children ?h') k = None"
    using h(1,2) pop rh by (auto simp: history_inv_def children_wf_def root_children_def)
  have flat: "(if canExtend (rh_back h) (rh_back ?h') then m_namespaceById c
      else AddAll_children (back_children ?h') (RemoveAll_children (back_children h) (m_namespaceById c)))
    = (\<lambda>i. if visible h i \<noteq> None \<or> visible ?h' i \<noteq> None then visible ?h' i else m_namespaceById c i)"
  proof (cases "canExtend (rh_back h) (rh_back ?h')")
    case True
    have "rh_id ?h' = rh_id h" "back_children ?h' = back_children h" using pop True by blast+
    then have "visible ?h' = visible h" by (simp add: visible_def fun_eq_iff)
    with True inv_namespaceById [OF inv k] show ?thesis by (auto simp: fun_eq_iff)
  next
    case False
    with wf h(2) rh root_visible [OF inv k] show ?thesis
      by (auto simp: fun_eq_iff AddAll_children_def RemoveAll_children_def visible_def split: option.splits)
  qed
  have sizes: "children_size (back_children ?h') = children_size (back_children h)" if "canExtend (rh_back h) (rh_back ?h')"
    using that pop by simp
  have "deep_count h = deep_count ?h' + 1 + children_size (back_children h)" using pop by (simp add: deep_count_def)
  then have "c' = (put_history ?h' c)\<lparr>m_rootNamespaceIdsByExpiryHeight := RemoveIdentifierWithGroup (End (m_lifetime (rh_back h))) k (m_rootNamespaceIdsByExpiryHeight c)\<rparr>"
    using run k False pop rh sizes flat [symmetric]
    by (auto simp: removeRoot_def Let_def put_history_def active_count_def)
  moreover have "namespace_cache_inv (put_history ?h' c)"
  proof (rule put_history_inv [OF inv])
    show "separate ?h' c"
      using pop h(2) by (intro separate_owned [OF inv k rh] owned_pop) auto
  qed (use pop in simp_all)
  ultimately show ?thesis using False by (simp add: namespace_cache_inv_def)
qed

subsection \<open>Child namespaces\<close>

lemma child_visible:
  assumes "namespace_cache_inv c" "m_namespaceById c i = Some ns"
  obtains h where "m_historyById c (ns_rootId ns) = Some h" "visible h i = Some ns"
    "ns = [i] \<and> i = ns_rootId ns \<or> (\<exists>d. i \<noteq> ns_rootId ns \<and> fmlookup (back_children h) i = Some d \<and> Path d = ns)"
    "ns \<noteq> []" "ns_id ns = i"
proof -
  obtain k h where h: "m_historyById c k = Some h" "visible h i = Some ns"
    using assms by (auto simp: namespace_cache_inv_def)
  note hi = inv_history [OF assms(1) h(1)]
  have wf: "children_wf k (back_children h)" using hi by (simp add: history_inv_def root_children_def)
  have root: "ns_rootId ns = k" using h(2) hi(2) wf unfolding children_wf_def by (auto simp: visible_def ns_rootId_def split: if_splits)
  moreover have "ns \<noteq> [] \<and> ns_id ns = i"
  proof (cases "i = k")
    case True
    then show ?thesis using h(2) hi(2) by (auto simp: visible_def ns_id_def)
  next
    case False
    with h(2) hi(2) obtain d where "fmlookup (back_children h) i = Some d" "Path d = ns" by (auto simp: visible_def)
    with wf show ?thesis unfolding children_wf_def by fastforce
  qed
  ultimately show ?thesis using that h hi(2) by (auto simp: visible_def split: if_splits)
qed

definition insertable_child :: "namespace_path \<Rightarrow> namespace_id \<Rightarrow> namespace_cache \<Rightarrow> bool" where
  "insertable_child path j c \<longleftrightarrow> m_namespaceById c (ns_id path) = Some path \<and> m_namespaceById c j = None
     \<and> (\<forall>k h. m_historyById c k = Some h \<longrightarrow> k \<noteq> ns_rootId path \<longrightarrow> j \<notin> owned_ids h)"

lemma insert_child:
  assumes inv: "namespace_cache_inv c" and ins: "insertable_child path j c"
  shows "\<exists>c'. nc_insert_child (path @ [j]) c = Ok c' \<and> namespace_cache_inv c' \<and> nc_remove j c' = Ok c
    \<and> m_namespaceById c' = (m_namespaceById c)(j \<mapsto> path @ [j])
    \<and> m_rootNamespaceIdsByExpiryHeight c' = m_rootNamespaceIdsByExpiryHeight c"
proof -
  obtain h where h: "m_historyById c (ns_rootId path) = Some h"
    "path = [ns_rootId path] \<or> (\<exists>d. fmlookup (back_children h) (ns_id path) = Some d \<and> Path d = path)" "path \<noteq> []"
    using child_visible [OF inv] ins unfolding insertable_child_def by metis
  note hi = inv_history [OF inv h(1)]
  let ?k = "ns_rootId path"
  have "visible h j = None"
    using ins inv_namespaceById [OF inv h(1), of j] by (cases "visible h j") (auto simp: insertable_child_def)
  then have j: "j \<noteq> ?k" "fmlookup (back_children h) j = None"
    using hi(2) by (auto simp: visible_def split: if_splits)
  obtain h' where h': "rh_back_add (path @ [j]) h = Ok h'" "history_inv h'"
    "h' = h\<lparr>m_store := (m_store h)(m_pChildren (rh_back h) := fmupd j \<lparr>Path = path @ [j], Alias = No_Alias\<rparr> (back_children h))\<rparr>"
    "back_children h' = fmupd j \<lparr>Path = path @ [j], Alias = No_Alias\<rparr> (back_children h)"
    "numAllHistoricalChildren h' = numAllHistoricalChildren h + activeOwnerHistoryDepth h" "rh_back_remove j h' = Ok h"
    using rh_back_add_spec [OF hi(1,3), of path j] h(2) hi(2) j by auto
  define c' where "c' = c\<lparr>m_historyById := (m_historyById c)(?k \<mapsto> h'),
      m_activeSize := m_activeSize c + 1, m_deepSize := m_deepSize c + of_nat (activeOwnerHistoryDepth h'),
      m_namespaceById := (m_namespaceById c)(j \<mapsto> path @ [j])\<rparr>"
  have ids: "ns_rootId (path @ [j]) = ?k" "ns_id (path @ [j]) = j" using h(3) by (simp_all add: ns_rootId_def ns_id_def nth_append)
  have run: "nc_insert_child (path @ [j]) c = Ok c'"
    using h(1) h'(1) by (simp add: nc_insert_child_def ids c'_def)
  have same: "rh_id h' = ?k" "\<not> rh_empty h'" "rh_historyDepth h' = rh_historyDepth h" "activeOwnerHistoryDepth h' = activeOwnerHistoryDepth h"
    using hi by (simp_all add: h'(3) rh_empty_def rh_historyDepth_def activeOwnerHistoryDepth_def rh_back_def)
  have vis: "visible h' = (visible h)(j \<mapsto> path @ [j])"
    using hi(2) same(1) j(1) h'(4) by (auto simp: visible_def fun_eq_iff)
  have "c' = put_history h' c"
  proof -
    have "(m_namespaceById c)(j \<mapsto> path @ [j])
        = (\<lambda>i. if visible h i \<noteq> None \<or> visible h' i \<noteq> None then visible h' i else m_namespaceById c i)"
      using inv_namespaceById [OF inv h(1)] by (auto simp: vis fun_eq_iff)
    moreover have "active_count h' = Suc (active_count h)" "deep_count h' = deep_count h + activeOwnerHistoryDepth h'"
      using same h' children_size_upd [OF j(2)] by (simp_all add: active_count_def deep_count_def)
    ultimately show ?thesis using h(1) same(1) by (simp add: c'_def put_history_def)
  qed
  moreover have owned: "owned_ids h' \<subseteq> insert j (owned_ids h)"
  proof -
    have "back_children h = m_store h (m_pChildren (rh_back h))" by (simp add: root_children_def)
    then show ?thesis using back_in_history [OF hi(3)]
      by (auto simp: h'(3) owned_ids_def root_children_def split: if_splits)
  qed
  have "separate h' c"
    unfolding separate_def
  proof (intro allI impI)
    fix i h1 assume "m_historyById c i = Some h1" "i \<noteq> rh_id h'"
    then have "owned_ids h1 \<inter> owned_ids h = {}" "j \<notin> owned_ids h1"
      using ins separate_owned [OF inv h(1) hi(2) order_refl] hi(2) same(1) unfolding separate_def insertable_child_def by simp_all
    with owned show "owned_ids h1 \<inter> owned_ids h' = {}" by blast
  qed
  ultimately have inv': "namespace_cache_inv c'" using put_history_inv [OF inv h'(2) same(2)] by simp
  have "(m_namespaceById c)(j := None) = m_namespaceById c" "(m_historyById c)(?k \<mapsto> h) = m_historyById c"
    using ins h(1) by (auto simp: insertable_child_def fun_upd_idem)
  then have "nc_remove j c' = Ok c"
    using h'(6) j(1) same(4) by (simp add: nc_remove_def removeChild_def c'_def ids)
  with run inv' show ?thesis by (simp add: c'_def)
qed

lemma remove_child_inv:
  assumes inv: "namespace_cache_inv c" and ns: "m_namespaceById c j = Some ns" "ns_rootId ns \<noteq> j" and run: "removeChild ns c = Ok c'"
  shows "namespace_cache_inv c'"
proof -
  obtain h where h: "m_historyById c (ns_rootId ns) = Some h" "visible h j = Some ns" "ns_id ns = j"
    using child_visible [OF inv ns(1)] by metis
  note hi = inv_history [OF inv h(1)]
  obtain h' where h': "rh_back_remove j h = Ok h'"
    and c': "c' = c\<lparr>m_historyById := (m_historyById c)(ns_rootId ns \<mapsto> h'), m_namespaceById := (m_namespaceById c)(j := None),
         m_activeSize := m_activeSize c - 1, m_deepSize := m_deepSize c - of_nat (activeOwnerHistoryDepth h')\<rparr>"
    using run h by (auto simp: removeChild_def)
  note rem = rh_back_remove_spec [OF hi(1,3) h']
  have h'_eq: "h' = h\<lparr>m_store := (m_store h)(m_pChildren (rh_back h) := fmdrop j (back_children h))\<rparr>" using rem by blast
  have same: "rh_id h' = ns_rootId ns" "\<not> rh_empty h'" "rh_historyDepth h' = rh_historyDepth h" "activeOwnerHistoryDepth h' = activeOwnerHistoryDepth h"
    using hi by (simp_all add: h'_eq rh_empty_def rh_historyDepth_def activeOwnerHistoryDepth_def rh_back_def)
  have bc: "back_children h' = fmdrop j (back_children h)" "fmlookup (back_children h) j \<noteq> None" using rem by blast+
  have vis: "visible h' = (visible h)(j := None)"
    using hi(2) same(1) ns(2) by (auto simp: visible_def bc(1) fun_eq_iff)
  have "(m_namespaceById c)(j := None) = (\<lambda>i. if visible h i \<noteq> None \<or> visible h' i \<noteq> None then visible h' i else m_namespaceById c i)"
    using inv_namespaceById [OF inv h(1)] h(2) by (auto simp: vis fun_eq_iff)
  moreover have "numAllHistoricalChildren h = numAllHistoricalChildren h' + activeOwnerHistoryDepth h" using rem by linarith
  then have "active_count h = Suc (active_count h')" "deep_count h = deep_count h' + activeOwnerHistoryDepth h'"
    using same(3,4) children_size_drop [OF bc(2)] by (simp_all add: active_count_def deep_count_def bc(1))
  ultimately have "c' = put_history h' c" using h(1) same(1) by (simp add: c' put_history_def)
  moreover have "owned_ids h' \<subseteq> owned_ids h"
  proof -
    have "back_children h = m_store h (m_pChildren (rh_back h))" by (simp add: root_children_def)
    then show ?thesis by (auto simp: h'_eq owned_ids_def root_children_def split: if_splits)
  qed
  then have "separate h' c" by (rule separate_owned [OF inv h(1) same(1)])
  moreover have "history_inv h'" using rem by blast
  ultimately show ?thesis using put_history_inv [OF inv _ same(2)] by simp
qed

lemma remove_inv:
  assumes inv: "namespace_cache_inv c" and run: "nc_remove i c = Ok c'"
  shows "namespace_cache_inv c'"
proof -
  obtain ns where ns: "m_namespaceById c i = Some ns" using run by (auto simp: nc_remove_def split: option.splits)
  obtain h where h: "m_historyById c (ns_rootId ns) = Some h" using child_visible [OF inv ns] by metis
  show ?thesis
  proof (cases "ns_rootId ns = i")
    case True
    with run ns remove_root_put [OF inv, of i h c'] h show ?thesis by (auto simp: nc_remove_def)
  next
    case False
    with run ns remove_child_inv [OF inv ns] show ?thesis by (auto simp: nc_remove_def)
  qed
qed

subsection \<open>Aliases\<close>

lemma set_alias:
  assumes inv: "namespace_cache_inv c" and ns: "m_namespaceById c i = Some ns"
  shows "\<exists>c' h'. nc_setAlias i alias c = Ok c' \<and> namespace_cache_inv c'
    \<and> rh_back_setAlias i alias (the (m_historyById c (ns_rootId ns))) = Ok h'
    \<and> c' = c\<lparr>m_historyById := (m_historyById c)(ns_rootId ns \<mapsto> h')\<rparr>"
proof -
  obtain h where h: "m_historyById c (ns_rootId ns) = Some h" "visible h i = Some ns"
    "ns = [i] \<and> i = ns_rootId ns \<or> (\<exists>d. i \<noteq> ns_rootId ns \<and> fmlookup (back_children h) i = Some d \<and> Path d = ns)"
    using child_visible [OF inv ns] by metis
  note hi = inv_history [OF inv h(1)]
  have id: "m_id (rh_back h) = ns_rootId ns"
    using hi back_in_history [OF hi(3)] by (simp add: history_inv_def root_ok_def)
  obtain h' where h': "rh_back_setAlias i alias h = Ok h'"
    using h(3) id by (auto simp: rh_back_setAlias_def root_setAlias_def)
  note spec = rh_back_setAlias_spec [OF hi(1,3) h']
  have inv': "history_inv h'" "\<not> rh_empty h'" "rh_id h' = ns_rootId ns" using spec hi by auto
  have ptrs: "map m_pChildren (m_rootHistory h') = map m_pChildren (m_rootHistory h)" using spec by blast
  have doms: "\<And>p. fmdom (m_store h' p) = fmdom (m_store h p)" using spec by blast
  have ptr: "m_pChildren (rh_back h') = m_pChildren (rh_back h)"
    using arg_cong [OF ptrs, of last] inv'(2) hi(3) by (simp add: rh_empty_def rh_back_def last_map)
  have "map_option Path (fmlookup (back_children h') j) = map_option Path (fmlookup (back_children h) j)" for j
    using spec by (simp add: root_children_def ptr)
  then have vis: "visible h' = visible h" using inv'(3) hi(2) by (simp add: visible_def fun_eq_iff)
  have "map (\<lambda>p. children_size (m_store h' p)) (map m_pChildren (m_rootHistory h'))
      = map (\<lambda>p. children_size (m_store h p)) (map m_pChildren (m_rootHistory h))"
    unfolding ptrs by (simp add: children_size_def doms)
  then have "numAllHistoricalChildren h' = numAllHistoricalChildren h"
    by (simp add: numAllHistoricalChildren_def root_size_eq comp_def)
  then have counts: "active_count h' = active_count h" "deep_count h' = deep_count h"
    using spec ptr by (simp_all add: active_count_def deep_count_def children_size_def root_children_def)
  have "(\<Union>p \<in> set (map m_pChildren (m_rootHistory h')). fset (fmdom (m_store h' p)))
      = (\<Union>p \<in> set (map m_pChildren (m_rootHistory h)). fset (fmdom (m_store h p)))"
    unfolding ptrs by (simp add: doms)
  then have "owned_ids h' = owned_ids h" using inv'(3) hi(2) by (simp add: owned_ids_def root_children_def)
  then have "separate h' c" using separate_owned [OF inv h(1) inv'(3)] by simp
  from put_history_inv [OF inv inv'(1,2) this] have put: "namespace_cache_inv (put_history h' c)" .
  have "(\<lambda>i. if visible h i \<noteq> None \<or> visible h' i \<noteq> None then visible h' i else m_namespaceById c i) = m_namespaceById c"
    using inv_namespaceById [OF inv h(1)] by (auto simp: vis fun_eq_iff)
  then have "put_history h' c = c\<lparr>m_historyById := (m_historyById c)(ns_rootId ns \<mapsto> h')\<rparr>"
    using h(1) inv'(3) counts by (simp add: put_history_def)
  with put ns h(1) h' show ?thesis by (simp add: nc_setAlias_def)
qed

subsection \<open>Pruning\<close>

text \<open>The history that pruning leaves, if any.\<close>

definition pruned :: "height \<Rightarrow> root_namespace_history \<Rightarrow> root_namespace_history option" where
  "pruned height h = (let h' = fst (rh_prune height h) in if rh_empty h' then None else Some h')"

definition pruned_ids :: "height \<Rightarrow> root_namespace_history \<Rightarrow> namespace_id set" where
  "pruned_ids height h = owned_ids h - (case pruned height h of None \<Rightarrow> {} | Some h' \<Rightarrow> owned_ids h')"

lemma GetNamespaceSizes_counts:
  "\<not> rh_empty h \<Longrightarrow> GetNamespaceSizes h = (of_nat (active_count h), of_nat (deep_count h))"
  "rh_empty h \<Longrightarrow> GetNamespaceSizes h = (0, 0)"
  by (auto simp: GetNamespaceSizes_def active_count_def deep_count_def numActiveRootChildren_def root_size_def
      rh_empty_def rh_historyDepth_def numAllHistoricalChildren_def)

text \<open>An identifier that a history owns is active only through this history.\<close>

lemma owned_inactive:
  assumes "namespace_cache_inv c" "m_historyById c k = Some h" "i \<in> owned_ids h" "visible h i = None"
  shows "m_namespaceById c i = None"
proof (rule ccontr)
  assume "m_namespaceById c i \<noteq> None"
  then obtain k' h' p where h': "m_historyById c k' = Some h'" "visible h' i = Some p"
    using assms(1) by (auto simp: namespace_cache_inv_def)
  with assms(2,4) have "k' \<noteq> k" by auto
  with assms(1,2) h'(1) have "owned_ids h' \<inter> owned_ids h = {}"
    unfolding namespace_cache_inv_def histories_ok_def by metis
  moreover have "i \<in> owned_ids h'" using visible_owned [OF inv_history(3) [OF assms(1) h'(1)] h'(2)] .
  ultimately show False using assms(3) by blast
qed

lemma prune_step:
  assumes inv: "namespace_cache_inv c" and k: "m_historyById c k = Some h" and s': "prune_history height h (c, ids) = (c', ids')"
  shows "namespace_cache_inv c' \<and> m_historyById c' = (m_historyById c)(k := pruned height h)
    \<and> m_rootNamespaceIdsByExpiryHeight c' = m_rootNamespaceIdsByExpiryHeight c
    \<and> ids' = ids \<union> pruned_ids height h"
proof -
  obtain h' rem where p: "rh_prune height h = (h', rem)" by force
  note hi = inv_history [OF inv k]
  note spec = rh_prune_spec [OF hi(1) p]
  have rh: "rh_id h' = k" using spec hi(2) by simp
  have inv': "history_inv h'" using spec by blast
  have sub: "set (m_rootHistory h') \<subseteq> set (m_rootHistory h)" using spec by auto
  have same: "\<forall>r \<in> set (m_rootHistory h'). root_children (m_store h') r = root_children (m_store h) r" using spec by blast
  have rem: "rem = (\<Union>r \<in> set (m_rootHistory h). fset (fmdom (root_children (m_store h) r)))
        - (\<Union>r \<in> set (m_rootHistory h'). fset (fmdom (root_children (m_store h) r))) \<union> (if rh_empty h' then {rh_id h} else {})"
    using spec by blast
  have no_root: "k \<notin> fset (fmdom (root_children (m_store h) r))" for r
    using hi by (auto simp: history_inv_def children_wf_def root_children_def fmlookup_dom_iff)
  have run: "c' = c\<lparr>m_historyById := (m_historyById c)(k := pruned height h),
      m_namespaceById := (\<lambda>i. if i \<in> rem then None else m_namespaceById c i),
      m_activeSize := m_activeSize c - (of_nat (active_count h) - fst (GetNamespaceSizes h')),
      m_deepSize := m_deepSize c - (of_nat (deep_count h) - snd (GetNamespaceSizes h'))\<rparr>" "ids' = ids \<union> rem"
    using s' hi by (simp_all add: prune_history_def Let_def p pruned_def GetNamespaceSizes_counts(1))
  show ?thesis
  proof (cases "rh_empty h'")
    case True
    then have "rem = owned_ids h" using hi(2) by (auto simp: rem owned_ids_def rh_empty_def)
    moreover from this have "(\<lambda>i. if i \<in> rem then None else m_namespaceById c i) = (\<lambda>i. if visible h i \<noteq> None then None else m_namespaceById c i)"
      using visible_owned [OF hi(3)] owned_inactive [OF inv k] by (auto simp: fun_eq_iff)
    ultimately have "c' = drop_history h c"
      using True hi(2) by (simp add: run drop_history_def pruned_ids_def pruned_def p GetNamespaceSizes_counts(2))
    with True \<open>rem = owned_ids h\<close> drop_history_inv [OF inv k] hi(2) show ?thesis
      by (auto simp: run(2) pruned_ids_def pruned_def p drop_history_def)
  next
    case False
    then have bk: "back_children h' = back_children h" "rh_back h' = rh_back h" using spec by blast+
    have vis: "visible h' = visible h" using rh hi(2) bk by (simp add: visible_def fun_eq_iff)
    have owned: "owned_ids h' \<subseteq> owned_ids h" using sub same rh hi(2) by (intro owned_pop) auto
    have rem': "rem = owned_ids h - owned_ids h'"
      using False no_root same rh hi(2) by (auto simp: rem owned_ids_def)
    have gone: "m_namespaceById c i = None" if "i \<in> rem" for i
    proof (rule owned_inactive [OF inv k])
      show "i \<in> owned_ids h" using that rem' by simp
      show "visible h i = None" using that rem' visible_owned [OF False, of i] vis by (cases "visible h i") auto
    qed
    have "(\<lambda>i. if i \<in> rem then None else m_namespaceById c i)
        = (\<lambda>i. if visible h i \<noteq> None \<or> visible h' i \<noteq> None then visible h' i else m_namespaceById c i)"
    proof
      fix i show "(if i \<in> rem then None else m_namespaceById c i)
          = (if visible h i \<noteq> None \<or> visible h' i \<noteq> None then visible h' i else m_namespaceById c i)"
        using gone [of i] inv_namespaceById [OF inv k, of i] by (cases "visible h i") (auto simp: vis)
    qed
    then have "c' = put_history h' c"
      using False rh k by (simp add: run put_history_def pruned_ids_def pruned_def p GetNamespaceSizes_counts(1) algebra_simps)
    with put_history_inv [OF inv inv' False separate_owned [OF inv k rh owned]] False rem' rh show ?thesis
      by (auto simp: run(2) pruned_ids_def pruned_def p put_history_def)
  qed
qed

lemma prune_fold:
  assumes "namespace_cache_inv c" "distinct (map rh_id hs)" "\<forall>h \<in> set hs. m_historyById c (rh_id h) = Some h"
    and "fold (prune_history height) hs (c, ids) = (c', ids')"
  shows "namespace_cache_inv c'
    \<and> m_historyById c' = (\<lambda>k. if k \<in> rh_id ` set hs then Option.bind (m_historyById c k) (pruned height) else m_historyById c k)
    \<and> ids' = ids \<union> (\<Union>h \<in> set hs. pruned_ids height h)"
  using assms
proof (induction hs arbitrary: c ids)
  case (Cons h hs)
  obtain c1 ids1 where s1: "prune_history height h (c, ids) = (c1, ids1)" by force
  have k: "m_historyById c (rh_id h) = Some h" using Cons.prems(3) by simp
  note step = prune_step [OF Cons.prems(1) k s1]
  have "\<forall>h' \<in> set hs. m_historyById c1 (rh_id h') = Some h'"
    using step Cons.prems(2,3) by (metis distinct.simps(2) fun_upd_other image_eqI list.set_intros(2) list.simps(9) list.set_map)
  from Cons.IH [OF _ _ this] step Cons.prems(2,4) s1
  have IH: "namespace_cache_inv c'
    \<and> m_historyById c' = (\<lambda>k. if k \<in> rh_id ` set hs then Option.bind (m_historyById c1 k) (pruned height) else m_historyById c1 k)
    \<and> ids' = ids1 \<union> (\<Union>h \<in> set hs. pruned_ids height h)"
    by simp
  have "rh_id h \<notin> rh_id ` set hs" using Cons.prems(2) by simp
  with IH step k show ?case by (auto simp: fun_eq_iff)
qed auto


lemma map_filter_histories:
  assumes inv: "namespace_cache_inv c"
  shows "\<forall>h \<in> set (List.map_filter (m_historyById c) xs). m_historyById c (rh_id h) = Some h"
    "rh_id ` set (List.map_filter (m_historyById c) xs) = {i \<in> set xs. m_historyById c i \<noteq> None}"
    "distinct xs \<Longrightarrow> distinct (map rh_id (List.map_filter (m_historyById c) xs))"
proof -
  have id: "rh_id h = i" if "m_historyById c i = Some h" for i h using inv_history(2) [OF inv that] .
  show all: "\<forall>h \<in> set (List.map_filter (m_historyById c) xs). m_historyById c (rh_id h) = Some h"
    using id by (induction xs) (auto split: option.splits)
  show img: "rh_id ` set (List.map_filter (m_historyById c) xs) = {i \<in> set xs. m_historyById c i \<noteq> None}" for xs
    using id by (induction xs) (auto split: option.splits)
  show "distinct xs \<Longrightarrow> distinct (map rh_id (List.map_filter (m_historyById c) xs))"
  proof (induction xs)
    case (Cons x xs)
    then show ?case using img [of xs] id [of x] by (auto split: option.splits)
  qed simp
qed

definition enumerates :: "('i set \<Rightarrow> 'i list) \<Rightarrow> bool" where
  "enumerates enum \<longleftrightarrow> (\<forall>s. finite s \<longrightarrow> distinct (enum s) \<and> set (enum s) = s)"

lemma prune_spec:
  assumes inv: "namespace_cache_inv c" and enum: "enumerates enum"
    and groups: "\<forall>k g. m_rootNamespaceIdsByExpiryHeight c k = Some g \<longrightarrow> g \<noteq> {} \<and> finite g"
    and run: "nc_prune enum height c = (c', ids)"
  shows "namespace_cache_inv c'
    \<and> m_historyById c' = (\<lambda>k. if in_group (m_rootNamespaceIdsByExpiryHeight c) height k
        then Option.bind (m_historyById c k) (pruned height) else m_historyById c k)
    \<and> ids = (\<Union>k \<in> {k. in_group (m_rootNamespaceIdsByExpiryHeight c) height k}. case m_historyById c k of None \<Rightarrow> {}
        | Some h \<Rightarrow> pruned_ids height h)"
proof (cases "m_rootNamespaceIdsByExpiryHeight c height")
  case None
  with run inv show ?thesis by (auto simp: nc_prune_def ForEachIdentifierWithGroup_def in_group_def)
next
  case (Some g)
  define hs where "hs = List.map_filter (m_historyById c) (enum g)"
  have g: "distinct (enum g)" "set (enum g) = g" using Some groups enum by (auto simp: enumerates_def)
  have fold: "fold (prune_history height) hs (c, {}) = (c', ids)"
    using run Some by (simp add: nc_prune_def ForEachIdentifierWithGroup_def hs_def)
  note hist = map_filter_histories [OF inv, of "enum g", folded hs_def]
  have img: "rh_id ` set hs = {i \<in> g. m_historyById c i \<noteq> None}" using hist(2) g(2) by simp
  have hs: "set hs = {h. \<exists>k \<in> g. m_historyById c k = Some h}"
  proof
    show "set hs \<subseteq> {h. \<exists>k \<in> g. m_historyById c k = Some h}" using hist(1) img by blast
    show "{h. \<exists>k \<in> g. m_historyById c k = Some h} \<subseteq> set hs"
      using img hist(1) inv_history(2) [OF inv] by (smt (verit) image_iff mem_Collect_eq option.discI option.inject subsetI)
  qed
  note all = prune_fold [OF inv hist(3) [OF g(1)] hist(1) fold]
  have "m_historyById c' = (\<lambda>k. if k \<in> g then Option.bind (m_historyById c k) (pruned height) else m_historyById c k)"
    using all img by (auto simp: fun_eq_iff)
  moreover have "ids = (\<Union>k \<in> g. case m_historyById c k of None \<Rightarrow> {}
        | Some h \<Rightarrow> pruned_ids height h)"
  proof -
    have "ids = (\<Union>h \<in> {h. \<exists>k \<in> g. m_historyById c k = Some h}. pruned_ids height h)" using all hs by simp
    then show ?thesis by (fastforce split: option.splits)
  qed
  moreover have "{k. in_group (m_rootNamespaceIdsByExpiryHeight c) height k} = g" using Some by (auto simp: in_group_def)
  ultimately show ?thesis using all by (auto simp: in_group_def Some)
qed


subsection \<open>Properties\<close>

text \<open>The states that sequences of cache operations reach.\<close>

inductive nc_reachable :: "(namespace_id set \<Rightarrow> namespace_id list) \<Rightarrow> block_duration \<Rightarrow> namespace_cache \<Rightarrow> bool" for enum grace where
  reach_empty: "nc_reachable enum grace (empty_namespace_cache grace)"
| reach_insert_root: "nc_reachable enum grace c \<Longrightarrow> insertable_root ns c \<Longrightarrow> nc_reachable enum grace (nc_insert_root ns c)"
| reach_insert_child: "nc_reachable enum grace c \<Longrightarrow> insertable_child path j c \<Longrightarrow> nc_insert_child (path @ [j]) c = Ok c'
    \<Longrightarrow> nc_reachable enum grace c'"
| reach_set_alias: "nc_reachable enum grace c \<Longrightarrow> nc_setAlias i alias c = Ok c' \<Longrightarrow> nc_reachable enum grace c'"
| reach_remove: "nc_reachable enum grace c \<Longrightarrow> nc_remove i c = Ok c' \<Longrightarrow> nc_reachable enum grace c'"
| reach_prune: "nc_reachable enum grace c \<Longrightarrow> nc_prune enum height c = (c', ids) \<Longrightarrow> nc_reachable enum grace c'"

definition groups_ok :: "namespace_cache \<Rightarrow> bool" where
  "groups_ok c \<longleftrightarrow> (\<forall>k g. m_rootNamespaceIdsByExpiryHeight c k = Some g \<longrightarrow> g \<noteq> {} \<and> finite g)"

lemma prune_groups: "m_rootNamespaceIdsByExpiryHeight (fst (fold (prune_history height) hs s)) = m_rootNamespaceIdsByExpiryHeight (fst s)"
  by (induction hs arbitrary: s) (simp_all add: prune_history_def Let_def)

lemma groups_ok_ops:
  "groups_ok c \<Longrightarrow> groups_ok (nc_insert_root ns c)"
  "groups_ok c \<Longrightarrow> nc_insert_child p c = Ok c' \<Longrightarrow> groups_ok c'"
  "groups_ok c \<Longrightarrow> nc_setAlias i a c = Ok c' \<Longrightarrow> groups_ok c'"
  "groups_ok c \<Longrightarrow> nc_remove i c = Ok c' \<Longrightarrow> groups_ok c'"
  "groups_ok c \<Longrightarrow> nc_prune enum height c = (c', ids) \<Longrightarrow> groups_ok c'"
proof -
  show "groups_ok c \<Longrightarrow> groups_ok (nc_insert_root ns c)"
    using groups_finite_Add [of "m_rootNamespaceIdsByExpiryHeight c" "End (m_lifetime ns)" "m_id ns"]
    by (simp add: groups_ok_def nc_insert_root_def Let_def split: option.splits)
  have same: "groups_ok c'" if "groups_ok c" "m_rootNamespaceIdsByExpiryHeight c' = m_rootNamespaceIdsByExpiryHeight c"
    using that unfolding groups_ok_def by metis
  show "groups_ok c \<Longrightarrow> nc_insert_child p c = Ok c' \<Longrightarrow> groups_ok c'"
    by (erule same) (auto simp: nc_insert_child_def split: option.splits)
  show "groups_ok c \<Longrightarrow> nc_setAlias i a c = Ok c' \<Longrightarrow> groups_ok c'"
    by (erule same) (auto simp: nc_setAlias_def split: option.splits)
  have root: "groups_ok c'" if "groups_ok c" "removeRoot i c = Ok c'" for i
  proof -
    have "m_rootNamespaceIdsByExpiryHeight c' = RemoveIdentifierWithGroup (End (m_lifetime (rh_back (the (m_historyById c i))))) i (m_rootNamespaceIdsByExpiryHeight c)"
      using that(2) by (auto simp: removeRoot_def Let_def split: if_splits)
    with that(1) groups_finite_Remove show ?thesis unfolding groups_ok_def by metis
  qed
  have "groups_ok c'" if "groups_ok c" "removeChild ns c = Ok c'" for ns
    using that(1) by (rule same) (use that(2) in \<open>auto simp: removeChild_def\<close>)
  with root show "groups_ok c \<Longrightarrow> nc_remove i c = Ok c' \<Longrightarrow> groups_ok c'"
    unfolding nc_remove_def by (auto split: option.splits if_splits)
  show "groups_ok c \<Longrightarrow> nc_prune enum height c = (c', ids) \<Longrightarrow> groups_ok c'"
    using prune_groups [of height _ "(c, {})"] by (metis fst_conv groups_ok_def nc_prune_def)
qed

text \<open>
  C10: The invariant of the namespace cache: the flat map holds exactly the root namespaces and the
  children of their newest roots with their paths, no identifier belongs to two roots, roots share
  their children exactly along renewals, and the active and the deep size count the active
  namespaces and the namespaces of all versions.  It holds in every state that is reached from the
  empty cache by inserting roots whose lifetimes end no earlier than the current ones, inserting
  children of known namespaces, setting aliases, removing and pruning.
\<close>

theorem namespace_cache_invariant:
  assumes "enumerates enum" "nc_reachable enum grace c"
  shows "namespace_cache_inv c"
proof -
  have "namespace_cache_inv c \<and> groups_ok c"
    using assms(2)
  proof induction
    case reach_empty
    then show ?case using empty_namespace_cache_inv by (simp add: groups_ok_def) (simp add: empty_namespace_cache_def)
  next
    case (reach_insert_root c ns)
    then show ?case using insert_root_put(2) groups_ok_ops(1) by blast
  next
    case (reach_insert_child c path j c')
    with insert_child [of c path j] groups_ok_ops(2) show ?case by force
  next
    case (reach_set_alias c i a c')
    then obtain ns where "m_namespaceById c i = Some ns" by (auto simp: nc_setAlias_def split: option.splits)
    with reach_set_alias set_alias [of c i ns a] groups_ok_ops(3) show ?case by force
  next
    case (reach_remove c i c')
    then show ?case using remove_inv groups_ok_ops(4) by blast
  next
    case (reach_prune c height c' ids)
    then show ?case using prune_spec [OF _ assms(1) _ reach_prune.hyps(2)] groups_ok_ops(5) unfolding groups_ok_def by blast
  qed
  then show ?thesis by simp
qed

theorem namespace_cache_invariant_witness:
  "namespace_cache_inv (the_ok (nc_insert_child [5, 6] (nc_insert_root (new_RootNamespace 5 7 \<lparr>Start = 1, End = 20\<rparr> 0) (empty_namespace_cache 10))))"
proof -
  let ?ns = "new_RootNamespace 5 7 \<lparr>Start = 1, End = 20\<rparr> 0"
  define c where "c = nc_insert_root ?ns (empty_namespace_cache 10)"
  have enum: "enumerates (sorted_list_of_set :: namespace_id set \<Rightarrow> namespace_id list)" by (simp add: enumerates_def)
  have ins: "insertable_root ?ns (empty_namespace_cache 10)"
    by (simp add: insertable_root_def new_RootNamespace_def empty_namespace_cache_def)
  have c: "nc_reachable sorted_list_of_set 10 c"
    unfolding c_def by (intro reach_insert_root reach_empty ins)
  have "m_namespaceById c = [5 \<mapsto> [5]]" "dom (m_historyById c) = {5}"
    by (simp_all add: c_def nc_insert_root_def empty_namespace_cache_def new_RootNamespace_def)
  then have child: "insertable_child [5] 6 c" by (auto simp: insertable_child_def ns_id_def ns_rootId_def)
  moreover obtain c' where "nc_insert_child ([5] @ [6]) c = Ok c'"
    using insert_child [OF namespace_cache_invariant [OF enum c] child] by blast
  ultimately show ?thesis
    using namespace_cache_invariant [OF enum reach_insert_child [OF c]] by (simp add: c_def)
qed

lemma prune_flat:
  "\<forall>i \<in> snd s. m_namespaceById (fst s) i = None \<Longrightarrow> fold (prune_history height) hs s = s'
    \<Longrightarrow> m_namespaceById (fst s') i = (if i \<in> snd s' then None else m_namespaceById (fst s) i)"
proof (induction hs arbitrary: s)
  case (Cons h hs)
  define s1 where "s1 = prune_history height h s"
  define rem where "rem = snd (rh_prune height h)"
  have s1: "m_namespaceById (fst s1) = (\<lambda>i. if i \<in> rem then None else m_namespaceById (fst s) i)" "snd s1 = snd s \<union> rem"
    by (simp_all add: s1_def rem_def prune_history_def Let_def)
  have run: "fold (prune_history height) hs s1 = s'" using Cons.prems(2) by (simp add: s1_def)
  have sub: "snd s1 \<subseteq> snd s'" unfolding run [symmetric]
    by (induction hs arbitrary: s1) (force simp: prune_history_def Let_def)+
  have "\<forall>i \<in> snd s1. m_namespaceById (fst s1) i = None" using Cons.prems(1) by (auto simp: s1)
  from Cons.IH [OF this run] sub show ?case by (auto simp: s1)
qed auto

text \<open>
  Pruning the namespace cache at a height removes, from the histories in the group of this height,
  exactly the roots that have expired, drops a history that has no root left, and reports exactly the
  identifiers that no remaining root owns; these become inactive and all others stay as they are.
\<close>

theorem namespace_prune:
  assumes inv: "namespace_cache_inv c" and "enumerates enum" "groups_ok c" and run: "nc_prune enum height c = (c', ids)"
  shows "namespace_cache_inv c'
    \<and> (\<forall>k. map_option m_rootHistory (m_historyById c' k) = (case m_historyById c k of None \<Rightarrow> None
         | Some h \<Rightarrow> if in_group (m_rootNamespaceIdsByExpiryHeight c) height k
                    then (let rs = filter (\<lambda>r. height < End (m_lifetime r)) (m_rootHistory h) in if rs = [] then None else Some rs)
                    else Some (m_rootHistory h)))
    \<and> ids = (\<Union>k \<in> {k. in_group (m_rootNamespaceIdsByExpiryHeight c) height k}. case m_historyById c k of None \<Rightarrow> {}
         | Some h \<Rightarrow> owned_ids h - (case m_historyById c' k of None \<Rightarrow> {} | Some h' \<Rightarrow> owned_ids h'))
    \<and> (\<forall>i. m_namespaceById c' i = (if i \<in> ids then None else m_namespaceById c i))"
proof -
  note spec = prune_spec [OF inv assms(2) assms(3) [unfolded groups_ok_def] run]
  have hist: "m_historyById c' k = (if in_group (m_rootNamespaceIdsByExpiryHeight c) height k
      then Option.bind (m_historyById c k) (pruned height) else m_historyById c k)" for k using spec by meson
  have roots: "map_option m_rootHistory (pruned height h) = (let rs = filter (\<lambda>r. height < End (m_lifetime r)) (m_rootHistory h) in if rs = [] then None else Some rs)"
    if "m_historyById c k = Some h" for k h
  proof -
    obtain h' rem where p: "rh_prune height h = (h', rem)" by force
    show ?thesis using rh_prune_spec [OF inv_history(1) [OF inv that] p] by (simp add: pruned_def p rh_empty_def)
  qed
  have "ids = (\<Union>k \<in> {k. in_group (m_rootNamespaceIdsByExpiryHeight c) height k}. case m_historyById c k of None \<Rightarrow> {}
         | Some h \<Rightarrow> owned_ids h - (case m_historyById c' k of None \<Rightarrow> {} | Some h' \<Rightarrow> owned_ids h'))"
  proof -
    have "ids = (\<Union>k \<in> {k. in_group (m_rootNamespaceIdsByExpiryHeight c) height k}. case m_historyById c k of None \<Rightarrow> {} | Some h \<Rightarrow> pruned_ids height h)"
      using spec by blast
    also have "\<dots> = (\<Union>k \<in> {k. in_group (m_rootNamespaceIdsByExpiryHeight c) height k}. case m_historyById c k of None \<Rightarrow> {}
         | Some h \<Rightarrow> owned_ids h - (case m_historyById c' k of None \<Rightarrow> {} | Some h' \<Rightarrow> owned_ids h'))"
      by (rule SUP_cong [OF refl]) (simp add: hist pruned_ids_def split: option.splits)
    finally show ?thesis .
  qed
  moreover have "m_namespaceById c' i = (if i \<in> ids then None else m_namespaceById c i)" for i
    using prune_flat [of "(c, {})", OF _ run [unfolded nc_prune_def]] by simp
  moreover have "map_option m_rootHistory (m_historyById c' k) = (case m_historyById c k of None \<Rightarrow> None
         | Some h \<Rightarrow> if in_group (m_rootNamespaceIdsByExpiryHeight c) height k
                    then (let rs = filter (\<lambda>r. height < End (m_lifetime r)) (m_rootHistory h) in if rs = [] then None else Some rs)
                    else Some (m_rootHistory h))" for k
    using roots [of k] by (cases "m_historyById c k") (simp_all add: hist)
  ultimately show ?thesis using spec by blast
qed

theorem namespace_prune_witness:
  "snd (nc_prune sorted_list_of_set 20 (nc_insert_root (new_RootNamespace 5 7 \<lparr>Start = 1, End = 20\<rparr> 0) (empty_namespace_cache 10))) = {5}"
proof -
  let ?ns = "new_RootNamespace 5 7 \<lparr>Start = 1, End = 20\<rparr> 0"
  define c where "c = nc_insert_root ?ns (empty_namespace_cache 10)"
  define h where "h = rh_push_back 7 \<lparr>Start = 1, End = 20\<rparr> (new_RootNamespaceHistory 5)"
  have enum: "enumerates (sorted_list_of_set :: namespace_id set \<Rightarrow> namespace_id list)" by (simp add: enumerates_def)
  have ins: "insertable_root ?ns (empty_namespace_cache 10)"
    by (simp add: insertable_root_def new_RootNamespace_def empty_namespace_cache_def)
  have inv: "namespace_cache_inv c" unfolding c_def by (intro insert_root_put(2) ins empty_namespace_cache_inv)
  have ok: "groups_ok c" unfolding c_def by (intro groups_ok_ops(1)) (simp add: groups_ok_def empty_namespace_cache_def)
  have c: "m_historyById c = [5 \<mapsto> h]" "m_rootNamespaceIdsByExpiryHeight c = [20 \<mapsto> {5}]"
    by (simp_all add: c_def h_def nc_insert_root_def empty_namespace_cache_def new_RootNamespace_def AddIdentifierWithGroup_def)
  have h: "m_rootHistory h = [\<lparr>m_id = 5, m_alias = No_Alias, m_ownerAddress = 7, m_lifetime = \<lparr>Start = 1, End = 20\<rparr>, m_pChildren = 0\<rparr>]"
    "m_store h = (\<lambda>_. fmempty)" "rh_id h = 5"
    by (simp_all add: h_def rh_push_back_def rh_empty_def new_RootNamespaceHistory_def new_RootNamespace_def fresh_children_def fun_upd_idem)
  obtain c' ids where run: "nc_prune sorted_list_of_set 20 c = (c', ids)" by force
  note prune = namespace_prune [OF inv enum ok run]
  have "map_option m_rootHistory (m_historyById c' 5) = None" using prune h(1) by (simp add: c in_group_def)
  then have "m_historyById c' 5 = None" by simp
  moreover have "{k. in_group (m_rootNamespaceIdsByExpiryHeight c) 20 k} = {5}" by (auto simp: c in_group_def)
  moreover have "owned_ids h = {5}" by (simp add: owned_ids_def h root_children_def)
  moreover have "ids = (\<Union>k \<in> {k. in_group (m_rootNamespaceIdsByExpiryHeight c) 20 k}. case m_historyById c k of None \<Rightarrow> {}
         | Some h \<Rightarrow> owned_ids h - (case m_historyById c' k of None \<Rightarrow> {} | Some h' \<Rightarrow> owned_ids h'))" using prune by blast
  ultimately have "ids = {5}" by (simp add: c)
  with run show ?thesis by (simp add: c_def)
qed

end
