(* ===== verification/Byte_Stream.thy ===== *)
theory Byte_Stream
  imports Prelude
begin

section \<open>Byte streams and serializers\<close>

text \<open>
  The streams of \<^verbatim>\<open>src/src/bitxorcore/io\<close>: an output stream is the bytes written so far, an input stream the
  bytes that are left, and reading beyond the end throws.  Integers are written in the byte sequence
  of a little-endian machine (\<^verbatim>\<open>PodIoUtils.h\<close>); a byte array, which the development holds as the number
  its bytes spell, is written with its first byte first.  The locale \<open>serializer\<close> states what a
  pair of a writer and a reader promises, and lifts it to sequences once for all serializers.
\<close>

unbundle bit_operations_syntax

type_synonym bytes = "8 word list"
type_synonym 'a reader = "bytes \<Rightarrow> ('a \<times> bytes) result"

fun word_bytes :: "nat \<Rightarrow> 'a::len word \<Rightarrow> bytes" where
  "word_bytes 0 w = []"
| "word_bytes (Suc n) w = ucast w # word_bytes n (drop_bit 8 w)"

fun bytes_word :: "bytes \<Rightarrow> 'a::len word" where
  "bytes_word [] = 0"
| "bytes_word (b # bs) = ucast b OR push_bit 8 (bytes_word bs)"

definition stream_read :: "nat \<Rightarrow> bytes reader" where
  "stream_read n input = (if length input < n then Err File_Io_Error else Ok (take n input, drop n input))"

definition read_word :: "nat \<Rightarrow> 'a::len word reader" where
  "read_word n input = map_result (\<lambda>(bs, rest). (bytes_word bs, rest)) (stream_read n input)"

definition Write64 :: "64 word \<Rightarrow> bytes" where "Write64 w = word_bytes 8 w"

definition Write32 :: "32 word \<Rightarrow> bytes" where "Write32 w = word_bytes 4 w"

definition Write16 :: "16 word \<Rightarrow> bytes" where "Write16 w = word_bytes 2 w"

definition Write8 :: "8 word \<Rightarrow> bytes" where "Write8 w = word_bytes 1 w"

definition Read64 :: "64 word reader" where "Read64 = read_word 8"

definition Read32 :: "32 word reader" where "Read32 = read_word 4"

definition Read16 :: "16 word reader" where "Read16 = read_word 2"

definition Read8 :: "8 word reader" where "Read8 = read_word 1"

text \<open>Byte arrays of \<open>n\<close> bytes.\<close>

definition write_array :: "nat \<Rightarrow> 'a::len word \<Rightarrow> bytes" where
  "write_array n w = rev (word_bytes n w)"

definition read_array :: "nat \<Rightarrow> 'a::len word reader" where
  "read_array n input = map_result (\<lambda>(bs, rest). (bytes_word (rev bs), rest)) (stream_read n input)"

text \<open>\<^verbatim>\<open>utils::checked_cast<size_t, uint8_t>\<close>.\<close>

definition checked_cast8 :: "nat \<Rightarrow> 8 word result" where
  "checked_cast8 n = (if 255 < n then Err Runtime_Error else Ok (of_nat n))"

text \<open>The loops that write and read a sequence.\<close>

fun save_all :: "('a \<Rightarrow> bytes result) \<Rightarrow> 'a list \<Rightarrow> bytes result" where
  "save_all f [] = Ok []"
| "save_all f (x # xs) = bind_result (f x) (\<lambda>b. map_result (\<lambda>bs. b @ bs) (save_all f xs))"

fun load_n :: "'a reader \<Rightarrow> nat \<Rightarrow> 'a list reader" where
  "load_n f 0 input = Ok ([], input)"
| "load_n f (Suc n) input = bind_result (f input) (\<lambda>(x, rest). map_result (\<lambda>(xs, rest'). (x # xs, rest')) (load_n f n rest))"

subsection \<open>Words\<close>

lemma length_word_bytes [simp]: "length (word_bytes n w) = n"
  by (induction n arbitrary: w) auto

lemma bytes_word_bytes: "bytes_word (word_bytes n w) = take_bit (8 * n) w"
proof (induction n arbitrary: w)
  case (Suc n)
  show ?case
    by (rule bit_word_eqI) (auto simp: Suc.IH bit_simps algebra_simps)
qed simp

lemma stream_read_append: "length bs = n \<Longrightarrow> stream_read n (bs @ rest) = Ok (bs, rest)"
  by (simp add: stream_read_def)

lemma read_word_bytes: "LENGTH('a) \<le> 8 * n \<Longrightarrow> read_word n (word_bytes n w @ rest) = Ok (w, rest)" for w :: "'a::len word"
  by (simp add: read_word_def stream_read_append bytes_word_bytes take_bit_word_eq_self)

lemma Read_Write [simp]:
  "Read64 (Write64 a @ rest) = Ok (a, rest)" "Read32 (Write32 b @ rest) = Ok (b, rest)"
  "Read16 (Write16 c @ rest) = Ok (c, rest)" "Read8 (Write8 d @ rest) = Ok (d, rest)"
  using read_word_bytes [of 8 a] read_word_bytes [of 4 b] read_word_bytes [of 2 c] read_word_bytes [of 1 d]
  by (simp_all add: Read64_def Write64_def Read32_def Write32_def Read16_def Write16_def Read8_def Write8_def)

lemma read_write_array: "LENGTH('a) \<le> 8 * n \<Longrightarrow> read_array n (write_array n w @ rest) = Ok (w, rest)" for w :: "'a::len word"
  by (simp add: read_array_def write_array_def stream_read_append bytes_word_bytes take_bit_word_eq_self)

lemma read_write_arrays [simp]:
  "read_array 24 (write_array 24 a @ rest) = Ok (a, rest)" "read_array 32 (write_array 32 h @ rest) = Ok (h, rest)"
  for a :: address and h :: hash256
  by (simp_all add: read_write_array)

subsection \<open>Serializers\<close>

locale serializer =
  fixes save :: "'a \<Rightarrow> bytes result" and load :: "'a reader" and valid :: "'a \<Rightarrow> bool"
  assumes load_save: "valid x \<Longrightarrow> save x = Ok bs \<Longrightarrow> load (bs @ rest) = Ok (x, rest)"
begin

lemma load_save_all:
  "\<forall>x \<in> set xs. valid x \<Longrightarrow> save_all save xs = Ok bs \<Longrightarrow> load_n load (length xs) (bs @ rest) = Ok (xs, rest)"
proof (induction xs arbitrary: bs)
  case (Cons x xs)
  then obtain b bs' where b: "save x = Ok b" "save_all save xs = Ok bs'" "bs = b @ bs'" by auto
  with Cons show ?case using load_save [of x b "bs' @ rest"] by simp
qed simp

lemma save_injective: "valid x \<Longrightarrow> valid y \<Longrightarrow> save x = Ok bs \<Longrightarrow> save y = Ok bs \<Longrightarrow> x = y"
  using load_save [of x bs "[]"] load_save [of y bs "[]"] by simp

end

interpretation word64: serializer "\<lambda>w. Ok (Write64 w)" Read64 "\<lambda>_. True"
  by unfold_locales auto

end
