(* ===== verification/Namespace_Plugin.thy ===== *)
theory Namespace_Plugin
  imports Namespace_Cache Byte_Stream
begin

section \<open>The namespace plugin\<close>

text \<open>
  The transactions of \<^verbatim>\<open>src/plugins/txes/namespace\<close>: their notifications, the validators and observers
  that the plugin registers, and the resolvers of aliases.  The first eight bytes of a SHA3-256 hash
  are the parameter \<open>sha3\<close>; the balance and account notifications of other plugins are published but
  have no effect here.
\<close>

subsection \<open>Notifications\<close>

record root_namespace_notification =
  rn_Owner :: address
  rn_NamespaceId :: namespace_id
  rn_Duration :: block_duration

record child_namespace_notification =
  cn_Owner :: address
  cn_NamespaceId :: namespace_id
  cn_ParentId :: namespace_id

record namespace_name_notification =
  nn_NamespaceId :: namespace_id
  nn_ParentId :: namespace_id
  nn_Name :: "8 word list"

record balance_transfer =
  bt_Sender :: address
  bt_Recipient :: address
  bt_TokenId :: "64 word"
  bt_Amount :: amount

text \<open>The values of \<^verbatim>\<open>AliasAction\<close> and \<^verbatim>\<open>NamespaceRegistrationType\<close>; a transaction may carry any byte.\<close>

definition Alias_Unlink :: "8 word" where "Alias_Unlink = 0"

definition Alias_Link :: "8 word" where "Alias_Link = 1"

definition Registration_Root :: "8 word" where "Registration_Root = 0"

definition Registration_Child :: "8 word" where "Registration_Child = 1"

definition Registration_IsoCode :: "8 word" where "Registration_IsoCode = 2"

datatype namespace_notification =
    Account_Address_Notification address
  | Balance_Transfer_Notification balance_transfer
  | Rental_Fee_Notification balance_transfer
  | Unlink_Alias_Fee_Notification balance_transfer
  | Registration_Notification "8 word"
  | Root_Namespace_Notification root_namespace_notification
  | Child_Namespace_Notification child_namespace_notification
  | IsoCode_Namespace_Notification child_namespace_notification
  | Name_Notification namespace_name_notification
  | Required_Notification address namespace_id
  | Alias_Link_Notification namespace_id "8 word"
  | Aliased_Address_Notification namespace_id "8 word" address
  | Aliased_TokenId_Notification namespace_id "8 word" token_id
  | Token_Required_Notification address token_id

datatype namespace_result =
    NS_Success
  | NS_Invalid_Duration | NS_Invalid_Name | NS_Name_Id_Mismatch | NS_Expired | NS_Owner_Conflict
  | NS_Invalid_Registration_Type | NS_Root_Name_Reserved | NS_Too_Deep | NS_Unknown_Parent | NS_Already_Exists
  | NS_Max_Children_Exceeded | NS_Alias_Invalid_Action | NS_Unknown | NS_Alias_Already_Exists | NS_Unknown_Alias
  | NS_Alias_Inconsistent_Unlink_Type | NS_Alias_Inconsistent_Unlink_Data | NS_Alias_Invalid_Address

subsection \<open>Transactions\<close>

definition Eternal_Artifact_Duration :: block_duration where
  "Eternal_Artifact_Duration = 0"

record namespace_fee_configuration =
  CurrencyTokenId :: "64 word"
  SinkAddress :: "height \<Rightarrow> address"
  RootFeePerBlock :: amount
  ChildFee :: amount
  GenesisSignerPublicKey :: key
  MaxBlockDuration :: block_duration
  EternalRentalFee :: amount
  UnlinkRentalFee :: amount

text \<open>The fields \<^verbatim>\<open>ParentId\<close> and \<^verbatim>\<open>Duration\<close> of a registration are the same eight bytes.\<close>

record namespace_registration =
  nr_SignerPublicKey :: key
  nr_ParentIdOrDuration :: "64 word"
  nr_Id :: namespace_id
  nr_RegistrationType :: "8 word"
  nr_Name :: "8 word list"

definition PublishBalanceTransfer :: "namespace_fee_configuration \<Rightarrow> namespace_registration \<Rightarrow> address \<Rightarrow> height \<Rightarrow> namespace_notification list" where
  "PublishBalanceTransfer config tx signer height =
     (let sink = SinkAddress config height
      in Account_Address_Notification sink #
         (if GenesisSignerPublicKey config = nr_SignerPublicKey tx then []
          else let fee = (if nr_RegistrationType tx = Registration_Root
                          then if Eternal_Artifact_Duration = nr_ParentIdOrDuration tx then EternalRentalFee config
                               else if MaxBlockDuration config < nr_ParentIdOrDuration tx then EternalRentalFee config
                               else RootFeePerBlock config * nr_ParentIdOrDuration tx
                          else ChildFee config);
                   transfer = \<lparr>bt_Sender = signer, bt_Recipient = sink, bt_TokenId = CurrencyTokenId config, bt_Amount = fee\<rparr>
               in [Balance_Transfer_Notification transfer, Rental_Fee_Notification transfer]))"

definition PublishNamespaceRegistration :: "namespace_fee_configuration \<Rightarrow> namespace_registration \<Rightarrow> address \<Rightarrow> height \<Rightarrow> namespace_notification list" where
  "PublishNamespaceRegistration config tx signer height =
     PublishBalanceTransfer config tx signer height @
     [Registration_Notification (nr_RegistrationType tx)] @
     (let child = \<lparr>cn_Owner = signer, cn_NamespaceId = nr_Id tx, cn_ParentId = nr_ParentIdOrDuration tx\<rparr>
      in if nr_RegistrationType tx = Registration_Root
         then [Root_Namespace_Notification \<lparr>rn_Owner = signer, rn_NamespaceId = nr_Id tx,
                 rn_Duration = (if MaxBlockDuration config < nr_ParentIdOrDuration tx then Eternal_Artifact_Duration else nr_ParentIdOrDuration tx)\<rparr>,
               Name_Notification \<lparr>nn_NamespaceId = nr_Id tx, nn_ParentId = Namespace_Base_Id, nn_Name = nr_Name tx\<rparr>]
         else if nr_RegistrationType tx = Registration_IsoCode
         then [IsoCode_Namespace_Notification child,
               Name_Notification \<lparr>nn_NamespaceId = nr_Id tx, nn_ParentId = nr_ParentIdOrDuration tx, nn_Name = nr_Name tx\<rparr>]
         else [Child_Namespace_Notification child,
               Name_Notification \<lparr>nn_NamespaceId = nr_Id tx, nn_ParentId = nr_ParentIdOrDuration tx, nn_Name = nr_Name tx\<rparr>])"

definition PublishAddressAlias :: "namespace_id \<Rightarrow> address \<Rightarrow> 8 word \<Rightarrow> address \<Rightarrow> namespace_notification list" where
  "PublishAddressAlias i a action signer =
     [Required_Notification signer i, Alias_Link_Notification i action, Aliased_Address_Notification i action a]"

definition PublishUnlinkFee :: "namespace_fee_configuration \<Rightarrow> 8 word \<Rightarrow> address \<Rightarrow> height \<Rightarrow> namespace_notification list" where
  "PublishUnlinkFee config action signer height =
     (if action = Alias_Link then []
      else let sink = SinkAddress config height;
               transfer = \<lparr>bt_Sender = signer, bt_Recipient = sink, bt_TokenId = CurrencyTokenId config, bt_Amount = UnlinkRentalFee config\<rparr>
           in [Account_Address_Notification sink, Balance_Transfer_Notification transfer, Unlink_Alias_Fee_Notification transfer])"

definition PublishTokenAlias :: "namespace_fee_configuration \<Rightarrow> namespace_id \<Rightarrow> token_id \<Rightarrow> 8 word \<Rightarrow> address \<Rightarrow> height \<Rightarrow> namespace_notification list" where
  "PublishTokenAlias config i t action signer height =
     PublishUnlinkFee config action signer height @
     [Required_Notification signer i, Alias_Link_Notification i action, Aliased_TokenId_Notification i action t] @
     (if action = Alias_Link then [Token_Required_Notification signer t] else [])"

subsection \<open>Names\<close>

text \<open>The characters, by their ASCII codes.\<close>

definition IsAlphaNumeric :: "8 word \<Rightarrow> bool" where
  "IsAlphaNumeric ch \<longleftrightarrow> 97 \<le> ch \<and> ch \<le> 122 \<or> 48 \<le> ch \<and> ch \<le> 57"

definition IsValidChar :: "8 word \<Rightarrow> bool" where
  "IsValidChar ch \<longleftrightarrow> IsAlphaNumeric ch \<or> 45 = ch"

definition IsValidName :: "8 word list \<Rightarrow> bool" where
  "IsValidName name \<longleftrightarrow> (case name of [] \<Rightarrow> False | ch # chs \<Rightarrow> IsAlphaNumeric ch \<and> list_all IsValidChar chs)"

definition IsAlphaNumericIso :: "8 word \<Rightarrow> bool" where
  "IsAlphaNumericIso ch \<longleftrightarrow> 65 \<le> ch \<and> ch \<le> 90"

definition IsValidCharIso :: "8 word \<Rightarrow> bool" where
  "IsValidCharIso ch \<longleftrightarrow> IsAlphaNumericIso ch \<or> 43 = ch"

definition IsValidIsoCode :: "8 word list \<Rightarrow> bool" where
  "IsValidIsoCode name \<longleftrightarrow>
     (if length name = 0 \<or> length name < 3 then False
      else if 5 < length name then False
      else IsAlphaNumericIso (hd name) \<and> list_all IsValidCharIso (tl name))"

definition Namespace_Flag :: "64 word" where
  "Namespace_Flag = 2 ^ 63"

definition GenerateNamespaceId :: "(8 word list \<Rightarrow> 64 word) \<Rightarrow> namespace_id \<Rightarrow> 8 word list \<Rightarrow> namespace_id" where
  "GenerateNamespaceId sha3 parentId name = sha3 (Write64 parentId @ name) OR Namespace_Flag"

subsection \<open>Stateless validators\<close>

definition NamespaceRegistrationTypeValidator :: "8 word \<Rightarrow> namespace_result" where
  "NamespaceRegistrationTypeValidator t = (if t \<le> Registration_IsoCode then NS_Success else NS_Invalid_Registration_Type)"

definition NamespaceNameValidator :: "(8 word list \<Rightarrow> 64 word) \<Rightarrow> nat \<Rightarrow> namespace_name_notification \<Rightarrow> namespace_result" where
  "NamespaceNameValidator sha3 maxNameSize n =
     (if maxNameSize < length (nn_Name n) \<or> \<not> IsValidName (nn_Name n) then NS_Invalid_Name
      else if nn_NamespaceId n \<noteq> GenerateNamespaceId sha3 (nn_ParentId n) (nn_Name n) then NS_Name_Id_Mismatch
      else NS_Success)"

definition RootNamespaceValidator :: "block_duration \<Rightarrow> block_duration \<Rightarrow> root_namespace_notification \<Rightarrow> namespace_result" where
  "RootNamespaceValidator minDuration maxDuration n =
     (if \<not> (minDuration \<le> rn_Duration n \<or> Eternal_Artifact_Duration = rn_Duration n) then NS_Invalid_Duration else NS_Success)"

definition AliasActionValidator :: "8 word \<Rightarrow> namespace_result" where
  "AliasActionValidator action = (if action \<le> Alias_Link then NS_Success else NS_Alias_Invalid_Action)"

subsection \<open>Stateful validators\<close>

definition NamespaceReservedNameValidator ::
  "(8 word list \<Rightarrow> 64 word) \<Rightarrow> 8 word list set \<Rightarrow> height \<Rightarrow> namespace_name_notification \<Rightarrow> namespace_result" where
  "NamespaceReservedNameValidator sha3 reservedRootNamespaceNames height n =
     (if 1 = height then NS_Success
      else let i = (if Namespace_Base_Id = nn_ParentId n then nn_NamespaceId n else nn_ParentId n)
           in if i \<in> GenerateNamespaceId sha3 Namespace_Base_Id ` reservedRootNamespaceNames then NS_Root_Name_Reserved else NS_Success)"

definition RootNamespaceAvailabilityValidator :: "namespace_cache \<Rightarrow> height \<Rightarrow> root_namespace_notification \<Rightarrow> namespace_result result" where
  "RootNamespaceAvailabilityValidator c height n =
     map_result (\<lambda>e. case e of
         None \<Rightarrow> NS_Success
       | Some (_, h) \<Rightarrow>
           let root = rh_back h
           in if max_height = End (m_lifetime root) then NS_Invalid_Duration
              else if \<not> lifetime_isActive (m_lifetime root) height then NS_Success
              else if m_ownerAddress root = rn_Owner n then NS_Success else NS_Owner_Conflict)
       (nc_find c (rn_NamespaceId n))"

definition AddOverflows :: "height \<Rightarrow> block_duration \<Rightarrow> bool" where
  "AddOverflows height duration \<longleftrightarrow> height + duration < height"

definition CalculateMaxLifetimeEnd :: "height \<Rightarrow> block_duration \<Rightarrow> height" where
  "CalculateMaxLifetimeEnd height duration = (if AddOverflows height duration then max_height else height + duration)"

definition NamespaceDurationOverflowValidator :: "block_duration \<Rightarrow> namespace_cache \<Rightarrow> height \<Rightarrow> root_namespace_notification \<Rightarrow> namespace_result result" where
  "NamespaceDurationOverflowValidator maxNamespaceDuration c height n =
     (if AddOverflows height (rn_Duration n) then Ok NS_Invalid_Duration
      else map_result (\<lambda>e. case e of
          None \<Rightarrow> NS_Success
        | Some (_, h) \<Rightarrow>
            let l = m_lifetime (rh_back h)
            in if \<not> lifetime_isActive l height then NS_Success
               else if AddOverflows (End l) (rn_Duration n) then NS_Invalid_Duration
               else if CalculateMaxLifetimeEnd height maxNamespaceDuration < End l + rn_Duration n then NS_Invalid_Duration
               else NS_Success)
        (nc_find c (rn_NamespaceId n)))"

definition ChildNamespaceAvailabilityValidator :: "nat \<Rightarrow> namespace_cache \<Rightarrow> height \<Rightarrow> child_namespace_notification \<Rightarrow> namespace_result result" where
  "ChildNamespaceAvailabilityValidator maxNamespaceDepth c height n =
     (if nc_contains c (cn_NamespaceId n) then Ok NS_Already_Exists
      else bind_result (nc_find c (cn_ParentId n)) (\<lambda>e. case e of
          None \<Rightarrow> Ok NS_Unknown_Parent
        | Some (path, h) \<Rightarrow>
            if maxNamespaceDepth = length path then Ok NS_Too_Deep
            else map_result (\<lambda>active.
                if \<not> active then NS_Expired
                else if m_ownerAddress (rh_back h) \<noteq> cn_Owner n then NS_Owner_Conflict
                else NS_Success)
              (isActiveExcludingGracePeriod (m_lifetime (rh_back h)) height (m_gracePeriodDuration c))))"

definition IsoCodeNamespaceAvailabilityValidator :: "nat \<Rightarrow> namespace_cache \<Rightarrow> height \<Rightarrow> child_namespace_notification \<Rightarrow> namespace_result result" where
  "IsoCodeNamespaceAvailabilityValidator maxNamespaceDepth c height n =
     (if nc_contains c (cn_NamespaceId n) then Ok NS_Already_Exists
      else bind_result (nc_find c (cn_ParentId n)) (\<lambda>e. case e of
          None \<Rightarrow> Ok NS_Unknown_Parent
        | Some (path, h) \<Rightarrow>
            if maxNamespaceDepth = length path then Ok NS_Too_Deep
            else map_result (\<lambda>active.
                if \<not> active then NS_Expired
                else if m_ownerAddress (rh_back h) \<noteq> cn_Owner n then NS_Owner_Conflict
                else NS_Success)
              (isActiveExcludingGracePeriod (m_lifetime (rh_back h)) height (m_gracePeriodDuration c))))"

definition RootNamespaceMaxChildrenValidator :: "nat \<Rightarrow> namespace_cache \<Rightarrow> child_namespace_notification \<Rightarrow> namespace_result result" where
  "RootNamespaceMaxChildrenValidator maxChildren c n =
     map_result (\<lambda>(_, h). if maxChildren \<le> root_size (m_store h) (rh_back h) then NS_Max_Children_Exceeded else NS_Success)
       (nc_get c (cn_ParentId n))"

definition RequiredNamespaceValidator :: "namespace_cache \<Rightarrow> height \<Rightarrow> address \<Rightarrow> namespace_id \<Rightarrow> namespace_result result" where
  "RequiredNamespaceValidator c height owner i =
     bind_result (nc_find c i) (\<lambda>e. case e of
         None \<Rightarrow> Ok NS_Unknown
       | Some (_, h) \<Rightarrow> map_result (\<lambda>active.
             if \<not> active then NS_Expired
             else if m_ownerAddress (rh_back h) = owner then NS_Success else NS_Owner_Conflict)
           (isActiveExcludingGracePeriod (m_lifetime (rh_back h)) height (m_gracePeriodDuration c)))"

definition AliasAvailabilityValidator :: "namespace_cache \<Rightarrow> namespace_id \<Rightarrow> 8 word \<Rightarrow> namespace_result result" where
  "AliasAvailabilityValidator c i action =
     bind_result (nc_find c i) (\<lambda>e. case e of
         None \<Rightarrow> Ok NS_Unknown
       | Some (_, h) \<Rightarrow> map_result (\<lambda>a.
             if action = Alias_Link \<and> alias_type_of a \<noteq> AliasType_None then NS_Alias_Already_Exists
             else if action = Alias_Unlink \<and> alias_type_of a = AliasType_None then NS_Unknown_Alias
             else NS_Success)
           (root_alias (m_store h) (rh_back h) i))"

definition UnlinkAliasedDataConsistencyValidator ::
  "alias_type \<Rightarrow> (namespace_alias \<Rightarrow> 'd result) \<Rightarrow> namespace_cache \<Rightarrow> namespace_id \<Rightarrow> 8 word \<Rightarrow> 'd \<Rightarrow> namespace_result result" where
  "UnlinkAliasedDataConsistencyValidator aliasedType getAliased c i action data =
     (if action \<noteq> Alias_Unlink then Ok NS_Success
      else bind_result (nc_find c i) (\<lambda>e. case e of
          None \<Rightarrow> Ok NS_Unknown
        | Some (_, h) \<Rightarrow> bind_result (root_alias (m_store h) (rh_back h) i) (\<lambda>a.
            if aliasedType \<noteq> alias_type_of a then Ok NS_Alias_Inconsistent_Unlink_Type
            else map_result (\<lambda>d. if d \<noteq> data then NS_Alias_Inconsistent_Unlink_Data else NS_Success) (getAliased a))))"

definition AddressAliasValidator :: "(address \<Rightarrow> bool) \<Rightarrow> address \<Rightarrow> namespace_result" where
  "AddressAliasValidator knownAccount a = (if knownAccount a then NS_Success else NS_Alias_Invalid_Address)"

subsection \<open>Observers\<close>

datatype namespace_mode = Namespace_Commit | Namespace_Rollback

definition IsRenewal :: "root_namespace \<Rightarrow> root_namespace_notification \<Rightarrow> height \<Rightarrow> bool" where
  "IsRenewal root n height \<longleftrightarrow> lifetime_isActive (m_lifetime root) height \<and> m_ownerAddress root = rn_Owner n"

definition CalculateNewLifetime :: "root_namespace_notification \<Rightarrow> height \<Rightarrow> block_duration \<Rightarrow> namespace_lifetime result" where
  "CalculateNewLifetime n height grace =
     new_NamespaceLifetime height (if Eternal_Artifact_Duration = rn_Duration n then max_height else height + rn_Duration n) grace"

definition CalculateLifetime :: "namespace_cache \<Rightarrow> root_namespace_notification \<Rightarrow> height \<Rightarrow> namespace_lifetime result" where
  "CalculateLifetime c n height =
     bind_result (CalculateNewLifetime n height (m_gracePeriodDuration c)) (\<lambda>newLifetime.
     bind_result (nc_find c (rn_NamespaceId n)) (\<lambda>e. case e of
         None \<Rightarrow> Ok newLifetime
       | Some (_, h) \<Rightarrow>
           if \<not> IsRenewal (rh_back h) n height then Ok newLifetime
           else new_NamespaceLifetime (Start (m_lifetime (rh_back h))) (End (m_lifetime (rh_back h)) + rn_Duration n) 0))"

definition RootNamespaceObserver :: "root_namespace_notification \<Rightarrow> namespace_mode \<Rightarrow> height \<Rightarrow> namespace_cache \<Rightarrow> namespace_cache result" where
  "RootNamespaceObserver n mode height c =
     (case mode of
        Namespace_Rollback \<Rightarrow> nc_remove (rn_NamespaceId n) c
      | Namespace_Commit \<Rightarrow> map_result (\<lambda>lifetime. nc_insert_root (new_RootNamespace (rn_NamespaceId n) (rn_Owner n) lifetime 0) c)
                              (CalculateLifetime c n height))"

definition ChildNamespaceObserver :: "child_namespace_notification \<Rightarrow> namespace_mode \<Rightarrow> namespace_cache \<Rightarrow> namespace_cache result" where
  "ChildNamespaceObserver n mode c =
     (case mode of
        Namespace_Rollback \<Rightarrow> nc_remove (cn_NamespaceId n) c
      | Namespace_Commit \<Rightarrow> bind_result (nc_get c (cn_ParentId n)) (\<lambda>(path, _).
            bind_result (new_Namespace (path @ [cn_NamespaceId n])) (\<lambda>ns. nc_insert_child ns c)))"

definition IsoCodeNamespaceObserver :: "child_namespace_notification \<Rightarrow> namespace_mode \<Rightarrow> namespace_cache \<Rightarrow> namespace_cache result" where
  "IsoCodeNamespaceObserver n mode c =
     (case mode of
        Namespace_Rollback \<Rightarrow> nc_remove (cn_NamespaceId n) c
      | Namespace_Commit \<Rightarrow> bind_result (nc_get c (cn_ParentId n)) (\<lambda>(path, _).
            bind_result (new_Namespace (path @ [cn_NamespaceId n])) (\<lambda>ns. nc_insert_child ns c)))"

definition ShouldLink :: "8 word \<Rightarrow> namespace_mode \<Rightarrow> bool" where
  "ShouldLink action mode \<longleftrightarrow> (case mode of Namespace_Commit \<Rightarrow> action = Alias_Link | Namespace_Rollback \<Rightarrow> action = Alias_Unlink)"

definition AliasedObserverHandler :: "namespace_id \<Rightarrow> 8 word \<Rightarrow> namespace_alias \<Rightarrow> namespace_mode \<Rightarrow> namespace_cache \<Rightarrow> namespace_cache result" where
  "AliasedObserverHandler i action aliased mode c =
     (if ShouldLink action mode then nc_setAlias i aliased c else nc_setAlias i No_Alias c)"

text \<open>The identifiers for which the touch observer adds an expiry receipt, in the order of the receipts.\<close>

definition CacheBlockTouchObserver :: "block_duration \<Rightarrow> namespace_mode \<Rightarrow> height \<Rightarrow> namespace_cache \<Rightarrow> namespace_id list" where
  "CacheBlockTouchObserver gracePeriod mode height c =
     (let expiryIds = nc_touch (height + gracePeriod) c
      in case mode of Namespace_Rollback \<Rightarrow> [] | Namespace_Commit \<Rightarrow> sorted_list_of_set expiryIds)"

subsection \<open>Registered validators and observers\<close>

record namespace_configuration =
  MaxNameSize :: nat
  MinDuration :: block_duration
  MaxNamespaceDuration :: block_duration
  MaxNamespaceDepth :: nat
  MaxChildNamespaces :: nat
  ReservedRootNamespaceNames :: "8 word list set"

fun stateless_validators :: "(8 word list \<Rightarrow> 64 word) \<Rightarrow> namespace_configuration \<Rightarrow> namespace_notification \<Rightarrow> namespace_result list" where
  "stateless_validators sha3 cfg (Registration_Notification t) = [NamespaceRegistrationTypeValidator t]"
| "stateless_validators sha3 cfg (Name_Notification n) = [NamespaceNameValidator sha3 (MaxNameSize cfg) n]"
| "stateless_validators sha3 cfg (Root_Namespace_Notification n) = [RootNamespaceValidator (MinDuration cfg) (MaxNamespaceDuration cfg) n]"
| "stateless_validators sha3 cfg (Alias_Link_Notification i action) = [AliasActionValidator action]"
| "stateless_validators sha3 cfg _ = []"

text \<open>
  A validator runs only if the ones before it have succeeded; the maximal duration that the overflow
  validator gets includes the grace period (\<^verbatim>\<open>NamespaceLifetimeConstraints\<close>).
\<close>

fun stateful_validators :: "(8 word list \<Rightarrow> 64 word) \<Rightarrow> namespace_configuration \<Rightarrow> (address \<Rightarrow> bool) \<Rightarrow> height \<Rightarrow> namespace_cache
    \<Rightarrow> namespace_notification \<Rightarrow> (unit \<Rightarrow> namespace_result result) list" where
  "stateful_validators sha3 cfg known height c (Name_Notification n) =
     [\<lambda>_. Ok (NamespaceReservedNameValidator sha3 (ReservedRootNamespaceNames cfg) height n)]"
| "stateful_validators sha3 cfg known height c (Root_Namespace_Notification n) =
     [\<lambda>_. RootNamespaceAvailabilityValidator c height n,
      \<lambda>_. NamespaceDurationOverflowValidator (MaxNamespaceDuration cfg + m_gracePeriodDuration c) c height n]"
| "stateful_validators sha3 cfg known height c (Child_Namespace_Notification n) =
     [\<lambda>_. ChildNamespaceAvailabilityValidator (MaxNamespaceDepth cfg) c height n,
      \<lambda>_. RootNamespaceMaxChildrenValidator (MaxChildNamespaces cfg) c n]"
| "stateful_validators sha3 cfg known height c (Required_Notification owner i) = [\<lambda>_. RequiredNamespaceValidator c height owner i]"
| "stateful_validators sha3 cfg known height c (Alias_Link_Notification i action) = [\<lambda>_. AliasAvailabilityValidator c i action]"
| "stateful_validators sha3 cfg known height c (Aliased_Address_Notification i action a) =
     [\<lambda>_. UnlinkAliasedDataConsistencyValidator AliasType_Address alias_address c i action a,
      \<lambda>_. Ok (AddressAliasValidator known a)]"
| "stateful_validators sha3 cfg known height c (Aliased_TokenId_Notification i action t) =
     [\<lambda>_. UnlinkAliasedDataConsistencyValidator AliasType_Token alias_tokenId c i action t]"
| "stateful_validators sha3 cfg known height c _ = []"

fun namespace_observers :: "namespace_notification \<Rightarrow> namespace_mode \<Rightarrow> height \<Rightarrow> namespace_cache \<Rightarrow> namespace_cache result" where
  "namespace_observers (Root_Namespace_Notification n) mode height c = RootNamespaceObserver n mode height c"
| "namespace_observers (Child_Namespace_Notification n) mode height c = ChildNamespaceObserver n mode c"
| "namespace_observers (Aliased_Address_Notification i action a) mode height c = AliasedObserverHandler i action (Address_Alias a) mode c"
| "namespace_observers (Aliased_TokenId_Notification i action t) mode height c = AliasedObserverHandler i action (Token_Alias t) mode c"
| "namespace_observers _ mode height c = Ok c"

fun run_namespace_validators :: "(unit \<Rightarrow> namespace_result result) list \<Rightarrow> namespace_result result" where
  "run_namespace_validators [] = Ok NS_Success"
| "run_namespace_validators (v # vs) = bind_result (v ()) (\<lambda>r. if r = NS_Success then run_namespace_validators vs else Ok r)"

text \<open>The notifications of a transaction, processed one after the other until a validator fails.\<close>

fun process_namespace_notifications :: "(8 word list \<Rightarrow> 64 word) \<Rightarrow> namespace_configuration \<Rightarrow> (address \<Rightarrow> bool) \<Rightarrow> height
    \<Rightarrow> namespace_notification list \<Rightarrow> namespace_cache \<Rightarrow> (namespace_result \<times> namespace_cache) result" where
  "process_namespace_notifications sha3 cfg known height [] c = Ok (NS_Success, c)"
| "process_namespace_notifications sha3 cfg known height (n # ns) c =
     bind_result (run_namespace_validators (stateful_validators sha3 cfg known height c n)) (\<lambda>r.
       if r \<noteq> NS_Success then Ok (r, c)
       else bind_result (namespace_observers n Namespace_Commit height c) (process_namespace_notifications sha3 cfg known height ns))"

text \<open>The stateless validators see all notifications of a transaction before it is executed.\<close>

definition execute_namespace_notifications :: "(8 word list \<Rightarrow> 64 word) \<Rightarrow> namespace_configuration \<Rightarrow> (address \<Rightarrow> bool) \<Rightarrow> height
    \<Rightarrow> namespace_notification list \<Rightarrow> namespace_cache \<Rightarrow> (namespace_result \<times> namespace_cache) result" where
  "execute_namespace_notifications sha3 cfg known height ns c =
     (case filter (\<lambda>r. r \<noteq> NS_Success) (concat (map (stateless_validators sha3 cfg) ns)) of
        r # _ \<Rightarrow> Ok (r, c)
      | [] \<Rightarrow> process_namespace_notifications sha3 cfg known height ns c)"

text \<open>The notifications of a transaction, observed backwards.\<close>

definition rollback_namespace_notifications :: "height \<Rightarrow> namespace_notification list \<Rightarrow> namespace_cache \<Rightarrow> namespace_cache result" where
  "rollback_namespace_notifications height ns c = fold_result (\<lambda>n. namespace_observers n Namespace_Rollback height) (rev ns) c"

subsection \<open>Resolvers\<close>

definition RunNamespaceResolver :: "namespace_cache \<Rightarrow> namespace_id \<Rightarrow> alias_type \<Rightarrow> (namespace_alias \<Rightarrow> 'd result) \<Rightarrow> 'd option result" where
  "RunNamespaceResolver c i aliasType getAliased =
     bind_result (nc_find c i) (\<lambda>e. case e of
         None \<Rightarrow> Ok None
       | Some (_, h) \<Rightarrow> bind_result (root_alias (m_store h) (rh_back h) i) (\<lambda>a.
           if aliasType \<noteq> alias_type_of a then Ok None else map_result Some (getAliased a)))"

text \<open>The registered resolvers in their order, and the default that returns the identifier as it is.\<close>

definition resolve_token :: "namespace_cache \<Rightarrow> 64 word \<Rightarrow> token_id result" where
  "resolve_token c unresolved =
     (if 0 = Namespace_Flag AND unresolved then Ok unresolved
      else map_result (\<lambda>r. case r of None \<Rightarrow> unresolved | Some t \<Rightarrow> t)
             (RunNamespaceResolver c unresolved AliasType_Token alias_tokenId))"

text \<open>An address whose first byte is odd holds the identifier of a namespace in its next eight bytes.\<close>

definition address_namespace_id :: "192 word \<Rightarrow> namespace_id" where
  "address_namespace_id a = bytes_word (take 8 (drop 1 (write_array 24 a)))"

definition resolve_address :: "namespace_cache \<Rightarrow> 192 word \<Rightarrow> address result" where
  "resolve_address c unresolved =
     (if 0 = 1 AND write_array 24 unresolved ! 0 then Ok unresolved
      else map_result (\<lambda>r. case r of None \<Rightarrow> unresolved | Some a \<Rightarrow> a)
             (RunNamespaceResolver c (address_namespace_id unresolved) AliasType_Address alias_address))"

subsection \<open>Registration of root namespaces\<close>

lemma find_root:
  assumes "namespace_cache_inv c" "m_historyById c k = Some h"
  shows "nc_find c k = Ok (Some ([k], h))"
proof -
  note h = inv_history [OF assms]
  have "m_id (rh_back h) = k" using h back_in_history [OF h(3)] by (simp add: history_inv_def root_ok_def)
  with root_visible [OF assms] assms(2) show ?thesis by (simp add: nc_find_def ns_rootId_def)
qed

lemma find_absent: "m_namespaceById c k = None \<Longrightarrow> nc_find c k = Ok None"
  by (simp add: nc_find_def)

text \<open>
  What is assumed of a registration besides the validators: identifiers do not collide, the current
  root was registered at this height or before, and the height, the duration and the grace period
  together do not overflow, which no validator checks.
\<close>

definition registration_state_ok :: "root_namespace_notification \<Rightarrow> height \<Rightarrow> namespace_cache \<Rightarrow> bool" where
  "registration_state_ok n height c \<longleftrightarrow>
     (\<forall>k h. m_historyById c k = Some h \<longrightarrow> k \<noteq> rn_NamespaceId n \<longrightarrow> rn_NamespaceId n \<notin> owned_ids h)
     \<and> (\<forall>h. m_historyById c (rn_NamespaceId n) = Some h \<longrightarrow> Start (m_lifetime (rh_back h)) \<le> height)"

definition registration_ok :: "root_namespace_notification \<Rightarrow> height \<Rightarrow> namespace_cache \<Rightarrow> bool" where
  "registration_ok n height c \<longleftrightarrow> registration_state_ok n height c
     \<and> unat height + unat (rn_Duration n) + unat (m_gracePeriodDuration c) < 2 ^ 64 - 1"

definition fresh_lifetime :: "root_namespace_notification \<Rightarrow> height \<Rightarrow> block_duration \<Rightarrow> namespace_lifetime" where
  "fresh_lifetime n height grace =
     \<lparr>Start = height, End = (if rn_Duration n = Eternal_Artifact_Duration then max_height else height + rn_Duration n + grace)\<rparr>"

lemma unat_add64: "unat a + unat b < 2 ^ 64 \<Longrightarrow> unat (a + b) = unat a + unat b" for a b :: "64 word"
  by (simp add: unat_add_lem [THEN iffD1])

lemma unat_max_height: "unat max_height = 2 ^ 64 - 1"
  by (simp add: max_height_def unsigned_minus_1_eq_mask mask_eq_exp_minus_1)

lemma CalculateNewLifetime_fresh:
  assumes "unat height + unat (rn_Duration n) + unat grace < 2 ^ 64 - 1"
  shows "CalculateNewLifetime n height grace = Ok (fresh_lifetime n height grace)"
    "Start (fresh_lifetime n height grace) < End (fresh_lifetime n height grace)"
proof -
  have "height < max_height" using assms by (simp add: word_less_nat_alt unat_max_height)
  moreover have d: "unat (height + rn_Duration n) = unat height + unat (rn_Duration n)"
    "unat (height + rn_Duration n + grace) = unat height + unat (rn_Duration n) + unat grace"
    using assms unat_add64 [of height "rn_Duration n"] unat_add64 [of "height + rn_Duration n" grace] by simp_all
  moreover have "rn_Duration n \<noteq> 0 \<Longrightarrow> height < height + rn_Duration n"
    using d(1) unat_gt_0 [of "rn_Duration n"] by (simp add: word_less_nat_alt)
  moreover have "unat (height + rn_Duration n) \<noteq> unat max_height" using d(1) assms by (simp add: unat_max_height)
  then have "height + rn_Duration n \<noteq> max_height" by metis
  moreover have "\<not> height + rn_Duration n + grace < height + rn_Duration n" using d by (simp add: word_less_nat_alt)
  ultimately show "CalculateNewLifetime n height grace = Ok (fresh_lifetime n height grace)"
    by (auto simp: CalculateNewLifetime_def new_NamespaceLifetime_def fresh_lifetime_def Eternal_Artifact_Duration_def Let_def not_le)
  show "Start (fresh_lifetime n height grace) < End (fresh_lifetime n height grace)"
    using d assms unat_gt_0 [of "rn_Duration n"]
    by (auto simp: fresh_lifetime_def Eternal_Artifact_Duration_def word_less_nat_alt unat_max_height)
qed

lemma CalculateNewLifetime_overflow:
  assumes "\<not> AddOverflows height (rn_Duration n)" "rn_Duration n \<noteq> Eternal_Artifact_Duration" "height + rn_Duration n \<noteq> max_height"
    and "2 ^ 64 \<le> unat height + unat (rn_Duration n) + unat grace"
  shows "CalculateNewLifetime n height grace = Err Invalid_Argument"
proof -
  let ?e = "height + rn_Duration n"
  have "unat ?e = unat height + unat (rn_Duration n)"
    using assms(1) by (simp add: AddOverflows_def not_less flip: no_olen_add_nat no_plus_overflow_uint_size) (simp add: unat_plus_simple)
  with assms(4) have "\<not> unat ?e + unat grace < 2 ^ 64" by simp
  then have "?e + grace < ?e" using no_olen_add_nat [of ?e grace] by (simp add: not_le)
  with assms(2,3) show ?thesis by (simp add: CalculateNewLifetime_def new_NamespaceLifetime_def Let_def)
qed

text \<open>The lifetime that an accepted registration gives to a root: a renewal adds the duration to the current end.\<close>

definition registered_lifetime :: "namespace_cache \<Rightarrow> root_namespace_notification \<Rightarrow> height \<Rightarrow> namespace_lifetime" where
  "registered_lifetime c n height =
     (case m_historyById c (rn_NamespaceId n) of
        Some h \<Rightarrow> if IsRenewal (rh_back h) n height
                  then \<lparr>Start = Start (m_lifetime (rh_back h)), End = End (m_lifetime (rh_back h)) + rn_Duration n\<rparr>
                  else fresh_lifetime n height (m_gracePeriodDuration c)
      | None \<Rightarrow> fresh_lifetime n height (m_gracePeriodDuration c))"

lemma registration_run:
  assumes inv: "namespace_cache_inv c" and ok: "registration_ok n height c"
    and avail: "RootNamespaceAvailabilityValidator c height n = Ok NS_Success"
    and dur: "NamespaceDurationOverflowValidator maxDur c height n = Ok NS_Success"
  shows "CalculateLifetime c n height = Ok (registered_lifetime c n height)"
    "insertable_root (new_RootNamespace (rn_NamespaceId n) (rn_Owner n) (registered_lifetime c n height) p) c"
proof -
  let ?k = "rn_NamespaceId n"
  have fresh: "CalculateNewLifetime n height (m_gracePeriodDuration c) = Ok (fresh_lifetime n height (m_gracePeriodDuration c))"
    "Start (fresh_lifetime n height (m_gracePeriodDuration c)) < End (fresh_lifetime n height (m_gracePeriodDuration c))"
    using ok CalculateNewLifetime_fresh by (auto simp: registration_ok_def)
  have sep: "m_historyById c k = Some h \<Longrightarrow> k \<noteq> ?k \<Longrightarrow> ?k \<notin> owned_ids h" for k h
    using ok by (simp add: registration_ok_def registration_state_ok_def)
  have "CalculateLifetime c n height = Ok (registered_lifetime c n height)
    \<and> Start (registered_lifetime c n height) < End (registered_lifetime c n height)
    \<and> (\<forall>h. m_historyById c ?k = Some h \<longrightarrow> End (m_lifetime (rh_back h)) \<le> End (registered_lifetime c n height))"
  proof (cases "m_historyById c ?k")
    case None
    have "m_namespaceById c ?k = None"
    proof (rule ccontr)
      assume "m_namespaceById c ?k \<noteq> None"
      then obtain ns where "m_namespaceById c ?k = Some ns" by auto
      then obtain k h where "m_historyById c k = Some h" "visible h ?k = Some ns" using inv by (auto simp: namespace_cache_inv_def)
      with visible_owned inv_history(3) [OF inv] sep None show False by fastforce
    qed
    with None fresh show ?thesis by (simp add: CalculateLifetime_def find_absent registered_lifetime_def)
  next
    case (Some h)
    let ?l = "m_lifetime (rh_back h)"
    note hi = inv_history [OF inv Some]
    have pos: "Start ?l < End ?l" using hi back_in_history [OF hi(3)] by (simp add: history_inv_def root_ok_def)
    have started: "Start ?l \<le> height" using ok Some by (simp add: registration_ok_def registration_state_ok_def)
    note find = find_root [OF inv Some]
    show ?thesis
    proof (cases "IsRenewal (rh_back h) n height")
      case True
      with dur find have "\<not> AddOverflows (End ?l) (rn_Duration n)"
        by (auto simp: NamespaceDurationOverflowValidator_def IsRenewal_def Let_def split: if_splits)
      then have le: "End ?l \<le> End ?l + rn_Duration n" by (simp add: AddOverflows_def not_less)
      with pos have "Start ?l < End ?l + rn_Duration n" by simp
      with True Some find fresh(1) le show ?thesis
        by (simp add: CalculateLifetime_def registered_lifetime_def new_NamespaceLifetime_def Let_def not_le)
    next
      case False
      with avail find have "\<not> lifetime_isActive ?l height"
        by (auto simp: RootNamespaceAvailabilityValidator_def IsRenewal_def Let_def split: if_splits)
      with started have "End ?l \<le> height" by (simp add: lifetime_isActive_def not_less)
      moreover have "Start (fresh_lifetime n height (m_gracePeriodDuration c)) = height" by (simp add: fresh_lifetime_def)
      ultimately show ?thesis using False Some find fresh
        by (simp add: CalculateLifetime_def registered_lifetime_def)
    qed
  qed
  then show "CalculateLifetime c n height = Ok (registered_lifetime c n height)"
    "insertable_root (new_RootNamespace ?k (rn_Owner n) (registered_lifetime c n height) p) c"
    using sep by (auto simp: insertable_root_def new_RootNamespace_def)
qed

abbreviation renews :: "namespace_cache \<Rightarrow> root_namespace_notification \<Rightarrow> height \<Rightarrow> bool" where
  "renews c n height \<equiv> \<exists>h. m_historyById c (rn_NamespaceId n) = Some h \<and> IsRenewal (rh_back h) n height"

lemma renewal_extends:
  assumes inv: "namespace_cache_inv c" and ok: "registration_ok n height c"
    and avail: "RootNamespaceAvailabilityValidator c height n = Ok NS_Success" and h: "m_historyById c (rn_NamespaceId n) = Some h"
  shows "extends_history (rn_Owner n) (registered_lifetime c n height) h \<longleftrightarrow> IsRenewal (rh_back h) n height"
proof -
  note hi = inv_history [OF inv h]
  have pos: "Start (m_lifetime (rh_back h)) < End (m_lifetime (rh_back h))"
    using hi back_in_history [OF hi(3)] by (simp add: history_inv_def root_ok_def)
  show ?thesis
  proof (cases "IsRenewal (rh_back h) n height")
    case True
    with h hi(3) pos show ?thesis
      by (auto simp: extends_history_def registered_lifetime_def IsRenewal_def lifetime_isActive_def)
  next
    case False
    with avail find_root [OF inv h] have "\<not> lifetime_isActive (m_lifetime (rh_back h)) height"
      by (auto simp: RootNamespaceAvailabilityValidator_def IsRenewal_def Let_def split: if_splits)
    with False h show ?thesis
      by (simp add: extends_history_def registered_lifetime_def fresh_lifetime_def)
  qed
qed

lemma registration:
  assumes inv: "namespace_cache_inv c" and ok: "registration_ok n height c"
    and avail: "RootNamespaceAvailabilityValidator c height n = Ok NS_Success"
    and dur: "NamespaceDurationOverflowValidator maxDur c height n = Ok NS_Success"
  obtains c' h' where "RootNamespaceObserver n Namespace_Commit height c = Ok c'" "namespace_cache_inv c'"
    "m_historyById c' (rn_NamespaceId n) = Some h'" "m_ownerAddress (rh_back h') = rn_Owner n"
    "m_lifetime (rh_back h') = registered_lifetime c n height"
    "\<And>h. m_historyById c (rn_NamespaceId n) = Some h \<Longrightarrow> IsRenewal (rh_back h) n height
      \<Longrightarrow> back_children h' = back_children h \<and> m_alias (rh_back h') = m_alias (rh_back h)"
    "\<not> renews c n height \<Longrightarrow> back_children h' = fmempty \<and> m_alias (rh_back h') = No_Alias"
    "RootNamespaceObserver n Namespace_Rollback height c' = Ok (c\<lparr>m_rootNamespaceIdsByExpiryHeight :=
       RemoveIdentifierWithGroup (End (registered_lifetime c n height)) (rn_NamespaceId n)
         (AddIdentifierWithGroup (End (registered_lifetime c n height)) (rn_NamespaceId n) (m_rootNamespaceIdsByExpiryHeight c))\<rparr>)"
proof -
  let ?k = "rn_NamespaceId n" and ?l = "registered_lifetime c n height"
  define ns where "ns = new_RootNamespace ?k (rn_Owner n) ?l 0"
  define h where "h = history_or_new c ?k"
  define h' where "h' = rh_push_back (rn_Owner n) ?l h"
  have ns: "m_id ns = ?k" "m_ownerAddress ns = rn_Owner n" "m_lifetime ns = ?l" by (simp_all add: ns_def new_RootNamespace_def)
  note run = registration_run [OF inv ok avail dur]
  have ins: "insertable_root ns c" unfolding ns_def by (rule run(2))
  note put = insert_root_put [OF inv ins, unfolded ns, folded h_def, folded h'_def]
  have hinv: "history_inv h" "rh_id h = ?k"
    using inv_history [OF inv, of ?k] by (auto simp: h_def history_or_new_def new_RootNamespaceHistory_def split: option.splits)
      (simp add: new_RootNamespaceHistory_def [symmetric])
  have l: "Start ?l < End ?l" "rh_empty h \<or> End (m_lifetime (rh_back h)) \<le> End ?l"
    using ins by (auto simp: insertable_root_def ns h_def history_or_new_def rh_empty_def new_RootNamespaceHistory_def split: option.splits)
  note spec = rh_push_back_spec [OF hinv(1) l h'_def]
  have hist: "m_historyById (nc_insert_root ns c) ?k = Some h'" using spec hinv(2) by (simp add: put(1) put_history_def)
  have bk: "back_children h' = (if extends_history (rn_Owner n) ?l h then back_children h else fmempty)"
    "m_alias (rh_back h') = (if extends_history (rn_Owner n) ?l h then m_alias (rh_back h) else No_Alias)" using spec by blast+
  show ?thesis
  proof
    show "RootNamespaceObserver n Namespace_Commit height c = Ok (nc_insert_root ns c)"
      by (simp add: RootNamespaceObserver_def run(1) ns_def)
    show "namespace_cache_inv (nc_insert_root ns c)" by (rule put(2))
    show "m_historyById (nc_insert_root ns c) ?k = Some h'" by (rule hist)
    show "m_ownerAddress (rh_back h') = rn_Owner n" "m_lifetime (rh_back h') = ?l" using spec by blast+
    show "back_children h' = back_children h0 \<and> m_alias (rh_back h') = m_alias (rh_back h0)"
      if "m_historyById c ?k = Some h0" "IsRenewal (rh_back h0) n height" for h0
      using that renewal_extends [OF inv ok avail that(1)] bk by (simp add: h_def history_or_new_def)
    show "back_children h' = fmempty \<and> m_alias (rh_back h') = No_Alias" if "\<not> renews c n height"
    proof -
      have "\<not> extends_history (rn_Owner n) ?l h"
        using that renewal_extends [OF inv ok avail]
        by (cases "m_historyById c ?k") (auto simp: h_def history_or_new_def extends_history_def rh_empty_def new_RootNamespaceHistory_def)
      with bk show ?thesis by simp
    qed
    show "RootNamespaceObserver n Namespace_Rollback height (nc_insert_root ns c) = Ok (c\<lparr>m_rootNamespaceIdsByExpiryHeight :=
       RemoveIdentifierWithGroup (End ?l) ?k (AddIdentifierWithGroup (End ?l) ?k (m_rootNamespaceIdsByExpiryHeight c))\<rparr>)"
      using insert_remove_root [OF inv ins] by (simp add: RootNamespaceObserver_def ns)
  qed
qed

text \<open>A cache with one root namespace, and a renewal of it by its owner.\<close>

definition sample_namespace_cache :: namespace_cache where
  "sample_namespace_cache = nc_insert_root (new_RootNamespace 5 7 \<lparr>Start = 1, End = 20\<rparr> 0) (empty_namespace_cache 10)"

definition sample_renewal :: "block_duration \<Rightarrow> root_namespace_notification" where
  "sample_renewal d = \<lparr>rn_Owner = 7, rn_NamespaceId = 5, rn_Duration = d\<rparr>"

definition sample_history :: root_namespace_history where
  "sample_history = \<lparr>rh_id = 5, m_rootHistory = [\<lparr>m_id = 5, m_alias = No_Alias, m_ownerAddress = 7, m_lifetime = \<lparr>Start = 1, End = 20\<rparr>, m_pChildren = 0\<rparr>],
     m_store = (\<lambda>_. fmempty)\<rparr>"

lemma sample_namespace_cache_simps:
  "m_historyById sample_namespace_cache = [5 \<mapsto> sample_history]" "m_namespaceById sample_namespace_cache = [5 \<mapsto> [5]]"
  "m_rootNamespaceIdsByExpiryHeight sample_namespace_cache = [20 \<mapsto> {5}]" "m_gracePeriodDuration sample_namespace_cache = 10"
proof -
  have h: "rh_push_back 7 \<lparr>Start = 1, End = 20\<rparr> (new_RootNamespaceHistory 5) = sample_history"
    by (simp add: sample_history_def rh_push_back_def rh_empty_def new_RootNamespaceHistory_def new_RootNamespace_def fresh_children_def fun_upd_idem)
  show "m_historyById sample_namespace_cache = [5 \<mapsto> sample_history]" "m_namespaceById sample_namespace_cache = [5 \<mapsto> [5]]"
    "m_rootNamespaceIdsByExpiryHeight sample_namespace_cache = [20 \<mapsto> {5}]" "m_gracePeriodDuration sample_namespace_cache = 10"
    by (simp_all add: sample_namespace_cache_def nc_insert_root_def empty_namespace_cache_def new_RootNamespace_def AddIdentifierWithGroup_def h [unfolded new_RootNamespace_def])
qed

lemma sample_back: "rh_back sample_history = \<lparr>m_id = 5, m_alias = No_Alias, m_ownerAddress = 7, m_lifetime = \<lparr>Start = 1, End = 20\<rparr>, m_pChildren = 0\<rparr>"
  by (simp add: sample_history_def rh_back_def)

lemma sample_namespace_cache_inv:
  "namespace_cache_inv sample_namespace_cache" "expiry_registered sample_namespace_cache" "groups_ok sample_namespace_cache"
proof -
  show "namespace_cache_inv sample_namespace_cache"
    unfolding sample_namespace_cache_def
    by (intro insert_root_put(2) empty_namespace_cache_inv) (simp add: insertable_root_def new_RootNamespace_def empty_namespace_cache_def)
  show "expiry_registered sample_namespace_cache" "groups_ok sample_namespace_cache"
    by (auto simp: expiry_registered_def groups_ok_def sample_namespace_cache_simps in_group_def sample_history_def)
qed

lemma sample_renewal_accepted:
  "registration_ok (sample_renewal 3) 12 sample_namespace_cache" "registration_ok (sample_renewal 0) 12 sample_namespace_cache"
  "RootNamespaceAvailabilityValidator sample_namespace_cache 12 (sample_renewal d) = Ok NS_Success"
  "NamespaceDurationOverflowValidator 100 sample_namespace_cache 12 (sample_renewal 3) = Ok NS_Success"
  "NamespaceDurationOverflowValidator 100 sample_namespace_cache 12 (sample_renewal 0) = Ok NS_Success"
proof -
  have find: "nc_find sample_namespace_cache 5 = Ok (Some ([5], sample_history))"
    using find_root [OF sample_namespace_cache_inv(1), of 5] by (simp add: sample_namespace_cache_simps)
  show "registration_ok (sample_renewal 3) 12 sample_namespace_cache" "registration_ok (sample_renewal 0) 12 sample_namespace_cache"
    by (auto simp: registration_ok_def registration_state_ok_def sample_namespace_cache_simps sample_renewal_def sample_back split: if_splits)
  show "RootNamespaceAvailabilityValidator sample_namespace_cache 12 (sample_renewal d) = Ok NS_Success"
    by (simp add: RootNamespaceAvailabilityValidator_def find sample_renewal_def sample_back max_height_def lifetime_isActive_def)
  show "NamespaceDurationOverflowValidator 100 sample_namespace_cache 12 (sample_renewal 3) = Ok NS_Success"
    "NamespaceDurationOverflowValidator 100 sample_namespace_cache 12 (sample_renewal 0) = Ok NS_Success"
    by (simp_all add: NamespaceDurationOverflowValidator_def find sample_renewal_def sample_back lifetime_isActive_def AddOverflows_def CalculateMaxLifetimeEnd_def)
qed

lemma sample_renewal_lifetime:
  "IsRenewal (rh_back sample_history) (sample_renewal d) 12"
  "registered_lifetime sample_namespace_cache (sample_renewal d) 12 = \<lparr>Start = 1, End = 20 + d\<rparr>"
proof -
  show renewal: "IsRenewal (rh_back sample_history) (sample_renewal d) 12"
    by (simp add: IsRenewal_def sample_renewal_def sample_back lifetime_isActive_def)
  have "m_historyById sample_namespace_cache (rn_NamespaceId (sample_renewal d)) = Some sample_history"
    by (simp add: sample_namespace_cache_simps sample_renewal_def)
  with renewal show "registered_lifetime sample_namespace_cache (sample_renewal d) 12 = \<lparr>Start = 1, End = 20 + d\<rparr>"
    by (simp add: registered_lifetime_def sample_back sample_renewal_def)
qed



text \<open>
  C12: Rolling back an accepted root registration restores the namespace cache exactly, unless the root
  namespace was already registered to expire at the height at which the new root expires.
\<close>

theorem root_registration_rollback:
  assumes "namespace_cache_inv c" "registration_ok n height c"
    and "RootNamespaceAvailabilityValidator c height n = Ok NS_Success"
    and "NamespaceDurationOverflowValidator maxDur c height n = Ok NS_Success"
    and "groups_ok c" "\<not> in_group (m_rootNamespaceIdsByExpiryHeight c) (End (registered_lifetime c n height)) (rn_NamespaceId n)"
  shows "bind_result (RootNamespaceObserver n Namespace_Commit height c) (RootNamespaceObserver n Namespace_Rollback height) = Ok c"
proof -
  obtain c' where c': "RootNamespaceObserver n Namespace_Commit height c = Ok c'"
    "RootNamespaceObserver n Namespace_Rollback height c' = Ok (c\<lparr>m_rootNamespaceIdsByExpiryHeight :=
       RemoveIdentifierWithGroup (End (registered_lifetime c n height)) (rn_NamespaceId n)
         (AddIdentifierWithGroup (End (registered_lifetime c n height)) (rn_NamespaceId n) (m_rootNamespaceIdsByExpiryHeight c))\<rparr>)"
    using registration [OF assms(1-4)] by metis
  have "m_rootNamespaceIdsByExpiryHeight c (End (registered_lifetime c n height)) \<noteq> Some {}"
    using assms(5) unfolding groups_ok_def by blast
  with c' Remove_Add [OF assms(6)] show ?thesis by simp
qed

theorem root_registration_rollback_witness:
  "bind_result (RootNamespaceObserver (sample_renewal 3) Namespace_Commit 12 sample_namespace_cache)
     (RootNamespaceObserver (sample_renewal 3) Namespace_Rollback 12) = Ok sample_namespace_cache"
proof (rule root_registration_rollback [OF sample_namespace_cache_inv(1) sample_renewal_accepted(1,3,4) sample_namespace_cache_inv(3)])
  show "\<not> in_group (m_rootNamespaceIdsByExpiryHeight sample_namespace_cache)
      (End (registered_lifetime sample_namespace_cache (sample_renewal 3) 12)) (rn_NamespaceId (sample_renewal 3))"
    by (simp add: sample_renewal_lifetime(2) in_group_def sample_namespace_cache_simps)
qed

text \<open>
  C38: Renewing a namespace with the eternal duration, which costs the eternal rental fee, leaves its
  lifetime as it is.  Rolling such a renewal back removes the namespace from the group of its end
  height: the height at which it expires before the renewal is no longer reported after the rollback.
\<close>

theorem eternal_renewal:
  assumes inv: "namespace_cache_inv c" "registration_ok n height c"
    and "RootNamespaceAvailabilityValidator c height n = Ok NS_Success"
    and "NamespaceDurationOverflowValidator maxDur c height n = Ok NS_Success"
    and reg: "expiry_registered c" and h: "m_historyById c (rn_NamespaceId n) = Some h" "IsRenewal (rh_back h) n height"
    and eternal: "rn_Duration n = Eternal_Artifact_Duration"
  shows "registered_lifetime c n height = m_lifetime (rh_back h)
    \<and> rn_NamespaceId n \<in> nc_touch (End (m_lifetime (rh_back h))) c
    \<and> (\<exists>c'. bind_result (RootNamespaceObserver n Namespace_Commit height c) (RootNamespaceObserver n Namespace_Rollback height) = Ok c'
        \<and> m_historyById c' = m_historyById c \<and> rn_NamespaceId n \<notin> nc_touch (End (m_lifetime (rh_back h))) c')"
proof -
  let ?k = "rn_NamespaceId n" and ?l = "m_lifetime (rh_back h)"
  note hi = inv_history [OF inv(1) h(1)]
  have l: "registered_lifetime c n height = ?l"
    using h eternal by (simp add: registered_lifetime_def Eternal_Artifact_Duration_def)
  have pos: "Start ?l < End ?l" using hi back_in_history [OF hi(3)] by (simp add: history_inv_def root_ok_def)
  then have nz: "End ?l \<noteq> 0" by auto
  have "\<not> lifetime_isActive ?l (End ?l)" "lifetime_isActive ?l (End ?l - 1)"
    using word_less_pred [OF nz pos] word_pred_less [OF nz] by (simp_all add: lifetime_isActive_def)
  moreover have "in_group (m_rootNamespaceIdsByExpiryHeight c) (End ?l) ?k"
    using reg h(1) back_in_history [OF hi(3)] by (auto simp: expiry_registered_def)
  ultimately have touch: "?k \<in> nc_touch (End ?l) c"
    using h(1) hi(3) by (auto simp: nc_touch_def FindDeactivatingIdentifiersAtHeight_def in_group_def rh_isActive_def)
  obtain c' where c': "RootNamespaceObserver n Namespace_Commit height c = Ok c'"
    "RootNamespaceObserver n Namespace_Rollback height c' = Ok (c\<lparr>m_rootNamespaceIdsByExpiryHeight :=
       RemoveIdentifierWithGroup (End ?l) ?k (AddIdentifierWithGroup (End ?l) ?k (m_rootNamespaceIdsByExpiryHeight c))\<rparr>)"
    using registration [OF assms(1-4)] l by metis
  have "\<not> in_group (RemoveIdentifierWithGroup (End ?l) ?k (AddIdentifierWithGroup (End ?l) ?k (m_rootNamespaceIdsByExpiryHeight c))) (End ?l) ?k"
    by simp
  then have "?k \<notin> nc_touch (End ?l) (c\<lparr>m_rootNamespaceIdsByExpiryHeight :=
       RemoveIdentifierWithGroup (End ?l) ?k (AddIdentifierWithGroup (End ?l) ?k (m_rootNamespaceIdsByExpiryHeight c))\<rparr>)"
    unfolding in_group_def nc_touch_def FindDeactivatingIdentifiersAtHeight_def by (auto split: option.splits)
  with c' l touch show ?thesis by simp
qed

theorem eternal_renewal_witness:
  "registered_lifetime sample_namespace_cache (sample_renewal 0) 12 = \<lparr>Start = 1, End = 20\<rparr>
    \<and> (\<exists>c'. bind_result (RootNamespaceObserver (sample_renewal 0) Namespace_Commit 12 sample_namespace_cache)
          (RootNamespaceObserver (sample_renewal 0) Namespace_Rollback 12) = Ok c' \<and> 5 \<notin> nc_touch 20 c')"
proof -
  have h: "m_historyById sample_namespace_cache (rn_NamespaceId (sample_renewal 0)) = Some sample_history"
    "rn_Duration (sample_renewal 0) = Eternal_Artifact_Duration" "rn_NamespaceId (sample_renewal 0) = 5"
    by (simp_all add: sample_namespace_cache_simps sample_renewal_def Eternal_Artifact_Duration_def)
  show ?thesis
    using eternal_renewal [OF sample_namespace_cache_inv(1) sample_renewal_accepted(2,3,5) sample_namespace_cache_inv(2) h(1) sample_renewal_lifetime(1) h(2)]
    by (auto simp: h(3) sample_back)
qed

subsection \<open>Registration of child namespaces\<close>

lemma find_visible:
  assumes "namespace_cache_inv c" "nc_find c i = Ok (Some (ns, h))"
  shows "m_namespaceById c i = Some ns" "m_historyById c (ns_rootId ns) = Some h" "visible h i = Some ns" "ns_id ns = i" "ns \<noteq> []"
proof -
  show ns: "m_namespaceById c i = Some ns"
    using assms(2) by (auto simp: nc_find_def Let_def split: option.splits if_splits)
  obtain h' where h': "m_historyById c (ns_rootId ns) = Some h'" "visible h' i = Some ns" "ns_id ns = i" "ns \<noteq> []"
    using child_visible [OF assms(1) ns] by metis
  moreover have "h = h'" using assms(2) ns h'(1) by (auto simp: nc_find_def Let_def split: if_splits)
  ultimately show "m_historyById c (ns_rootId ns) = Some h" "visible h i = Some ns" "ns_id ns = i" "ns \<noteq> []" by simp_all
qed

text \<open>
  C13: A child registration that the validators accept never throws.  The parent exists and is active
  without its grace period, the signer owns the root, the path of the parent does not have the
  maximal length, and the root has fewer children than allowed.  The path of the child is that of
  the parent followed by the child; the invariant is kept, nothing else becomes active or inactive,
  and the rollback restores the cache.  Identifiers are assumed not to collide across roots.
\<close>

theorem child_registration:
  assumes inv: "namespace_cache_inv c"
    and avail: "ChildNamespaceAvailabilityValidator maxDepth c height n = Ok NS_Success"
    and size: "RootNamespaceMaxChildrenValidator maxChildren c n = Ok NS_Success"
    and path: "m_namespaceById c (cn_ParentId n) = Some path"
    and unique: "\<forall>k h. m_historyById c k = Some h \<longrightarrow> cn_NamespaceId n \<in> owned_ids h \<longrightarrow> k = ns_rootId path"
  shows "\<exists>c' h. ChildNamespaceObserver n Namespace_Commit c = Ok c' \<and> namespace_cache_inv c'
    \<and> m_historyById c (ns_rootId path) = Some h \<and> m_ownerAddress (rh_back h) = cn_Owner n
    \<and> isActiveExcludingGracePeriod (m_lifetime (rh_back h)) height (m_gracePeriodDuration c) = Ok True
    \<and> length path \<noteq> maxDepth \<and> root_size (m_store h) (rh_back h) < maxChildren
    \<and> m_namespaceById c' = (m_namespaceById c)(cn_NamespaceId n \<mapsto> path @ [cn_NamespaceId n])
    \<and> ChildNamespaceObserver n Namespace_Rollback c' = Ok c"
proof -
  let ?j = "cn_NamespaceId n"
  have absent: "m_namespaceById c ?j = None" using avail by (auto simp: ChildNamespaceAvailabilityValidator_def nc_contains_def split: if_splits)
  obtain h where find: "nc_find c (cn_ParentId n) = Ok (Some (path, h))"
    using avail path by (auto simp: ChildNamespaceAvailabilityValidator_def nc_find_def Let_def split: if_splits)
  note vis = find_visible [OF inv find]
  have ok: "length path \<noteq> maxDepth" "m_ownerAddress (rh_back h) = cn_Owner n"
    "isActiveExcludingGracePeriod (m_lifetime (rh_back h)) height (m_gracePeriodDuration c) = Ok True"
    using avail find by (auto simp: ChildNamespaceAvailabilityValidator_def split: if_splits)
  have few: "root_size (m_store h) (rh_back h) < maxChildren"
    using size find by (auto simp: RootNamespaceMaxChildrenValidator_def nc_get_def split: if_splits)
  have "insertable_child path ?j c"
    using vis absent unique path unfolding insertable_child_def by auto
  from insert_child [OF inv this] obtain c' where c': "nc_insert_child (path @ [?j]) c = Ok c'" "namespace_cache_inv c'" "nc_remove ?j c' = Ok c"
    "m_namespaceById c' = (m_namespaceById c)(?j \<mapsto> path @ [?j])" by blast
  have "ChildNamespaceObserver n Namespace_Commit c = Ok c'"
    using find c'(1) by (simp add: ChildNamespaceObserver_def nc_get_def new_Namespace_def)
  moreover have "ChildNamespaceObserver n Namespace_Rollback c' = Ok c" using c'(3) by (simp add: ChildNamespaceObserver_def)
  ultimately show ?thesis using c'(2,4) vis(2) ok few by blast
qed

definition sample_child :: child_namespace_notification where
  "sample_child = \<lparr>cn_Owner = 7, cn_NamespaceId = 6, cn_ParentId = 5\<rparr>"

theorem child_registration_witness:
  "\<exists>c'. ChildNamespaceObserver sample_child Namespace_Commit sample_namespace_cache = Ok c' \<and> namespace_cache_inv c'
    \<and> m_namespaceById c' = [5 \<mapsto> [5], 6 \<mapsto> [5, 6]]
    \<and> ChildNamespaceObserver sample_child Namespace_Rollback c' = Ok sample_namespace_cache"
proof -
  have find: "nc_find sample_namespace_cache 5 = Ok (Some ([5], sample_history))"
    using find_root [OF sample_namespace_cache_inv(1), of 5] by (simp add: sample_namespace_cache_simps)
  have size: "root_size (m_store sample_history) (rh_back sample_history) = 0"
    by (simp add: root_size_def sample_history_def root_children_def children_size_def)
  have "ChildNamespaceAvailabilityValidator 3 sample_namespace_cache 9 sample_child = Ok NS_Success"
    by (simp add: ChildNamespaceAvailabilityValidator_def sample_child_def nc_contains_def find sample_namespace_cache_simps sample_back isActiveExcludingGracePeriod_def)
  moreover have "RootNamespaceMaxChildrenValidator 10 sample_namespace_cache sample_child = Ok NS_Success"
    by (simp add: RootNamespaceMaxChildrenValidator_def sample_child_def nc_get_def find size)
  moreover have "\<forall>k h. m_historyById sample_namespace_cache k = Some h \<longrightarrow> cn_NamespaceId sample_child \<in> owned_ids h \<longrightarrow> k = ns_rootId [5]"
    by (simp add: sample_namespace_cache_simps ns_rootId_def)
  moreover have "m_namespaceById sample_namespace_cache (cn_ParentId sample_child) = Some [5]"
    by (simp add: sample_namespace_cache_simps sample_child_def)
  ultimately show ?thesis
    using child_registration [OF sample_namespace_cache_inv(1), of 3 9 sample_child 10 "[5]"]
    by (auto simp: sample_namespace_cache_simps sample_child_def)
qed


subsection \<open>Aliases\<close>

lemma back_setAlias:
  assumes inv: "history_inv h" "\<not> rh_empty h" and old: "root_alias (m_store h) (rh_back h) i = Ok a0"
  shows "\<exists>h'. rh_back_setAlias i a h = Ok h' \<and> root_alias (m_store h') (rh_back h') i = Ok a \<and> rh_back_setAlias i a0 h' = Ok h
    \<and> m_id (rh_back h') = m_id (rh_back h) \<and> rh_id h' = rh_id h"
proof -
  obtain rs r where rs: "m_rootHistory h = rs @ [r]" using inv(2) by (metis rh_empty_def rev_exhaust)
  then have r: "rh_back h = r" by (simp add: rh_back_def)
  show ?thesis
  proof (cases "m_id r = i")
    case True
    with old r have "m_alias r = a0" by (simp add: root_alias_def)
    with True rs r show ?thesis by (auto simp: rh_back_setAlias_def root_setAlias_def root_alias_def rh_back_def)
  next
    case False
    with old r obtain d where d: "fmlookup (root_children (m_store h) r) i = Some d" "Alias d = a0"
      by (auto simp: root_alias_def split: option.splits)
    let ?store = "(m_store h)(m_pChildren r := fmupd i (d\<lparr>Alias := a\<rparr>) (root_children (m_store h) r))"
    let ?h = "h\<lparr>m_store := ?store\<rparr>"
    have set: "rh_back_setAlias i a h = Ok ?h"
      using False d rs r by (simp add: rh_back_setAlias_def root_setAlias_def)
    have bk: "rh_back ?h = r" using rs by (simp add: rh_back_def)
    have ch: "root_children ?store r = fmupd i (d\<lparr>Alias := a\<rparr>) (root_children (m_store h) r)" by (simp add: root_children_def)
    have "d\<lparr>Alias := a, Alias := a0\<rparr> = d" using d(2) by simp
    then have "fmupd i (d\<lparr>Alias := a, Alias := a0\<rparr>) (fmupd i (d\<lparr>Alias := a\<rparr>) (root_children (m_store h) r)) = root_children (m_store h) r"
      using d(1) by (intro fmap_ext) auto
    then have "rh_back_setAlias i a0 ?h = Ok h"
      using False bk ch rs by (simp add: rh_back_setAlias_def root_setAlias_def) (simp add: root_children_def)
    moreover have "root_alias ?store r i = Ok a" using False ch by (simp add: root_alias_def)
    ultimately show ?thesis using set bk r by auto
  qed
qed

lemma setAlias_cache:
  assumes inv: "namespace_cache_inv c" and find: "nc_find c i = Ok (Some (ns, h))" and old: "root_alias (m_store h) (rh_back h) i = Ok a0"
  obtains c' h' where "nc_setAlias i a c = Ok c'" "namespace_cache_inv c'" "nc_setAlias i a0 c' = Ok c"
    "nc_find c' i = Ok (Some (ns, h'))" "root_alias (m_store h') (rh_back h') i = Ok a"
proof -
  note vis = find_visible [OF inv find]
  note hi = inv_history [OF inv vis(2)]
  obtain h' where h': "rh_back_setAlias i a h = Ok h'" "root_alias (m_store h') (rh_back h') i = Ok a" "rh_back_setAlias i a0 h' = Ok h"
    "m_id (rh_back h') = m_id (rh_back h)" using back_setAlias [OF hi(1,3) old] by blast
  define c' where "c' = c\<lparr>m_historyById := (m_historyById c)(ns_rootId ns \<mapsto> h')\<rparr>"
  have run: "nc_setAlias i a c = Ok c'" "namespace_cache_inv c'"
    using set_alias [OF inv vis(1), of a] vis(2) h'(1) by (auto simp: c'_def)
  have "(m_historyById c)(ns_rootId ns \<mapsto> h) = m_historyById c" using vis(2) by (simp add: fun_upd_idem)
  then have "nc_setAlias i a0 c' = Ok c" using vis(1) h'(3) by (simp add: nc_setAlias_def c'_def)
  moreover have "nc_find c' i = Ok (Some (ns, h'))"
    using find vis(1,2) h'(4) by (simp add: nc_find_def c'_def Let_def split: if_splits)
  ultimately show ?thesis using that run h'(2) by blast
qed

text \<open>
  C20: A token alias transaction that the validators accept never throws and keeps the cache invariant.
  Linking makes the namespace resolve to the token, unlinking, which is accepted only for the token
  the namespace is linked to, makes it resolve to itself, and the rollback restores the cache.
\<close>

theorem token_alias:
  assumes inv: "namespace_cache_inv c" and action: "AliasActionValidator action = NS_Success"
    and avail: "AliasAvailabilityValidator c i action = Ok NS_Success"
    and data: "UnlinkAliasedDataConsistencyValidator AliasType_Token alias_tokenId c i action t = Ok NS_Success"
    and flag: "Namespace_Flag AND i \<noteq> 0"
  shows "\<exists>c'. AliasedObserverHandler i action (Token_Alias t) Namespace_Commit c = Ok c' \<and> namespace_cache_inv c'
    \<and> resolve_token c' i = Ok (if action = Alias_Link then t else i)
    \<and> AliasedObserverHandler i action (Token_Alias t) Namespace_Rollback c' = Ok c"
proof -
  obtain e where "nc_find c i = Ok e" using avail by (auto simp: AliasAvailabilityValidator_def)
  then obtain ns h where find: "nc_find c i = Ok (Some (ns, h))"
    using avail by (cases e) (auto simp: AliasAvailabilityValidator_def)
  obtain a0 where old: "root_alias (m_store h) (rh_back h) i = Ok a0"
    using avail find by (auto simp: AliasAvailabilityValidator_def)
  have "action \<le> 1" using action by (simp add: AliasActionValidator_def Alias_Link_def split: if_splits)
  then have "action = Alias_Link \<or> action = Alias_Unlink"
    unfolding Alias_Link_def Alias_Unlink_def by unat_arith
  then consider (link) "action = Alias_Link" "a0 = No_Alias" | (unlink) "action = Alias_Unlink" "a0 = Token_Alias t"
    using avail data find old
    by (cases a0) (auto simp: AliasAvailabilityValidator_def UnlinkAliasedDataConsistencyValidator_def split: if_splits)
  then show ?thesis
  proof cases
    case link
    obtain c' h' where c': "nc_setAlias i (Token_Alias t) c = Ok c'" "namespace_cache_inv c'" "nc_setAlias i a0 c' = Ok c"
      "nc_find c' i = Ok (Some (ns, h'))" "root_alias (m_store h') (rh_back h') i = Ok (Token_Alias t)"
      using setAlias_cache [OF inv find old] by metis
    with link flag show ?thesis
      by (simp add: AliasedObserverHandler_def ShouldLink_def resolve_token_def RunNamespaceResolver_def Alias_Link_def Alias_Unlink_def)
  next
    case unlink
    obtain c' h' where c': "nc_setAlias i No_Alias c = Ok c'" "namespace_cache_inv c'" "nc_setAlias i a0 c' = Ok c"
      "nc_find c' i = Ok (Some (ns, h'))" "root_alias (m_store h') (rh_back h') i = Ok No_Alias"
      using setAlias_cache [OF inv find old] by metis
    with unlink flag show ?thesis
      by (simp add: AliasedObserverHandler_def ShouldLink_def resolve_token_def RunNamespaceResolver_def Alias_Link_def Alias_Unlink_def)
  qed
qed

theorem token_alias_witness:
  "\<exists>c'. AliasedObserverHandler Namespace_Flag Alias_Link (Token_Alias 9) Namespace_Commit
        (nc_insert_root (new_RootNamespace Namespace_Flag 7 \<lparr>Start = 1, End = 20\<rparr> 0) (empty_namespace_cache 10)) = Ok c'
    \<and> resolve_token c' Namespace_Flag = Ok 9"
proof -
  define c where "c = nc_insert_root (new_RootNamespace Namespace_Flag 7 \<lparr>Start = 1, End = 20\<rparr> 0) (empty_namespace_cache 10)"
  define h where "h = rh_push_back 7 \<lparr>Start = 1, End = 20\<rparr> (new_RootNamespaceHistory Namespace_Flag)"
  have inv: "namespace_cache_inv c"
    unfolding c_def by (intro insert_root_put(2) empty_namespace_cache_inv) (simp add: insertable_root_def new_RootNamespace_def empty_namespace_cache_def)
  have "m_historyById c Namespace_Flag = Some h"
    by (simp add: c_def h_def nc_insert_root_def empty_namespace_cache_def new_RootNamespace_def)
  note find = find_root [OF inv this]
  have "rh_back h = \<lparr>m_id = Namespace_Flag, m_alias = No_Alias, m_ownerAddress = 7, m_lifetime = \<lparr>Start = 1, End = 20\<rparr>, m_pChildren = 0\<rparr>"
    by (simp add: h_def rh_push_back_def rh_empty_def new_RootNamespaceHistory_def new_RootNamespace_def fresh_children_def rh_back_def)
  then have "root_alias (m_store h) (rh_back h) Namespace_Flag = Ok No_Alias" by (simp add: root_alias_def)
  with find have "AliasAvailabilityValidator c Namespace_Flag Alias_Link = Ok NS_Success"
    by (simp add: AliasAvailabilityValidator_def Alias_Link_def Alias_Unlink_def)
  moreover have "UnlinkAliasedDataConsistencyValidator AliasType_Token alias_tokenId c Namespace_Flag Alias_Link 9 = Ok NS_Success"
    by (simp add: UnlinkAliasedDataConsistencyValidator_def Alias_Link_def Alias_Unlink_def)
  moreover have "AliasActionValidator Alias_Link = NS_Success" by (simp add: AliasActionValidator_def)
  moreover have "Namespace_Flag AND Namespace_Flag \<noteq> 0" by (simp add: Namespace_Flag_def)
  ultimately show ?thesis
    using token_alias [OF inv, of Alias_Link Namespace_Flag 9] unfolding c_def [symmetric] by auto
qed

subsection \<open>Iso code registrations\<close>

text \<open>
  C40: A registration of type iso code is accepted whenever its name and identifier are valid and its
  parent is not reserved, without a check of the parent or its owner, the child fee is charged, and
  nothing is registered: the plugin registers neither the validator nor the observer for it.
\<close>

theorem isocode_registration:
  assumes "nr_RegistrationType tx = Registration_IsoCode" "GenesisSignerPublicKey config \<noteq> nr_SignerPublicKey tx"
    and "n = \<lparr>nn_NamespaceId = nr_Id tx, nn_ParentId = nr_ParentIdOrDuration tx, nn_Name = nr_Name tx\<rparr>"
    and "NamespaceNameValidator sha3 (MaxNameSize cfg) n = NS_Success"
    and "NamespaceReservedNameValidator sha3 (ReservedRootNamespaceNames cfg) height n = NS_Success"
  shows "execute_namespace_notifications sha3 cfg known height (PublishNamespaceRegistration config tx signer height) c = Ok (NS_Success, c)
    \<and> Balance_Transfer_Notification \<lparr>bt_Sender = signer, bt_Recipient = SinkAddress config height,
        bt_TokenId = CurrencyTokenId config, bt_Amount = ChildFee config\<rparr> \<in> set (PublishNamespaceRegistration config tx signer height)"
  using assms
  by (simp add: execute_namespace_notifications_def PublishNamespaceRegistration_def PublishBalanceTransfer_def Let_def
      NamespaceRegistrationTypeValidator_def Registration_IsoCode_def Registration_Root_def)

definition sample_fee_configuration :: namespace_fee_configuration where
  "sample_fee_configuration = \<lparr>CurrencyTokenId = 1, SinkAddress = (\<lambda>_. 99), RootFeePerBlock = 2, ChildFee = 100, GenesisSignerPublicKey = 1,
     MaxBlockDuration = 1000, EternalRentalFee = 5000, UnlinkRentalFee = 10\<rparr>"

definition sample_namespace_configuration :: namespace_configuration where
  "sample_namespace_configuration = \<lparr>MaxNameSize = 64, MinDuration = 1, MaxNamespaceDuration = 1000, MaxNamespaceDepth = 3,
     MaxChildNamespaces = 100, ReservedRootNamespaceNames = {}\<rparr>"

definition sample_isocode :: namespace_registration where
  "sample_isocode = \<lparr>nr_SignerPublicKey = 2, nr_ParentIdOrDuration = 5, nr_Id = Namespace_Flag, nr_RegistrationType = Registration_IsoCode, nr_Name = [97]\<rparr>"

theorem isocode_registration_witness:
  "execute_namespace_notifications (\<lambda>_. 0) sample_namespace_configuration (\<lambda>_. True) 9
     (PublishNamespaceRegistration sample_fee_configuration sample_isocode 7 9) sample_namespace_cache = Ok (NS_Success, sample_namespace_cache)"
proof -
  let ?n = "\<lparr>nn_NamespaceId = nr_Id sample_isocode, nn_ParentId = nr_ParentIdOrDuration sample_isocode, nn_Name = nr_Name sample_isocode\<rparr>"
  have "NamespaceNameValidator (\<lambda>_. 0) (MaxNameSize sample_namespace_configuration) ?n = NS_Success"
    by (simp add: NamespaceNameValidator_def sample_isocode_def sample_namespace_configuration_def IsValidName_def IsAlphaNumeric_def GenerateNamespaceId_def)
  moreover have "NamespaceReservedNameValidator (\<lambda>_. 0) (ReservedRootNamespaceNames sample_namespace_configuration) 9 ?n = NS_Success"
    by (simp add: NamespaceReservedNameValidator_def sample_namespace_configuration_def)
  ultimately show ?thesis
    using isocode_registration [of sample_isocode sample_fee_configuration ?n] by (simp add: sample_isocode_def sample_fee_configuration_def)
qed

end
