(* ===== verification/Namespace_Serializer.thy ===== *)
theory Namespace_Serializer
  imports Namespace_State Byte_Stream "HOL-Library.List_Lexorder"
begin

section \<open>Serialization of root namespace histories\<close>

text \<open>
  The two serializers of \<^verbatim>\<open>src/plugins/txes/namespace/src/state/RootNamespaceHistorySerializer.cpp\<close>.  The children
  that a renewed root shares with the root it extends are written once; the paths of the children
  are written in lexicographic sequence, so that every parent is read before its children.
\<close>

definition SaveAlias :: "namespace_alias \<Rightarrow> bytes" where
  "SaveAlias a = (case a of No_Alias \<Rightarrow> Write8 0 | Token_Alias t \<Rightarrow> Write8 1 @ Write64 t | Address_Alias d \<Rightarrow> Write8 2 @ write_array 24 d)"

definition LoadAlias :: "namespace_alias reader" where
  "LoadAlias input = bind_result (Read8 input) (\<lambda>(aliasType, rest).
     if aliasType = 1 then map_result (\<lambda>(t, rest). (Token_Alias t, rest)) (Read64 rest)
     else if aliasType = 2 then map_result (\<lambda>(d, rest). (Address_Alias d, rest)) (read_array 24 rest)
     else Ok (No_Alias, rest))"

definition sortedChildPaths :: "children \<Rightarrow> namespace_path list" where
  "sortedChildPaths cs = sorted_list_of_set ((\<lambda>i. Path (the (fmlookup cs i))) ` fset (fmdom cs))"

definition SaveChild :: "children_store \<Rightarrow> root_namespace \<Rightarrow> namespace_path \<Rightarrow> bytes result" where
  "SaveChild store root path =
     bind_result (checked_cast8 (length path - 1)) (\<lambda>n.
     bind_result (root_alias store root (path ! (length path - 1))) (\<lambda>a.
       Ok (Write8 n @ concat (map Write64 (tl path)) @ SaveAlias a)))"

definition SaveChildren :: "children_store \<Rightarrow> root_namespace \<Rightarrow> bytes result" where
  "SaveChildren store root =
     (let paths = sortedChildPaths (root_children store root)
      in map_result (\<lambda>bs. Write64 (of_nat (length paths)) @ bs) (save_all (SaveChild store root) paths))"

definition SaveRootNamespace :: "children_store \<Rightarrow> root_namespace option \<Rightarrow> root_namespace \<Rightarrow> bytes result" where
  "SaveRootNamespace store previous root =
     map_result (\<lambda>cs. write_array 24 (m_ownerAddress root) @ Write64 (Start (m_lifetime root)) @ Write64 (End (m_lifetime root))
                       @ SaveAlias (m_alias root) @ cs)
       (if (case previous of None \<Rightarrow> False | Some p \<Rightarrow> canExtend root p) then Ok (Write64 0) else SaveChildren store root)"

fun SaveRootNamespaces :: "children_store \<Rightarrow> root_namespace option \<Rightarrow> root_namespace list \<Rightarrow> bytes result" where
  "SaveRootNamespaces store previous [] = Ok []"
| "SaveRootNamespaces store previous (r # rs) =
     bind_result (SaveRootNamespace store previous r) (\<lambda>b. map_result (\<lambda>bs. b @ bs) (SaveRootNamespaces store (Some r) rs))"

definition SaveHistory :: "root_namespace_history \<Rightarrow> bytes result" where
  "SaveHistory h = map_result (\<lambda>bs. Write64 (of_nat (rh_historyDepth h)) @ Write64 (rh_id h) @ bs)
     (SaveRootNamespaces (m_store h) None (m_rootHistory h))"

definition SaveNonHistorical :: "root_namespace_history \<Rightarrow> bytes result" where
  "SaveNonHistorical h =
     (if 0 = rh_historyDepth h then Err Runtime_Error
      else map_result (\<lambda>bs. Write64 (rh_id h) @ bs) (SaveRootNamespace (m_store h) None (rh_back h)))"

definition LoadPath :: "namespace_id \<Rightarrow> namespace_path reader" where
  "LoadPath rootId input = bind_result (Read8 input) (\<lambda>(childDepth, rest).
     map_result (\<lambda>(ids, rest). (rootId # ids, rest)) (load_n Read64 (unat childDepth) rest))"

definition LoadChild :: "namespace_id \<Rightarrow> (namespace_path \<times> namespace_alias) reader" where
  "LoadChild rootId input = bind_result (LoadPath rootId input) (\<lambda>(path, rest).
     map_result (\<lambda>(a, rest). ((path, a), rest)) (LoadAlias rest))"

definition AddChild :: "namespace_path \<times> namespace_alias \<Rightarrow> root_namespace_history \<Rightarrow> root_namespace_history result" where
  "AddChild p h = bind_result (new_Namespace (fst p)) (\<lambda>ns.
     bind_result (rh_back_add ns h) (rh_back_setAlias (ns_id ns) (snd p)))"

definition LoadRootNamespace :: "root_namespace_history \<Rightarrow> root_namespace_history reader" where
  "LoadRootNamespace h input =
     bind_result (read_array 24 input) (\<lambda>(owner, rest).
     bind_result (Read64 rest) (\<lambda>(lifetimeStart, rest).
     bind_result (Read64 rest) (\<lambda>(lifetimeEnd, rest).
     bind_result (new_NamespaceLifetime lifetimeStart lifetimeEnd 0) (\<lambda>lifetime.
     bind_result (LoadAlias rest) (\<lambda>(a, rest).
     bind_result (rh_back_setAlias (rh_id h) a (rh_push_back owner lifetime h)) (\<lambda>h'.
     bind_result (Read64 rest) (\<lambda>(numChildren, rest).
     bind_result (load_n (LoadChild (rh_id h)) (unat numChildren) rest) (\<lambda>(pairs, rest).
       map_result (\<lambda>h''. (h'', rest)) (fold_result AddChild pairs h')))))))))"

fun LoadRootNamespaces :: "nat \<Rightarrow> root_namespace_history \<Rightarrow> root_namespace_history reader" where
  "LoadRootNamespaces 0 h input = Ok (h, input)"
| "LoadRootNamespaces (Suc n) h input = bind_result (LoadRootNamespace h input) (\<lambda>(h', rest). LoadRootNamespaces n h' rest)"

definition LoadHistory :: "root_namespace_history reader" where
  "LoadHistory input =
     bind_result (Read64 input) (\<lambda>(historyDepth, rest).
     bind_result (Read64 rest) (\<lambda>(i, rest). LoadRootNamespaces (unat historyDepth) (new_RootNamespaceHistory i) rest))"

definition LoadNonHistorical :: "root_namespace_history reader" where
  "LoadNonHistorical input = bind_result (Read64 input) (\<lambda>(i, rest). LoadRootNamespace (new_RootNamespaceHistory i) rest)"

subsection \<open>Aliases and paths\<close>

interpretation alias_serializer: serializer "\<lambda>a. Ok (SaveAlias a)" LoadAlias "\<lambda>_. True"
proof
  fix x bs rest assume "Ok (SaveAlias x) = Ok bs"
  then have bs: "bs = SaveAlias x" by simp
  show "LoadAlias (bs @ rest) = Ok (x, rest)"
    unfolding bs by (cases x) (simp_all add: SaveAlias_def LoadAlias_def)
qed

lemma save_all_Write64: "save_all (\<lambda>w. Ok (Write64 w)) xs = Ok (concat (map Write64 xs))"
  by (induction xs) auto

lemma checked_cast8_Ok: "checked_cast8 n = Ok w \<Longrightarrow> unat w = n"
  by (auto simp: checked_cast8_def unat_of_nat split: if_splits)

text \<open>A child of the root \<open>i\<close> that is written is read back.\<close>

lemma LoadChild_SaveChild:
  assumes "SaveChild store root path = Ok bs" "path \<noteq> []" "path ! 0 = i" "root_alias store root (ns_id path) = Ok a"
  shows "LoadChild i (bs @ rest) = Ok ((path, a), rest)"
proof -
  obtain n where n: "checked_cast8 (length path - 1) = Ok n" "bs = Write8 n @ concat (map Write64 (tl path)) @ SaveAlias a"
    using assms(1,4) by (auto simp: SaveChild_def ns_id_def)
  have "load_n Read64 (length (tl path)) (concat (map Write64 (tl path)) @ SaveAlias a @ rest) = Ok (tl path, SaveAlias a @ rest)"
    by (rule word64.load_save_all) (simp_all add: save_all_Write64)
  moreover have "i # tl path = path" using assms(2,3) by (cases path) auto
  moreover have "LoadAlias (SaveAlias a @ rest) = Ok (a, rest)" using alias_serializer.load_save by blast
  ultimately show ?thesis using n checked_cast8_Ok [OF n(1)] by (simp add: LoadChild_def LoadPath_def)
qed

subsection \<open>Children\<close>

text \<open>What reading a child does to the children of the newest root \<open>i\<close>.\<close>

definition put_child :: "namespace_id \<Rightarrow> namespace_path \<times> namespace_alias \<Rightarrow> children \<Rightarrow> children result" where
  "put_child i p cs = map_result (\<lambda>_. fmupd (ns_id (fst p)) \<lparr>Path = fst p, Alias = snd p\<rparr> cs) (children_add i (fst p) cs)"

lemma AddChild_put:
  assumes "\<not> rh_empty h" "m_id (rh_back h) = i" "put_child i p (back_children h) = Ok cs" "fst p \<noteq> []" "ns_id (fst p) \<noteq> i"
  shows "AddChild p h = Ok (h\<lparr>m_store := (m_store h)(m_pChildren (rh_back h) := cs)\<rparr>)"
proof -
  obtain rs r where rs: "m_rootHistory h = rs @ [r]" using assms(1) by (metis rh_empty_def rev_exhaust)
  then have r: "rh_back h = r" "m_id r = i" using assms(2) by (auto simp: rh_back_def)
  have ok: "children_add i (fst p) (back_children h) = Ok (fmupd (ns_id (fst p)) \<lparr>Path = fst p, Alias = No_Alias\<rparr> (back_children h))"
    and cs: "cs = fmupd (ns_id (fst p)) \<lparr>Path = fst p, Alias = snd p\<rparr> (back_children h)"
    using assms(3) by (auto simp: put_child_def children_add_def split: if_splits option.splits)
  let ?h = "h\<lparr>m_store := (m_store h)(m_pChildren r := fmupd (ns_id (fst p)) \<lparr>Path = fst p, Alias = No_Alias\<rparr> (back_children h))\<rparr>"
  have add: "rh_back_add (fst p) h = Ok ?h" using ok r by (simp add: rh_back_add_def root_add_def)
  have "rh_back ?h = r" using rs by (simp add: rh_back_def)
  then have "rh_back_setAlias (ns_id (fst p)) (snd p) ?h = Ok (h\<lparr>m_store := (m_store h)(m_pChildren r := cs)\<rparr>)"
    using r(2) assms(5) rs by (simp add: rh_back_setAlias_def root_setAlias_def cs root_children_def fmupd_idem)
  with add assms(4) r show ?thesis by (simp add: AddChild_def new_Namespace_def)
qed

lemma AddChildren_put:
  assumes "\<not> rh_empty h" "m_id (rh_back h) = i" "fold_result (put_child i) ps (back_children h) = Ok cs"
    and "\<forall>p \<in> set ps. fst p \<noteq> [] \<and> ns_id (fst p) \<noteq> i"
  shows "fold_result AddChild ps h = Ok (h\<lparr>m_store := (m_store h)(m_pChildren (rh_back h) := cs)\<rparr>)"
  using assms
proof (induction ps arbitrary: h)
  case Nil
  then show ?case by (simp add: root_children_def fun_upd_idem)
next
  case (Cons p ps)
  then obtain cs1 where cs1: "put_child i p (back_children h) = Ok cs1" "fold_result (put_child i) ps cs1 = Ok cs" by auto
  let ?h = "h\<lparr>m_store := (m_store h)(m_pChildren (rh_back h) := cs1)\<rparr>"
  have h: "rh_back ?h = rh_back h" "back_children ?h = cs1" "\<not> rh_empty ?h"
    using Cons.prems(1) by (simp_all add: rh_back_def root_children_def rh_empty_def)
  have "AddChild p h = Ok ?h" using AddChild_put [OF Cons.prems(1,2) cs1(1)] Cons.prems(4) by simp
  moreover have "fold_result AddChild ps ?h = Ok (?h\<lparr>m_store := (m_store ?h)(m_pChildren (rh_back ?h) := cs)\<rparr>)"
  proof (rule Cons.IH)
    show "fold_result (put_child i) ps (back_children ?h) = Ok cs" unfolding h(2) by (rule cs1(2))
  qed (use h Cons.prems(2,4) in simp_all)
  ultimately show ?case by (simp add: h(1)) (simp add: fun_upd_def)
qed

lemma less_append: "xs < xs @ [y]" for y :: "'a::linorder"
  by (induction xs) auto

lemma sortedChildPaths_set: "set (sortedChildPaths cs) = {Path d | i d. fmlookup cs i = Some d}"
  by (force simp: sortedChildPaths_def fmlookup_dom_iff image_iff)

lemma sortedChildPaths_sorted: "sorted (sortedChildPaths cs)" "distinct (sortedChildPaths cs)"
  by (simp_all add: sortedChildPaths_def)

definition child_pair :: "children \<Rightarrow> namespace_path \<Rightarrow> namespace_path \<times> namespace_alias" where
  "child_pair cs path = (path, Alias (the (fmlookup cs (ns_id path))))"

lemma path_child: "children_wf i cs \<Longrightarrow> path \<in> set (sortedChildPaths cs)
    \<Longrightarrow> \<exists>d. fmlookup cs (ns_id path) = Some d \<and> Path d = path \<and> 2 \<le> length path \<and> path ! 0 = i \<and> ns_id path \<noteq> i"
  by (force simp: sortedChildPaths_set children_wf_def)

text \<open>Reading a prefix of the sorted paths builds the children with these paths.\<close>

lemma put_children:
  assumes wf: "children_wf i cs" and split: "sortedChildPaths cs = xs @ ys"
  shows "fold_result (put_child i) (map (child_pair cs) xs) fmempty
    = Ok (fmfilter (\<lambda>j. Path (the (fmlookup cs j)) \<in> set xs) cs)"
  using split
proof (induction xs arbitrary: ys rule: rev_induct)
  case Nil
  have "fmfilter (\<lambda>j. False) cs = fmempty" by (intro fmap_ext) simp
  then show ?case by simp
next
  case (snoc p xs)
  let ?cs = "fmfilter (\<lambda>j. Path (the (fmlookup cs j)) \<in> set xs) cs"
  have IH: "fold_result (put_child i) (map (child_pair cs) xs) fmempty = Ok ?cs" using snoc by simp
  have all: "sortedChildPaths cs = xs @ p # ys" using snoc.prems by simp
  then obtain d where d: "fmlookup cs (ns_id p) = Some d" "Path d = p" "2 \<le> length p" "p ! 0 = i" "ns_id p \<noteq> i"
    using path_child [OF wf, of p] by auto
  have p: "p \<notin> set xs" using sortedChildPaths_sorted(2) [of cs] by (simp add: all)
  then have absent: "fmlookup ?cs (ns_id p) = None" using d by simp
  have "children_add i p ?cs = Ok (fmupd (ns_id p) \<lparr>Path = p, Alias = No_Alias\<rparr> ?cs)"
  proof (cases "length p = 2")
    case True
    with d(4) have "ns_parentId p = i" by (simp add: ns_parentId_def)
    with absent d(4) show ?thesis by (simp add: children_add_def ns_rootId_def)
  next
    case False
    define q where "q = take (length p - 1) p"
    have "1 \<le> length p - 2" "length p - 2 < length p" using False d(3) by linarith+
    moreover have "\<forall>k. 1 \<le> k \<longrightarrow> k < length p \<longrightarrow> (\<exists>d'. fmlookup cs (p ! k) = Some d' \<and> Path d' = take (Suc k) p)"
      using wf d(1,2) unfolding children_wf_def by blast
    ultimately obtain d' where d': "fmlookup cs (p ! (length p - 2)) = Some d'" "Path d' = take (Suc (length p - 2)) p" by blast
    have q: "Path d' = q" "ns_parentId p = p ! (length p - 2)" "length q = length p - 1"
      using False d(3) d'(2) by (simp_all add: q_def ns_parentId_def Suc_diff_Suc numeral_2_eq_2)
    have "p = q @ [p ! (length p - 1)]"
      using d(3) take_Suc_conv_app_nth [of "length p - 1" p] by (simp add: q_def)
    then have "q < p" using less_append by metis
    moreover have "q \<in> set (sortedChildPaths cs)" using d'(1) q(1) by (auto simp: sortedChildPaths_set)
    moreover have "\<forall>x \<in> set ys. p \<le> x" using sortedChildPaths_sorted(1) [of cs] by (simp add: all sorted_append)
    ultimately have "q \<in> set xs" unfolding all by auto
    with d' q have parent: "fmlookup ?cs (ns_parentId p) = Some d'" by simp
    have "ns_parentId p \<noteq> i" using d'(1) q(2) wf by (metis children_wf_def option.distinct(1))
    with parent absent d(4) q show ?thesis by (simp add: children_add_def ns_rootId_def)
  qed
  moreover have "\<lparr>Path = p, Alias = Alias d\<rparr> = d" using d(2) by simp
  ultimately have step: "put_child i (child_pair cs p) ?cs = Ok (fmupd (ns_id p) d ?cs)"
    using d(1) by (simp add: put_child_def child_pair_def)
  have "fmupd (ns_id p) d ?cs = fmfilter (\<lambda>j. Path (the (fmlookup cs j)) \<in> set (xs @ [p])) cs"
  proof (intro fmap_ext)
    fix j
    have "Path (the (fmlookup cs j)) \<noteq> p" if "j \<noteq> ns_id p" "fmlookup cs j = Some e" for e
      using that wf unfolding children_wf_def by auto
    then show "fmlookup (fmupd (ns_id p) d ?cs) j = fmlookup (fmfilter (\<lambda>j. Path (the (fmlookup cs j)) \<in> set (xs @ [p])) cs) j"
      using d(1,2) by (cases "fmlookup cs j") auto
  qed
  with IH step show ?case by (simp add: fold_result_append)
qed

lemma child_serializer:
  "serializer (\<lambda>p. SaveChild store root (fst p)) (LoadChild i)
     (\<lambda>p. fst p \<noteq> [] \<and> fst p ! 0 = i \<and> root_alias store root (ns_id (fst p)) = Ok (snd p))"
  by unfold_locales (metis LoadChild_SaveChild prod.collapse)

lemma save_all_map: "save_all f (map g xs) = save_all (\<lambda>x. f (g x)) xs"
  by (induction xs) auto

lemma sortedChildPaths_length:
  assumes "children_wf i cs"
  shows "length (sortedChildPaths cs) < 2 ^ 64"
proof -
  have "length (sortedChildPaths cs) = card ((\<lambda>i. Path (the (fmlookup cs i))) ` fset (fmdom cs))"
    by (simp add: sortedChildPaths_def)
  also have "\<dots> \<le> card (fset (fmdom cs))" by (rule card_image_le) simp
  also have "\<dots> \<le> card (UNIV - {i})" using assms by (intro card_mono) (auto simp: children_wf_def fmlookup_dom_iff)
  also have "\<dots> < card (UNIV :: namespace_id set)" by (rule psubset_card_mono) auto
  finally show ?thesis by (simp add: card_word)
qed

text \<open>The children of a root that are written are read back.\<close>

lemma LoadChildren_SaveChildren:
  assumes wf: "children_wf i (root_children store r)" and id: "m_id r = i" and save: "SaveChildren store r = Ok bs"
  defines "paths \<equiv> sortedChildPaths (root_children store r)"
  obtains bs' where "bs = Write64 (of_nat (length paths)) @ bs'"
    "load_n (LoadChild i) (unat (of_nat (length paths) :: 64 word)) (bs' @ rest) = Ok (map (child_pair (root_children store r)) paths, rest)"
proof -
  let ?pairs = "map (child_pair (root_children store r)) paths"
  obtain bs' where bs': "save_all (SaveChild store r) paths = Ok bs'" "bs = Write64 (of_nat (length paths)) @ bs'"
    using save by (auto simp: SaveChildren_def Let_def paths_def)
  have "\<forall>p \<in> set ?pairs. fst p \<noteq> [] \<and> fst p ! 0 = i \<and> root_alias store r (ns_id (fst p)) = Ok (snd p)"
  proof
    fix p assume "p \<in> set ?pairs"
    then obtain path where path: "path \<in> set paths" "p = child_pair (root_children store r) path" by auto
    then show "fst p \<noteq> [] \<and> fst p ! 0 = i \<and> root_alias store r (ns_id (fst p)) = Ok (snd p)"
      using path_child [OF wf, of path] id by (auto simp: paths_def child_pair_def root_alias_def)
  qed
  moreover have "save_all (\<lambda>p. SaveChild store r (fst p)) ?pairs = Ok bs'"
    using bs'(1) by (simp add: save_all_map child_pair_def)
  ultimately have "load_n (LoadChild i) (length ?pairs) (bs' @ rest) = Ok (?pairs, rest)"
    by (rule serializer.load_save_all [OF child_serializer])
  moreover have "unat (of_nat (length paths) :: 64 word) = length paths"
    using sortedChildPaths_length [OF wf] by (simp add: paths_def unat_of_nat)
  ultimately show ?thesis using that bs'(2) by simp
qed

lemma put_all_children:
  assumes "children_wf i cs"
  shows "fold_result (put_child i) (map (child_pair cs) (sortedChildPaths cs)) fmempty = Ok cs"
proof -
  have "fmfilter (\<lambda>j. Path (the (fmlookup cs j)) \<in> set (sortedChildPaths cs)) cs = cs"
  proof (intro fmap_ext)
    fix j show "fmlookup (fmfilter (\<lambda>j. Path (the (fmlookup cs j)) \<in> set (sortedChildPaths cs)) cs) j = fmlookup cs j"
      by (cases "fmlookup cs j") (auto simp: sortedChildPaths_set)
  qed
  with put_children [OF assms, of "sortedChildPaths cs" "[]"] show ?thesis by simp
qed

subsection \<open>Roots\<close>

lemma new_lifetime: "Start l < End l \<Longrightarrow> new_NamespaceLifetime (Start l) (End l) 0 = Ok l"
  by (auto simp: new_NamespaceLifetime_def not_le)

lemma push_back_alias:
  assumes r: "m_id r = rh_id h" and ids: "\<forall>x \<in> set (m_rootHistory h). m_id x = rh_id h"
    and share: "share \<longleftrightarrow> \<not> rh_empty h \<and> canExtend r (rh_back h)"
    and p: "p = (if share then m_pChildren (rh_back h) else fresh_children (m_rootHistory h))"
  shows "rh_back_setAlias (rh_id h) (m_alias r) (rh_push_back (m_ownerAddress r) (m_lifetime r) h)
    = Ok (h\<lparr>m_rootHistory := m_rootHistory h @ [(new_RootNamespace (m_id r) (m_ownerAddress r) (m_lifetime r) p)\<lparr>m_alias := m_alias r\<rparr>],
         m_store := (if share then m_store h else (m_store h)(p := fmempty))\<rparr>)"
proof -
  have ext: "\<not> rh_empty h \<and> canExtend (new_RootNamespace (rh_id h) (m_ownerAddress r) (m_lifetime r) q) (rh_back h) \<longleftrightarrow> share" for q
    using r share by (simp add: canExtend_def new_RootNamespace_def)
  show ?thesis
  proof (cases share)
    case True
    with share ids back_in_history [of h] have bk: "m_id (rh_back h) = rh_id h" "m_ownerAddress (rh_back h) = m_ownerAddress r"
      by (auto simp: canExtend_def)
    have "rh_push_back (m_ownerAddress r) (m_lifetime r) h
      = h\<lparr>m_rootHistory := m_rootHistory h @ [(renew (m_lifetime r) (rh_back h))\<lparr>m_alias := m_alias (rh_back h)\<rparr>]\<rparr>"
      using ext True by (simp add: rh_push_back_def Let_def)
    with True bk r p show ?thesis
      by (simp add: rh_back_setAlias_def root_setAlias_def renew_def new_RootNamespace_def rh_back_def)
  next
    case False
    have "rh_push_back (m_ownerAddress r) (m_lifetime r) h
      = h\<lparr>m_rootHistory := m_rootHistory h @ [new_RootNamespace (rh_id h) (m_ownerAddress r) (m_lifetime r) p],
          m_store := (m_store h)(p := fmempty)\<rparr>"
    proof -
      have "\<not> (\<not> rh_empty h \<and> canExtend (new_RootNamespace (rh_id h) (m_ownerAddress r) (m_lifetime r) p) (rh_back h))"
        using ext False by blast
      moreover have "m_pChildren (new_RootNamespace (rh_id h) (m_ownerAddress r) (m_lifetime r) p) = p" by (simp add: new_RootNamespace_def)
      ultimately show ?thesis using False p by (auto simp: rh_push_back_def Let_def)
    qed
    with False r show ?thesis
      by (simp add: rh_back_setAlias_def root_setAlias_def new_RootNamespace_def rh_back_def)
  qed
qed


lemma copied_ids:
  assumes "copied store xs h" "\<forall>x \<in> set xs. m_id x = i"
  shows "\<forall>x \<in> set (m_rootHistory h). m_id x = i" "rh_empty h \<longleftrightarrow> xs = []"
    "xs \<noteq> [] \<Longrightarrow> canExtend r (rh_back h) \<longleftrightarrow> canExtend r (last xs)"
proof -
  have all: "list_all2 (same_root store (m_store h)) xs (m_rootHistory h)" using assms(1) by (simp add: copied_def)
  have "m_id (m_rootHistory h ! k) = i" if "k < length (m_rootHistory h)" for k
    using all that assms(2) by (simp add: list_all2_conv_all_nth same_root_def)
  then show "\<forall>x \<in> set (m_rootHistory h). m_id x = i" by (metis in_set_conv_nth)
  show "rh_empty h \<longleftrightarrow> xs = []" using all by (auto simp: rh_empty_def)
  assume "xs \<noteq> []"
  moreover from this have "m_rootHistory h \<noteq> []" using all by auto
  ultimately have "same_root store (m_store h) (last xs) (rh_back h)"
    using all list_all2_lengthD [OF all] by (simp add: list_all2_conv_all_nth last_conv_nth rh_back_def)
  then show "canExtend r (rh_back h) \<longleftrightarrow> canExtend r (last xs)" by (simp add: same_root_def canExtend_def)
qed

lemma LoadRootNamespace_step:
  assumes copied: "copied store xs h" "linked (xs @ [r])" "\<forall>x \<in> set (xs @ [r]). root_ok (rh_id h) x"
    and wf: "children_wf (rh_id h) (root_children store r)"
    and save: "SaveRootNamespace store (if xs = [] then None else Some (last xs)) r = Ok bs"
  shows "\<exists>h'. LoadRootNamespace h (bs @ rest) = Ok (h', rest) \<and> copied store (xs @ [r]) h' \<and> rh_id h' = rh_id h"
proof -
  define share where "share \<longleftrightarrow> xs \<noteq> [] \<and> canExtend r (last xs)"
  define p where "p = (if share then m_pChildren (rh_back h) else fresh_children (m_rootHistory h))"
  define r' where "r' = (new_RootNamespace (m_id r) (m_ownerAddress r) (m_lifetime r) p)\<lparr>m_alias := m_alias r\<rparr>"
  define h1 where "h1 = h\<lparr>m_rootHistory := m_rootHistory h @ [r'], m_store := (if share then m_store h else (m_store h)(p := fmempty))\<rparr>"
  define h2 where "h2 = h\<lparr>m_rootHistory := m_rootHistory h @ [r'], m_store := (if share then m_store h else (m_store h)(p := root_children store r))\<rparr>"
  have ids: "\<forall>x \<in> set xs. m_id x = rh_id h" "m_id r = rh_id h" and pos: "Start (m_lifetime r) < End (m_lifetime r)"
    using copied(3) by (auto simp: root_ok_def)
  note cp = copied_ids [OF copied(1) ids(1)]
  have "share \<longleftrightarrow> \<not> rh_empty h \<and> canExtend r (rh_back h)" using cp(2) cp(3) [of r] by (auto simp: share_def)
  then have push: "rh_back_setAlias (rh_id h) (m_alias r) (rh_push_back (m_ownerAddress r) (m_lifetime r) h) = Ok h1"
    using push_back_alias [OF ids(2) cp(1) _ p_def] by (simp add: h1_def r'_def)
  have back1: "rh_back h1 = r'" "\<not> rh_empty h1" "m_id r' = rh_id h" "m_pChildren r' = p"
    using ids(2) by (simp_all add: h1_def rh_back_def rh_empty_def r'_def new_RootNamespace_def)
  have h2: "copied store (xs @ [r]) h2"
    using copied_step [OF copied(1,2) share_def p_def] by (simp add: h2_def r'_def)
  obtain cbs where bs: "bs = write_array 24 (m_ownerAddress r) @ Write64 (Start (m_lifetime r)) @ Write64 (End (m_lifetime r)) @ SaveAlias (m_alias r) @ cbs"
    and cbs: "(if share then Ok (Write64 0) else SaveChildren store r) = Ok cbs"
    using save by (auto simp: SaveRootNamespace_def share_def split: if_splits)
  have LA: "LoadAlias (SaveAlias a @ input) = Ok (a, input)" for a input using alias_serializer.load_save by blast
  have "LoadRootNamespace h (bs @ rest) = Ok (h2, rest)"
  proof (cases share)
    case True
    with cbs have "cbs = Write64 0" by simp
    moreover have "h2 = h1" using True by (simp add: h1_def h2_def)
    ultimately show ?thesis
      using new_lifetime [OF pos] push by (simp add: LoadRootNamespace_def bs LA)
  next
    case False
    let ?pairs = "map (child_pair (root_children store r)) (sortedChildPaths (root_children store r))"
    obtain bs' where bs': "cbs = Write64 (of_nat (length (sortedChildPaths (root_children store r)))) @ bs'"
      "load_n (LoadChild (rh_id h)) (unat (of_nat (length (sortedChildPaths (root_children store r))) :: 64 word)) (bs' @ rest) = Ok (?pairs, rest)"
      using LoadChildren_SaveChildren [OF wf ids(2)] False cbs by (metis (no_types, lifting))
    have "back_children h1 = fmempty" using False back1 by (simp add: root_children_def) (simp add: h1_def)
    moreover have "\<forall>q \<in> set ?pairs. fst q \<noteq> [] \<and> ns_id (fst q) \<noteq> rh_id h"
      using path_child [OF wf] by (fastforce simp: child_pair_def)
    ultimately have "fold_result AddChild ?pairs h1 = Ok (h1\<lparr>m_store := (m_store h1)(m_pChildren (rh_back h1) := root_children store r)\<rparr>)"
      using AddChildren_put [OF back1(2) _ _, of "rh_id h" ?pairs] put_all_children [OF wf] back1 by simp
    moreover have "h1\<lparr>m_store := (m_store h1)(m_pChildren (rh_back h1) := root_children store r)\<rparr> = h2"
      unfolding back1(1,4) using False by (simp add: h1_def h2_def)
    ultimately show ?thesis
      using new_lifetime [OF pos] push bs' by (simp add: LoadRootNamespace_def bs LA)
  qed
  with h2 show ?thesis by (auto simp: h2_def)
qed


lemma LoadRootNamespaces_SaveRootNamespaces:
  assumes "copied store xs h" "linked (xs @ rs)" "\<forall>x \<in> set (xs @ rs). root_ok (rh_id h) x"
    and "\<forall>r \<in> set rs. children_wf (rh_id h) (root_children store r)"
    and "SaveRootNamespaces store (if xs = [] then None else Some (last xs)) rs = Ok bs"
  shows "\<exists>h'. LoadRootNamespaces (length rs) h (bs @ rest) = Ok (h', rest) \<and> copied store (xs @ rs) h' \<and> rh_id h' = rh_id h"
  using assms
proof (induction rs arbitrary: xs h bs)
  case (Cons r rs)
  obtain b bs' where b: "SaveRootNamespace store (if xs = [] then None else Some (last xs)) r = Ok b"
    "SaveRootNamespaces store (Some r) rs = Ok bs'" "bs = b @ bs'" using Cons.prems(5) by auto
  have "linked (xs @ [r])" using Cons.prems(2) linked_prefix [of "xs @ [r]" rs] by simp
  from LoadRootNamespace_step [OF Cons.prems(1) this _ _ b(1), of "bs' @ rest"] Cons.prems(3,4)
  obtain h1 where h1: "LoadRootNamespace h (b @ bs' @ rest) = Ok (h1, bs' @ rest)" "copied store (xs @ [r]) h1" "rh_id h1 = rh_id h"
    by auto
  from Cons.IH [OF h1(2), of bs'] Cons.prems(2-4) b(2) h1(3)
  obtain h' where "LoadRootNamespaces (length rs) h1 (bs' @ rest) = Ok (h', rest)" "copied store ((xs @ [r]) @ rs) h'" "rh_id h' = rh_id h"
    by auto
  with h1(1) b(3) show ?case by simp
qed simp

text \<open>Paths of at most 256 identifiers can be written.\<close>

definition paths_fit :: "children \<Rightarrow> bool" where
  "paths_fit cs \<longleftrightarrow> list_all (\<lambda>path. length path \<le> 256) (sortedChildPaths cs)"

lemma save_all_Ok: "\<forall>x \<in> set xs. \<exists>b. f x = Ok b \<Longrightarrow> \<exists>bs. save_all f xs = Ok bs"
  by (induction xs) auto

lemma SaveChildren_Ok:
  assumes wf: "children_wf i (root_children store r)" and id: "m_id r = i" and fit: "paths_fit (root_children store r)"
  shows "\<exists>bs. SaveChildren store r = Ok bs"
proof -
  have "\<exists>b. SaveChild store r path = Ok b" if path: "path \<in> set (sortedChildPaths (root_children store r))" for path
  proof -
    obtain d where d: "fmlookup (root_children store r) (ns_id path) = Some d" "ns_id path \<noteq> i" using path_child [OF wf path] by blast
    have "length path \<le> 256" using fit path by (simp add: paths_fit_def list_all_iff)
    then have "length path - 1 \<le> 255" by linarith
    then have "checked_cast8 (length path - 1) = Ok (of_nat (length path - 1))" by (simp add: checked_cast8_def)
    moreover have "root_alias store r (path ! (length path - 1)) = Ok (Alias d)"
      using d id by (simp add: root_alias_def ns_id_def)
    ultimately show ?thesis by (simp add: SaveChild_def)
  qed
  with save_all_Ok [of "sortedChildPaths (root_children store r)" "SaveChild store r"] show ?thesis
    by (auto simp: SaveChildren_def Let_def)
qed

lemma SaveRootNamespaces_Ok:
  "\<forall>r \<in> set rs. children_wf i (root_children store r) \<and> m_id r = i \<and> paths_fit (root_children store r)
    \<Longrightarrow> \<exists>bs. SaveRootNamespaces store previous rs = Ok bs"
proof (induction rs arbitrary: previous)
  case (Cons r rs)
  have "\<exists>cs. SaveChildren store r = Ok cs" using Cons.prems by (intro SaveChildren_Ok [of i]) auto
  then have "\<exists>b. SaveRootNamespace store previous r = Ok b" by (auto simp: SaveRootNamespace_def)
  moreover have "\<exists>bs. SaveRootNamespaces store (Some r) rs = Ok bs" by (rule Cons.IH) (use Cons.prems in simp)
  ultimately show ?case by auto
qed simp

text \<open>
  C21: A root namespace history that is written by the serializer of the cache is read back with all its
  roots: the identifier and the owner, lifetime, alias and children of every root are kept, the
  children that renewed roots share are shared again, and nothing of what follows is consumed.
  Writing never throws if no path has more than 256 identifiers.
\<close>

theorem namespace_serializer:
  assumes "history_inv h" "rh_historyDepth h < 2 ^ 64" "list_all (\<lambda>r. paths_fit (root_children (m_store h) r)) (m_rootHistory h)"
  shows "\<exists>bs h'. SaveHistory h = Ok bs \<and> LoadHistory (bs @ rest) = Ok (h', rest)
    \<and> history_inv h' \<and> rh_id h' = rh_id h \<and> rh_view h' = rh_view h"
proof -
  have "\<forall>r \<in> set (m_rootHistory h). children_wf (rh_id h) (root_children (m_store h) r) \<and> m_id r = rh_id h \<and> paths_fit (root_children (m_store h) r)"
    using assms(1,3) by (auto simp: history_inv_def root_ok_def root_children_def list_all_iff)
  then obtain bs' where save: "SaveRootNamespaces (m_store h) None (m_rootHistory h) = Ok bs'"
    using SaveRootNamespaces_Ok by metis
  define bs where "bs = Write64 (of_nat (rh_historyDepth h)) @ Write64 (rh_id h) @ bs'"
  note bs' = save bs_def
  let ?new = "new_RootNamespaceHistory (rh_id h)"
  have new: "copied (m_store h) [] ?new" "rh_id ?new = rh_id h"
    by (simp_all add: copied_def new_RootNamespaceHistory_def)
  have "\<exists>h'. LoadRootNamespaces (length (m_rootHistory h)) ?new (bs' @ rest) = Ok (h', rest)
      \<and> copied (m_store h) ([] @ m_rootHistory h) h' \<and> rh_id h' = rh_id ?new"
    using assms(1) bs'(1) by (intro LoadRootNamespaces_SaveRootNamespaces [OF new(1)]) (auto simp: new(2) history_inv_def root_children_def)
  then obtain h' where h': "LoadRootNamespaces (length (m_rootHistory h)) ?new (bs' @ rest) = Ok (h', rest)"
    "copied (m_store h) (m_rootHistory h) h'" "rh_id h' = rh_id h" by (auto simp: new(2))
  have "unat (of_nat (rh_historyDepth h) :: 64 word) = length (m_rootHistory h)"
    using assms(2) by (simp add: unat_of_nat rh_historyDepth_def)
  then have "LoadHistory (bs @ rest) = Ok (h', rest)" using h'(1) by (simp add: LoadHistory_def bs'(2))
  moreover have "SaveHistory h = Ok bs" using save by (simp add: SaveHistory_def bs_def)
  ultimately show ?thesis using copied_history [OF assms(1) h'(2,3)] h'(3) by blast
qed

theorem namespace_serializer_witness:
  "let h = rh_push_back 7 \<lparr>Start = 1, End = 20\<rparr> (new_RootNamespaceHistory 5)
   in \<exists>bs h'. SaveHistory h = Ok bs \<and> LoadHistory bs = Ok (h', []) \<and> rh_view h' = [(5, 7, \<lparr>Start = 1, End = 20\<rparr>, No_Alias, fmempty)]"
proof -
  define h where "h = rh_push_back 7 \<lparr>Start = 1, End = 20\<rparr> (new_RootNamespaceHistory 5)"
  have h: "h = \<lparr>rh_id = 5, m_rootHistory = [\<lparr>m_id = 5, m_alias = No_Alias, m_ownerAddress = 7, m_lifetime = \<lparr>Start = 1, End = 20\<rparr>, m_pChildren = 0\<rparr>], m_store = (\<lambda>_. fmempty)\<rparr>"
    by (simp add: h_def rh_push_back_def rh_empty_def new_RootNamespaceHistory_def new_RootNamespace_def fresh_children_def fun_upd_idem)
  have inv: "history_inv h" by (auto simp: h history_inv_def root_ok_def)
  have "sortedChildPaths fmempty = []" by (simp add: sortedChildPaths_def)
  then have fit: "list_all (\<lambda>r. paths_fit (root_children (m_store h) r)) (m_rootHistory h)"
    by (simp add: h root_children_def paths_fit_def)
  have "rh_historyDepth h < 2 ^ 64" by (simp add: h rh_historyDepth_def)
  from namespace_serializer [OF inv this fit, of "[]"]
  obtain bs h' where bs: "SaveHistory h = Ok bs" "LoadHistory bs = Ok (h', [])" "rh_view h' = rh_view h" by auto
  moreover have "rh_view h = [(5, 7, \<lparr>Start = 1, End = 20\<rparr>, No_Alias, fmempty)]" by (simp add: rh_view_def h root_children_def)
  ultimately show ?thesis using bs by (simp add: Let_def h_def [symmetric])
qed

end
