(* ===== verification/Finalization_Model.thy ===== *)
theory Finalization_Model
  imports Account_State Byte_Stream
begin

section \<open>Finalization: rounds, voting sets, contexts and messages\<close>

text \<open>
  The data of finalization: \<^verbatim>\<open>src/src/bitxorcore/model/FinalizationRound\<close>, \<^verbatim>\<open>HeightHashPair.h\<close> and \<^verbatim>\<open>VotingSet.cpp\<close>, and
  \<^verbatim>\<open>StepIdentifier\<close>, \<^verbatim>\<open>FinalizationContext\<close> and \<^verbatim>\<open>FinalizationMessage\<close> of
  \<^verbatim>\<open>src/extensions/finalization/src/model\<close>.  An epoch is voted by the accounts of a voting set, which the context
  collects with their weights from the account histories at the end of the previous epoch.  A message names
  a chain of hashes (a prevote) or one hash (a precommit) and carries the signature of its voter; the
  verification of signatures and the hash of a message are parameters.
\<close>

unbundle bit_operations_syntax

subsection \<open>Rounds and steps\<close>

type_synonym finalization_point = "32 word"

datatype finalization_round = Finalization_Round (rd_Epoch: epoch) (rd_Point: finalization_point)

definition round_less :: "finalization_round \<Rightarrow> finalization_round \<Rightarrow> bool" where
  "round_less l r \<longleftrightarrow> (if rd_Epoch l \<noteq> rd_Epoch r then rd_Epoch l < rd_Epoch r else rd_Point l < rd_Point r)"

instantiation finalization_round :: linorder
begin

definition less_finalization_round :: "finalization_round \<Rightarrow> finalization_round \<Rightarrow> bool" where
  "less_finalization_round = round_less"

definition less_eq_finalization_round :: "finalization_round \<Rightarrow> finalization_round \<Rightarrow> bool" where
  "less_eq_finalization_round l r \<longleftrightarrow> l < r \<or> l = r" for l r :: finalization_round

instance
proof
  fix x y z :: finalization_round
  show "(x < y) = (x \<le> y \<and> \<not> y \<le> x)"
    by (cases x; cases y) (auto simp: less_finalization_round_def round_less_def less_eq_finalization_round_def)
  show "x \<le> x" by (simp add: less_eq_finalization_round_def)
  show "x \<le> y \<Longrightarrow> y \<le> z \<Longrightarrow> x \<le> z"
    by (cases x; cases y; cases z)
      (auto simp: less_finalization_round_def round_less_def less_eq_finalization_round_def split: if_splits)
  show "x \<le> y \<Longrightarrow> y \<le> x \<Longrightarrow> x = y"
    by (cases x; cases y) (auto simp: less_finalization_round_def round_less_def less_eq_finalization_round_def split: if_splits)
  show "x \<le> y \<or> y \<le> x"
    by (cases x; cases y) (auto simp: less_finalization_round_def round_less_def less_eq_finalization_round_def)
qed

end

definition round_add :: "finalization_round \<Rightarrow> finalization_point \<Rightarrow> finalization_round" where
  "round_add r p = Finalization_Round (rd_Epoch r) (rd_Point r + p)"

definition round_sub :: "finalization_round \<Rightarrow> finalization_point \<Rightarrow> finalization_round" where
  "round_sub r p = Finalization_Round (rd_Epoch r) (rd_Point r - p)"

text \<open>The stage is an enumeration over \<^verbatim>\<open>uint32_t\<close>, and message groups are received with any value of it.\<close>

type_synonym finalization_stage = "32 word"

definition Stage_Prevote :: finalization_stage where "Stage_Prevote = 0"

definition Stage_Precommit :: finalization_stage where "Stage_Precommit = 1"

record step_identifier =
  si_Epoch :: epoch
  si_PointStage :: "32 word"

definition new_StepIdentifier :: "epoch \<Rightarrow> finalization_point \<Rightarrow> finalization_stage \<Rightarrow> step_identifier" where
  "new_StepIdentifier e p s = \<lparr>si_Epoch = e, si_PointStage = push_bit 1 p OR (s AND 1)\<rparr>"

definition si_Round :: "step_identifier \<Rightarrow> finalization_round" where
  "si_Round i = Finalization_Round (si_Epoch i) (drop_bit 1 (si_PointStage i))"

definition si_Stage :: "step_identifier \<Rightarrow> finalization_stage" where
  "si_Stage i = si_PointStage i AND 1"

definition StepIdentifierToBmKeyIdentifier :: "step_identifier \<Rightarrow> 64 word" where
  "StepIdentifierToBmKeyIdentifier i = ucast (si_Epoch i)"

lemma si_Stage_cases: "si_Stage i = Stage_Prevote \<or> si_Stage i = Stage_Precommit"
  by (cases "even (si_PointStage i)") (simp_all add: si_Stage_def Stage_Prevote_def Stage_Precommit_def and_one_eq mod2_eq_if)

lemma si_Stage_new [simp]: "si_Stage (new_StepIdentifier e p s) = s AND 1"
  unfolding si_Stage_def new_StepIdentifier_def step_identifier.simps
  by (rule bit_word_eqI) (auto simp: bit_simps simp del: push_bit_Suc drop_bit_Suc)

lemma si_Round_new: "p < 2 ^ 31 \<Longrightarrow> si_Round (new_StepIdentifier e p s) = Finalization_Round e p"
proof -
  assume p: "p < 2 ^ 31"
  have "drop_bit 1 (push_bit 1 p OR (s AND 1)) = take_bit 31 p"
    by (rule bit_word_eqI) (auto simp: bit_simps simp del: push_bit_Suc drop_bit_Suc)
  also have "\<dots> = p" using p by (simp add: word_less_nat_alt word_unat_eq_iff unsigned_take_bit_eq take_bit_nat_def)
  finally show ?thesis by (simp add: si_Round_def new_StepIdentifier_def)
qed

text \<open>A step identifier is the round and the stage.\<close>

lemma step_identifier_eqI: "si_Round i = si_Round j \<Longrightarrow> si_Stage i = si_Stage j \<Longrightarrow> i = j"
proof -
  assume rounds: "si_Round i = si_Round j" and stages: "si_Stage i = si_Stage j"
  have "push_bit 1 (drop_bit 1 w) OR (w AND 1) = w" for w :: "32 word"
    by (rule bit_word_eqI) (auto simp: bit_simps simp del: push_bit_Suc drop_bit_Suc)
  with rounds stages have "si_PointStage i = si_PointStage j"
    unfolding si_Round_def si_Stage_def by (metis finalization_round.inject)
  with rounds show ?thesis by (cases i, cases j) (simp add: si_Round_def)
qed

subsection \<open>Height and hash pairs\<close>

datatype height_hash_pair = Height_Hash_Pair (hh_Height: height) (hh_Hash: hash256)

text \<open>The comparison is \<^verbatim>\<open>RoundContext::HeightHashPairComparer\<close>.\<close>

definition pair_less :: "height_hash_pair \<Rightarrow> height_hash_pair \<Rightarrow> bool" where
  "pair_less l r \<longleftrightarrow> hh_Height l < hh_Height r \<or> (hh_Height l = hh_Height r \<and> hh_Hash l < hh_Hash r)"

instantiation height_hash_pair :: linorder
begin

definition less_height_hash_pair :: "height_hash_pair \<Rightarrow> height_hash_pair \<Rightarrow> bool" where
  "less_height_hash_pair = pair_less"

definition less_eq_height_hash_pair :: "height_hash_pair \<Rightarrow> height_hash_pair \<Rightarrow> bool" where
  "less_eq_height_hash_pair l r \<longleftrightarrow> l < r \<or> l = r" for l r :: height_hash_pair

instance
proof
  fix x y z :: height_hash_pair
  show "(x < y) = (x \<le> y \<and> \<not> y \<le> x)"
    by (cases x; cases y) (auto simp: less_height_hash_pair_def pair_less_def less_eq_height_hash_pair_def)
  show "x \<le> x" by (simp add: less_eq_height_hash_pair_def)
  show "x \<le> y \<Longrightarrow> y \<le> z \<Longrightarrow> x \<le> z"
    by (cases x; cases y; cases z) (auto simp: less_height_hash_pair_def pair_less_def less_eq_height_hash_pair_def)
  show "x \<le> y \<Longrightarrow> y \<le> x \<Longrightarrow> x = y"
    by (cases x; cases y) (auto simp: less_height_hash_pair_def pair_less_def less_eq_height_hash_pair_def)
  show "x \<le> y \<or> y \<le> x"
    by (cases x; cases y) (auto simp: less_height_hash_pair_def pair_less_def less_eq_height_hash_pair_def)
qed

end

subsection \<open>Voting sets\<close>

definition CheckParameters :: "bool \<Rightarrow> 64 word \<Rightarrow> unit result" where
  "CheckParameters isZero grouping =
     (if 0 = grouping then Err Invalid_Argument else if isZero then Err Invalid_Argument else Ok ())"

definition CalculateVotingSetStartHeight :: "epoch \<Rightarrow> 64 word \<Rightarrow> height result" where
  "CalculateVotingSetStartHeight e grouping =
     map_result (\<lambda>_. if e \<le> 2 then ucast e else ucast (e - 2) * grouping + 1) (CheckParameters (0 = e) grouping)"

definition CalculateVotingSetEndHeight :: "epoch \<Rightarrow> 64 word \<Rightarrow> height result" where
  "CalculateVotingSetEndHeight e grouping =
     map_result (\<lambda>_. if 1 = e then 1 else ucast (e - 1) * grouping) (CheckParameters (0 = e) grouping)"

definition CalculateFinalizationEpochForHeight :: "height \<Rightarrow> 64 word \<Rightarrow> epoch result" where
  "CalculateFinalizationEpochForHeight h grouping =
     map_result (\<lambda>_. if h \<le> 1 then 1
        else 1 + (if 0 = h mod grouping then 0 else 1) + ucast (h div grouping)) (CheckParameters (0 = h) grouping)"

subsection \<open>Finalization contexts\<close>

record finalization_configuration =
  cf_EnableVoting :: bool
  cf_EnableRevoteOnBoot :: bool
  cf_Size :: "64 word"
  cf_Threshold :: "64 word"
  cf_StepDuration :: "64 word"
  cf_MessageSynchronizationMaxResponseSize :: "64 word"
  cf_MaxHashesPerPoint :: "32 word"
  cf_PrevoteBlocksMultiple :: "16 word"
  cf_UnfinalizedBlocksDuration :: "64 word"
  cf_TreasuryReissuanceEpoch :: epoch
  cf_IneligibleVoterAddresses :: "address set"
  cf_VotingSetGrouping :: "64 word"

record finalization_context =
  fc_epoch :: epoch
  fc_height :: height
  fc_generationHash :: hash256
  fc_config :: finalization_configuration
  fc_weight :: amount
  fc_accounts :: "key \<rightharpoonup> amount"

text \<open>
  One iteration of the loop over the high value accounts.  \<^verbatim>\<open>emplace\<close> keeps the account that is already
  there, while the weight is added in either case.
\<close>

definition context_account ::
  "finalization_configuration \<Rightarrow> epoch \<Rightarrow> height \<Rightarrow> address \<times> account_history
   \<Rightarrow> amount \<times> (key \<rightharpoonup> amount) \<Rightarrow> amount \<times> (key \<rightharpoonup> amount)" where
  "context_account config e h p acc =
     (let bal = hist_get 0 (balance_history (snd p)) h in
      if 0 = bal then acc
      else let votingKey = FindVotingPublicKeyForEpoch (hist_get [] (voting_history (snd p)) h) e in
        if 0 = votingKey then acc
        else if cf_TreasuryReissuanceEpoch config \<le> e \<and> fst p \<in> cf_IneligibleVoterAddresses config then acc
        else (fst acc + bal, if snd acc votingKey = None then (snd acc)(votingKey \<mapsto> bal) else snd acc))"

definition new_FinalizationContext ::
  "epoch \<Rightarrow> height \<Rightarrow> hash256 \<Rightarrow> finalization_configuration \<Rightarrow> (address \<times> account_history) list \<Rightarrow> finalization_context" where
  "new_FinalizationContext e h generationHash config histories =
     (let acc = fold (context_account config e h) histories (0, Map.empty) in
      \<lparr>fc_epoch = e, fc_height = h, fc_generationHash = generationHash, fc_config = config,
       fc_weight = fst acc, fc_accounts = snd acc\<rparr>)"

definition fc_lookup :: "finalization_context \<Rightarrow> key \<Rightarrow> amount" where
  "fc_lookup c k = (case fc_accounts c k of None \<Rightarrow> 0 | Some w \<Rightarrow> w)"

definition isEligibleVoter :: "finalization_context \<Rightarrow> key \<Rightarrow> bool" where
  "isEligibleVoter c k \<longleftrightarrow> 0 \<noteq> fc_lookup c k"

text \<open>\<^verbatim>\<open>FinalizationContextFactory::create\<close>: the generation hashes and the account histories come from the node.\<close>

definition create_FinalizationContext ::
  "finalization_configuration \<Rightarrow> (height \<Rightarrow> hash256 result) \<Rightarrow> (address \<times> account_history) list
   \<Rightarrow> epoch \<Rightarrow> finalization_context result" where
  "create_FinalizationContext config generationHashAt histories e =
     (if 0 = e then Err Invalid_Argument
      else bind_result (CalculateVotingSetEndHeight (e - 1) (cf_VotingSetGrouping config)) (\<lambda>h.
        map_result (\<lambda>g. new_FinalizationContext e h g config histories) (generationHashAt h)))"

subsection \<open>Messages\<close>

record bm_tree_signature =
  sig_RootPublicKey :: key
  sig_RootSignature :: "512 word"
  sig_BottomPublicKey :: key
  sig_BottomSignature :: "512 word"

text \<open>The number of hashes is the length of the list; messages whose size does not match are dropped on receipt.\<close>

record finalization_message =
  fm_Reserved1 :: "32 word"
  fm_Signature :: bm_tree_signature
  fm_Version :: "32 word"
  fm_StepIdentifier :: step_identifier
  fm_Height :: height
  fm_Hashes :: "hash256 list"

definition fm_Current_Version :: "32 word" where "fm_Current_Version = 1"

definition fm_HashesCount :: "finalization_message \<Rightarrow> 32 word" where
  "fm_HashesCount m = of_nat (length (fm_Hashes m))"

text \<open>\<^verbatim>\<open>sizeof(FinalizationMessage)\<close> is 224, of which the first 200 bytes are the header that is not signed.\<close>

definition fm_Size :: "finalization_message \<Rightarrow> 32 word" where
  "fm_Size m = 224 + fm_HashesCount m * 32"

definition fm_Buffer :: "finalization_message \<Rightarrow> bytes" where
  "fm_Buffer m = Write32 (fm_Version m) @ Write32 (fm_HashesCount m) @ Write32 (si_Epoch (fm_StepIdentifier m))
     @ Write32 (si_PointStage (fm_StepIdentifier m)) @ Write64 (fm_Height m) @ concat (map (write_array 32) (fm_Hashes m))"

definition fm_Voter :: "finalization_message \<Rightarrow> key" where
  "fm_Voter m = sig_RootPublicKey (fm_Signature m)"

datatype process_message_result =
  Failure_Signature | Failure_Padding | Failure_Version | Failure_Voter | Process_Success

definition ProcessMessage ::
  "(bm_tree_signature \<Rightarrow> 64 word \<Rightarrow> bytes \<Rightarrow> bool) \<Rightarrow> finalization_message \<Rightarrow> finalization_context
   \<Rightarrow> process_message_result \<times> 64 word" where
  "ProcessMessage verify m c =
     (let weight = fc_lookup c (fm_Voter m) in
      if 0 = weight then (Failure_Voter, 0)
      else if 0 \<noteq> fm_Reserved1 m then (Failure_Padding, 0)
      else if fm_Current_Version \<noteq> fm_Version m then (Failure_Version, 0)
      else if \<not> verify (fm_Signature m) (StepIdentifierToBmKeyIdentifier (fm_StepIdentifier m)) (fm_Buffer m)
        then (Failure_Signature, 0)
      else (Process_Success, weight))"

text \<open>
  \<^verbatim>\<open>PrepareMessage\<close>: the key tree of the node decides whether it can sign at an identifier, and signing
  changes it.
\<close>

definition PrepareMessage ::
  "('t \<Rightarrow> 64 word \<Rightarrow> bool) \<Rightarrow> (64 word \<Rightarrow> bytes \<Rightarrow> 't \<Rightarrow> bm_tree_signature \<times> 't) \<Rightarrow> step_identifier \<Rightarrow> height \<Rightarrow> hash256 list
   \<Rightarrow> 't \<Rightarrow> finalization_message option \<times> 't" where
  "PrepareMessage canSign sign i h hashes tree =
     (let keyIdentifier = StepIdentifierToBmKeyIdentifier i in
      if \<not> canSign tree keyIdentifier then (None, tree)
      else let unsigned = \<lparr>fm_Reserved1 = 0, fm_Signature = \<lparr>sig_RootPublicKey = 0, sig_RootSignature = 0,
                             sig_BottomPublicKey = 0, sig_BottomSignature = 0\<rparr>,
                           fm_Version = fm_Current_Version, fm_StepIdentifier = i, fm_Height = h, fm_Hashes = hashes\<rparr>;
               (signature, tree') = sign keyIdentifier (fm_Buffer unsigned) tree
        in (Some (unsigned\<lparr>fm_Signature := signature\<rparr>), tree'))"

subsection \<open>Epochs of heights\<close>

lemma unat_ucast_epoch: "unat (ucast e :: 64 word) = unat e" for e :: epoch
  using unsigned_less [of e, where 'a=nat] by (simp add: unsigned_ucast_eq take_bit_nat_eq_self)

lemma voting_set_end:
  assumes "e \<noteq> 0" "g \<noteq> 0" "unat e * unat g < 2 ^ 64"
  shows "\<exists>t. CalculateVotingSetEndHeight e g = Ok t \<and> unat t = (if e = 1 then 1 else (unat e - 1) * unat g)"
proof (cases "e = 1")
  case False
  have e: "unat (e - 1) = unat e - 1" using assms(1) by unat_arith
  have "unat (ucast (e - 1) * g :: 64 word) = (unat e - 1) * unat g"
    using assms(3) diff_mult_distrib [of "unat e" 1 "unat g"] unfolding unat_mult_lem [symmetric]
    by (subst unat_mult_lem [THEN iffD1]) (simp_all add: unat_ucast_epoch e)
  with False assms show ?thesis by (simp add: CalculateVotingSetEndHeight_def CheckParameters_def)
qed (use assms in \<open>simp add: CalculateVotingSetEndHeight_def CheckParameters_def\<close>)

lemma voting_set_start:
  assumes "e \<noteq> 0" "g \<noteq> 0" "unat e * unat g < 2 ^ 64"
  shows "\<exists>s. CalculateVotingSetStartHeight e g = Ok s \<and> unat s = (if e \<le> 2 then unat e else (unat e - 2) * unat g + 1)"
proof (cases "e \<le> 2")
  case False
  then have e: "unat (e - 2) = unat e - 2" "2 < unat e" by unat_arith+
  have g: "0 < unat g" using assms(2) by (simp add: unat_gt_0)
  have split: "unat e * unat g = (unat e - 2) * unat g + 2 * unat g"
    using e(2) by (metis add.commute le_add_diff_inverse less_imp_le_nat distrib_right)
  have p: "unat (ucast (e - 2) * g :: 64 word) = (unat e - 2) * unat g"
    using assms(3) split by (subst unat_mult_lem [THEN iffD1]) (simp_all add: unat_ucast_epoch e)
  have "unat (ucast (e - 2) * g + 1 :: 64 word) = (unat e - 2) * unat g + 1"
    using assms(3) split g p by (subst unat_add_lem [THEN iffD1]) simp_all
  with False assms show ?thesis by (simp add: CalculateVotingSetStartHeight_def CheckParameters_def)
qed (use assms in \<open>simp add: CalculateVotingSetStartHeight_def CheckParameters_def unat_ucast_epoch\<close>)

lemma finalization_epoch_for_height:
  assumes "h \<noteq> 0" "g \<noteq> 0" "unat h div unat g + 2 < 2 ^ 32"
  shows "\<exists>e. CalculateFinalizationEpochForHeight h g = Ok e
      \<and> unat e = (if unat h = 1 then 1 else 1 + (if unat g dvd unat h then 0 else 1) + unat h div unat g)"
proof -
  have h: "h \<le> 1 \<longleftrightarrow> unat h = 1" using assms(1) by unat_arith
  have m: "0 = h mod g \<longleftrightarrow> unat g dvd unat h" by (metis dvd_eq_mod_eq_0 unat_eq_zero unat_mod)
  have q: "unat (ucast (h div g) :: epoch) = unat h div unat g"
    using assms(3) by (simp add: unsigned_ucast_eq unat_div take_bit_nat_eq_self)
  have "unat (1 + (if unat g dvd unat h then 0 else 1) + ucast (h div g) :: epoch) = 1 + (if unat g dvd unat h then 0 else 1) + unat h div unat g"
    using assms(3) q by (auto simp: unat_add_lem [THEN iffD1])
  then show ?thesis using assms(1,2) h m by (auto simp: CalculateFinalizationEpochForHeight_def CheckParameters_def)
qed

lemma voting_set_disjoint:
  fixes a b h g :: nat
  assumes "0 < a" "a < b" "0 < g" "h \<le> (if a = 1 then 1 else (a - 1) * g)" "(if b \<le> 2 then b else (b - 2) * g + 1) \<le> h"
  shows False
proof (cases "a = 1")
  case True
  then have "h \<le> 1" "2 < b" using assms(2,4,5) by (auto split: if_splits)
  then have "(b - 2) * g + 1 \<le> h" using assms(5) by simp
  with \<open>h \<le> 1\<close> have "(b - 2) * g < 1" by linarith
  with assms(3) \<open>2 < b\<close> show False by simp
next
  case False
  then have "h \<le> (a - 1) * g" "(b - 2) * g + 1 \<le> h" using assms by auto
  moreover have "(a - 1) * g \<le> (b - 2) * g" using assms(2) by (intro mult_le_mono1) auto
  ultimately show False by linarith
qed

lemma voting_set_interval:
  fixes e h g :: nat
  assumes "0 < h" "0 < g" "e = (if h = 1 then 1 else 1 + (if g dvd h then 0 else 1) + h div g)"
  shows "(if e \<le> 2 then e else (e - 2) * g + 1) \<le> h" "h \<le> (if e = 1 then 1 else (e - 1) * g)"
    and "\<And>e'. 0 < e' \<Longrightarrow> (if e' \<le> 2 then e' else (e' - 2) * g + 1) \<le> h \<Longrightarrow> h \<le> (if e' = 1 then 1 else (e' - 1) * g) \<Longrightarrow> e' = e"
proof -
  show lower: "(if e \<le> 2 then e else (e - 2) * g + 1) \<le> h"
  proof (cases "g dvd h")
    case True
    then obtain q where q: "h = g * q" by (auto simp: dvd_def)
    with assms have "0 < q" "e = (if h = 1 then 1 else 1 + q)" by auto
    with q assms show ?thesis by (cases q) (auto simp: algebra_simps)
  next
    case False
    then have "h = h div g * g + h mod g" "0 < h mod g" by (auto simp: mod_greater_zero_iff_not_dvd)
    with False assms(1,3) show ?thesis by (cases "h div g") (auto simp: algebra_simps)
  qed
  show upper: "h \<le> (if e = 1 then 1 else (e - 1) * g)"
  proof (cases "g dvd h")
    case True
    then show ?thesis using assms by (auto simp: dvd_def)
  next
    case False
    have "h < (h div g + 1) * g" using assms(2) by (metis dividend_less_div_times add.commute mult.commute mult_Suc_right plus_1_eq_Suc)
    with False assms(3) show ?thesis by simp
  qed
  fix e' :: nat
  assume e': "0 < e'" "(if e' \<le> 2 then e' else (e' - 2) * g + 1) \<le> h" "h \<le> (if e' = 1 then 1 else (e' - 1) * g)"
  have "0 < e" using assms(3) by simp
  then show "e' = e"
    using voting_set_disjoint [OF e'(1) _ assms(2) e'(3) lower] voting_set_disjoint [OF _ _ assms(2) upper e'(2)]
    by (cases e' e rule: linorder_cases) blast+
qed

text \<open>
  C27: The epoch of a height is the one epoch whose voting set starts at or below the height and ends at or
  above it, as long as neither the heights nor the epochs overflow.
\<close>

theorem voting_set_epoch:
  assumes "h \<noteq> 0" "g \<noteq> 0" "unat h div unat g + 2 < 2 ^ 32" "unat h + 2 * unat g < 2 ^ 64"
  shows "\<exists>e s t. CalculateFinalizationEpochForHeight h g = Ok e
      \<and> CalculateVotingSetStartHeight e g = Ok s \<and> CalculateVotingSetEndHeight e g = Ok t \<and> s \<le> h \<and> h \<le> t
      \<and> (\<forall>e' s' t'. e' \<noteq> 0 \<and> unat e' * unat g < 2 ^ 64 \<and> CalculateVotingSetStartHeight e' g = Ok s'
           \<and> CalculateVotingSetEndHeight e' g = Ok t' \<and> s' \<le> h \<and> h \<le> t' \<longrightarrow> e' = e)"
proof -
  have pos: "0 < unat h" "0 < unat g" using assms(1,2) by (simp_all add: unat_gt_0)
  obtain e where e: "CalculateFinalizationEpochForHeight h g = Ok e"
    and ue: "unat e = (if unat h = 1 then 1 else 1 + (if unat g dvd unat h then 0 else 1) + unat h div unat g)"
    using finalization_epoch_for_height [OF assms(1-3)] by blast
  have "unat e \<le> unat h div unat g + 2" using ue by auto
  then have "unat e * unat g \<le> (unat h div unat g + 2) * unat g" by (rule mult_le_mono1)
  also have "\<dots> \<le> unat h + 2 * unat g" by (simp add: distrib_right)
  finally have fits: "unat e * unat g < 2 ^ 64" using assms(4) by simp
  have "e \<noteq> 0" using ue by (auto split: if_splits)
  note ends = voting_set_start [OF this assms(2) fits] voting_set_end [OF this assms(2) fits]
  have small: "e' \<le> 2 \<longleftrightarrow> unat e' \<le> 2" "e' = 1 \<longleftrightarrow> unat e' = 1" for e' :: epoch by (simp_all add: word_le_nat_alt word_unat_eq_iff)
  note interval = voting_set_interval [OF pos ue]
  obtain s where s: "CalculateVotingSetStartHeight e g = Ok s" "s \<le> h"
    using ends(1) interval(1) unfolding small word_le_nat_alt by auto
  obtain t where t: "CalculateVotingSetEndHeight e g = Ok t" "h \<le> t"
    using ends(2) interval(2) unfolding small word_le_nat_alt [of h] by auto
  have "e' = e" if "e' \<noteq> 0" "unat e' * unat g < 2 ^ 64" "CalculateVotingSetStartHeight e' g = Ok s'"
      "CalculateVotingSetEndHeight e' g = Ok t'" "s' \<le> h" "h \<le> t'" for e' s' t'
  proof -
    have "(if unat e' \<le> 2 then unat e' else (unat e' - 2) * unat g + 1) \<le> unat h"
      using voting_set_start [OF that(1) assms(2) that(2)] that(3,5) unfolding small word_le_nat_alt by auto
    moreover have "unat h \<le> (if unat e' = 1 then 1 else (unat e' - 1) * unat g)"
      using voting_set_end [OF that(1) assms(2) that(2)] that(4,6) unfolding small word_le_nat_alt [of h] by auto
    ultimately have "unat e' = unat e" using interval(3) that(1) by (simp add: unat_gt_0)
    then show ?thesis by (simp add: word_unat_eq_iff)
  qed
  with e s t show ?thesis by blast
qed

theorem voting_set_epoch_witness:
  "\<exists>e s t. CalculateFinalizationEpochForHeight 1441 720 = Ok e
      \<and> CalculateVotingSetStartHeight e 720 = Ok s \<and> CalculateVotingSetEndHeight e 720 = Ok t \<and> s \<le> 1441 \<and> 1441 \<le> t"
proof -
  have "(1441 :: height) \<noteq> 0" "(720 :: 64 word) \<noteq> 0" "unat (1441 :: height) div unat (720 :: 64 word) + 2 < 2 ^ 32"
      "unat (1441 :: height) + 2 * unat (720 :: 64 word) < 2 ^ 64" by simp_all
  from voting_set_epoch [OF this] show ?thesis by blast
qed

subsection \<open>Weights of a context\<close>

definition weight_sum :: "finalization_context \<Rightarrow> key set \<Rightarrow> nat" where
  "weight_sum c V = (\<Sum>v\<in>V. unat (fc_lookup c v))"

text \<open>The eligible voters together weigh no more than the weight of the context.\<close>

definition context_wf :: "finalization_context \<Rightarrow> bool" where
  "context_wf c \<longleftrightarrow> finite (dom (fc_accounts c)) \<and> weight_sum c (dom (fc_accounts c)) \<le> unat (fc_weight c)"

lemma weight_sum_le: "context_wf c \<Longrightarrow> finite V \<Longrightarrow> weight_sum c V \<le> unat (fc_weight c)"
proof -
  assume wf: "context_wf c" and V: "finite V"
  have "weight_sum c V = weight_sum c (V \<inter> dom (fc_accounts c))"
    unfolding weight_sum_def by (rule sum.mono_neutral_right) (use V in \<open>auto simp: fc_lookup_def domIff\<close>)
  also have "\<dots> \<le> weight_sum c (dom (fc_accounts c))"
    unfolding weight_sum_def by (rule sum_mono2) (use wf in \<open>auto simp: context_wf_def\<close>)
  finally show ?thesis using wf by (simp add: context_wf_def)
qed

lemma context_accounts_fold:
  assumes "finite (dom A)" "(\<Sum>k\<in>dom A. unat (the (A k))) \<le> unat W"
    "unat W + sum_list (map (\<lambda>p. unat (hist_get 0 (balance_history (snd p)) h)) histories) < 2 ^ 64"
    "fold (context_account config e h) histories (W, A) = (W', A')"
  shows "finite (dom A') \<and> (\<Sum>k\<in>dom A'. unat (the (A' k))) \<le> unat W'"
  using assms
proof (induction histories arbitrary: W A)
  case (Cons p histories)
  let ?b = "hist_get 0 (balance_history (snd p)) h"
  obtain W1 A1 where step: "context_account config e h p (W, A) = (W1, A1)" by fastforce
  have "unat (W + ?b) = unat W + unat ?b" using Cons.prems(3) by (subst unat_add_lem [THEN iffD1]) simp_all
  moreover have "(\<Sum>k\<in>dom A. unat (the ((A(v \<mapsto> ?b)) k))) = (\<Sum>k\<in>dom A. unat (the (A k)))" if "A v = None" for v
    using that by (intro sum.cong) (auto simp: domIff)
  ultimately have "finite (dom A1) \<and> (\<Sum>k\<in>dom A1. unat (the (A1 k))) \<le> unat W1 \<and> unat W1 \<le> unat W + unat ?b"
    using step Cons.prems(1,2) by (auto simp: context_account_def Let_def domIff split: if_splits)
  with Cons.IH [of A1 W1] Cons.prems(3,4) step show ?case by simp
qed simp

lemma new_FinalizationContext_wf:
  assumes "sum_list (map (\<lambda>p. unat (hist_get 0 (balance_history (snd p)) h)) histories) < 2 ^ 64"
  shows "context_wf (new_FinalizationContext e h g config histories)"
proof -
  obtain W A where acc: "fold (context_account config e h) histories (0, Map.empty) = (W, A)" by fastforce
  have "finite (dom A) \<and> (\<Sum>k\<in>dom A. unat (the (A k))) \<le> unat W"
    by (rule context_accounts_fold [OF _ _ _ acc]) (use assms in simp_all)
  moreover have "(\<Sum>k\<in>dom A. unat (case A k of None \<Rightarrow> 0 | Some w \<Rightarrow> w)) = (\<Sum>k\<in>dom A. unat (the (A k)))"
    by (rule sum.cong) auto
  ultimately show ?thesis by (simp add: context_wf_def weight_sum_def fc_lookup_def new_FinalizationContext_def acc)
qed

subsection \<open>The signed bytes determine what is signed\<close>

lemma length_write_array [simp]: "length (write_array n w) = n"
  by (simp add: write_array_def)

lemma concat_write_array_inject:
  "concat (map (write_array 32) xs) = concat (map (write_array 32) ys) \<Longrightarrow> xs = ys" for xs ys :: "hash256 list"
proof (induction xs arbitrary: ys)
  case Nil
  then show ?case by (cases ys) (auto dest: arg_cong [where f = length])
next
  case (Cons x xs)
  then obtain y ys' where ys: "ys = y # ys'" by (cases ys) (auto dest: arg_cong [where f = length])
  with Cons.prems have eqs: "write_array 32 x = write_array 32 y" "concat (map (write_array 32) xs) = concat (map (write_array 32) ys')"
    by (simp_all add: append_eq_append_conv)
  from eqs(1) have "x = y" by (metis read_write_arrays(2) [of _ "[]"] Pair_inject result.inject(1))
  with Cons.IH [OF eqs(2)] ys show ?case by simp
qed

lemma fm_Buffer_inject:
  assumes "fm_Buffer m = fm_Buffer m'"
  shows "fm_Version m = fm_Version m' \<and> fm_StepIdentifier m = fm_StepIdentifier m' \<and> fm_Height m = fm_Height m' \<and> fm_Hashes m = fm_Hashes m'"
proof -
  have eqs: "Write32 a @ r = Write32 b @ s \<longleftrightarrow> a = b \<and> r = s" for a b r s
    by (metis Read_Write(2) Pair_inject result.inject(1))
  have eq64: "Write64 a @ r = Write64 b @ s \<longleftrightarrow> a = b \<and> r = s" for a b r s
    by (metis Read_Write(1) Pair_inject result.inject(1))
  show ?thesis
    using assms concat_write_array_inject unfolding fm_Buffer_def eqs eq64
    by (cases "fm_StepIdentifier m", cases "fm_StepIdentifier m'") auto
qed

end
