(* ===== verification/Finalization_Round.thy ===== *)
theory Finalization_Round
  imports Finalization_Model
begin

section \<open>Finalization: the votes of a round\<close>

text \<open>
  The hash tree, the round context and the message aggregator of one round,
  \<^verbatim>\<open>FinalizationHashTree\<close>, \<^verbatim>\<open>RoundContext\<close> and \<^verbatim>\<open>RoundMessageAggregator\<close> of
  \<^verbatim>\<open>src/extensions/finalization/src/chain\<close>.  The tree holds the blocks that prevotes name, each with a pointer to
  the parent under which it was first named.  The context adds up, for every block, the weights of the
  prevotes that name it and of the precommits for it and its descendants; precommits for blocks the tree does not
  hold wait until a prevote names them.
\<close>

subsection \<open>FinalizationHashTree\<close>

text \<open>
  The nodes of the \<^verbatim>\<open>unordered_set\<close>, the last inserted first.  Two nodes are equal if their keys are, so a
  pointer to a node is its key; \<open>None\<close> is the null pointer.
\<close>

type_synonym hash_tree = "(height_hash_pair \<times> height_hash_pair option) list"

definition tree_size :: "hash_tree \<Rightarrow> nat" where
  "tree_size t = length t"

definition tryFindNode :: "hash_tree \<Rightarrow> height_hash_pair \<Rightarrow> height_hash_pair option" where
  "tryFindNode t k = (if map_of t k = None then None else Some k)"

definition tree_contains :: "hash_tree \<Rightarrow> height_hash_pair \<Rightarrow> bool" where
  "tree_contains t k \<longleftrightarrow> tryFindNode t k \<noteq> None"

text \<open>The pointer \<^verbatim>\<open>pParent\<close> of a node of the tree.\<close>

definition pParent :: "hash_tree \<Rightarrow> height_hash_pair \<Rightarrow> height_hash_pair option" where
  "pParent t k = (case map_of t k of None \<Rightarrow> None | Some p \<Rightarrow> p)"

text \<open>
  The loops that follow the parent pointers.  A walk visits every node at most once, so the number of
  nodes is enough fuel; that the walks end at a null pointer is shown below.
\<close>

fun ancestors_loop :: "nat \<Rightarrow> hash_tree \<Rightarrow> height_hash_pair option \<Rightarrow> height_hash_pair list" where
  "ancestors_loop n t None = []"
| "ancestors_loop 0 t (Some k) = []"
| "ancestors_loop (Suc n) t (Some k) = k # ancestors_loop n t (pParent t k)"

fun descendant_loop :: "nat \<Rightarrow> hash_tree \<Rightarrow> height_hash_pair \<Rightarrow> height_hash_pair option \<Rightarrow> bool" where
  "descendant_loop n t parentKey None = False"
| "descendant_loop 0 t parentKey (Some k) = False"
| "descendant_loop (Suc n) t parentKey (Some k) = (if k = parentKey then True else descendant_loop n t parentKey (pParent t k))"

definition findAncestors :: "hash_tree \<Rightarrow> height_hash_pair \<Rightarrow> height_hash_pair list" where
  "findAncestors t k = ancestors_loop (tree_size t) t (tryFindNode t k)"

definition tree_isDescendant :: "hash_tree \<Rightarrow> height_hash_pair \<Rightarrow> height_hash_pair \<Rightarrow> bool" where
  "tree_isDescendant t parentKey childKey = descendant_loop (tree_size t) t parentKey (tryFindNode t childKey)"

text \<open>The keys of a branch; heights wrap around.\<close>

fun branch_keys :: "height \<Rightarrow> hash256 list \<Rightarrow> height_hash_pair list" where
  "branch_keys h [] = []"
| "branch_keys h (x # xs) = Height_Hash_Pair h x # branch_keys (h + 1) xs"

definition tree_insert :: "height_hash_pair \<Rightarrow> height_hash_pair option \<Rightarrow> hash_tree \<Rightarrow> hash_tree" where
  "tree_insert k p t = (if map_of t k = None then (k, p) # t else t)"

fun addBranch_loop :: "height_hash_pair option \<Rightarrow> height_hash_pair list \<Rightarrow> hash_tree \<Rightarrow> hash_tree" where
  "addBranch_loop p [] t = t"
| "addBranch_loop p (k # ks) t = addBranch_loop (Some k) ks (tree_insert k p t)"

definition addBranch :: "height \<Rightarrow> hash256 list \<Rightarrow> hash_tree \<Rightarrow> hash_tree" where
  "addBranch h hashes t = addBranch_loop None (branch_keys h hashes) t"

subsection \<open>RoundContext\<close>

record vote_weights =
  w_Prevote :: "64 word"
  w_Precommit :: "64 word"

definition no_weights :: vote_weights where
  "no_weights = \<lparr>w_Prevote = 0, w_Precommit = 0\<rparr>"

record round_context =
  rc_totalWeight :: "64 word"
  rc_threshold :: "64 word"
  rc_cumulativePrecommitWeight :: "64 word"
  rc_tree :: hash_tree
  rc_candidates :: "(height_hash_pair \<times> vote_weights) list"
  rc_pending :: "height_hash_pair \<rightharpoonup> 64 word"

definition new_RoundContext :: "64 word \<Rightarrow> 64 word \<Rightarrow> round_context" where
  "new_RoundContext weight threshold =
     \<lparr>rc_totalWeight = weight, rc_threshold = threshold, rc_cumulativePrecommitWeight = 0, rc_tree = [],
      rc_candidates = [], rc_pending = Map.empty\<rparr>"

definition rc_size :: "round_context \<Rightarrow> nat" where
  "rc_size c = length (rc_candidates c)"

definition tryFindLastMatch :: "(height_hash_pair \<Rightarrow> vote_weights \<Rightarrow> bool) \<Rightarrow> round_context \<Rightarrow> height_hash_pair option" where
  "tryFindLastMatch P c = map_option fst (find (\<lambda>(k, w). P k w) (rev (rc_candidates c)))"

definition tryFindBestPrevote :: "round_context \<Rightarrow> height_hash_pair option" where
  "tryFindBestPrevote c = tryFindLastMatch (\<lambda>_ w. w_Prevote w \<ge> rc_threshold c) c"

definition tryFindBestPrecommit :: "round_context \<Rightarrow> height_hash_pair option" where
  "tryFindBestPrecommit c = tryFindLastMatch (\<lambda>_ w. w_Prevote w \<ge> rc_threshold c \<and> w_Precommit w \<ge> rc_threshold c) c"

definition canReachPrecommitThreshold :: "round_context \<Rightarrow> vote_weights \<Rightarrow> bool" where
  "canReachPrecommitThreshold c w \<longleftrightarrow>
     w_Precommit w + (rc_totalWeight c - rc_cumulativePrecommitWeight c) \<ge> rc_threshold c"

definition tryFindEstimate_below :: "height_hash_pair \<Rightarrow> round_context \<Rightarrow> height_hash_pair option" where
  "tryFindEstimate_below bestPrevote c =
     tryFindLastMatch (\<lambda>k w. tree_isDescendant (rc_tree c) k bestPrevote \<and> canReachPrecommitThreshold c w) c"

definition tryFindEstimate :: "round_context \<Rightarrow> height_hash_pair option" where
  "tryFindEstimate c = (case tryFindBestPrevote c of None \<Rightarrow> None | Some best \<Rightarrow> tryFindEstimate_below best c)"

definition rc_isDescendant :: "round_context \<Rightarrow> height_hash_pair \<Rightarrow> height_hash_pair \<Rightarrow> bool" where
  "rc_isDescendant c parentKey childKey = tree_isDescendant (rc_tree c) parentKey childKey"

definition isCompletable :: "round_context \<Rightarrow> bool" where
  "isCompletable c =
     (case tryFindBestPrevote c of
        None \<Rightarrow> False
      | Some best \<Rightarrow>
          (case tryFindEstimate_below best c of
             Some e \<Rightarrow> best \<noteq> e
           | None \<Rightarrow> False)
          \<or> (if canReachPrecommitThreshold c no_weights then False
             else \<not> list_ex (\<lambda>(k, w). best \<noteq> k \<and> tree_isDescendant (rc_tree c) best k \<and> canReachPrecommitThreshold c w)
                     (rev (rc_candidates c))))"

definition rc_weights :: "round_context \<Rightarrow> height_hash_pair \<Rightarrow> vote_weights" where
  "rc_weights c k = (case map_of (rc_candidates c) k of None \<Rightarrow> no_weights | Some w \<Rightarrow> w)"

text \<open>
  The loop that adds a precommit weight to the candidates of a list of ancestors.  Every node of the tree is a
  candidate when it runs, so the iterator \<^verbatim>\<open>find\<close> returns is valid.
\<close>

definition add_precommit_weight :: "64 word \<Rightarrow> height_hash_pair \<Rightarrow> (height_hash_pair \<times> vote_weights) list \<Rightarrow> (height_hash_pair \<times> vote_weights) list" where
  "add_precommit_weight weight k cs =
     (case map_of cs k of None \<Rightarrow> cs | Some w \<Rightarrow> om_update k (w\<lparr>w_Precommit := w_Precommit w + weight\<rparr>) cs)"

definition acceptPrevote_key :: "64 word \<Rightarrow> height_hash_pair \<Rightarrow> round_context \<Rightarrow> round_context" where
  "acceptPrevote_key weight k c =
     (let inserted = om_insert (<) k no_weights (rc_candidates c);
          w = the (map_of inserted k);
          counted = om_update k (w\<lparr>w_Prevote := w_Prevote w + weight\<rparr>) inserted
      in case rc_pending c k of
           None \<Rightarrow> c\<lparr>rc_candidates := counted\<rparr>
         | Some pending \<Rightarrow>
             c\<lparr>rc_candidates := fold (add_precommit_weight pending) (findAncestors (rc_tree c) k) counted,
               rc_cumulativePrecommitWeight := rc_cumulativePrecommitWeight c + pending,
               rc_pending := (rc_pending c)(k := None)\<rparr>)"

definition acceptPrevote :: "height \<Rightarrow> hash256 list \<Rightarrow> 64 word \<Rightarrow> round_context \<Rightarrow> round_context" where
  "acceptPrevote h hashes weight c =
     fold (acceptPrevote_key weight) (branch_keys h hashes) (c\<lparr>rc_tree := addBranch h hashes (rc_tree c)\<rparr>)"

definition acceptPrecommit :: "height \<Rightarrow> hash256 \<Rightarrow> 64 word \<Rightarrow> round_context \<Rightarrow> round_context" where
  "acceptPrecommit h hash weight c =
     (let k = Height_Hash_Pair h hash;
          ancestorKeys = findAncestors (rc_tree c) k
      in if ancestorKeys = []
         then c\<lparr>rc_pending := (rc_pending c)(k \<mapsto> (case rc_pending c k of None \<Rightarrow> 0 | Some w \<Rightarrow> w) + weight)\<rparr>
         else c\<lparr>rc_candidates := fold (add_precommit_weight weight) ancestorKeys (rc_candidates c),
                rc_cumulativePrecommitWeight := rc_cumulativePrecommitWeight c + weight\<rparr>)"

subsection \<open>RoundMessageAggregator\<close>

datatype add_result =
  Failure_Invalid_Hashes | Failure_Invalid_Point | Failure_Invalid_Height | Failure_Processing | Failure_Conflicting
  | Neutral_Redundant | Success_Prevote | Success_Precommit

text \<open>A key of the map of messages: the voter and whether the message is a prevote.\<close>

type_synonym message_key = "key \<times> bool"

record message_descriptor =
  md_Message :: finalization_message
  md_Hash :: hash256
  md_ShortHash :: "32 word"

definition ToShortHash :: "hash256 \<Rightarrow> 32 word" where
  "ToShortHash h = bytes_word (take 4 (write_array 32 h))"

definition CreateMessageDescriptor :: "(finalization_message \<Rightarrow> hash256) \<Rightarrow> finalization_message \<Rightarrow> message_descriptor" where
  "CreateMessageDescriptor messageHash m =
     \<lparr>md_Message = m, md_Hash = messageHash m, md_ShortHash = ToShortHash (messageHash m)\<rparr>"

definition CalculateWeightedThreshold :: "finalization_context \<Rightarrow> 64 word" where
  "CalculateWeightedThreshold c = fc_weight c * cf_Threshold (fc_config c) div cf_Size (fc_config c)"

definition IsPrevote :: "finalization_message \<Rightarrow> bool" where
  "IsPrevote m \<longleftrightarrow> Stage_Prevote = si_Stage (fm_StepIdentifier m)"

text \<open>The messages are listed the last added first; an iteration over them is in the sequence of a parameter.\<close>

record round_aggregator =
  ra_context :: finalization_context
  ra_maxResponseSize :: "64 word"
  ra_round :: round_context
  ra_messages :: "(message_key \<times> message_descriptor) list"

definition CreateRoundMessageAggregator :: "finalization_context \<Rightarrow> round_aggregator" where
  "CreateRoundMessageAggregator c =
     \<lparr>ra_context = c, ra_maxResponseSize = cf_MessageSynchronizationMaxResponseSize (fc_config c),
      ra_round = new_RoundContext (fc_weight c) (CalculateWeightedThreshold c), ra_messages = []\<rparr>"

definition ra_size :: "round_aggregator \<Rightarrow> nat" where
  "ra_size a = length (ra_messages a)"

definition ra_shortHashes ::
  "((message_key \<times> message_descriptor) list \<Rightarrow> (message_key \<times> message_descriptor) list) \<Rightarrow> round_aggregator \<Rightarrow> 32 word list" where
  "ra_shortHashes order a = map (\<lambda>p. md_ShortHash (snd p)) (order (ra_messages a))"

fun unknown_loop :: "64 word \<Rightarrow> 32 word set \<Rightarrow> 64 word \<Rightarrow> (message_key \<times> message_descriptor) list \<Rightarrow> finalization_message list" where
  "unknown_loop maxSize known totalSize [] = []"
| "unknown_loop maxSize known totalSize (p # ps) =
     (if md_ShortHash (snd p) \<notin> known
      then let totalSize' = totalSize + ucast (fm_Size (md_Message (snd p))) in
        if totalSize' > maxSize then [] else md_Message (snd p) # unknown_loop maxSize known totalSize' ps
      else unknown_loop maxSize known totalSize ps)"

definition ra_unknownMessages ::
  "((message_key \<times> message_descriptor) list \<Rightarrow> (message_key \<times> message_descriptor) list) \<Rightarrow> 32 word set \<Rightarrow> round_aggregator
   \<Rightarrow> finalization_message list" where
  "ra_unknownMessages order known a = unknown_loop (ra_maxResponseSize a) known 0 (order (ra_messages a))"

text \<open>The hashes of a prevote have to lie within its epoch; a precommit has one hash.\<close>

definition check_hashes :: "finalization_configuration \<Rightarrow> finalization_message \<Rightarrow> height \<Rightarrow> bool result" where
  "check_hashes config m lastHashHeight =
     (if IsPrevote m
      then bind_result (CalculateVotingSetEndHeight (si_Epoch (fm_StepIdentifier m) - 1) (cf_VotingSetGrouping config)) (\<lambda>epochMinHeight.
           map_result (\<lambda>epochMaxHeight. \<not> (fm_Height m < epochMinHeight \<or> lastHashHeight > epochMaxHeight))
             (CalculateVotingSetEndHeight (si_Epoch (fm_StepIdentifier m)) (cf_VotingSetGrouping config)))
      else Ok (1 = fm_HashesCount m))"

definition add_to_round :: "(finalization_message \<Rightarrow> hash256) \<Rightarrow> (bm_tree_signature \<Rightarrow> 64 word \<Rightarrow> bytes \<Rightarrow> bool)
   \<Rightarrow> finalization_message \<Rightarrow> round_aggregator \<Rightarrow> add_result \<times> round_aggregator" where
  "add_to_round messageHash verify m a =
     (case map_of (ra_messages a) (fm_Voter m, IsPrevote m) of
        Some d \<Rightarrow> (if md_Hash d = messageHash m then Neutral_Redundant else Failure_Conflicting, a)
      | None \<Rightarrow>
          let (processResult, weight) = ProcessMessage verify m (ra_context a);
              a' = a\<lparr>ra_messages := ((fm_Voter m, IsPrevote m), CreateMessageDescriptor messageHash m) # ra_messages a\<rparr>
          in if Process_Success \<noteq> processResult then (Failure_Processing, a)
             else if IsPrevote m
             then (Success_Prevote, a'\<lparr>ra_round := acceptPrevote (fm_Height m) (fm_Hashes m) weight (ra_round a)\<rparr>)
             else (Success_Precommit, a'\<lparr>ra_round := acceptPrecommit (fm_Height m) (hd (fm_Hashes m)) weight (ra_round a)\<rparr>))"

definition ra_add :: "(finalization_message \<Rightarrow> hash256) \<Rightarrow> (bm_tree_signature \<Rightarrow> 64 word \<Rightarrow> bytes \<Rightarrow> bool)
   \<Rightarrow> finalization_message \<Rightarrow> round_aggregator \<Rightarrow> (add_result \<times> round_aggregator) result" where
  "ra_add messageHash verify m a =
     (let config = fc_config (ra_context a);
          lastHashHeight = fm_Height m + ucast (fm_HashesCount m - 1)
      in if 0 = fm_HashesCount m \<or> fm_HashesCount m > cf_MaxHashesPerPoint config then Ok (Failure_Invalid_Hashes, a)
         else if fc_height (ra_context a) > lastHashHeight then Ok (Failure_Invalid_Height, a)
         else map_result (\<lambda>valid. if valid then add_to_round messageHash verify m a else (Failure_Invalid_Hashes, a))
                (check_hashes config m lastHashHeight))"

subsection \<open>The hash tree\<close>

text \<open>A parent is inserted before its children, so the walk to the root is a recursion over the list.\<close>

fun tree_ok :: "hash_tree \<Rightarrow> bool" where
  "tree_ok [] = True"
| "tree_ok ((k, p) # t) = (map_of t k = None \<and> (case p of None \<Rightarrow> True | Some q \<Rightarrow> map_of t q \<noteq> None) \<and> tree_ok t)"

fun tree_path :: "hash_tree \<Rightarrow> height_hash_pair \<Rightarrow> height_hash_pair list" where
  "tree_path [] k = []"
| "tree_path ((k', p) # t) k =
     (if k = k' then k # (case p of None \<Rightarrow> [] | Some q \<Rightarrow> tree_path t q) else tree_path t k)"

abbreviation tree_keys :: "hash_tree \<Rightarrow> height_hash_pair set" where
  "tree_keys t \<equiv> dom (map_of t)"

lemma tree_path_absent [simp]: "k \<notin> tree_keys t \<Longrightarrow> tree_path t k = []"
  by (induction t k rule: tree_path.induct) (auto split: if_splits)

lemma tree_path_subset: "set (tree_path t k) \<subseteq> tree_keys t"
proof (induction t arbitrary: k)
  case (Cons n t)
  obtain k' p where n: "n = (k', p)" by fastforce
  show ?case
    using Cons.IH [of k] Cons.IH [of "the p"] by (cases p) (auto simp: n)
qed simp

lemma tree_path_head: "k \<in> tree_keys t \<Longrightarrow> \<exists>ks. tree_path t k = k # ks"
  by (induction t k rule: tree_path.induct) (auto split: if_splits)

lemma tree_path_self: "k \<in> tree_keys t \<Longrightarrow> k \<in> set (tree_path t k)"
  using tree_path_head by fastforce

lemma distinct_tree_path: "tree_ok t \<Longrightarrow> distinct (tree_path t k)"
proof (induction t arbitrary: k)
  case (Cons n t)
  obtain k' p where n: "n = (k', p)" by fastforce
  show ?case
    using Cons.IH Cons.prems tree_path_subset [of t "the p"] by (cases p) (auto simp: n)
qed simp

lemma length_tree_path: "length (tree_path t k) \<le> length t"
proof (induction t arbitrary: k)
  case (Cons n t)
  obtain k' p where n: "n = (k', p)" by fastforce
  show ?case using Cons.IH [of k] Cons.IH [of "the p"] by (cases p) (auto simp: n)
qed simp

lemma tree_path_append: "k \<in> tree_keys t \<Longrightarrow> tree_ok (xs @ t) \<Longrightarrow> tree_path (xs @ t) k = tree_path t k"
proof (induction xs)
  case (Cons x xs)
  moreover have "fst x \<notin> tree_keys (xs @ t)" using Cons.prems(2) by (cases x) auto
  then have "k \<noteq> fst x" using Cons.prems(1) by (auto simp: map_of_append split: option.splits)
  ultimately show ?case by (cases x) simp
qed simp

lemma pParent_Cons: "pParent ((k', p) # t) k = (if k = k' then p else pParent t k)"
  by (simp add: pParent_def)

lemma pParent_keys: "tree_ok t \<Longrightarrow> pParent t k = Some q \<Longrightarrow> q \<in> tree_keys t"
  by (induction t rule: tree_ok.induct) (auto simp: pParent_Cons domIff pParent_def split: if_splits)

lemma tree_path_unfold:
  "tree_ok t \<Longrightarrow> k \<in> tree_keys t \<Longrightarrow> tree_path t k = k # (case pParent t k of None \<Rightarrow> [] | Some q \<Rightarrow> tree_path t q)"
proof (induction t)
  case (Cons n t)
  obtain k' p where n: "n = (k', p)" by fastforce
  have ok: "tree_ok t" using Cons.prems by (simp add: n)
  have old: "j \<in> tree_keys t \<Longrightarrow> tree_path (n # t) j = tree_path t j" for j using Cons.prems by (auto simp: n)
  show ?case
  proof (cases "k = k'")
    case True
    then show ?thesis using Cons.prems(1) old by (cases p) (auto simp: n pParent_Cons)
  next
    case False
    then have "k \<in> tree_keys t" using Cons.prems(2) by (auto simp: n domIff)
    then have "tree_path (n # t) k = k # (case pParent t k of None \<Rightarrow> [] | Some q \<Rightarrow> tree_path t q)"
      using Cons.IH [OF ok] old by simp
    then show ?thesis
      using False old pParent_keys [OF ok, of k] by (cases "pParent t k") (simp_all add: n pParent_Cons)
  qed
qed simp

lemma ancestors_loop_path:
  "tree_ok t \<Longrightarrow> k \<in> tree_keys t \<Longrightarrow> length (tree_path t k) \<le> n \<Longrightarrow> ancestors_loop n t (Some k) = tree_path t k"
proof (induction n arbitrary: k)
  case 0
  then show ?case using tree_path_head [of k t] by auto
next
  case (Suc n)
  from tree_path_unfold [OF Suc.prems(1,2)] pParent_keys [OF Suc.prems(1), of k] Suc.prems(3) Suc.IH [OF Suc.prems(1)]
  show ?case by (cases "pParent t k") auto
qed

text \<open>The walks end at a null pointer: any fuel from the number of nodes on gives the same result.\<close>

lemma findAncestors_path: "tree_ok t \<Longrightarrow> findAncestors t k = tree_path t k"
  using ancestors_loop_path [of t k "tree_size t"] length_tree_path [of t k]
  by (cases "k \<in> tree_keys t") (auto simp: findAncestors_def tryFindNode_def tree_size_def domIff)

lemma descendant_loop_ancestors: "descendant_loop n t a p \<longleftrightarrow> a \<in> set (ancestors_loop n t p)"
  by (induction n t p rule: ancestors_loop.induct) auto

lemma tree_isDescendant_path: "tree_ok t \<Longrightarrow> tree_isDescendant t a k \<longleftrightarrow> a \<in> set (tree_path t k)"
  using findAncestors_path [of t k] by (simp add: tree_isDescendant_def findAncestors_def descendant_loop_ancestors)

lemma addBranch_loop_ok:
  assumes "tree_ok t" "case p of None \<Rightarrow> True | Some q \<Rightarrow> q \<in> tree_keys t"
  shows "tree_ok (addBranch_loop p ks t) \<and> tree_keys (addBranch_loop p ks t) = tree_keys t \<union> set ks
       \<and> (\<exists>xs. addBranch_loop p ks t = xs @ t)"
  using assms
proof (induction p ks t rule: addBranch_loop.induct)
  case (2 p k ks t)
  have "tree_ok (tree_insert k p t)" using "2.prems" by (auto simp: tree_insert_def domIff split: option.splits)
  moreover have "k \<in> tree_keys (tree_insert k p t)" "tree_keys (tree_insert k p t) = insert k (tree_keys t)"
    by (auto simp: tree_insert_def)
  moreover have "\<exists>xs. tree_insert k p t = xs @ t" by (auto simp: tree_insert_def)
  ultimately show ?case using "2.IH" by (force simp del: dom_map_of_conv_image_fst)
qed (auto intro: exI [of _ "[]"])

lemma addBranch_loop_append:
  "addBranch_loop p (us @ k # vs) t = addBranch_loop (Some k) vs (addBranch_loop p (us @ [k]) t)"
  by (induction us arbitrary: p t) auto

lemma addBranch_loop_old: "tree_ok t \<Longrightarrow> k \<in> tree_keys t \<Longrightarrow> tree_path (addBranch_loop None ks t) k = tree_path t k"
  using addBranch_loop_ok [of t None ks] tree_path_append by fastforce

lemma addBranch_loop_new:
  assumes "tree_ok t"
  shows "set (tree_path (addBranch_loop None (us @ k # vs) t) k) \<subseteq> tree_keys t \<union> set us \<union> {k}"
proof -
  let ?t = "addBranch_loop None (us @ [k]) t"
  have t: "tree_ok ?t" "tree_keys ?t = tree_keys t \<union> set us \<union> {k}" using addBranch_loop_ok [OF assms, of None "us @ [k]"] by auto
  have "case Some k of None \<Rightarrow> True | Some q \<Rightarrow> q \<in> tree_keys ?t" using t(2) by simp
  from addBranch_loop_ok [OF t(1) this, of vs] obtain xs where "addBranch_loop (Some k) vs ?t = xs @ ?t" "tree_ok (xs @ ?t)" by auto
  then have "tree_path (addBranch_loop (Some k) vs ?t) k = tree_path ?t k"
    using tree_path_append [of k ?t xs] t(2) by simp
  with tree_path_subset [of ?t k] t(2) show ?thesis unfolding addBranch_loop_append [of None us k vs t] by simp
qed

subsection \<open>What the weights add up\<close>

text \<open>
  The specification of a round: the branches that were prevoted and the keys that were precommitted, each with
  its weight, the last first.  \<open>K\<close> is the set of blocks named so far.
\<close>

type_synonym prevotes = "(height_hash_pair list \<times> 64 word) list"
type_synonym precommits = "(height_hash_pair \<times> 64 word) list"

definition prevote_sum :: "prevotes \<Rightarrow> height_hash_pair \<Rightarrow> 64 word" where
  "prevote_sum vs k = sum_list (map snd (filter (\<lambda>(b, w). k \<in> set b) vs))"

definition precommit_sum :: "hash_tree \<Rightarrow> height_hash_pair set \<Rightarrow> precommits \<Rightarrow> height_hash_pair \<Rightarrow> 64 word" where
  "precommit_sum t K cs k = sum_list (map snd (filter (\<lambda>(p, w). p \<in> K \<and> k \<in> set (tree_path t p)) cs))"

definition known_sum :: "height_hash_pair set \<Rightarrow> precommits \<Rightarrow> 64 word" where
  "known_sum K cs = sum_list (map snd (filter (\<lambda>(p, w). p \<in> K) cs))"

definition key_sum :: "precommits \<Rightarrow> height_hash_pair \<Rightarrow> 64 word" where
  "key_sum cs k = sum_list (map snd (filter (\<lambda>(p, w). p = k) cs))"

definition context_rep :: "height_hash_pair set \<Rightarrow> prevotes \<Rightarrow> precommits \<Rightarrow> round_context \<Rightarrow> bool" where
  "context_rep K vs cs c \<longleftrightarrow>
     tree_ok (rc_tree c) \<and> (\<forall>v\<in>set vs. set (fst v) \<subseteq> K) \<and> K \<subseteq> tree_keys (rc_tree c) \<and> (\<forall>k\<in>K. set (tree_path (rc_tree c) k) \<subseteq> K)
     \<and> om_sorted (<) (rc_candidates c)
     \<and> map_of (rc_candidates c) = (\<lambda>k. if k \<in> K then Some \<lparr>w_Prevote = prevote_sum vs k, w_Precommit = precommit_sum (rc_tree c) K cs k\<rparr> else None)
     \<and> rc_cumulativePrecommitWeight c = known_sum K cs
     \<and> rc_pending c = (\<lambda>k. if k \<notin> K \<and> k \<in> fst ` set cs then Some (key_sum cs k) else None)"

lemma prevote_sum_Cons [simp]: "prevote_sum ((b, w) # vs) k = (if k \<in> set b then w else 0) + prevote_sum vs k"
  by (simp add: prevote_sum_def)

lemma precommit_sum_Cons [simp]:
  "precommit_sum t K ((p, w) # cs) k = (if p \<in> K \<and> k \<in> set (tree_path t p) then w else 0) + precommit_sum t K cs k"
  by (simp add: precommit_sum_def)

lemma known_sum_Cons [simp]: "known_sum K ((p, w) # cs) = (if p \<in> K then w else 0) + known_sum K cs"
  by (simp add: known_sum_def)

lemma key_sum_Cons [simp]: "key_sum ((p, w) # cs) k = (if p = k then w else 0) + key_sum cs k"
  by (simp add: key_sum_def)

lemma key_sum_absent: "k \<notin> fst ` set cs \<Longrightarrow> key_sum cs k = 0"
  by (induction cs) (auto simp: key_sum_def)

lemma precommit_sum_insert:
  "k \<notin> K \<Longrightarrow> precommit_sum t (insert k K) cs j = precommit_sum t K cs j + (if j \<in> set (tree_path t k) then key_sum cs k else 0)"
  by (induction cs) (auto simp: precommit_sum_def key_sum_def split: if_splits)

lemma known_sum_insert: "k \<notin> K \<Longrightarrow> known_sum (insert k K) cs = known_sum K cs + key_sum cs k"
  by (induction cs) (auto simp: known_sum_def key_sum_def)

lemma precommit_sum_new:
  "k \<notin> K \<Longrightarrow> \<forall>p\<in>K. set (tree_path t p) \<subseteq> K \<Longrightarrow> precommit_sum t K cs k = 0"
  by (induction cs) (auto simp: precommit_sum_def)

lemma precommit_sum_cong:
  "(\<And>p. p \<in> K \<Longrightarrow> tree_path t p = tree_path t' p) \<Longrightarrow> precommit_sum t K cs k = precommit_sum t' K cs k"
  by (induction cs) (auto simp: precommit_sum_def)

subsection \<open>Accepting votes\<close>

lemma map_of_add_precommit_weight:
  "map_of (add_precommit_weight w k cs) = (\<lambda>j. if j = k then map_option (\<lambda>v. v\<lparr>w_Precommit := w_Precommit v + w\<rparr>) (map_of cs j) else map_of cs j)"
proof (cases "map_of cs k")
  case (Some v)
  then have "k \<in> fst ` set cs" by (metis domI dom_map_of_conv_image_fst)
  with Some show ?thesis by (auto simp: add_precommit_weight_def map_of_om_update)
qed (auto simp: add_precommit_weight_def)

lemma keys_add_precommit_weight [simp]: "map fst (add_precommit_weight w k cs) = map fst cs"
  by (simp add: add_precommit_weight_def split: option.split)

lemma add_precommit_weights:
  "distinct ks \<Longrightarrow> map fst (fold (add_precommit_weight w) ks cs) = map fst cs
   \<and> map_of (fold (add_precommit_weight w) ks cs) =
       (\<lambda>j. if j \<in> set ks then map_option (\<lambda>v. v\<lparr>w_Precommit := w_Precommit v + w\<rparr>) (map_of cs j) else map_of cs j)"
proof (induction ks arbitrary: cs)
  case (Cons k ks)
  then show ?case using Cons.IH [of "add_precommit_weight w k cs"] by (auto simp: map_of_add_precommit_weight fun_eq_iff)
qed simp

lemma prevote_sum_absent: "\<forall>v\<in>set vs. set (fst v) \<subseteq> K \<Longrightarrow> k \<notin> K \<Longrightarrow> prevote_sum vs k = 0"
  by (induction vs) (auto simp: prevote_sum_def)

lemma acceptPrevote_key_rep:
  assumes rep: "context_rep K ((us, w) # vs) cs c" and k: "k \<notin> set us" "k \<in> tree_keys (rc_tree c)"
    and path: "set (tree_path (rc_tree c) k) \<subseteq> insert k K"
  shows "context_rep (insert k K) ((us @ [k], w) # vs) cs (acceptPrevote_key w k c)"
proof -
  let ?t = "rc_tree c" and ?ins = "om_insert (<) k no_weights (rc_candidates c)"
  let ?w = "the (map_of ?ins k)"
  let ?counted = "om_update k (?w\<lparr>w_Prevote := w_Prevote ?w + w\<rparr>) ?ins"
  have ok: "tree_ok ?t" and closed: "\<forall>p\<in>K. set (tree_path ?t p) \<subseteq> K" and sorted: "om_sorted (<) (rc_candidates c)"
    and cands: "map_of (rc_candidates c) = (\<lambda>k. if k \<in> K then Some \<lparr>w_Prevote = prevote_sum ((us, w) # vs) k, w_Precommit = precommit_sum ?t K cs k\<rparr> else None)"
    and known: "rc_cumulativePrecommitWeight c = known_sum K cs"
    and pend: "rc_pending c = (\<lambda>k. if k \<notin> K \<and> k \<in> fst ` set cs then Some (key_sum cs k) else None)"
    and sub: "K \<subseteq> tree_keys ?t" and votes: "\<forall>v\<in>set ((us, w) # vs). set (fst v) \<subseteq> K"
    using rep unfolding context_rep_def by blast+
  have dom: "fst ` set (rc_candidates c) = K" using cands by (simp flip: dom_map_of_conv_image_fst add: dom_def)
  have ins: "map_of ?ins = (if k \<in> K then map_of (rc_candidates c) else (map_of (rc_candidates c))(k \<mapsto> no_weights))"
    using asc.om_insert_present [OF sorted, of k] asc.map_of_om_insert [of k "rc_candidates c"] dom by simp
  have "map_of ?counted = (map_of ?ins)(k \<mapsto> ?w\<lparr>w_Prevote := w_Prevote ?w + w\<rparr>)"
    by (rule map_of_om_update) (simp add: asc.set_om_insert)
  moreover have w0: "no_weights\<lparr>w_Prevote := w_Prevote no_weights + w\<rparr> = \<lparr>w_Prevote = w, w_Precommit = 0\<rparr>"
    by (simp add: no_weights_def)
  moreover have "prevote_sum vs k = 0" "precommit_sum ?t K cs k = 0" if "k \<notin> K"
    using that prevote_sum_absent [OF votes that] precommit_sum_new [OF that closed] k(1) by auto
  ultimately have counted: "map_of ?counted = (\<lambda>j. if j \<in> insert k K then Some \<lparr>w_Prevote = prevote_sum ((us @ [k], w) # vs) j, w_Precommit = precommit_sum ?t K cs j\<rparr> else None)"
    using k(1) w0 by (cases "k \<in> K") (auto simp: ins cands fun_eq_iff)
  have scounted: "om_sorted (<) ?counted" using asc.sorted_om_insert [OF sorted] by simp
  have votes': "\<forall>v\<in>set ((us @ [k], w) # vs). set (fst v) \<subseteq> insert k K" using votes by auto
  have closed': "\<forall>p\<in>insert k K. set (tree_path ?t p) \<subseteq> insert k K" using closed path by auto
  show ?thesis
  proof (cases "rc_pending c k")
    case None
    then have same: "precommit_sum ?t (insert k K) cs = precommit_sum ?t K cs" "known_sum (insert k K) cs = known_sum K cs"
      using pend precommit_sum_insert [of k K ?t cs] known_sum_insert [of k K cs] key_sum_absent [of k cs]
      by (cases "k \<in> K"; auto simp: insert_absorb fun_eq_iff split: if_splits)+
    have "rc_pending c = (\<lambda>j. if j \<notin> insert k K \<and> j \<in> fst ` set cs then Some (key_sum cs j) else None)"
      using None pend by (auto simp: fun_eq_iff split: if_splits)
    moreover have acc: "acceptPrevote_key w k c = c\<lparr>rc_candidates := ?counted\<rparr>"
      using None by (simp add: acceptPrevote_key_def Let_def)
    then have fields: "rc_tree (acceptPrevote_key w k c) = ?t" "rc_candidates (acceptPrevote_key w k c) = ?counted"
        "rc_cumulativePrecommitWeight (acceptPrevote_key w k c) = rc_cumulativePrecommitWeight c"
        "rc_pending (acceptPrevote_key w k c) = rc_pending c" by simp_all
    ultimately show ?thesis
      unfolding context_rep_def fields same
      using ok votes' sub k(2) closed' scounted counted known by blast
  next
    case (Some x)
    then have kK: "k \<notin> K" and x: "x = key_sum cs k" using pend by (auto split: if_splits)
    let ?added = "fold (add_precommit_weight x) (findAncestors ?t k) ?counted"
    note added = add_precommit_weights [OF distinct_tree_path [OF ok], of x k ?counted]
    have anc: "findAncestors ?t k = tree_path ?t k" by (rule findAncestors_path [OF ok])
    have "map_of ?added = (\<lambda>j. if j \<in> insert k K then Some \<lparr>w_Prevote = prevote_sum ((us @ [k], w) # vs) j, w_Precommit = precommit_sum ?t (insert k K) cs j\<rparr> else None)"
      using added path unfolding anc by (auto simp: counted fun_eq_iff precommit_sum_insert [OF kK] x)
    moreover have "om_sorted (<) ?added" using added scounted unfolding anc by metis
    moreover have "(rc_pending c)(k := None) = (\<lambda>j. if j \<notin> insert k K \<and> j \<in> fst ` set cs then Some (key_sum cs j) else None)"
      using pend by (auto simp: fun_eq_iff)
    moreover have acc: "acceptPrevote_key w k c = c\<lparr>rc_candidates := ?added,
        rc_cumulativePrecommitWeight := rc_cumulativePrecommitWeight c + x, rc_pending := (rc_pending c)(k := None)\<rparr>"
      using Some by (simp add: acceptPrevote_key_def Let_def)
    then have fields: "rc_tree (acceptPrevote_key w k c) = ?t" "rc_candidates (acceptPrevote_key w k c) = ?added"
        "rc_cumulativePrecommitWeight (acceptPrevote_key w k c) = known_sum (insert k K) cs"
        "rc_pending (acceptPrevote_key w k c) = (rc_pending c)(k := None)" using known x known_sum_insert [OF kK] by simp_all
    ultimately show ?thesis
      unfolding context_rep_def fields
      using ok votes' sub k(2) closed' by blast
  qed
qed

lemma acceptPrevote_key_fields [simp]:
  "rc_tree (acceptPrevote_key w k c) = rc_tree c" "rc_threshold (acceptPrevote_key w k c) = rc_threshold c"
  "rc_totalWeight (acceptPrevote_key w k c) = rc_totalWeight c"
  by (simp_all add: acceptPrevote_key_def Let_def split: option.split)

lemma acceptPrevote_fold_fields:
  "rc_tree (fold (acceptPrevote_key w) ks c) = rc_tree c \<and> rc_threshold (fold (acceptPrevote_key w) ks c) = rc_threshold c
   \<and> rc_totalWeight (fold (acceptPrevote_key w) ks c) = rc_totalWeight c"
  by (induction ks arbitrary: c) auto

text \<open>The tree of a list of prevoted branches, the last first.\<close>

fun tree_of :: "prevotes \<Rightarrow> hash_tree" where
  "tree_of [] = []"
| "tree_of (v # vs) = addBranch_loop None (fst v) (tree_of vs)"

definition round_rep :: "prevotes \<Rightarrow> precommits \<Rightarrow> round_context \<Rightarrow> bool" where
  "round_rep vs cs c \<longleftrightarrow> context_rep (tree_keys (tree_of vs)) vs cs c \<and> rc_tree c = tree_of vs"

lemma tree_of_ok: "tree_ok (tree_of vs) \<and> tree_keys (tree_of vs) = (\<Union>v\<in>set vs. set (fst v))"
proof (induction vs)
  case (Cons v vs)
  then show ?case using addBranch_loop_ok [of "tree_of vs" None "fst v"] by (auto simp del: dom_map_of_conv_image_fst)
qed simp

lemma acceptPrevote_keys_rep:
  assumes "context_rep (K \<union> set us) ((us, w) # vs) cs c" "rc_tree c = addBranch_loop None (us @ ks) t" "tree_ok t"
    "K = tree_keys t" "distinct (us @ ks)"
  shows "context_rep (K \<union> set (us @ ks)) ((us @ ks, w) # vs) cs (fold (acceptPrevote_key w) ks c)"
  using assms
proof (induction ks arbitrary: us c)
  case (Cons k ks)
  have "k \<in> tree_keys (rc_tree c)"
    using addBranch_loop_ok [OF \<open>tree_ok t\<close>, of None "us @ k # ks"] Cons.prems(2) by (simp del: dom_map_of_conv_image_fst)
  moreover have "set (tree_path (rc_tree c) k) \<subseteq> insert k (K \<union> set us)"
    using addBranch_loop_new [OF \<open>tree_ok t\<close>, of us k ks] Cons.prems(2,4) by auto
  ultimately have "context_rep (insert k (K \<union> set us)) ((us @ [k], w) # vs) cs (acceptPrevote_key w k c)"
    using acceptPrevote_key_rep [OF Cons.prems(1)] Cons.prems(5) by simp
  then show ?case using Cons.IH [of "us @ [k]" "acceptPrevote_key w k c"] Cons.prems(2-) by simp
qed simp

lemma acceptPrevote_rep:
  assumes rep: "round_rep vs cs c" and "distinct (branch_keys h hashes)"
  shows "round_rep ((branch_keys h hashes, w) # vs) cs (acceptPrevote h hashes w c)"
proof -
  let ?b = "branch_keys h hashes" and ?t = "tree_of vs"
  let ?t' = "addBranch_loop None ?b ?t" and ?K = "tree_keys (tree_of vs)"
  have t: "tree_ok ?t" "rc_tree c = ?t" using rep tree_of_ok unfolding round_rep_def by blast+
  have t': "tree_ok ?t'" "tree_keys ?t' = ?K \<union> set ?b"
    using addBranch_loop_ok [OF t(1), of None ?b] by (simp_all del: dom_map_of_conv_image_fst)
  have paths: "p \<in> ?K \<Longrightarrow> tree_path ?t' p = tree_path ?t p" for p by (rule addBranch_loop_old [OF t(1)])
  have sums: "precommit_sum ?t' ?K cs = precommit_sum ?t ?K cs" using precommit_sum_cong [OF paths] by (simp add: fun_eq_iff)
  have closed: "(\<forall>k\<in>?K. set (tree_path ?t' k) \<subseteq> ?K) = (\<forall>k\<in>?K. set (tree_path ?t k) \<subseteq> ?K)" using paths by simp
  have fields: "rc_tree (c\<lparr>rc_tree := ?t'\<rparr>) = ?t'" "rc_candidates (c\<lparr>rc_tree := ?t'\<rparr>) = rc_candidates c"
      "rc_cumulativePrecommitWeight (c\<lparr>rc_tree := ?t'\<rparr>) = rc_cumulativePrecommitWeight c"
      "rc_pending (c\<lparr>rc_tree := ?t'\<rparr>) = rc_pending c" by simp_all
  have cands: "map_of (rc_candidates c) =
      (\<lambda>k. if k \<in> ?K then Some \<lparr>w_Prevote = prevote_sum (([], w) # vs) k, w_Precommit = precommit_sum ?t ?K cs k\<rparr> else None)"
    using rep by (simp add: round_rep_def context_rep_def fun_eq_iff)
  have "\<forall>v\<in>set (([], w) # vs). set (fst v) \<subseteq> ?K" using tree_of_ok [of vs] by (auto simp del: dom_map_of_conv_image_fst)
  then have "context_rep ?K (([], w) # vs) cs (c\<lparr>rc_tree := ?t'\<rparr>)"
    using rep t' cands unfolding round_rep_def context_rep_def fields sums closed t(2) by blast
  then have "context_rep (?K \<union> set ?b) ((?b, w) # vs) cs (fold (acceptPrevote_key w) ?b (c\<lparr>rc_tree := ?t'\<rparr>))"
    using acceptPrevote_keys_rep [of ?K "[]" w vs cs "c\<lparr>rc_tree := ?t'\<rparr>" ?b ?t] t(1) assms(2) by simp
  then show ?thesis
    using t' t(2) unfolding round_rep_def acceptPrevote_def addBranch_def by (simp add: acceptPrevote_fold_fields)
qed

lemma acceptPrevote_fields:
  "rc_threshold (acceptPrevote h hashes w c) = rc_threshold c" "rc_totalWeight (acceptPrevote h hashes w c) = rc_totalWeight c"
  by (simp_all add: acceptPrevote_def acceptPrevote_fold_fields)

lemma acceptPrecommit_fields:
  "rc_threshold (acceptPrecommit h x w c) = rc_threshold c" "rc_totalWeight (acceptPrecommit h x w c) = rc_totalWeight c"
  by (simp_all add: acceptPrecommit_def Let_def)

lemma acceptPrecommit_rep:
  assumes rep: "round_rep vs cs c"
  shows "round_rep vs ((Height_Hash_Pair h x, w) # cs) (acceptPrecommit h x w c)"
proof -
  let ?k = "Height_Hash_Pair h x" and ?t = "tree_of vs" and ?K = "tree_keys (tree_of vs)" and ?c = "acceptPrecommit h x w c"
  have crep: "context_rep ?K vs cs c" and t: "rc_tree c = ?t" using rep unfolding round_rep_def by blast+
  note rep' = crep [unfolded context_rep_def t]
  have ok: "tree_ok ?t" and cands: "map_of (rc_candidates c) = (\<lambda>k. if k \<in> ?K then Some \<lparr>w_Prevote = prevote_sum vs k, w_Precommit = precommit_sum ?t ?K cs k\<rparr> else None)"
    and sorted: "om_sorted (<) (rc_candidates c)" and known: "rc_cumulativePrecommitWeight c = known_sum ?K cs"
    and pend: "rc_pending c = (\<lambda>k. if k \<notin> ?K \<and> k \<in> fst ` set cs then Some (key_sum cs k) else None)"
    using rep' by blast+
  have anc: "findAncestors ?t ?k = tree_path ?t ?k" by (rule findAncestors_path [OF ok])
  have empty: "tree_path ?t ?k = [] \<longleftrightarrow> ?k \<notin> ?K" using tree_path_head [of ?k ?t] tree_path_absent [of ?k ?t] by fastforce
  show ?thesis
  proof (cases "?k \<in> ?K")
    case False
    then have acc: "?c = c\<lparr>rc_pending := (rc_pending c)(?k \<mapsto> (case rc_pending c ?k of None \<Rightarrow> 0 | Some w \<Rightarrow> w) + w)\<rparr>"
      using empty by (simp add: acceptPrecommit_def Let_def t anc)
    have fields: "rc_tree ?c = ?t" "rc_candidates ?c = rc_candidates c" "rc_cumulativePrecommitWeight ?c = rc_cumulativePrecommitWeight c"
      by (simp_all add: acc t)
    have same: "precommit_sum ?t ?K ((?k, w) # cs) = precommit_sum ?t ?K cs" "known_sum ?K ((?k, w) # cs) = known_sum ?K cs"
      using False by (simp_all add: fun_eq_iff)
    have "rc_pending ?c = (\<lambda>k. if k \<notin> ?K \<and> k \<in> fst ` set ((?k, w) # cs) then Some (key_sum ((?k, w) # cs) k) else None)"
      using False key_sum_absent [of ?k cs] by (auto simp: acc pend fun_eq_iff)
    then show ?thesis unfolding round_rep_def context_rep_def fields same using rep' by blast
  next
    case True
    let ?added = "fold (add_precommit_weight w) (tree_path ?t ?k) (rc_candidates c)"
    have acc: "?c = c\<lparr>rc_candidates := ?added, rc_cumulativePrecommitWeight := rc_cumulativePrecommitWeight c + w\<rparr>"
      using True empty by (simp add: acceptPrecommit_def Let_def t anc)
    have fields: "rc_tree ?c = ?t" "rc_candidates ?c = ?added" "rc_pending ?c = rc_pending c"
        "rc_cumulativePrecommitWeight ?c = known_sum ?K ((?k, w) # cs)"
      using True by (simp_all add: acc t known)
    note added = add_precommit_weights [OF distinct_tree_path [OF ok], of w ?k "rc_candidates c"]
    have "map_of ?added = (\<lambda>k. if k \<in> ?K then Some \<lparr>w_Prevote = prevote_sum vs k, w_Precommit = precommit_sum ?t ?K ((?k, w) # cs) k\<rparr> else None)"
      using added True tree_path_subset [of ?t ?k] by (auto simp: cands fun_eq_iff)
    moreover have "om_sorted (<) ?added" using added sorted by metis
    moreover have "rc_pending c = (\<lambda>k. if k \<notin> ?K \<and> k \<in> fst ` set ((?k, w) # cs) then Some (key_sum ((?k, w) # cs) k) else None)"
      using True by (auto simp: pend fun_eq_iff)
    ultimately show ?thesis unfolding round_rep_def context_rep_def fields using rep' by blast
  qed
qed

lemma new_RoundContext_rep: "round_rep [] [] (new_RoundContext weight threshold)"
  by (simp add: round_rep_def context_rep_def new_RoundContext_def known_sum_def)

subsection \<open>The aggregator of a round\<close>

definition agg_messages :: "round_aggregator \<Rightarrow> finalization_message list" where
  "agg_messages a = map (\<lambda>p. md_Message (snd p)) (ra_messages a)"

definition message_branch :: "finalization_message \<Rightarrow> height_hash_pair list" where
  "message_branch m = branch_keys (fm_Height m) (fm_Hashes m)"

definition message_target :: "finalization_message \<Rightarrow> height_hash_pair" where
  "message_target m = Height_Hash_Pair (fm_Height m) (hd (fm_Hashes m))"

definition agg_prevotes :: "round_aggregator \<Rightarrow> prevotes" where
  "agg_prevotes a = map (\<lambda>m. (message_branch m, fc_lookup (ra_context a) (fm_Voter m))) (filter IsPrevote (agg_messages a))"

definition agg_precommits :: "round_aggregator \<Rightarrow> precommits" where
  "agg_precommits a = map (\<lambda>m. (message_target m, fc_lookup (ra_context a) (fm_Voter m))) (filter (\<lambda>m. \<not> IsPrevote m) (agg_messages a))"

text \<open>
  The aggregators a node can have: messages are added in any sequence.  The number of hashes of a message is
  a 32-bit integer.
\<close>

inductive agg_reachable :: "(finalization_message \<Rightarrow> hash256) \<Rightarrow> (bm_tree_signature \<Rightarrow> 64 word \<Rightarrow> bytes \<Rightarrow> bool)
    \<Rightarrow> finalization_context \<Rightarrow> round_aggregator \<Rightarrow> bool" for messageHash verify c where
  agg_new: "agg_reachable messageHash verify c (CreateRoundMessageAggregator c)"
| agg_add: "agg_reachable messageHash verify c a \<Longrightarrow> length (fm_Hashes m) < 2 ^ 32
    \<Longrightarrow> ra_add messageHash verify m a = Ok (r, a') \<Longrightarrow> agg_reachable messageHash verify c a'"

definition message_ok :: "(bm_tree_signature \<Rightarrow> 64 word \<Rightarrow> bytes \<Rightarrow> bool) \<Rightarrow> finalization_context \<Rightarrow> finalization_message \<Rightarrow> bool" where
  "message_ok verify c m \<longleftrightarrow> fm_Hashes m \<noteq> [] \<and> length (fm_Hashes m) < 2 ^ 32 \<and> (\<not> IsPrevote m \<longrightarrow> length (fm_Hashes m) = 1)
     \<and> ProcessMessage verify m c = (Process_Success, fc_lookup c (fm_Voter m))"

definition agg_inv :: "(finalization_message \<Rightarrow> hash256) \<Rightarrow> (bm_tree_signature \<Rightarrow> 64 word \<Rightarrow> bytes \<Rightarrow> bool) \<Rightarrow> finalization_context \<Rightarrow> round_aggregator \<Rightarrow> bool" where
  "agg_inv messageHash verify c a \<longleftrightarrow>
     ra_context a = c \<and> rc_threshold (ra_round a) = CalculateWeightedThreshold c \<and> rc_totalWeight (ra_round a) = fc_weight c
     \<and> round_rep (agg_prevotes a) (agg_precommits a) (ra_round a)
     \<and> distinct (map (\<lambda>m. (fm_Voter m, IsPrevote m)) (agg_messages a)) \<and> map fst (ra_messages a) = map (\<lambda>m. (fm_Voter m, IsPrevote m)) (agg_messages a)
     \<and> (\<forall>m\<in>set (agg_messages a). message_ok verify c m)"

lemma branch_keys_nth: "i < length xs \<Longrightarrow> branch_keys h xs ! i = Height_Hash_Pair (h + of_nat i) (xs ! i)"
proof (induction xs arbitrary: h i)
  case (Cons x xs)
  then show ?case by (cases i) (simp_all add: algebra_simps)
qed simp

lemma length_branch_keys [simp]: "length (branch_keys h xs) = length xs"
  by (induction xs arbitrary: h) auto

lemma heights_distinct: "i < n \<Longrightarrow> j < n \<Longrightarrow> n < 2 ^ 32 \<Longrightarrow> h + of_nat i = h + of_nat j \<longleftrightarrow> i = j" for h :: height
proof -
  assume "i < n" "j < n" "n < 2 ^ 32"
  then have "unat (of_nat i :: height) = i" "unat (of_nat j :: height) = j" by (simp_all add: unat_of_nat take_bit_nat_eq_self)
  then show ?thesis by (metis add_left_cancel)
qed

lemma distinct_branch_keys: "length xs < 2 ^ 32 \<Longrightarrow> distinct (branch_keys h xs)"
  using heights_distinct [of _ "length xs" _ h] by (simp add: distinct_conv_nth branch_keys_nth)

lemma branch_same_height:
  "length xs < 2 ^ 32 \<Longrightarrow> j \<in> set (branch_keys h xs) \<Longrightarrow> k \<in> set (branch_keys h xs) \<Longrightarrow> hh_Height j = hh_Height k \<Longrightarrow> j = k"
  using heights_distinct [of _ "length xs" _ h] by (auto simp: in_set_conv_nth branch_keys_nth)

lemma ProcessMessage_Success:
  "ProcessMessage verify m c = (Process_Success, w) \<Longrightarrow> w = fc_lookup c (fm_Voter m) \<and> 0 \<noteq> w"
  by (auto simp: ProcessMessage_def Let_def split: if_splits)

lemma ra_add_cases:
  assumes "ra_add messageHash verify m a = Ok (r, a')"
  obtains "a' = a" "r \<noteq> Success_Prevote" "r \<noteq> Success_Precommit"
  | w where "r = (if IsPrevote m then Success_Prevote else Success_Precommit)" "0 \<noteq> fm_HashesCount m" "\<not> IsPrevote m \<longrightarrow> 1 = fm_HashesCount m"
    "map_of (ra_messages a) (fm_Voter m, IsPrevote m) = None" "w = fc_lookup (ra_context a) (fm_Voter m)"
    "ProcessMessage verify m (ra_context a) = (Process_Success, w)"
    "a' = a\<lparr>ra_messages := ((fm_Voter m, IsPrevote m), CreateMessageDescriptor messageHash m) # ra_messages a,
            ra_round := (if IsPrevote m then acceptPrevote (fm_Height m) (fm_Hashes m) w (ra_round a)
                         else acceptPrecommit (fm_Height m) (hd (fm_Hashes m)) w (ra_round a))\<rparr>"
proof -
  obtain pr w where p: "ProcessMessage verify m (ra_context a) = (pr, w)" by fastforce
  note w = ProcessMessage_Success [of verify m "ra_context a" w]
  show ?thesis
  proof (cases "r = Success_Prevote \<or> r = Success_Precommit")
    case False
    with assms have "a' = a"
      by (auto simp: ra_add_def add_to_round_def Let_def p split: if_splits option.splits)
    with False that(1) show ?thesis by blast
  next
    case True
    let ?check = "check_hashes (fc_config (ra_context a)) m (fm_Height m + ucast (fm_HashesCount m - 1))"
    have nonzero: "0 \<noteq> fm_HashesCount m" using assms True by (auto simp: ra_add_def Let_def)
    obtain valid where check: "?check = Ok valid" using assms True by (cases ?check) (auto simp: ra_add_def Let_def split: if_splits)
    then have guards: valid "add_to_round messageHash verify m a = (r, a')"
      using assms True by (cases valid; auto simp: ra_add_def Let_def split: if_splits)+
    have one: "\<not> IsPrevote m \<longrightarrow> 1 = fm_HashesCount m" using guards(1) check by (auto simp: check_hashes_def)
    have none: "map_of (ra_messages a) (fm_Voter m, IsPrevote m) = None"
      using guards(2) True by (cases "map_of (ra_messages a) (fm_Voter m, IsPrevote m)") (auto simp: add_to_round_def Let_def split: if_splits)
    have success: "pr = Process_Success"
      using guards(2) True none p by (auto simp: add_to_round_def Let_def split: if_splits)
    show ?thesis
    proof (rule that(2) [of w])
      show "r = (if IsPrevote m then Success_Prevote else Success_Precommit)"
        using guards(2) none p success by (auto simp: add_to_round_def Let_def)
    next
      show "a' = a\<lparr>ra_messages := ((fm_Voter m, IsPrevote m), CreateMessageDescriptor messageHash m) # ra_messages a,
            ra_round := (if IsPrevote m then acceptPrevote (fm_Height m) (fm_Hashes m) w (ra_round a)
                         else acceptPrecommit (fm_Height m) (hd (fm_Hashes m)) w (ra_round a))\<rparr>"
        using guards(2) none p success by (auto simp: add_to_round_def Let_def)
    qed (use nonzero one none p success w in auto)
  qed
qed

lemma agg_reachable_inv: "agg_reachable messageHash verify c a \<Longrightarrow> agg_inv messageHash verify c a"
proof (induction rule: agg_reachable.induct)
  case agg_new
  show ?case
    using new_RoundContext_rep [of "fc_weight c" "CalculateWeightedThreshold c"]
    by (simp add: agg_inv_def CreateRoundMessageAggregator_def agg_messages_def agg_prevotes_def agg_precommits_def new_RoundContext_def)
next
  case (agg_add a m r a')
  from agg_add.hyps(3) show ?case
  proof (cases rule: ra_add_cases)
    case 1
    with agg_add.IH show ?thesis by simp
  next
    case (2 w)
    note inv = agg_add.IH [unfolded agg_inv_def]
    have len: "length (fm_Hashes m) < 2 ^ 32" by (rule agg_add.hyps(2))
    have count: "unat (fm_HashesCount m) = length (fm_Hashes m)"
      using len by (simp add: fm_HashesCount_def unat_of_nat take_bit_nat_eq_self)
    have ok: "message_ok verify c m"
    proof -
      have "fm_Hashes m \<noteq> []" using 2(2) count by (metis list.size(3) unat_eq_zero)
      moreover have "\<not> IsPrevote m \<longrightarrow> length (fm_Hashes m) = 1" using 2(3) count by (metis unat_1)
      ultimately show ?thesis using 2(5,6) len inv by (simp add: message_ok_def)
    qed
    have msgs: "agg_messages a' = m # agg_messages a" "ra_context a' = c" using inv by (simp_all add: 2(7) agg_messages_def CreateMessageDescriptor_def)
    have keys: "map fst (ra_messages a') = map (\<lambda>m. (fm_Voter m, IsPrevote m)) (agg_messages a')"
      using inv msgs by (simp add: 2(7))
    have "(fm_Voter m, IsPrevote m) \<notin> set (map (\<lambda>m. (fm_Voter m, IsPrevote m)) (agg_messages a))"
    proof -
      have "map fst (ra_messages a) = map (\<lambda>m. (fm_Voter m, IsPrevote m)) (agg_messages a)" using inv by blast
      with 2(4) show ?thesis unfolding map_of_eq_None_iff by (metis list.set_map)
    qed
    moreover have "round_rep (agg_prevotes a') (agg_precommits a') (ra_round a')"
    proof -
      have rep: "round_rep (agg_prevotes a) (agg_precommits a) (ra_round a)" and c: "ra_context a = c" using inv by blast+
      have votes: "agg_prevotes a' = (if IsPrevote m then (branch_keys (fm_Height m) (fm_Hashes m), w) # agg_prevotes a else agg_prevotes a)"
        "agg_precommits a' = (if IsPrevote m then agg_precommits a else (Height_Hash_Pair (fm_Height m) (hd (fm_Hashes m)), w) # agg_precommits a)"
        using msgs c 2(5) by (simp_all add: agg_prevotes_def agg_precommits_def message_branch_def message_target_def)
      show ?thesis
        unfolding votes using acceptPrevote_rep [OF rep distinct_branch_keys [OF len]] acceptPrecommit_rep [OF rep]
        by (cases "IsPrevote m") (simp_all add: 2(7))
    qed
    ultimately show ?thesis
      using inv msgs ok keys by (simp add: agg_inv_def 2(7) acceptPrevote_fields acceptPrecommit_fields)
  qed
qed

end
