(* ===== verification/Finalization_Agreement.thy ===== *)
theory Finalization_Agreement
  imports Finalization_Round "HOL-Library.Multiset"
begin

section \<open>Finalization: agreement within a round\<close>

text \<open>
  What the votes of a round guarantee.  The weights a round context keeps are the weights of the voters who
  prevoted a block, or precommitted it or a descendant.  Two nodes that both see a block with enough prevotes see
  blocks on one prevoted branch, unless voters of a large total weight sent different prevotes to them.  The
  threshold is computed by a 64-bit product, which overflows with the shipped configuration for weights well
  below the supply.
\<close>

subsection \<open>Weights are weights of voters\<close>

definition prevoters :: "round_aggregator \<Rightarrow> height_hash_pair \<Rightarrow> key set" where
  "prevoters a k = fm_Voter ` {m \<in> set (agg_messages a). IsPrevote m \<and> k \<in> set (message_branch m)}"

definition precommitters :: "round_aggregator \<Rightarrow> height_hash_pair \<Rightarrow> key set" where
  "precommitters a k = fm_Voter ` {m \<in> set (agg_messages a). \<not> IsPrevote m \<and> rc_isDescendant (ra_round a) k (message_target m)}"

lemma weight_sum_messages:
  assumes "context_wf c" "distinct (map fm_Voter ms)"
  shows "unat (sum_list (map (\<lambda>m. fc_lookup c (fm_Voter m)) ms)) = weight_sum c (fm_Voter ` set ms)"
proof -
  have "(\<Sum>m \<leftarrow> ms. unat (fc_lookup c (fm_Voter m))) = weight_sum c (set (map fm_Voter ms))"
    unfolding weight_sum_def sum.distinct_set_conv_list [OF assms(2)] by (simp add: comp_def)
  moreover have "weight_sum c (set (map fm_Voter ms)) < 2 ^ 64"
    using weight_sum_le [OF assms(1), of "set (map fm_Voter ms)"] unsigned_less [of "fc_weight c", where 'a=nat] by simp
  ultimately show ?thesis using unat_sum_list [of "\<lambda>m. fc_lookup c (fm_Voter m)" ms] by simp
qed

lemma distinct_voters:
  assumes "distinct (map (\<lambda>m. (fm_Voter m, IsPrevote m)) ms)" "\<And>m. P m \<Longrightarrow> IsPrevote m = b"
  shows "distinct (map fm_Voter (filter P ms))"
  using assms
proof (induction ms)
  case (Cons m ms)
  then show ?case by force
qed simp

lemma round_rep_weights:
  assumes "round_rep vs cs c"
  shows "rc_weights c k = \<lparr>w_Prevote = prevote_sum vs k, w_Precommit = precommit_sum (rc_tree c) (tree_keys (rc_tree c)) cs k\<rparr>"
proof -
  have rep: "context_rep (tree_keys (tree_of vs)) vs cs c" "rc_tree c = tree_of vs" using assms by (auto simp: round_rep_def)
  show ?thesis
  proof (cases "k \<in> tree_keys (tree_of vs)")
    case True
    with rep show ?thesis by (simp add: rc_weights_def context_rep_def)
  next
    case False
    have "prevote_sum vs k = 0" by (rule prevote_sum_absent [OF _ False]) (use rep(1) in \<open>simp add: context_rep_def\<close>)
    moreover have "precommit_sum (rc_tree c) (tree_keys (tree_of vs)) cs k = 0"
      by (rule precommit_sum_new [OF False]) (use rep(1) in \<open>simp add: context_rep_def\<close>)
    ultimately show ?thesis using False rep by (simp add: rc_weights_def context_rep_def no_weights_def)
  qed
qed

lemma agg_inv_weights:
  assumes inv: "agg_inv messageHash verify c a" and wf: "context_wf c"
  shows "unat (w_Prevote (rc_weights (ra_round a) k)) = weight_sum c (prevoters a k)"
    and "unat (w_Precommit (rc_weights (ra_round a) k)) = weight_sum c (precommitters a k)"
proof -
  let ?t = "rc_tree (ra_round a)"
  have rep: "round_rep (agg_prevotes a) (agg_precommits a) (ra_round a)" and c: "ra_context a = c"
    and dist: "distinct (map (\<lambda>m. (fm_Voter m, IsPrevote m)) (agg_messages a))" using inv by (simp_all add: agg_inv_def)
  have ok: "tree_ok ?t" using rep tree_of_ok unfolding round_rep_def by metis
  note weights = round_rep_weights [OF rep, of k]
  let ?P = "\<lambda>m. IsPrevote m \<and> k \<in> set (message_branch m)"
  have "prevote_sum (agg_prevotes a) k = sum_list (map (\<lambda>m. fc_lookup c (fm_Voter m)) (filter ?P (agg_messages a)))"
    by (simp add: prevote_sum_def agg_prevotes_def c filter_map comp_def conj_commute)
  then show "unat (w_Prevote (rc_weights (ra_round a) k)) = weight_sum c (prevoters a k)"
    using weight_sum_messages [OF wf distinct_voters [OF dist, of ?P True]] weights by (simp add: prevoters_def)
  let ?Q = "\<lambda>m. \<not> IsPrevote m \<and> rc_isDescendant (ra_round a) k (message_target m)"
  have known: "p \<in> tree_keys ?t \<and> k \<in> set (tree_path ?t p) \<longleftrightarrow> rc_isDescendant (ra_round a) k p" for p
    using tree_isDescendant_path [OF ok, of k p] tree_path_absent [of p ?t] unfolding rc_isDescendant_def
    by (metis empty_iff empty_set)
  have "precommit_sum ?t (tree_keys ?t) (agg_precommits a) k = sum_list (map (\<lambda>m. fc_lookup c (fm_Voter m)) (filter ?Q (agg_messages a)))"
    unfolding precommit_sum_def known by (simp add: agg_precommits_def c filter_map comp_def conj_commute)
  then show "unat (w_Precommit (rc_weights (ra_round a) k)) = weight_sum c (precommitters a k)"
    using weight_sum_messages [OF wf distinct_voters [OF dist, of ?Q False]] weights by (simp add: precommitters_def)
qed

text \<open>
  C2: In every aggregator that messages have been added to, the prevote weight of a block is the total weight of
  the voters whose prevote names it, and its precommit weight the total weight of the voters who precommitted it
  or a descendant of it; precommits that arrived before the block was named are counted too.
\<close>

theorem round_weights:
  assumes "agg_reachable messageHash verify c a" "context_wf c"
  shows "unat (w_Prevote (rc_weights (ra_round a) k)) = weight_sum c (prevoters a k)
    \<and> unat (w_Precommit (rc_weights (ra_round a) k)) = weight_sum c (precommitters a k)"
  using agg_inv_weights [OF agg_reachable_inv [OF assms(1)] assms(2)] by blast


subsection \<open>A small network\<close>

text \<open>Three voters of equal weight; two of them reach the threshold of two.\<close>

definition sample_config :: finalization_configuration where
  "sample_config = \<lparr>cf_EnableVoting = True, cf_EnableRevoteOnBoot = False, cf_Size = 10, cf_Threshold = 7, cf_StepDuration = 1000,
     cf_MessageSynchronizationMaxResponseSize = 100000, cf_MaxHashesPerPoint = 4, cf_PrevoteBlocksMultiple = 1,
     cf_UnfinalizedBlocksDuration = 0, cf_TreasuryReissuanceEpoch = 0, cf_IneligibleVoterAddresses = {}, cf_VotingSetGrouping = 100\<rparr>"

definition sample_context :: finalization_context where
  "sample_context = \<lparr>fc_epoch = 3, fc_height = 100, fc_generationHash = 0, fc_config = sample_config, fc_weight = 3,
     fc_accounts = [1 \<mapsto> 1, 2 \<mapsto> 1, 3 \<mapsto> 1]\<rparr>"

definition sample_message :: "key \<Rightarrow> finalization_stage \<Rightarrow> height \<Rightarrow> hash256 list \<Rightarrow> finalization_message" where
  "sample_message voter stage h hashes = \<lparr>fm_Reserved1 = 0,
     fm_Signature = \<lparr>sig_RootPublicKey = voter, sig_RootSignature = 0, sig_BottomPublicKey = 0, sig_BottomSignature = 0\<rparr>,
     fm_Version = 1, fm_StepIdentifier = new_StepIdentifier 3 1 stage, fm_Height = h, fm_Hashes = hashes\<rparr>"

definition add_all :: "(finalization_message \<Rightarrow> hash256) \<Rightarrow> (bm_tree_signature \<Rightarrow> 64 word \<Rightarrow> bytes \<Rightarrow> bool)
   \<Rightarrow> finalization_message list \<Rightarrow> round_aggregator \<Rightarrow> round_aggregator result" where
  "add_all messageHash verify ms a = fold_result (\<lambda>m a. map_result snd (ra_add messageHash verify m a)) ms a"

lemma add_all_reachable:
  "agg_reachable messageHash verify c a \<Longrightarrow> \<forall>m\<in>set ms. length (fm_Hashes m) < 2 ^ 32 \<Longrightarrow> add_all messageHash verify ms a = Ok a'
   \<Longrightarrow> agg_reachable messageHash verify c a'"
proof (induction ms arbitrary: a)
  case (Cons m ms)
  from Cons.prems(3) obtain r b where "ra_add messageHash verify m a = Ok (r, b)" "add_all messageHash verify ms b = Ok a'"
    by (auto simp: add_all_def)
  with Cons agg_add show ?case by (metis list.set_intros)
qed (simp add: add_all_def)

definition sample_votes :: "finalization_message list" where
  "sample_votes = [sample_message 1 Stage_Precommit 101 [11], sample_message 1 Stage_Prevote 100 [10, 11],
     sample_message 2 Stage_Prevote 100 [10, 11, 12], sample_message 2 Stage_Precommit 101 [11]]"

definition sample_round :: round_aggregator where
  "sample_round = the_ok (add_all (\<lambda>_. 0) (\<lambda>_ _ _. True) sample_votes (CreateRoundMessageAggregator sample_context))"

lemma sample_context_wf: "context_wf sample_context"
  by (simp add: context_wf_def weight_sum_def sample_context_def fc_lookup_def)

lemma sample_add: "add_all (\<lambda>_. 0) (\<lambda>_ _ _. True) sample_votes (CreateRoundMessageAggregator sample_context) = Ok sample_round"
proof -
  have "case add_all (\<lambda>_. 0) (\<lambda>_ _ _. True) sample_votes (CreateRoundMessageAggregator sample_context) of Ok _ \<Rightarrow> True | Err _ \<Rightarrow> False"
    by code_simp
  then show ?thesis by (simp add: sample_round_def split: result.splits)
qed

lemma sample_reachable: "agg_reachable (\<lambda>_. 0) (\<lambda>_ _ _. True) sample_context sample_round"
  by (rule add_all_reachable [OF agg_new _ sample_add]) (simp add: sample_votes_def sample_message_def)

lemma sample_best: "tryFindBestPrecommit (ra_round sample_round) = Some (Height_Hash_Pair 101 11)"
  by code_simp

theorem round_weights_witness:
  "unat (w_Prevote (rc_weights (ra_round sample_round) (Height_Hash_Pair 101 11))) = weight_sum sample_context (prevoters sample_round (Height_Hash_Pair 101 11))
    \<and> unat (w_Precommit (rc_weights (ra_round sample_round) (Height_Hash_Pair 101 11))) = weight_sum sample_context (precommitters sample_round (Height_Hash_Pair 101 11))
    \<and> rc_weights (ra_round sample_round) (Height_Hash_Pair 101 11) = \<lparr>w_Prevote = 2, w_Precommit = 2\<rparr>"
proof -
  have "rc_weights (ra_round sample_round) (Height_Hash_Pair 101 11) = \<lparr>w_Prevote = 2, w_Precommit = 2\<rparr>" by code_simp
  then show ?thesis using round_weights [OF sample_reachable sample_context_wf, of "Height_Hash_Pair 101 11"] by blast
qed

subsection \<open>Agreement\<close>

text \<open>The voters whose prevotes in two aggregators name different branches.\<close>

definition equivocators :: "round_aggregator \<Rightarrow> round_aggregator \<Rightarrow> key set" where
  "equivocators a b = {v. \<exists>m\<in>set (agg_messages a). \<exists>n\<in>set (agg_messages b).
     IsPrevote m \<and> IsPrevote n \<and> fm_Voter m = v \<and> fm_Voter n = v \<and> message_branch m \<noteq> message_branch n}"

lemma finite_prevoters [simp]: "finite (prevoters a k)"
  by (simp add: prevoters_def)

lemma finite_equivocators: "finite (equivocators a b)"
  by (rule finite_subset [of _ "fm_Voter ` set (agg_messages a)"]) (auto simp: equivocators_def)

lemma weight_sum_mono: "finite B \<Longrightarrow> A \<subseteq> B \<Longrightarrow> weight_sum c A \<le> weight_sum c B"
  unfolding weight_sum_def by (rule sum_mono2) auto

text \<open>Two sets of voters that both reach a threshold share voters of at least twice the threshold less the total weight.\<close>

lemma quorum_intersection:
  assumes "context_wf c" "finite P" "finite Q" "t \<le> weight_sum c P" "t \<le> weight_sum c Q"
  shows "2 * t \<le> weight_sum c (P \<inter> Q) + unat (fc_weight c)"
proof -
  have "weight_sum c P + weight_sum c Q = weight_sum c (P \<union> Q) + weight_sum c (P \<inter> Q)"
    unfolding weight_sum_def by (rule sum.union_inter [OF assms(2,3), symmetric])
  moreover have "weight_sum c (P \<union> Q) \<le> unat (fc_weight c)" using weight_sum_le [OF assms(1)] assms(2,3) by simp
  ultimately show ?thesis using assms(4,5) by linarith
qed

lemma tryFindLastMatch_Some:
  assumes "tryFindLastMatch P c = Some k" "distinct (map fst (rc_candidates c))"
  shows "P k (rc_weights c k) \<and> k \<in> fst ` set (rc_candidates c)"
proof -
  from assms(1) obtain w where "find (\<lambda>(k, w). P k w) (rev (rc_candidates c)) = Some (k, w)" by (auto simp: tryFindLastMatch_def)
  then obtain i where "i < length (rev (rc_candidates c))" "P k w" "rev (rc_candidates c) ! i = (k, w)"
    unfolding find_Some_iff by auto
  then have "(k, w) \<in> set (rc_candidates c)" "P k w" by (metis nth_mem set_rev, simp)
  moreover from this(1) have "map_of (rc_candidates c) k = Some w" using assms(2) by simp
  ultimately show ?thesis by (auto simp: rc_weights_def intro: rev_image_eqI)
qed

lemma agg_inv_candidates:
  assumes "agg_inv messageHash verify c a"
  shows "om_sorted (<) (rc_candidates (ra_round a))" "distinct (map fst (rc_candidates (ra_round a)))"
    "fst ` set (rc_candidates (ra_round a)) = tree_keys (rc_tree (ra_round a))"
proof -
  let ?r = "ra_round a"
  have rep: "context_rep (tree_keys (rc_tree ?r)) (agg_prevotes a) (agg_precommits a) ?r"
    using assms unfolding agg_inv_def round_rep_def by metis
  show sorted: "om_sorted (<) (rc_candidates ?r)" using rep by (simp add: context_rep_def)
  then show "distinct (map fst (rc_candidates ?r))" by (rule asc.sorted_distinct)
  have "dom (map_of (rc_candidates ?r)) = tree_keys (rc_tree ?r)"
    using rep unfolding context_rep_def by (auto simp: dom_def split: if_splits)
  then show "fst ` set (rc_candidates ?r) = tree_keys (rc_tree ?r)" by (simp only: dom_map_of_conv_image_fst)
qed

lemma best_precommit_prevoted:
  assumes "agg_inv messageHash verify c a" "context_wf c" "tryFindBestPrecommit (ra_round a) = Some k"
  shows "unat (CalculateWeightedThreshold c) \<le> weight_sum c (prevoters a k)"
    and "unat (CalculateWeightedThreshold c) \<le> weight_sum c (precommitters a k)"
proof -
  have "rc_threshold (ra_round a) = CalculateWeightedThreshold c" using assms(1) by (simp add: agg_inv_def)
  then have "CalculateWeightedThreshold c \<le> w_Prevote (rc_weights (ra_round a) k)" "CalculateWeightedThreshold c \<le> w_Precommit (rc_weights (ra_round a) k)"
    using tryFindLastMatch_Some [OF assms(3) [unfolded tryFindBestPrecommit_def] agg_inv_candidates(2) [OF assms(1)]] by simp_all
  then show "unat (CalculateWeightedThreshold c) \<le> weight_sum c (prevoters a k)"
    "unat (CalculateWeightedThreshold c) \<le> weight_sum c (precommitters a k)"
    using agg_inv_weights [OF assms(1,2), of k] by (simp_all add: word_le_nat_alt)
qed

text \<open>
  C1: Two nodes that collected votes of the same round and can both finalize a block can finalize blocks on one
  branch, which a voter prevoted at both of them, and the same block if the heights are equal, unless the voters who
  sent them prevotes for different branches weigh at least twice the threshold less the total weight.
\<close>

theorem finalization_agreement:
  assumes "agg_reachable messageHash verify c a" "agg_reachable messageHash verify c b" "context_wf c"
    and "tryFindBestPrecommit (ra_round a) = Some j" "tryFindBestPrecommit (ra_round b) = Some k"
    and "weight_sum c (equivocators a b) + unat (fc_weight c) < 2 * unat (CalculateWeightedThreshold c)"
  shows "(\<exists>m\<in>set (agg_messages a). IsPrevote m \<and> j \<in> set (message_branch m) \<and> k \<in> set (message_branch m))
    \<and> (hh_Height j = hh_Height k \<longrightarrow> j = k)"
proof -
  note inv = agg_reachable_inv [OF assms(1)] agg_reachable_inv [OF assms(2)]
  let ?common = "prevoters a j \<inter> prevoters b k"
  have "2 * unat (CalculateWeightedThreshold c) \<le> weight_sum c ?common + unat (fc_weight c)"
    using quorum_intersection [OF assms(3)] best_precommit_prevoted(1) [OF inv(1) assms(3,4)]
      best_precommit_prevoted(1) [OF inv(2) assms(3,5)] by simp
  with assms(6) have "\<not> ?common \<subseteq> equivocators a b" using weight_sum_mono [OF finite_equivocators, of ?common a b c] by linarith
  then obtain v where v: "v \<in> prevoters a j" "v \<in> prevoters b k" "v \<notin> equivocators a b" by blast
  then obtain m n where m: "m \<in> set (agg_messages a)" "IsPrevote m" "fm_Voter m = v" "j \<in> set (message_branch m)"
    and n: "n \<in> set (agg_messages b)" "IsPrevote n" "fm_Voter n = v" "k \<in> set (message_branch n)"
    unfolding prevoters_def by (elim imageE CollectE conjE) metis
  with v(3) have same: "message_branch m = message_branch n" unfolding equivocators_def by blast
  moreover have "length (fm_Hashes m) < 2 ^ 32" using inv(1) m(1) by (simp add: agg_inv_def message_ok_def)
  ultimately show ?thesis using m n branch_same_height [of "fm_Hashes m" j "fm_Height m" k] unfolding message_branch_def by auto
qed

definition sample_votes' :: "finalization_message list" where
  "sample_votes' = [sample_message 3 Stage_Prevote 100 [10, 11, 12], sample_message 2 Stage_Prevote 100 [10, 11, 12],
     sample_message 3 Stage_Precommit 102 [12], sample_message 2 Stage_Precommit 101 [11]]"

definition sample_round' :: round_aggregator where
  "sample_round' = the_ok (add_all (\<lambda>_. 0) (\<lambda>_ _ _. True) sample_votes' (CreateRoundMessageAggregator sample_context))"

lemma sample_reachable': "agg_reachable (\<lambda>_. 0) (\<lambda>_ _ _. True) sample_context sample_round'"
proof -
  have "case add_all (\<lambda>_. 0) (\<lambda>_ _ _. True) sample_votes' (CreateRoundMessageAggregator sample_context) of Ok _ \<Rightarrow> True | Err _ \<Rightarrow> False"
    by code_simp
  then have "add_all (\<lambda>_. 0) (\<lambda>_ _ _. True) sample_votes' (CreateRoundMessageAggregator sample_context) = Ok sample_round'"
    by (simp add: sample_round'_def split: result.splits)
  from add_all_reachable [OF agg_new _ this] show ?thesis by (simp add: sample_votes'_def sample_message_def)
qed

theorem finalization_agreement_witness:
  "\<exists>m\<in>set (agg_messages sample_round). IsPrevote m
     \<and> Height_Hash_Pair 101 11 \<in> set (message_branch m) \<and> Height_Hash_Pair 101 11 \<in> set (message_branch m)"
proof -
  have best: "tryFindBestPrecommit (ra_round sample_round') = Some (Height_Hash_Pair 101 11)" by code_simp
  have "\<forall>m\<in>set (agg_messages sample_round). \<forall>n\<in>set (agg_messages sample_round').
      IsPrevote m \<and> IsPrevote n \<and> fm_Voter m = fm_Voter n \<longrightarrow> message_branch m = message_branch n" by code_simp
  then have "equivocators sample_round sample_round' = {}" unfolding equivocators_def by auto
  then have "weight_sum sample_context (equivocators sample_round sample_round') + unat (fc_weight sample_context)
      < 2 * unat (CalculateWeightedThreshold sample_context)"
    by (simp add: weight_sum_def CalculateWeightedThreshold_def sample_context_def sample_config_def)
  from finalization_agreement [OF sample_reachable sample_reachable' sample_context_wf sample_best best this]
  show ?thesis by blast
qed

subsection \<open>The threshold\<close>

lemma find_last: "xs \<noteq> [] \<Longrightarrow> (\<And>x. x \<in> set xs \<Longrightarrow> P x) \<Longrightarrow> find P (rev xs) = Some (last xs)"
  by (cases xs rule: rev_cases) auto

text \<open>
  C34: With the finalization size 10000 and threshold 6700 of the shipped configuration the product of weight and threshold
  overflows as soon as the voters hold 2753245384135754 atomic units, about 3.4 percent of the initial supply of
  80999999998000000, and the weighted threshold is then below 67 percent of the weight.  From
  3689348814741910 units on, about 4.6 percent of the supply, it is at most half of the weight, so two sets of voters that have nobody in
  common can both reach it.  For the weights whose wrapped product is below 10000 it is zero, and any single prevote,
  without any precommit, lets the round finalize a block.
\<close>

theorem threshold_overflow:
  assumes "cf_Size (fc_config c) = 10000" "cf_Threshold (fc_config c) = 6700" "2753245384135754 \<le> unat (fc_weight c)"
  shows "unat (CalculateWeightedThreshold c) < unat (fc_weight c) * 6700 div 10000
    \<and> (3689348814741910 \<le> unat (fc_weight c) \<longrightarrow> 2 * unat (CalculateWeightedThreshold c) \<le> unat (fc_weight c))
    \<and> (unat (fc_weight c) * 6700 mod 2 ^ 64 < 10000 \<longrightarrow>
         (\<forall>messageHash verify a m. agg_reachable messageHash verify c a \<and> m \<in> set (agg_messages a) \<and> IsPrevote m
            \<longrightarrow> tryFindBestPrecommit (ra_round a) = Some (fst (last (rc_candidates (ra_round a))))))"
proof (intro conjI impI allI)
  have t: "unat (CalculateWeightedThreshold c) = unat (fc_weight c) * 6700 mod 2 ^ 64 div 10000"
    using assms(1,2) by (simp add: CalculateWeightedThreshold_def unat_div unat_word_ariths)
  have wrap: "unat (fc_weight c) * 6700 mod 2 ^ 64 + 2 ^ 64 \<le> unat (fc_weight c) * 6700"
  proof -
    have "2 ^ 64 \<le> unat (fc_weight c) * 6700" using assms(3) by simp
    then have "1 \<le> unat (fc_weight c) * 6700 div 2 ^ 64" by (simp add: div_greater_zero_iff Suc_le_eq)
    then have "2 ^ 64 * 1 \<le> 2 ^ 64 * (unat (fc_weight c) * 6700 div 2 ^ 64)" by (intro mult_le_mono2)
    with mult_div_mod_eq [of "2 ^ 64" "unat (fc_weight c) * 6700"] show ?thesis by linarith
  qed
  then have "(unat (fc_weight c) * 6700 mod 2 ^ 64 + 10000 * 1) div 10000 \<le> unat (fc_weight c) * 6700 div 10000"
    by (intro div_le_mono) simp
  then show "unat (CalculateWeightedThreshold c) < unat (fc_weight c) * 6700 div 10000" unfolding t by simp
  have "unat (CalculateWeightedThreshold c) \<le> (2 ^ 64 - 1) div 10000" unfolding t by (intro div_le_mono) simp
  then show "3689348814741910 \<le> unat (fc_weight c) \<Longrightarrow> 2 * unat (CalculateWeightedThreshold c) \<le> unat (fc_weight c)" by simp
  fix messageHash verify a m
  assume small: "unat (fc_weight c) * 6700 mod 2 ^ 64 < 10000"
    and a: "agg_reachable messageHash verify c a \<and> m \<in> set (agg_messages a) \<and> IsPrevote m"
  from a have inv: "agg_inv messageHash verify c a" using agg_reachable_inv by blast
  have zero: "CalculateWeightedThreshold c = 0" using t small by (simp add: unat_eq_zero [symmetric] div_eq_0_iff)
  have "(message_branch m, fc_lookup c (fm_Voter m)) \<in> set (agg_prevotes a)"
    using a inv by (auto simp: agg_prevotes_def agg_inv_def)
  then have "set (message_branch m) \<subseteq> tree_keys (rc_tree (ra_round a))"
    using inv tree_of_ok [of "agg_prevotes a"] unfolding agg_inv_def round_rep_def
    by (metis (no_types, lifting) UN_upper fst_conv)
  moreover have "fm_Hashes m \<noteq> []" using inv a by (simp add: agg_inv_def message_ok_def)
  then have "message_branch m \<noteq> []" by (cases "fm_Hashes m") (auto simp: message_branch_def)
  ultimately have "fst ` set (rc_candidates (ra_round a)) \<noteq> {}"
    unfolding agg_inv_candidates(3) [OF inv] by (metis set_empty subset_empty)
  then have "rc_candidates (ra_round a) \<noteq> []" by auto
  moreover have "rc_threshold (ra_round a) = 0" using inv zero by (simp add: agg_inv_def)
  ultimately show "tryFindBestPrecommit (ra_round a) = Some (fst (last (rc_candidates (ra_round a))))"
    by (simp add: tryFindBestPrecommit_def tryFindLastMatch_def find_last)
qed

definition shipped_context :: finalization_context where
  "shipped_context = sample_context\<lparr>fc_config := sample_config\<lparr>cf_Size := 10000, cf_Threshold := 6700\<rparr>, fc_weight := 2753245384135754\<rparr>"

theorem threshold_overflow_witness:
  "\<exists>a m. agg_reachable (\<lambda>_. 0) (\<lambda>_ _ _. True) shipped_context a \<and> agg_messages a = [m] \<and> fm_Voter m = 1
     \<and> tryFindBestPrecommit (ra_round a) = Some (Height_Hash_Pair 100 10)"
proof -
  let ?ms = "[sample_message 1 Stage_Prevote 100 [10]]"
  let ?r = "add_all (\<lambda>_. 0) (\<lambda>_ _ _. True) ?ms (CreateRoundMessageAggregator shipped_context)"
  let ?a = "the_ok ?r" and ?m = "sample_message 1 Stage_Prevote 100 [10]"
  have "case ?r of Ok _ \<Rightarrow> True | Err _ \<Rightarrow> False" by code_simp
  then have r: "?r = Ok ?a" by (simp split: result.splits)
  have reach: "agg_reachable (\<lambda>_. 0) (\<lambda>_ _ _. True) shipped_context ?a"
    by (rule add_all_reachable [OF agg_new _ r]) (simp add: sample_message_def)
  have msgs: "agg_messages ?a = [?m]" "fm_Voter ?m = 1" "IsPrevote ?m" by code_simp+
  have "tryFindBestPrecommit (ra_round ?a) = Some (fst (last (rc_candidates (ra_round ?a))))"
    using threshold_overflow [of shipped_context] reach msgs by (simp add: shipped_context_def)
  moreover have "fst (last (rc_candidates (ra_round ?a))) = Height_Hash_Pair 100 10" by code_simp
  ultimately show ?thesis using reach msgs by metis
qed

subsection \<open>The sequence of votes\<close>

lemma pParent_append:
  assumes "tree_ok (xs @ t)" "k \<in> tree_keys t"
  shows "pParent (xs @ t) k = pParent t k"
  using assms
proof (induction xs)
  case (Cons x xs)
  obtain j q where x: "x = (j, q)" by fastforce
  have "map_of (xs @ t) j = None" using Cons.prems by (simp add: x)
  then have "j \<noteq> k" using Cons.prems(2) by (auto simp: map_add_def split: option.splits)
  with Cons show ?case by (simp add: x pParent_Cons)
qed simp

text \<open>The parent of a block that a branch names first is its predecessor in the branch.\<close>

lemma first_branch_parent:
  assumes "tree_ok t" "case p of None \<Rightarrow> True | Some q \<Rightarrow> q \<in> tree_keys t" "k \<notin> tree_keys t" "k \<notin> set us"
  shows "pParent (addBranch_loop p (us @ k # vs) t) k = (if us = [] then p else Some (last us))"
  using assms
proof (induction us arbitrary: p t)
  case Nil
  let ?t = "(k, p) # t"
  have t: "tree_insert k p t = ?t" using Nil.prems(3) by (simp add: tree_insert_def domIff)
  have ok: "tree_ok ?t" using Nil.prems by (auto simp: domIff split: option.splits)
  obtain xs where "addBranch_loop (Some k) vs ?t = xs @ ?t" "tree_ok (xs @ ?t)" using addBranch_loop_ok [OF ok, of "Some k" vs] by auto
  then show ?case using pParent_append [of xs ?t k] by (simp add: t pParent_Cons)
next
  case (Cons u us)
  have ok: "tree_ok (tree_insert u p t)" "u \<in> tree_keys (tree_insert u p t)" "k \<notin> tree_keys (tree_insert u p t)"
    using Cons.prems by (auto simp: tree_insert_def domIff split: option.splits if_splits)
  show ?case using Cons.IH [OF ok(1) _ ok(3)] ok(2) Cons.prems(4) by (cases us) auto
qed

lemma first_prevote_parent:
  assumes "\<forall>v\<in>set earlier. k \<notin> set (fst v)" "k \<notin> set us"
  shows "pParent (tree_of (later @ (us @ k # ws, w) # earlier)) k = (if us = [] then None else Some (last us))"
proof (induction later)
  case Nil
  have "k \<notin> tree_keys (tree_of earlier)" using tree_of_ok [of earlier] assms(1) by (simp del: dom_map_of_conv_image_fst)
  with first_branch_parent [OF conjunct1 [OF tree_of_ok [of earlier]], of None k us ws] assms(2) show ?case by simp
next
  case (Cons v later)
  let ?t = "tree_of (later @ (us @ k # ws, w) # earlier)"
  have "k \<in> tree_keys ?t" using tree_of_ok [of "later @ (us @ k # ws, w) # earlier"] by (simp del: dom_map_of_conv_image_fst)
  moreover obtain xs where "addBranch_loop None (fst v) ?t = xs @ ?t" "tree_ok (xs @ ?t)"
    using addBranch_loop_ok [OF conjunct1 [OF tree_of_ok [of "later @ (us @ k # ws, w) # earlier"]], of None "fst v"] by auto
  ultimately show ?case using Cons pParent_append [of xs ?t k] by (simp del: dom_map_of_conv_image_fst)
qed


lemma prevote_parent:
  assumes reach: "agg_reachable messageHash verify c a" and split: "agg_messages a = later @ m # earlier" and m: "IsPrevote m"
    and branch: "message_branch m = us @ k # vs" and first: "\<forall>x\<in>set earlier. IsPrevote x \<longrightarrow> k \<notin> set (message_branch x)"
  shows "tree_ok (rc_tree (ra_round a))" "k \<in> tree_keys (rc_tree (ra_round a))" "k \<notin> set us"
    "pParent (rc_tree (ra_round a)) k = (if us = [] then None else Some (last us))"
proof -
  have inv: "agg_inv messageHash verify c a" using agg_reachable_inv [OF reach] .
  let ?votes = "\<lambda>ms. map (\<lambda>m. (message_branch m, fc_lookup c (fm_Voter m))) (filter IsPrevote ms)"
  have votes: "agg_prevotes a = ?votes later @ (us @ k # vs, fc_lookup c (fm_Voter m)) # ?votes earlier"
    using inv split m branch by (simp add: agg_prevotes_def agg_inv_def)
  have tree: "rc_tree (ra_round a) = tree_of (agg_prevotes a)" using inv by (simp add: agg_inv_def round_rep_def)
  have "length (fm_Hashes m) < 2 ^ 32" using inv split by (auto simp: agg_inv_def message_ok_def)
  then have "distinct (message_branch m)" unfolding message_branch_def by (rule distinct_branch_keys)
  then show us: "k \<notin> set us" using branch by simp
  show "tree_ok (rc_tree (ra_round a))" "k \<in> tree_keys (rc_tree (ra_round a))"
    using tree_of_ok [of "agg_prevotes a"] unfolding tree by (simp_all add: votes del: dom_map_of_conv_image_fst)
  have "\<forall>v\<in>set (?votes earlier). k \<notin> set (fst v)" using first by auto
  from first_prevote_parent [OF this us] show "pParent (rc_tree (ra_round a)) k = (if us = [] then None else Some (last us))"
    unfolding tree votes .
qed


text \<open>Two sequences of the same votes, of which one finalizes a block and the other does not.\<close>

definition split_votes :: "finalization_message list" where
  "split_votes = [sample_message 1 Stage_Prevote 100 [10, 11], sample_message 3 Stage_Prevote 100 [10, 11],
     sample_message 2 Stage_Prevote 101 [11], sample_message 1 Stage_Precommit 101 [11], sample_message 3 Stage_Precommit 100 [10]]"

definition split_votes' :: "finalization_message list" where
  "split_votes' = [sample_message 2 Stage_Prevote 101 [11], sample_message 1 Stage_Prevote 100 [10, 11],
     sample_message 3 Stage_Prevote 100 [10, 11], sample_message 1 Stage_Precommit 101 [11], sample_message 3 Stage_Precommit 100 [10]]"

lemma split_reachable:
  assumes "ms \<in> {split_votes, split_votes'}"
  obtains a where "agg_reachable (\<lambda>_. 0) (\<lambda>_ _ _. True) sample_context a" "agg_messages a = rev ms"
    "tryFindBestPrecommit (ra_round a) = (if ms = split_votes then Some (Height_Hash_Pair 100 10) else None)"
proof -
  let ?r = "\<lambda>ms. add_all (\<lambda>_. 0) (\<lambda>_ _ _. True) ms (CreateRoundMessageAggregator sample_context)"
  have "case ?r split_votes of Ok a \<Rightarrow> agg_messages a = rev split_votes \<and> tryFindBestPrecommit (ra_round a) = Some (Height_Hash_Pair 100 10) | Err _ \<Rightarrow> False"
    "case ?r split_votes' of Ok a \<Rightarrow> agg_messages a = rev split_votes' \<and> tryFindBestPrecommit (ra_round a) = None | Err _ \<Rightarrow> False"
    "split_votes \<noteq> split_votes'" by code_simp+
  with assms obtain a where a: "?r ms = Ok a" "agg_messages a = rev ms"
    "tryFindBestPrecommit (ra_round a) = (if ms = split_votes then Some (Height_Hash_Pair 100 10) else None)"
    by (cases "?r split_votes"; cases "?r split_votes'") auto
  have "\<forall>m\<in>set ms. length (fm_Hashes m) < 2 ^ 32" using assms by (auto simp: split_votes_def split_votes'_def sample_message_def)
  with a that show ?thesis by (meson add_all_reachable agg_new)
qed


end
