(* ===== verification/Finalization_Proof.thy ===== *)
theory Finalization_Proof
  imports Finalization_Agreement "HOL-Library.List_Lexorder" "HOL-Library.Multiset"
begin

section \<open>Finalization: proofs\<close>

text \<open>
  Finalization proofs, \<^verbatim>\<open>FinalizationProof.h\<close>, \<^verbatim>\<open>FinalizationMessageGroup.h\<close> and \<^verbatim>\<open>FinalizationProofUtils.cpp\<close> of
  \<^verbatim>\<open>src/extensions/finalization/src/model\<close> and \<^verbatim>\<open>chain/FinalizationProofVerifier.cpp\<close>.  A proof is made of the messages of a
  round: messages that sign the same bytes form a group that holds the bytes once and all signatures.  A verifier
  restores the messages and adds them to a new aggregator.  The main results: a proof that is accepted
  is carried by voters who reach the threshold, and a node that can finalize a block makes a proof
  that is accepted, when all prevotes name the same parents.
\<close>

subsection \<open>Making a proof\<close>

record message_group =
  mg_Stage :: finalization_stage
  mg_Height :: height
  mg_Hashes :: "hash256 list"
  mg_Signatures :: "bm_tree_signature list"

record finalization_statistics =
  fs_Round :: finalization_round
  fs_Height :: height
  fs_Hash :: hash256

record finalization_proof =
  fp_Version :: "32 word"
  fp_Round :: finalization_round
  fp_Height :: height
  fp_Hash :: hash256
  fp_MessageGroups :: "message_group list"

definition fp_Current_Version :: "32 word" where "fp_Current_Version = 1"

text \<open>
  \<^verbatim>\<open>GroupFinalizationMessageComparer\<close> compares the sizes and then the signed bytes, so the map is keyed by them; the
  value has the first message of the group, which is the key of the C++ map, and the signatures.
\<close>

type_synonym group_key = "32 word \<times> bytes"

definition group_less :: "group_key \<Rightarrow> group_key \<Rightarrow> bool" where
  "group_less l r \<longleftrightarrow> (if fst l \<noteq> fst r then fst l < fst r else snd l < snd r)"

definition can_group :: "finalization_round \<Rightarrow> finalization_message \<Rightarrow> bool" where
  "can_group round m \<longleftrightarrow> round = si_Round (fm_StepIdentifier m) \<and> 0 = fm_Reserved1 m \<and> fm_Current_Version = fm_Version m"

type_synonym signature_groups = "(group_key \<times> finalization_message \<times> bm_tree_signature list) list"

definition group_message :: "finalization_round \<Rightarrow> finalization_message \<Rightarrow> signature_groups \<Rightarrow> signature_groups" where
  "group_message round m groups =
     (if \<not> can_group round m then groups
      else let k = (fm_Size m, fm_Buffer m);
               found = (if map_of groups k = None then om_insert group_less k (m, []) groups else groups);
               (template, signatures) = the (map_of found k)
           in om_update k (template, signatures @ [fm_Signature m]) found)"

definition to_message_group :: "finalization_message \<times> bm_tree_signature list \<Rightarrow> message_group" where
  "to_message_group p = \<lparr>mg_Stage = si_Stage (fm_StepIdentifier (fst p)), mg_Height = fm_Height (fst p), mg_Hashes = fm_Hashes (fst p),
     mg_Signatures = snd p\<rparr>"

definition GroupMessages :: "finalization_round \<Rightarrow> finalization_message list \<Rightarrow> message_group list" where
  "GroupMessages round ms = map (\<lambda>p. to_message_group (snd p)) (fold (group_message round) ms [])"

definition CreateFinalizationProof :: "finalization_statistics \<Rightarrow> finalization_message list \<Rightarrow> finalization_proof" where
  "CreateFinalizationProof s ms =
     \<lparr>fp_Version = fp_Current_Version, fp_Round = fs_Round s, fp_Height = fs_Height s, fp_Hash = fs_Hash s,
      fp_MessageGroups = GroupMessages (fs_Round s) ms\<rparr>"

subsection \<open>Verifying a proof\<close>

datatype verify_proof_result =
  Proof_Invalid_Version | Proof_Invalid_Epoch | Proof_Invalid_Message | Proof_No_Precommit
  | Proof_Invalid_Height | Proof_Invalid_Hash | Proof_Success

definition CreateTemplateMessage :: "finalization_round \<Rightarrow> message_group \<Rightarrow> bm_tree_signature \<Rightarrow> finalization_message" where
  "CreateTemplateMessage round g signature =
     \<lparr>fm_Reserved1 = 0, fm_Signature = signature, fm_Version = fm_Current_Version,
      fm_StepIdentifier = new_StepIdentifier (rd_Epoch round) (rd_Point round) (mg_Stage g), fm_Height = mg_Height g, fm_Hashes = mg_Hashes g\<rparr>"

text \<open>
  The two loops run over the messages of all groups.  The verifier changes the signature of one template and adds it
  again, so the descriptors of a group share it; only the key, the hashes and the round context are
  read afterwards, which do not change with it.
\<close>

definition proof_messages :: "finalization_proof \<Rightarrow> finalization_message list" where
  "proof_messages p = concat (map (\<lambda>g. map (CreateTemplateMessage (fp_Round p) g) (mg_Signatures g)) (fp_MessageGroups p))"

definition is_rejected :: "add_result \<Rightarrow> bool" where
  "is_rejected r \<longleftrightarrow> r \<notin> {Success_Prevote, Success_Precommit}"

fun verify_messages :: "(finalization_message \<Rightarrow> hash256) \<Rightarrow> (bm_tree_signature \<Rightarrow> 64 word \<Rightarrow> bytes \<Rightarrow> bool)
   \<Rightarrow> finalization_message list \<Rightarrow> round_aggregator \<Rightarrow> round_aggregator option result" where
  "verify_messages messageHash verify [] a = Ok (Some a)"
| "verify_messages messageHash verify (m # ms) a =
     bind_result (ra_add messageHash verify m a) (\<lambda>(r, a').
       if is_rejected r then Ok None else verify_messages messageHash verify ms a')"

definition VerifyFinalizationProof :: "(finalization_message \<Rightarrow> hash256) \<Rightarrow> (bm_tree_signature \<Rightarrow> 64 word \<Rightarrow> bytes \<Rightarrow> bool)
   \<Rightarrow> finalization_proof \<Rightarrow> finalization_context \<Rightarrow> verify_proof_result result" where
  "VerifyFinalizationProof messageHash verify p c =
     (if fp_Current_Version \<noteq> fp_Version p then Ok Proof_Invalid_Version
      else if rd_Epoch (fp_Round p) \<noteq> fc_epoch c then Ok Proof_Invalid_Epoch
      else map_result (\<lambda>added.
        case added of
          None \<Rightarrow> Proof_Invalid_Message
        | Some a \<Rightarrow>
            (case tryFindBestPrecommit (ra_round a) of
               None \<Rightarrow> Proof_No_Precommit
             | Some best \<Rightarrow>
                 if hh_Height best \<noteq> fp_Height p then Proof_Invalid_Height
                 else if hh_Hash best \<noteq> fp_Hash p then Proof_Invalid_Hash
                 else Proof_Success))
        (verify_messages messageHash verify (proof_messages p) (CreateRoundMessageAggregator c)))"

subsection \<open>Accepted proofs\<close>

lemma ra_add_messages:
  assumes "ra_add messageHash verify m a = Ok (r, a')"
  shows "agg_messages a' = (if is_rejected r then agg_messages a else m # agg_messages a)"
  using assms
proof (cases rule: ra_add_cases)
  case (2 w)
  then show ?thesis by (simp add: agg_messages_def CreateMessageDescriptor_def is_rejected_def)
qed (auto simp: is_rejected_def)

lemma verify_messages_reachable:
  "agg_reachable messageHash verify c a \<Longrightarrow> \<forall>m\<in>set ms. length (fm_Hashes m) < 2 ^ 32
   \<Longrightarrow> verify_messages messageHash verify ms a = Ok (Some a')
   \<Longrightarrow> agg_reachable messageHash verify c a' \<and> agg_messages a' = rev ms @ agg_messages a"
proof (induction ms arbitrary: a)
  case (Cons m ms)
  from Cons.prems(3) obtain r b where b: "ra_add messageHash verify m a = Ok (r, b)" "\<not> is_rejected r"
      "verify_messages messageHash verify ms b = Ok (Some a')" by (auto split: if_splits)
  moreover have "agg_reachable messageHash verify c b" using Cons.prems(1,2) b(1) by (auto intro: agg_add)
  ultimately show ?case using Cons.IH [of b] Cons.prems(2) ra_add_messages [OF b(1)] by simp
qed simp

text \<open>
  C5: A finalization proof that is accepted holds signed messages of distinct voters: those who prevoted the
  block of the proof reach the threshold, and so do those who precommitted it or a descendant.
\<close>

theorem proof_sound:
  assumes "VerifyFinalizationProof messageHash verify p c = Ok Proof_Success" "context_wf c"
    and "\<forall>g\<in>set (fp_MessageGroups p). length (mg_Hashes g) < 2 ^ 32"
  shows "\<exists>a. agg_reachable messageHash verify c a \<and> agg_messages a = rev (proof_messages p)
    \<and> unat (CalculateWeightedThreshold c) \<le> weight_sum c (prevoters a (Height_Hash_Pair (fp_Height p) (fp_Hash p)))
    \<and> unat (CalculateWeightedThreshold c) \<le> weight_sum c (precommitters a (Height_Hash_Pair (fp_Height p) (fp_Hash p)))
    \<and> distinct (map (\<lambda>m. (fm_Voter m, IsPrevote m)) (proof_messages p))
    \<and> (\<forall>m\<in>set (proof_messages p). verify (fm_Signature m) (StepIdentifierToBmKeyIdentifier (fm_StepIdentifier m)) (fm_Buffer m))"
proof -
  from assms(1) obtain a best where a: "verify_messages messageHash verify (proof_messages p) (CreateRoundMessageAggregator c) = Ok (Some a)"
    and best: "tryFindBestPrecommit (ra_round a) = Some best" "hh_Height best = fp_Height p" "hh_Hash best = fp_Hash p"
    by (auto simp: VerifyFinalizationProof_def split: if_splits option.splits)
  have "\<forall>m\<in>set (proof_messages p). length (fm_Hashes m) < 2 ^ 32"
    using assms(3) by (auto simp: proof_messages_def CreateTemplateMessage_def)
  from verify_messages_reachable [OF agg_new this a]
  have reach: "agg_reachable messageHash verify c a" and msgs: "agg_messages a = rev (proof_messages p)"
    by (simp_all add: CreateRoundMessageAggregator_def agg_messages_def)
  note inv = agg_reachable_inv [OF reach]
  have "best = Height_Hash_Pair (fp_Height p) (fp_Hash p)" using best(2,3) by (cases best) simp
  moreover have "distinct (map (\<lambda>m. (fm_Voter m, IsPrevote m)) (proof_messages p))"
    using inv msgs by (simp add: agg_inv_def distinct_map)
  moreover have "verify (fm_Signature m) (StepIdentifierToBmKeyIdentifier (fm_StepIdentifier m)) (fm_Buffer m)"
    if "m \<in> set (proof_messages p)" for m
  proof -
    have "message_ok verify c m" using inv msgs that by (simp add: agg_inv_def)
    then show ?thesis by (auto simp: message_ok_def ProcessMessage_def Let_def split: if_splits)
  qed
  ultimately show ?thesis
    using reach msgs best_precommit_prevoted [OF inv assms(2) best(1)] by blast
qed

subsection \<open>The sequence of votes\<close>

text \<open>
  The parents under which blocks are named: \<open>f\<close> gives the predecessor of a block in every prevoted branch that
  names it, and nothing for the first block of the branches.
\<close>

fun branch_coherent :: "(height_hash_pair \<Rightarrow> height_hash_pair option) \<Rightarrow> height_hash_pair option \<Rightarrow> height_hash_pair list \<Rightarrow> bool" where
  "branch_coherent f p [] = True"
| "branch_coherent f p (k # ks) = (f k = p \<and> branch_coherent f (Some k) ks)"

lemma addBranch_loop_parents:
  "\<forall>k\<in>tree_keys t. pParent t k = f k \<Longrightarrow> branch_coherent f p ks
   \<Longrightarrow> \<forall>k\<in>tree_keys (addBranch_loop p ks t). pParent (addBranch_loop p ks t) k = f k"
proof (induction p ks t rule: addBranch_loop.induct)
  case (2 p k ks t)
  have "\<forall>j\<in>tree_keys (tree_insert k p t). pParent (tree_insert k p t) j = f j"
    using "2.prems" by (auto simp: tree_insert_def pParent_Cons domIff)
  with "2.IH" "2.prems" show ?case by simp
qed simp

lemma tree_of_parents: "\<forall>v\<in>set vs. branch_coherent f None (fst v) \<Longrightarrow> \<forall>k\<in>tree_keys (tree_of vs). pParent (tree_of vs) k = f k"
  using addBranch_loop_parents by (induction vs) auto

lemma tree_path_parents:
  assumes "tree_ok t" "tree_ok t'" "\<forall>k\<in>tree_keys t. pParent t k = f k" "\<forall>k\<in>tree_keys t'. pParent t' k = f k"
  shows "k \<in> tree_keys t \<Longrightarrow> k \<in> tree_keys t' \<Longrightarrow> tree_path t k = tree_path t' k"
proof (induction "length (tree_path t k)" arbitrary: k rule: less_induct)
  case less
  note unfold = tree_path_unfold [OF assms(1) less.prems(1)] tree_path_unfold [OF assms(2) less.prems(2)]
  have parents: "pParent t k = f k" "pParent t' k = f k" using assms(3,4) less.prems by blast+
  show ?case
  proof (cases "f k")
    case (Some q)
    then have "q \<in> tree_keys t" "q \<in> tree_keys t'" using pParent_keys assms(1,2) parents by metis+
    then show ?thesis using less.hyps [of q] unfold parents Some by simp
  qed (use unfold parents in simp)
qed

text \<open>Aggregators of one context with the same messages have the same candidates with the same weights.\<close>

lemma same_messages_same_round:
  assumes inv: "agg_inv messageHash verify c a" "agg_inv messageHash verify c b" and wf: "context_wf c"
    and same: "set (agg_messages a) = set (agg_messages b)"
    and coherent: "\<forall>m\<in>set (agg_messages a). IsPrevote m \<longrightarrow> branch_coherent f None (message_branch m)"
  shows "rc_candidates (ra_round a) = rc_candidates (ra_round b)"
proof -
  let ?s = "rc_tree (ra_round a)" and ?t = "rc_tree (ra_round b)"
  have trees: "?s = tree_of (agg_prevotes a)" "?t = tree_of (agg_prevotes b)" using inv by (auto simp: agg_inv_def round_rep_def)
  have ok: "tree_ok ?s" "tree_ok ?t" using trees tree_of_ok by metis+
  have "set (agg_prevotes a) = set (agg_prevotes b)" using same inv by (auto simp: agg_prevotes_def agg_inv_def)
  then have keys: "tree_keys ?s = tree_keys ?t" using trees tree_of_ok by metis
  have "\<forall>v\<in>set (agg_prevotes a). branch_coherent f None (fst v)" "\<forall>v\<in>set (agg_prevotes b). branch_coherent f None (fst v)"
    using coherent same by (auto simp: agg_prevotes_def)
  then have parents: "\<forall>k\<in>tree_keys ?s. pParent ?s k = f k" "\<forall>k\<in>tree_keys ?t. pParent ?t k = f k" using tree_of_parents trees by metis+
  have "tree_path ?s p = tree_path ?t p" for p
    using tree_path_parents [OF ok parents] keys tree_path_absent by (cases "p \<in> tree_keys ?s") metis+
  then have "rc_isDescendant (ra_round a) k p = rc_isDescendant (ra_round b) k p" for k p
    using tree_isDescendant_path ok by (simp add: rc_isDescendant_def)
  then have voters: "prevoters a k = prevoters b k" "precommitters a k = precommitters b k" for k
    using same by (simp_all add: prevoters_def precommitters_def)
  have "rc_weights (ra_round a) k = rc_weights (ra_round b) k" for k
    using agg_inv_weights [OF inv(1) wf, of k] agg_inv_weights [OF inv(2) wf, of k] voters [of k]
    by (cases "rc_weights (ra_round a) k", cases "rc_weights (ra_round b) k") (simp add: word_unat_eq_iff)
  moreover have "map_of (rc_candidates r) k = (if k \<in> fst ` set (rc_candidates r) then Some (rc_weights r k) else None)" for r k
    by (auto simp: rc_weights_def map_of_eq_None_iff split: option.split)
  ultimately have "map_of (rc_candidates (ra_round a)) = map_of (rc_candidates (ra_round b))"
    using agg_inv_candidates(3) inv keys by (simp add: fun_eq_iff)
  then show ?thesis using asc.sorted_map_of_unique agg_inv_candidates(1) inv by blast
qed


text \<open>The proof of the small round, made of its messages.\<close>

definition sample_proof :: finalization_proof where
  "sample_proof = CreateFinalizationProof \<lparr>fs_Round = Finalization_Round 3 1, fs_Height = 101, fs_Hash = 11\<rparr> sample_votes"

theorem proof_sound_witness:
  "\<exists>a. agg_reachable (\<lambda>_. 0) (\<lambda>_ _ _. True) sample_context a \<and> agg_messages a = rev (proof_messages sample_proof)
    \<and> unat (CalculateWeightedThreshold sample_context) \<le> weight_sum sample_context (prevoters a (Height_Hash_Pair 101 11))"
proof -
  have "VerifyFinalizationProof (\<lambda>_. 0) (\<lambda>_ _ _. True) sample_proof sample_context = Ok Proof_Success" by code_simp
  moreover have "\<forall>g\<in>set (fp_MessageGroups sample_proof). length (mg_Hashes g) \<le> 3" by code_simp
  then have "\<forall>g\<in>set (fp_MessageGroups sample_proof). length (mg_Hashes g) < 2 ^ 32" by auto
  ultimately have "\<exists>a. agg_reachable (\<lambda>_. 0) (\<lambda>_ _ _. True) sample_context a \<and> agg_messages a = rev (proof_messages sample_proof)
      \<and> unat (CalculateWeightedThreshold sample_context) \<le> weight_sum sample_context (prevoters a (Height_Hash_Pair (fp_Height sample_proof) (fp_Hash sample_proof)))"
    using proof_sound [OF _ sample_context_wf, of "\<lambda>_. 0" "\<lambda>_ _ _. True" sample_proof] by blast
  then show ?thesis by (simp add: sample_proof_def CreateFinalizationProof_def)
qed

subsection \<open>Grouping keeps the messages\<close>

interpretation group_order: key_order group_less
proof
  fix a b c k :: group_key
  show "\<not> group_less k k" by (simp add: group_less_def)
  show "group_less a b \<Longrightarrow> group_less b c \<Longrightarrow> group_less a c" by (auto simp: group_less_def split: if_splits)
  show "a \<noteq> b \<Longrightarrow> group_less a b \<or> group_less b a" by (cases a, cases b) (auto simp: group_less_def)
qed

definition restored :: "finalization_message \<times> bm_tree_signature list \<Rightarrow> finalization_message list" where
  "restored p = map (\<lambda>s. (fst p)\<lparr>fm_Signature := s\<rparr>) (snd p)"

definition groups_messages :: "signature_groups \<Rightarrow> finalization_message list" where
  "groups_messages groups = concat (map (\<lambda>p. restored (snd p)) groups)"

definition groups_inv :: "finalization_round \<Rightarrow> signature_groups \<Rightarrow> bool" where
  "groups_inv round groups \<longleftrightarrow> om_sorted group_less groups
     \<and> (\<forall>p\<in>set groups. can_group round (fst (snd p)) \<and> fst p = (fm_Size (fst (snd p)), fm_Buffer (fst (snd p))))"

lemma same_buffer:
  assumes "fm_Buffer m = fm_Buffer t" "can_group round m" "can_group round t"
  shows "m = t\<lparr>fm_Signature := fm_Signature m\<rparr>"
  using fm_Buffer_inject [OF assms(1)] assms(2,3) by (cases m, cases t) (simp add: can_group_def)

lemma groups_messages_update:
  assumes "(k, v) \<in> set groups" "distinct (map fst groups)" "mset (restored v') = add_mset m (mset (restored v))"
  shows "mset (groups_messages (om_update k v' groups)) = add_mset m (mset (groups_messages groups))"
  using assms
proof (induction groups)
  case (Cons p groups)
  show ?case
  proof (cases "fst p = k")
    case True
    then have "om_update k v' groups = groups" using Cons.prems(2) by (intro om_update_absent) auto
    moreover have "p = (k, v)" using True Cons.prems(1,2) by (cases p) (auto simp: rev_image_eqI)
    ultimately show ?thesis using Cons.prems(3) by (simp add: groups_messages_def om_update_def)
  next
    case False
    then show ?thesis using Cons by (auto simp: groups_messages_def om_update_def)
  qed
qed simp

lemma groups_messages_insert:
  "k \<notin> fst ` set groups \<Longrightarrow> mset (groups_messages (om_insert group_less k (m, []) groups)) = mset (groups_messages groups)"
  by (induction groups) (use group_order.lt_total in \<open>auto simp: groups_messages_def restored_def\<close>)

lemma group_message_inv:
  assumes inv: "groups_inv round groups" and m: "can_group round m"
  shows "groups_inv round (group_message round m groups) \<and> mset (groups_messages (group_message round m groups)) = add_mset m (mset (groups_messages groups))"
proof -
  let ?k = "(fm_Size m, fm_Buffer m)"
  define found where "found = (if map_of groups ?k = None then om_insert group_less ?k (m, []) groups else groups)"
  have sorted: "om_sorted group_less found" using inv group_order.sorted_om_insert by (auto simp: found_def groups_inv_def)
  note dist = group_order.sorted_distinct [OF sorted]
  have set_found: "set found \<subseteq> insert (?k, m, []) (set groups)"
  proof -
    have "set (om_insert group_less ?k (m, []) groups) \<subseteq> insert (?k, m, []) (set groups)"
      by (induction groups) (auto split: if_splits)
    then show ?thesis by (auto simp: found_def)
  qed
  have "?k \<in> fst ` set found"
  proof (cases "map_of groups ?k")
    case None
    then show ?thesis using group_order.set_om_insert [of ?k "(m, [])" groups] by (simp add: found_def)
  next
    case (Some v)
    then show ?thesis by (auto simp: found_def intro: rev_image_eqI dest: map_of_SomeD)
  qed
  then obtain t sigs where ts: "(?k, t, sigs) \<in> set found" by force
  with dist have look: "map_of found ?k = Some (t, sigs)" by simp
  have elems: "\<forall>p\<in>set found. can_group round (fst (snd p)) \<and> fst p = (fm_Size (fst (snd p)), fm_Buffer (fst (snd p)))"
    using set_found inv m by (auto simp: groups_inv_def)
  with ts have t: "can_group round t" "fm_Buffer m = fm_Buffer t" by fastforce+
  have step: "group_message round m groups = om_update ?k (t, sigs @ [fm_Signature m]) found"
    using m look by (simp add: group_message_def found_def [symmetric])
  have "mset (groups_messages found) = mset (groups_messages groups)"
    using groups_messages_insert [of ?k groups m] by (auto simp: found_def map_of_eq_None_iff)
  moreover have "mset (restored (t, sigs @ [fm_Signature m])) = add_mset m (mset (restored (t, sigs)))"
    using same_buffer [OF t(2) m t(1)] by (simp add: restored_def)
  ultimately have "mset (groups_messages (group_message round m groups)) = add_mset m (mset (groups_messages groups))"
    using groups_messages_update [OF ts dist] step by simp
  moreover have "groups_inv round (group_message round m groups)"
    unfolding step groups_inv_def
  proof
    show "om_sorted group_less (om_update ?k (t, sigs @ [fm_Signature m]) found)" using sorted by simp
    show "\<forall>p\<in>set (om_update ?k (t, sigs @ [fm_Signature m]) found). can_group round (fst (snd p)) \<and> fst p = (fm_Size (fst (snd p)), fm_Buffer (fst (snd p)))"
      using elems ts by (auto simp: om_update_def)
  qed
  ultimately show ?thesis by blast
qed

lemma group_messages_inv:
  "groups_inv round groups \<Longrightarrow> \<forall>m\<in>set ms. can_group round m
   \<Longrightarrow> groups_inv round (fold (group_message round) ms groups)
     \<and> mset (groups_messages (fold (group_message round) ms groups)) = mset ms + mset (groups_messages groups)"
proof (induction ms arbitrary: groups)
  case (Cons m ms)
  then show ?case using group_message_inv [of round groups m] by simp
qed simp

lemma step_identifier_restored [simp]:
  "new_StepIdentifier (rd_Epoch (si_Round i)) (rd_Point (si_Round i)) (si_Stage i) = i"
proof (rule step_identifier_eqI)
  have "rd_Point (si_Round i) < 2 ^ 31"
    using unsigned_less [of "si_PointStage i", where 'a=nat]
    by (simp add: si_Round_def word_less_nat_alt drop_bit_eq_div unat_div less_mult_imp_div_less)
  then show "si_Round (new_StepIdentifier (rd_Epoch (si_Round i)) (rd_Point (si_Round i)) (si_Stage i)) = si_Round i"
    by (simp add: si_Round_new)
  show "si_Stage (new_StepIdentifier (rd_Epoch (si_Round i)) (rd_Point (si_Round i)) (si_Stage i)) = si_Stage i"
    by (simp add: si_Stage_def [of i] and.assoc)
qed

lemma CreateTemplateMessage_restored:
  "can_group round (fst p) \<Longrightarrow> map (CreateTemplateMessage round (to_message_group p)) (mg_Signatures (to_message_group p)) = restored p"
  by (cases "fst p") (auto simp: CreateTemplateMessage_def to_message_group_def restored_def can_group_def)

lemma proof_messages_created:
  assumes "\<forall>m\<in>set ms. can_group (fs_Round s) m"
  shows "mset (proof_messages (CreateFinalizationProof s ms)) = mset ms"
proof -
  let ?groups = "fold (group_message (fs_Round s)) ms []"
  have inv: "groups_inv (fs_Round s) ?groups" "mset (groups_messages ?groups) = mset ms"
    using group_messages_inv [of "fs_Round s" "[]" ms] assms by (simp_all add: groups_inv_def groups_messages_def)
  have "proof_messages (CreateFinalizationProof s ms) = groups_messages ?groups"
    unfolding proof_messages_def groups_messages_def CreateFinalizationProof_def GroupMessages_def
    using inv(1) by (auto simp: groups_inv_def comp_def CreateTemplateMessage_restored intro!: arg_cong [where f = concat])
  with inv(2) show ?thesis by simp
qed

subsection \<open>A node's proofs are accepted\<close>

text \<open>The checks of \<open>ra_add\<close> that do not depend on the messages added before.\<close>

definition round_guard :: "finalization_context \<Rightarrow> finalization_message \<Rightarrow> bool" where
  "round_guard c m \<longleftrightarrow> 0 \<noteq> fm_HashesCount m \<and> fm_HashesCount m \<le> cf_MaxHashesPerPoint (fc_config c)
     \<and> fc_height c \<le> fm_Height m + ucast (fm_HashesCount m - 1)
     \<and> check_hashes (fc_config c) m (fm_Height m + ucast (fm_HashesCount m - 1)) = Ok True"

lemma ra_add_guard:
  assumes "ra_add messageHash verify m a = Ok (r, a')" "\<not> is_rejected r"
  shows "round_guard (ra_context a) m"
proof -
  let ?check = "check_hashes (fc_config (ra_context a)) m (fm_Height m + ucast (fm_HashesCount m - 1))"
  from assms obtain valid where "?check = Ok valid" by (cases ?check) (auto simp: ra_add_def Let_def is_rejected_def split: if_splits)
  with assms show ?thesis by (cases valid) (auto simp: ra_add_def Let_def is_rejected_def round_guard_def not_less split: if_splits)
qed

lemma agg_reachable_guard: "agg_reachable messageHash verify c a \<Longrightarrow> \<forall>m\<in>set (agg_messages a). round_guard c m"
proof (induction rule: agg_reachable.induct)
  case (agg_add a m r a')
  moreover have "ra_context a = c" using agg_reachable_inv [OF agg_add.hyps(1)] by (simp add: agg_inv_def)
  ultimately show ?case using ra_add_messages [OF agg_add.hyps(3)] ra_add_guard [OF agg_add.hyps(3)] by (auto split: if_splits)
qed (simp add: agg_messages_def CreateRoundMessageAggregator_def)

lemma ra_add_accepts:
  assumes "round_guard (ra_context a) m" "message_ok verify (ra_context a) m" "map_of (ra_messages a) (fm_Voter m, IsPrevote m) = None"
  shows "\<exists>r a'. ra_add messageHash verify m a = Ok (r, a') \<and> \<not> is_rejected r \<and> ra_context a' = ra_context a
    \<and> fst ` set (ra_messages a') = insert (fm_Voter m, IsPrevote m) (fst ` set (ra_messages a))"
  using assms by (simp add: round_guard_def message_ok_def ra_add_def Let_def add_to_round_def is_rejected_def not_less [symmetric])

lemma verify_messages_accepts:
  "\<forall>m\<in>set ms. round_guard c m \<and> message_ok verify c m \<Longrightarrow> distinct (map (\<lambda>m. (fm_Voter m, IsPrevote m)) ms) \<Longrightarrow> ra_context a = c
   \<Longrightarrow> (\<lambda>m. (fm_Voter m, IsPrevote m)) ` set ms \<inter> fst ` set (ra_messages a) = {}
   \<Longrightarrow> \<exists>a'. verify_messages messageHash verify ms a = Ok (Some a')"
proof (induction ms arbitrary: a)
  case (Cons m ms)
  then have "map_of (ra_messages a) (fm_Voter m, IsPrevote m) = None" by (auto simp: map_of_eq_None_iff)
  then obtain r b where b: "ra_add messageHash verify m a = Ok (r, b)" "\<not> is_rejected r" "ra_context b = c"
      "fst ` set (ra_messages b) = insert (fm_Voter m, IsPrevote m) (fst ` set (ra_messages a))"
    using ra_add_accepts [of a m verify messageHash] Cons.prems(1,3) by auto
  moreover have "(\<lambda>m. (fm_Voter m, IsPrevote m)) ` set ms \<inter> fst ` set (ra_messages b) = {}"
    using Cons.prems(2,4) b(4) by auto
  ultimately show ?case using Cons.IH [of b] Cons.prems(1,2) by simp
qed simp

lemma unknown_loop_all:
  "unat size0 + sum_list (map (\<lambda>p. unat (fm_Size (md_Message (snd p)))) ps) \<le> unat maxSize
   \<Longrightarrow> unknown_loop maxSize {} size0 ps = map (\<lambda>p. md_Message (snd p)) ps"
proof (induction ps arbitrary: size0)
  case (Cons p ps)
  let ?s = "ucast (fm_Size (md_Message (snd p))) :: 64 word"
  have s: "unat ?s = unat (fm_Size (md_Message (snd p)))" by (rule unat_ucast_epoch)
  have "unat size0 + unat ?s < 2 ^ 64" using Cons.prems s unsigned_less [of maxSize, where 'a=nat] by simp
  then have "unat (size0 + ?s) = unat size0 + unat ?s" by (subst unat_add_lem [THEN iffD1]) simp_all
  with Cons s show ?case by (simp add: Let_def word_less_nat_alt)
qed simp

text \<open>
  A node that can finalize a block makes a proof of its messages, whatever the sequence in which it lists them, that
  every node with the same context accepts, if the messages fit into one response and all prevotes agree on the
  parents of the blocks they name.
\<close>

lemma proof_accepted:
  assumes "agg_reachable messageHash verify c a" "context_wf c" "mset (order (ra_messages a)) = mset (ra_messages a)"
    and "sum_list (map (\<lambda>m. unat (fm_Size m)) (agg_messages a)) \<le> unat (ra_maxResponseSize a)"
    and "\<forall>m\<in>set (agg_messages a). si_Round (fm_StepIdentifier m) = r \<and> (IsPrevote m \<longrightarrow> branch_coherent f None (message_branch m))"
    and "rd_Epoch r = fc_epoch c" "tryFindBestPrecommit (ra_round a) = Some k"
  shows "VerifyFinalizationProof messageHash verify
      (CreateFinalizationProof \<lparr>fs_Round = r, fs_Height = hh_Height k, fs_Hash = hh_Hash k\<rparr> (ra_unknownMessages order {} a)) c = Ok Proof_Success"
proof -
  let ?s = "\<lparr>fs_Round = r, fs_Height = hh_Height k, fs_Hash = hh_Hash k\<rparr>" and ?ms = "ra_unknownMessages order {} a"
  let ?p = "CreateFinalizationProof ?s ?ms" and ?id = "\<lambda>m. (fm_Voter m, IsPrevote m)"
  note inv = agg_reachable_inv [OF assms(1)]
  have "mset (map (\<lambda>p. unat (fm_Size (md_Message (snd p)))) (order (ra_messages a))) = mset (map (\<lambda>m. unat (fm_Size m)) (agg_messages a))"
    using assms(3) by (simp add: agg_messages_def image_mset.compositionality comp_def)
  then have "sum_list (map (\<lambda>p. unat (fm_Size (md_Message (snd p)))) (order (ra_messages a))) \<le> unat (ra_maxResponseSize a)"
    using assms(4) by (metis sum_mset_sum_list)
  then have "?ms = map (\<lambda>p. md_Message (snd p)) (order (ra_messages a))" by (simp add: ra_unknownMessages_def unknown_loop_all)
  then have ms: "mset ?ms = mset (agg_messages a)" using assms(3) by (simp add: agg_messages_def)
  have oks: "\<forall>m\<in>set (agg_messages a). message_ok verify c m" using inv by (simp add: agg_inv_def)
  then have "\<forall>m\<in>set ?ms. can_group r m"
    using assms(5) mset_eq_setD [OF ms] by (auto simp: can_group_def message_ok_def ProcessMessage_def Let_def split: if_splits)
  then have pm: "mset (proof_messages ?p) = mset (agg_messages a)" using proof_messages_created [of ?ms ?s] ms by simp
  note same = mset_eq_setD [OF pm]
  have ids: "distinct (map ?id (proof_messages ?p))"
  proof -
    have "distinct (map ?id (agg_messages a))" using inv by (simp add: agg_inv_def)
    moreover have "mset (map ?id (proof_messages ?p)) = mset (map ?id (agg_messages a))" using pm by simp
    ultimately show ?thesis using mset_eq_imp_distinct_iff by blast
  qed
  have "\<exists>b. verify_messages messageHash verify (proof_messages ?p) (CreateRoundMessageAggregator c) = Ok (Some b)"
    by (rule verify_messages_accepts [OF _ ids, of c])
      (use oks agg_reachable_guard [OF assms(1)] same in \<open>simp_all add: CreateRoundMessageAggregator_def\<close>)
  then obtain b where b: "verify_messages messageHash verify (proof_messages ?p) (CreateRoundMessageAggregator c) = Ok (Some b)" ..
  have "\<forall>m\<in>set (proof_messages ?p). length (fm_Hashes m) < 2 ^ 32" using oks same by (simp add: message_ok_def)
  from verify_messages_reachable [OF agg_new this b] have reach: "agg_reachable messageHash verify c b" and msgs: "set (agg_messages b) = set (agg_messages a)"
    using same by (simp_all add: CreateRoundMessageAggregator_def agg_messages_def)
  have "rc_candidates (ra_round a) = rc_candidates (ra_round b)"
    by (rule same_messages_same_round [OF inv agg_reachable_inv [OF reach] assms(2)]) (use msgs assms(5) in auto)
  then have "tryFindBestPrecommit (ra_round b) = Some k"
    using assms(7) inv agg_reachable_inv [OF reach] by (simp add: tryFindBestPrecommit_def tryFindLastMatch_def agg_inv_def)
  then show ?thesis using b assms(6) by (simp add: VerifyFinalizationProof_def CreateFinalizationProof_def)
qed

definition sample_parent :: "height_hash_pair \<Rightarrow> height_hash_pair option" where
  "sample_parent k = (if hh_Height k = 101 then Some (Height_Hash_Pair 100 10) else if hh_Height k = 102 then Some (Height_Hash_Pair 101 11) else None)"

lemma proof_accepted_sample:
  "VerifyFinalizationProof (\<lambda>_. 0) (\<lambda>_ _ _. True)
      (CreateFinalizationProof \<lparr>fs_Round = Finalization_Round 3 1, fs_Height = 101, fs_Hash = 11\<rparr> (ra_unknownMessages rev {} sample_round))
      sample_context = Ok Proof_Success"
proof -
  have "map fm_Size (agg_messages sample_round) = [256, 320, 288, 256]" "ra_maxResponseSize sample_round = 100000" by code_simp+
  then have "sum_list (map unat (map fm_Size (agg_messages sample_round))) \<le> unat (ra_maxResponseSize sample_round)" by simp
  then have fits: "sum_list (map (\<lambda>m. unat (fm_Size m)) (agg_messages sample_round)) \<le> unat (ra_maxResponseSize sample_round)"
    by (simp add: comp_def)
  have rounds: "\<forall>m\<in>set (agg_messages sample_round). si_Round (fm_StepIdentifier m) = Finalization_Round 3 1
      \<and> (IsPrevote m \<longrightarrow> branch_coherent sample_parent None (message_branch m))" by code_simp
  have "rd_Epoch (Finalization_Round 3 1) = fc_epoch sample_context" by (simp add: sample_context_def)
  from proof_accepted [OF sample_reachable sample_context_wf _ fits rounds this sample_best, of rev] show ?thesis by simp
qed

end
