(* ===== verification/Finalization_Rounds.thy ===== *)
theory Finalization_Rounds
  imports Finalization_Proof
begin

section \<open>Finalization: all rounds, stages and stored proofs\<close>

text \<open>
  \<^verbatim>\<open>MultiRoundMessageAggregator\<close> and \<^verbatim>\<open>FinalizationStageAdvancer\<close> of \<^verbatim>\<open>src/extensions/finalization/src/chain\<close>, the storage of
  proofs in \<^verbatim>\<open>io/FileProofStorage.cpp\<close> and \<^verbatim>\<open>io/AggregateProofStorage.cpp\<close>, and \<^verbatim>\<open>CreateFinalizer\<close> of
  \<^verbatim>\<open>FinalizationOrchestrator.cpp\<close>.  A node keeps one aggregator per round, from which it takes the estimates that decide when to
  vote and the best precommit, of which it makes a proof.  The views and modifiers of the code hold locks; each
  operation is one step here.
\<close>

subsection \<open>MultiRoundMessageAggregator\<close>

type_synonym aggregator_factory = "finalization_round \<Rightarrow> round_aggregator result"
type_synonym message_order = "(message_key \<times> message_descriptor) list \<Rightarrow> (message_key \<times> message_descriptor) list"

record multi_aggregator =
  mr_maxResponseSize :: "64 word"
  mr_minRound :: finalization_round
  mr_maxRound :: finalization_round
  mr_previousFinalized :: height_hash_pair
  mr_aggregators :: "(finalization_round \<times> round_aggregator) list"

definition new_MultiRoundMessageAggregator :: "64 word \<Rightarrow> finalization_round \<Rightarrow> height_hash_pair \<Rightarrow> multi_aggregator" where
  "new_MultiRoundMessageAggregator maxResponseSize round previousFinalized =
     \<lparr>mr_maxResponseSize = maxResponseSize, mr_minRound = round, mr_maxRound = round, mr_previousFinalized = previousFinalized,
      mr_aggregators = []\<rparr>"

definition mr_size :: "multi_aggregator \<Rightarrow> nat" where
  "mr_size s = length (mr_aggregators s)"

definition tryGetRoundContext :: "finalization_round \<Rightarrow> multi_aggregator \<Rightarrow> round_context option" where
  "tryGetRoundContext round s = map_option ra_round (map_of (mr_aggregators s) round)"

fun findEstimate_loop :: "finalization_round \<Rightarrow> height_hash_pair \<Rightarrow> (finalization_round \<times> round_aggregator) list \<Rightarrow> height_hash_pair" where
  "findEstimate_loop round previous [] = previous"
| "findEstimate_loop round previous (p # ps) =
     (if fst p > round then findEstimate_loop round previous ps
      else case tryFindEstimate (ra_round (snd p)) of
             Some e \<Rightarrow> e
           | None \<Rightarrow> findEstimate_loop round previous ps)"

definition findEstimate :: "finalization_round \<Rightarrow> multi_aggregator \<Rightarrow> height_hash_pair" where
  "findEstimate round s = findEstimate_loop round (mr_previousFinalized s) (rev (mr_aggregators s))"

record best_precommit_descriptor =
  bp_Round :: finalization_round
  bp_Target :: height_hash_pair
  bp_Proof :: "finalization_message list"

definition default_descriptor :: best_precommit_descriptor where
  "default_descriptor = \<lparr>bp_Round = Finalization_Round 0 0, bp_Target = Height_Hash_Pair 0 0, bp_Proof = []\<rparr>"

fun bestPrecommit_loop :: "message_order \<Rightarrow> (finalization_round \<times> round_aggregator) list \<Rightarrow> best_precommit_descriptor" where
  "bestPrecommit_loop order [] = default_descriptor"
| "bestPrecommit_loop order (p # ps) =
     (case tryFindBestPrecommit (ra_round (snd p)) of
        Some best \<Rightarrow> \<lparr>bp_Round = fst p, bp_Target = best, bp_Proof = ra_unknownMessages order {} (snd p)\<rparr>
      | None \<Rightarrow> bestPrecommit_loop order ps)"

definition mr_tryFindBestPrecommit :: "message_order \<Rightarrow> multi_aggregator \<Rightarrow> best_precommit_descriptor" where
  "mr_tryFindBestPrecommit order s = bestPrecommit_loop order (rev (mr_aggregators s))"

definition mr_shortHashes :: "message_order \<Rightarrow> multi_aggregator \<Rightarrow> 32 word list" where
  "mr_shortHashes order s = concat (map (\<lambda>p. ra_shortHashes order (snd p)) (mr_aggregators s))"

definition IsInRange :: "finalization_round \<times> finalization_round \<Rightarrow> finalization_round \<Rightarrow> bool" where
  "IsInRange roundRange round \<longleftrightarrow> fst roundRange \<le> round \<and> round \<le> snd roundRange"

text \<open>The inner loop stops the whole search when the response is full; the size counts on over the rounds.\<close>

fun response_loop :: "64 word \<Rightarrow> 64 word \<Rightarrow> finalization_message list \<Rightarrow> finalization_message list" where
  "response_loop maxSize totalSize [] = []"
| "response_loop maxSize totalSize (m # ms) =
     (let totalSize' = totalSize + ucast (fm_Size m) in
      if totalSize' > maxSize then [] else m # response_loop maxSize totalSize' ms)"

definition mr_unknownMessages :: "message_order \<Rightarrow> finalization_round \<times> finalization_round \<Rightarrow> 32 word set \<Rightarrow> multi_aggregator \<Rightarrow> finalization_message list" where
  "mr_unknownMessages order roundRange known s =
     response_loop (mr_maxResponseSize s) 0
       (concat (map (\<lambda>p. ra_unknownMessages order known (snd p)) (filter (\<lambda>p. IsInRange roundRange (fst p)) (mr_aggregators s))))"

definition setMaxFinalizationRound :: "finalization_round \<Rightarrow> multi_aggregator \<Rightarrow> multi_aggregator result" where
  "setMaxFinalizationRound round s =
     (if mr_minRound s > round then Err Invalid_Argument else Ok (s\<lparr>mr_maxRound := round\<rparr>))"

text \<open>
  The aggregator of a new round is in the map before the message is added to it; when the addition throws, it
  stays there without messages, which no query tells from its absence.
\<close>

definition mr_add :: "(finalization_message \<Rightarrow> hash256) \<Rightarrow> (bm_tree_signature \<Rightarrow> 64 word \<Rightarrow> bytes \<Rightarrow> bool) \<Rightarrow> aggregator_factory
   \<Rightarrow> finalization_message \<Rightarrow> multi_aggregator \<Rightarrow> (add_result \<times> multi_aggregator) result" where
  "mr_add messageHash verify factory m s =
     (let messageRound = si_Round (fm_StepIdentifier m) in
      if mr_minRound s > messageRound \<or> mr_maxRound s < messageRound then Ok (Failure_Invalid_Point, s)
      else bind_result
             (case map_of (mr_aggregators s) messageRound of
                Some a \<Rightarrow> Ok (mr_aggregators s)
              | None \<Rightarrow> map_result (\<lambda>a. om_insert (<) messageRound a (mr_aggregators s)) (factory messageRound))
             (\<lambda>aggregators.
                map_result (\<lambda>(r, a'). (r, s\<lparr>mr_aggregators := om_update messageRound a' aggregators\<rparr>))
                  (ra_add messageHash verify m (the (map_of aggregators messageRound)))))"

definition mr_prune :: "epoch \<Rightarrow> multi_aggregator \<Rightarrow> multi_aggregator" where
  "mr_prune e s =
     (let rest = om_lower_bound (<) (Finalization_Round e 0) (mr_aggregators s) in
      s\<lparr>mr_aggregators := rest, mr_minRound := (case rest of [] \<Rightarrow> mr_maxRound s | p # _ \<Rightarrow> fst p)\<rparr>)"

text \<open>The factory of \<^verbatim>\<open>FinalizationBootstrapperService.cpp\<close>.\<close>

definition round_factory :: "finalization_configuration \<Rightarrow> (height \<Rightarrow> hash256 result) \<Rightarrow> (address \<times> account_history) list \<Rightarrow> aggregator_factory" where
  "round_factory config generationHashAt histories round =
     map_result CreateRoundMessageAggregator (create_FinalizationContext config generationHashAt histories (rd_Epoch round))"

subsection \<open>FinalizationStageAdvancer\<close>

record stage_advancer =
  sa_round :: finalization_round
  sa_startTime :: "64 word"
  sa_stepDuration :: "64 word"

definition isElapsed :: "64 word \<Rightarrow> 16 word \<Rightarrow> stage_advancer \<Rightarrow> bool" where
  "isElapsed time numSteps v \<longleftrightarrow> time \<ge> sa_startTime v + ucast numSteps * sa_stepDuration v"

definition canSendPrevote :: "64 word \<Rightarrow> multi_aggregator \<Rightarrow> stage_advancer \<Rightarrow> bool" where
  "canSendPrevote time s v \<longleftrightarrow> isElapsed time 1 v
     \<or> (case tryGetRoundContext (sa_round v) s of None \<Rightarrow> False | Some c \<Rightarrow> isCompletable c)"

text \<open>The target is the output parameter, set when the result is true.\<close>

definition canSendPrecommit :: "64 word \<Rightarrow> multi_aggregator \<Rightarrow> stage_advancer \<Rightarrow> height_hash_pair option" where
  "canSendPrecommit time s v =
     (case tryGetRoundContext (sa_round v) s of
        None \<Rightarrow> None
      | Some c \<Rightarrow>
          (case tryFindBestPrevote c of
             None \<Rightarrow> None
           | Some best \<Rightarrow>
               if \<not> rc_isDescendant c (findEstimate (round_sub (sa_round v) 1) s) best then None
               else if isElapsed time 2 v \<or> isCompletable c then Some best
               else None))"

definition canStartNextRound :: "multi_aggregator \<Rightarrow> stage_advancer \<Rightarrow> bool" where
  "canStartNextRound s v = (case tryGetRoundContext (sa_round v) s of None \<Rightarrow> False | Some c \<Rightarrow> isCompletable c)"

subsection \<open>Proof storage\<close>

text \<open>
  \<^verbatim>\<open>FileProofStorage\<close> keeps one proof per epoch in its database and the statistics of the last one in its
  index, which are all zero while the index does not exist.
\<close>

record proof_storage =
  ps_statistics :: finalization_statistics
  ps_proofs :: "epoch \<rightharpoonup> finalization_proof"

definition ps_loadProof :: "proof_storage \<Rightarrow> epoch \<Rightarrow> finalization_proof result" where
  "ps_loadProof st e =
     (if 0 = e then Err Invalid_Argument
      else if rd_Epoch (fs_Round (ps_statistics st)) < e then Err Invalid_Argument
      else case ps_proofs st e of None \<Rightarrow> Err File_Io_Error | Some p \<Rightarrow> Ok p)"

definition loadClosestProof :: "proof_storage \<Rightarrow> height \<Rightarrow> finalization_proof result" where
  "loadClosestProof st h =
     (if rd_Epoch (fs_Round (ps_statistics st)) < 2 then ps_loadProof st 1
      else bind_result (ps_loadProof st 2) (\<lambda>p. ps_loadProof st (ucast (h div fp_Height p + 1))))"

definition ps_loadProofAt :: "proof_storage \<Rightarrow> height \<Rightarrow> finalization_proof option result" where
  "ps_loadProofAt st h =
     (if 0 = h then Err Invalid_Argument
      else if fs_Height (ps_statistics st) < h then Err Invalid_Argument
      else map_result (\<lambda>p. if fp_Height p \<noteq> h then None else Some p) (loadClosestProof st h))"

definition file_saveProof :: "finalization_proof \<Rightarrow> proof_storage \<Rightarrow> proof_storage result" where
  "file_saveProof p st =
     (let current = ps_statistics st in
      if fs_Round current > fp_Round p \<or> rd_Epoch (fp_Round p) > rd_Epoch (fs_Round current) + 1 then Err Invalid_Argument
      else if fs_Height current > fp_Height p then Err Invalid_Argument
      else Ok \<lparr>ps_statistics = \<lparr>fs_Round = fp_Round p, fs_Height = fp_Height p, fs_Hash = fp_Hash p\<rparr>,
               ps_proofs = (ps_proofs st)(rd_Epoch (fp_Round p) \<mapsto> p)\<rparr>)"

text \<open>\<^verbatim>\<open>AggregateProofStorage::saveProof\<close>; the second component is the notification of the subscriber.\<close>

definition saveProof :: "finalization_proof \<Rightarrow> proof_storage \<Rightarrow> (proof_storage \<times> finalization_statistics option) result" where
  "saveProof p st =
     (if fs_Round (ps_statistics st) > fp_Round p then Ok (st, None)
      else map_result (\<lambda>st'. (st', Some \<lparr>fs_Round = fp_Round p, fs_Height = fp_Height p, fs_Hash = fp_Hash p\<rparr>)) (file_saveProof p st))"

subsection \<open>The finalizer\<close>

definition ToFinalizationStatistics :: "best_precommit_descriptor \<Rightarrow> finalization_statistics" where
  "ToFinalizationStatistics d = \<lparr>fs_Round = bp_Round d, fs_Height = hh_Height (bp_Target d), fs_Hash = hh_Hash (bp_Target d)\<rparr>"

definition finalizer :: "message_order \<Rightarrow> multi_aggregator \<Rightarrow> proof_storage \<Rightarrow> (multi_aggregator \<times> proof_storage) result" where
  "finalizer order s st =
     (let d = mr_tryFindBestPrecommit order s in
      if Finalization_Round 0 0 = bp_Round d then Ok (s, st)
      else if fs_Height (ps_statistics st) = hh_Height (bp_Target d) then Ok (s, st)
      else map_result (\<lambda>saved. (mr_prune (rd_Epoch (bp_Round d) - 1) s, fst saved))
             (saveProof (CreateFinalizationProof (ToFinalizationStatistics d) (bp_Proof d)) st))"

subsection \<open>The rounds of a node\<close>

text \<open>
  The multi round aggregators a node can have.  The state of the accounts can differ between the creation of two rounds;
  the balances of all accounts together fit into 64 bits.  The service only raises the last round.
\<close>

inductive mr_reachable :: "(finalization_message \<Rightarrow> hash256) \<Rightarrow> (bm_tree_signature \<Rightarrow> 64 word \<Rightarrow> bytes \<Rightarrow> bool)
    \<Rightarrow> finalization_configuration \<Rightarrow> multi_aggregator \<Rightarrow> bool" for messageHash verify config where
  mr_new: "mr_reachable messageHash verify config (new_MultiRoundMessageAggregator maxResponseSize round previousFinalized)"
| mr_added: "mr_reachable messageHash verify config s \<Longrightarrow> length (fm_Hashes m) < 2 ^ 32
    \<Longrightarrow> \<forall>h. sum_list (map (\<lambda>p. unat (hist_get 0 (balance_history (snd p)) h)) histories) < 2 ^ 64
    \<Longrightarrow> mr_add messageHash verify (round_factory config generationHashAt histories) m s = Ok (r, s') \<Longrightarrow> mr_reachable messageHash verify config s'"
| mr_raised: "mr_reachable messageHash verify config s \<Longrightarrow> mr_maxRound s < round \<Longrightarrow> setMaxFinalizationRound round s = Ok s'
    \<Longrightarrow> mr_reachable messageHash verify config s'"
| mr_pruned: "mr_reachable messageHash verify config s \<Longrightarrow> mr_reachable messageHash verify config (mr_prune e s)"

definition round_inv :: "(finalization_message \<Rightarrow> hash256) \<Rightarrow> (bm_tree_signature \<Rightarrow> 64 word \<Rightarrow> bytes \<Rightarrow> bool) \<Rightarrow> finalization_configuration
    \<Rightarrow> finalization_round \<Rightarrow> round_aggregator \<Rightarrow> bool" where
  "round_inv messageHash verify config r a \<longleftrightarrow>
     agg_reachable messageHash verify (ra_context a) a \<and> context_wf (ra_context a)
     \<and> rd_Epoch r \<noteq> 0 \<and> fc_epoch (ra_context a) = rd_Epoch r \<and> fc_config (ra_context a) = config
     \<and> (\<forall>m\<in>set (agg_messages a). si_Round (fm_StepIdentifier m) = r)"

definition mr_inv :: "(finalization_message \<Rightarrow> hash256) \<Rightarrow> (bm_tree_signature \<Rightarrow> 64 word \<Rightarrow> bytes \<Rightarrow> bool) \<Rightarrow> finalization_configuration
    \<Rightarrow> multi_aggregator \<Rightarrow> bool" where
  "mr_inv messageHash verify config s \<longleftrightarrow> om_sorted (<) (mr_aggregators s) \<and> mr_minRound s \<le> mr_maxRound s
     \<and> (\<forall>p\<in>set (mr_aggregators s). mr_minRound s \<le> fst p \<and> fst p \<le> mr_maxRound s \<and> round_inv messageHash verify config (fst p) (snd p))"

lemma create_FinalizationContext_Ok:
  assumes "create_FinalizationContext config generationHashAt histories e = Ok c"
    and "\<forall>h. sum_list (map (\<lambda>p. unat (hist_get 0 (balance_history (snd p)) h)) histories) < 2 ^ 64"
  shows "e \<noteq> 0 \<and> fc_epoch c = e \<and> fc_config c = config \<and> context_wf c"
  using assms new_FinalizationContext_wf by (auto simp: create_FinalizationContext_def new_FinalizationContext_def Let_def split: if_splits)

lemma round_factory_inv:
  assumes "round_factory config generationHashAt histories r = Ok a"
    and "\<forall>h. sum_list (map (\<lambda>p. unat (hist_get 0 (balance_history (snd p)) h)) histories) < 2 ^ 64"
  shows "round_inv messageHash verify config r a"
proof -
  from assms(1) obtain c where c: "create_FinalizationContext config generationHashAt histories (rd_Epoch r) = Ok c" "a = CreateRoundMessageAggregator c"
    by (auto simp: round_factory_def)
  then have "ra_context a = c" "agg_messages a = []" by (simp_all add: CreateRoundMessageAggregator_def agg_messages_def)
  with c create_FinalizationContext_Ok [OF c(1) assms(2)] agg_new [of messageHash verify c] show ?thesis by (simp add: round_inv_def)
qed

lemma ra_add_round_inv:
  assumes "round_inv messageHash verify config r a" "length (fm_Hashes m) < 2 ^ 32" "ra_add messageHash verify m a = Ok (x, a')"
    "si_Round (fm_StepIdentifier m) = r"
  shows "round_inv messageHash verify config r a'"
proof -
  have reach: "agg_reachable messageHash verify (ra_context a) a'" using assms(1-3) by (auto simp: round_inv_def intro: agg_add)
  then have "ra_context a' = ra_context a" using agg_reachable_inv by (simp add: agg_inv_def)
  then show ?thesis using reach assms(1,4) ra_add_messages [OF assms(3)] by (auto simp: round_inv_def split: if_splits)
qed

lemma mr_add_inv:
  assumes inv: "mr_inv messageHash verify config s" and len: "length (fm_Hashes m) < 2 ^ 32"
    and fits: "\<forall>h. sum_list (map (\<lambda>p. unat (hist_get 0 (balance_history (snd p)) h)) histories) < 2 ^ 64"
    and add: "mr_add messageHash verify (round_factory config generationHashAt histories) m s = Ok (r, s')"
  shows "mr_inv messageHash verify config s'"
proof (cases "mr_minRound s > si_Round (fm_StepIdentifier m) \<or> mr_maxRound s < si_Round (fm_StepIdentifier m)")
  case True
  with add have "s' = s" by (auto simp: mr_add_def Let_def)
  with inv show ?thesis by simp
next
  case False
  let ?round = "si_Round (fm_StepIdentifier m)"
  have sorted: "om_sorted (<) (mr_aggregators s)"
    and elems: "\<And>p. p \<in> set (mr_aggregators s) \<Longrightarrow> mr_minRound s \<le> fst p \<and> fst p \<le> mr_maxRound s \<and> round_inv messageHash verify config (fst p) (snd p)"
    using inv by (auto simp: mr_inv_def)
  obtain as where as: "(case map_of (mr_aggregators s) ?round of Some a \<Rightarrow> Ok (mr_aggregators s)
      | None \<Rightarrow> map_result (\<lambda>a. om_insert (<) ?round a (mr_aggregators s)) (round_factory config generationHashAt histories ?round)) = Ok as"
    and rest: "map_result (\<lambda>(r, a'). (r, s\<lparr>mr_aggregators := om_update ?round a' as\<rparr>)) (ra_add messageHash verify m (the (map_of as ?round))) = Ok (r, s')"
    using add False by (auto simp: mr_add_def Let_def)
  have "om_sorted (<) as \<and> ?round \<in> fst ` set as \<and> (\<forall>p\<in>set as. mr_minRound s \<le> fst p \<and> fst p \<le> mr_maxRound s \<and> round_inv messageHash verify config (fst p) (snd p))"
  proof (cases "map_of (mr_aggregators s) ?round")
    case (Some a)
    with as sorted elems show ?thesis by (auto intro: rev_image_eqI dest: map_of_SomeD)
  next
    case None
    with as obtain a where a: "round_factory config generationHashAt histories ?round = Ok a" "as = om_insert (<) ?round a (mr_aggregators s)" by auto
    have "set (om_insert (<) ?round a xs) \<subseteq> insert (?round, a) (set xs)" for xs by (induction xs) (auto split: if_splits)
    then have "set as \<subseteq> insert (?round, a) (set (mr_aggregators s))" using a(2) by simp
    then show ?thesis
      using a(2) elems False round_factory_inv [OF a(1) fits, of messageHash verify] asc.sorted_om_insert [OF sorted, of ?round a]
        asc.set_om_insert [of ?round a "mr_aggregators s"] by (auto simp: not_less)
  qed
  then have as': "om_sorted (<) as" "?round \<in> fst ` set as"
    "\<And>p. p \<in> set as \<Longrightarrow> mr_minRound s \<le> fst p \<and> fst p \<le> mr_maxRound s \<and> round_inv messageHash verify config (fst p) (snd p)" by blast+
  then obtain a where a: "(?round, a) \<in> set as" by force
  with as'(1) have look: "map_of as ?round = Some a" by (simp add: asc.sorted_distinct)
  with rest obtain a' where a': "ra_add messageHash verify m a = Ok (r, a')" "s' = s\<lparr>mr_aggregators := om_update ?round a' as\<rparr>" by auto
  have "round_inv messageHash verify config ?round a'" using ra_add_round_inv [OF _ len a'(1)] as'(3) [OF a] by simp
  then have "\<forall>p\<in>set (om_update ?round a' as). mr_minRound s \<le> fst p \<and> fst p \<le> mr_maxRound s \<and> round_inv messageHash verify config (fst p) (snd p)"
    using as'(3) as'(3) [OF a] by (auto simp: om_update_def)
  with as'(1) a'(2) inv show ?thesis by (simp add: mr_inv_def)
qed

lemma om_lower_bound_sorted: "om_sorted lt xs \<Longrightarrow> om_sorted lt (om_lower_bound lt k xs)"
  unfolding om_lower_bound_def by (metis map_append sorted_wrt_append takeWhile_dropWhile_id)

lemma mr_prune_inv:
  assumes "mr_inv messageHash verify config s"
  shows "mr_inv messageHash verify config (mr_prune e s)"
proof -
  let ?rest = "om_lower_bound (<) (Finalization_Round e 0) (mr_aggregators s)"
  have sorted: "om_sorted (<) ?rest" using assms by (intro om_lower_bound_sorted) (simp add: mr_inv_def)
  have sub: "p \<in> set ?rest \<Longrightarrow> p \<in> set (mr_aggregators s)" for p by (simp add: om_lower_bound_def) (meson set_dropWhileD)
  show ?thesis
  proof (cases ?rest)
    case Nil
    then show ?thesis by (simp add: mr_inv_def mr_prune_def)
  next
    case (Cons p ps)
    then have "\<forall>q\<in>set (p # ps). fst p \<le> fst q" using sorted by auto
    then show ?thesis using Cons sorted sub assms by (auto simp: mr_inv_def mr_prune_def)
  qed
qed

lemma mr_reachable_inv: "mr_reachable messageHash verify config s \<Longrightarrow> mr_inv messageHash verify config s"
proof (induction rule: mr_reachable.induct)
  case mr_added
  then show ?case using mr_add_inv by blast
next
  case (mr_raised s round s')
  then show ?case by (fastforce simp: mr_inv_def setMaxFinalizationRound_def split: if_splits)
next
  case (mr_pruned s e)
  then show ?case by (simp add: mr_prune_inv)
qed (simp add: mr_inv_def new_MultiRoundMessageAggregator_def)

subsection \<open>What is finalized\<close>

lemma bestPrecommit_loop_found:
  "bp_Round (bestPrecommit_loop order ps) \<noteq> Finalization_Round 0 0 \<Longrightarrow>
   \<exists>a best. (bp_Round (bestPrecommit_loop order ps), a) \<in> set ps \<and> tryFindBestPrecommit (ra_round a) = Some best
     \<and> bestPrecommit_loop order ps = \<lparr>bp_Round = bp_Round (bestPrecommit_loop order ps), bp_Target = best, bp_Proof = ra_unknownMessages order {} a\<rparr>"
proof (induction ps)
  case (Cons p ps)
  then show ?case by (cases "tryFindBestPrecommit (ra_round (snd p))") (auto simp: prod_eq_iff)
qed (simp add: default_descriptor_def)

lemma mr_prune_epochs: "om_sorted (<) (mr_aggregators s) \<Longrightarrow> p \<in> set (mr_aggregators (mr_prune e s)) \<Longrightarrow> e \<le> rd_Epoch (fst p)"
proof -
  assume sorted: "om_sorted (<) (mr_aggregators s)" and p: "p \<in> set (mr_aggregators (mr_prune e s))"
  let ?rest = "om_lower_bound (<) (Finalization_Round e 0) (mr_aggregators s)"
  have p: "p \<in> set ?rest" using p by (simp add: mr_prune_def Let_def)
  then obtain q qs where q: "?rest = q # qs" by (cases ?rest) auto
  then have "\<not> fst q < Finalization_Round e 0" unfolding om_lower_bound_def by (metis hd_dropWhile list.discI list.sel(1))
  moreover have "fst q \<le> fst p" using p q om_lower_bound_sorted [OF sorted, of "Finalization_Round e 0"] by auto
  ultimately have "Finalization_Round e 0 \<le> fst p" by simp
  then show ?thesis by (cases "fst p") (auto simp: less_eq_finalization_round_def less_finalization_round_def round_less_def split: if_splits)
qed


subsection \<open>A small network, all rounds\<close>

definition sample_histories :: "(address \<times> account_history) list" where
  "sample_histories = map (\<lambda>k. (ucast k, \<lparr>balance_history = [(1, 1)], vrf_history = [],
     voting_history = [(1, [\<lparr>VotingKey = k, StartEpoch = 1, EndEpoch = 10\<rparr>])]\<rparr>)) [1, 2, 3]"

definition mr_add_all :: "aggregator_factory \<Rightarrow> finalization_message list \<Rightarrow> multi_aggregator \<Rightarrow> multi_aggregator result" where
  "mr_add_all factory ms s = fold_result (\<lambda>m s. map_result snd (mr_add (\<lambda>_. 0) (\<lambda>_ _ _. True) factory m s)) ms s"

definition sample_rounds :: multi_aggregator where
  "sample_rounds = the_ok (mr_add_all (round_factory sample_config (\<lambda>_. Ok 0) sample_histories) sample_votes
     (new_MultiRoundMessageAggregator 100000 (Finalization_Round 3 1) (Height_Hash_Pair 100 10)))"

definition sample_storage :: proof_storage where
  "sample_storage = \<lparr>ps_statistics = \<lparr>fs_Round = Finalization_Round 2 1, fs_Height = 100, fs_Hash = 10\<rparr>, ps_proofs = Map.empty\<rparr>"

lemma sample_histories_fit: "sum_list (map (\<lambda>p. unat (hist_get 0 (balance_history (snd p)) h)) sample_histories) < 2 ^ 64"
proof -
  have "unat (hist_get 0 [(1, 1 :: amount)] h) \<le> 1" by (simp add: hist_get_def om_lower_bound_def)
  then show ?thesis by (simp add: sample_histories_def)
qed

lemma mr_add_all_reachable:
  "mr_reachable (\<lambda>_. 0) (\<lambda>_ _ _. True) sample_config s \<Longrightarrow> \<forall>m\<in>set ms. length (fm_Hashes m) < 2 ^ 32
   \<Longrightarrow> mr_add_all (round_factory sample_config (\<lambda>_. Ok 0) sample_histories) ms s = Ok s'
   \<Longrightarrow> mr_reachable (\<lambda>_. 0) (\<lambda>_ _ _. True) sample_config s'"
proof (induction ms arbitrary: s)
  case (Cons m ms)
  from Cons.prems(3) obtain r u where u: "mr_add (\<lambda>_. 0) (\<lambda>_ _ _. True) (round_factory sample_config (\<lambda>_. Ok 0) sample_histories) m s = Ok (r, u)"
      "mr_add_all (round_factory sample_config (\<lambda>_. Ok 0) sample_histories) ms u = Ok s'" by (auto simp: mr_add_all_def)
  have "mr_reachable (\<lambda>_. 0) (\<lambda>_ _ _. True) sample_config u"
    by (rule mr_added [OF Cons.prems(1) _ _ u(1)]) (use Cons.prems(2) sample_histories_fit in auto)
  with Cons.IH [OF _ _ u(2)] Cons.prems(2) show ?case by simp
qed (simp add: mr_add_all_def)

lemma sample_rounds_reachable: "mr_reachable (\<lambda>_. 0) (\<lambda>_ _ _. True) sample_config sample_rounds"
proof -
  let ?new = "new_MultiRoundMessageAggregator 100000 (Finalization_Round 3 1) (Height_Hash_Pair 100 10)"
  have "case mr_add_all (round_factory sample_config (\<lambda>_. Ok 0) sample_histories) sample_votes ?new of Ok _ \<Rightarrow> True | Err _ \<Rightarrow> False"
    by code_simp
  then have "mr_add_all (round_factory sample_config (\<lambda>_. Ok 0) sample_histories) sample_votes ?new = Ok sample_rounds"
    by (simp add: sample_rounds_def split: result.splits)
  from mr_add_all_reachable [OF mr_new _ this] show ?thesis by (simp add: sample_votes_def sample_message_def)
qed


text \<open>
  That the prevotes agree on parents is needed: with two prevotes that start at the last finalized block and one that starts
  at the block after it, the finalizer saves a proof that the node itself does not accept, since a proof lists the votes in another
  sequence than the one in which they arrived.
\<close>

lemma finalizer_proof_refused:
  "case mr_add_all (round_factory sample_config (\<lambda>_. Ok 0) sample_histories) split_votes
     (new_MultiRoundMessageAggregator 100000 (Finalization_Round 3 1) (Height_Hash_Pair 100 10)) of
     Err _ \<Rightarrow> False
   | Ok s \<Rightarrow> (case finalizer rev s (sample_storage\<lparr>ps_statistics := (ps_statistics sample_storage)\<lparr>fs_Height := 99\<rparr>\<rparr>) of
       Err _ \<Rightarrow> False
     | Ok (_, st') \<Rightarrow> map_result (\<lambda>p. map (\<lambda>q. VerifyFinalizationProof (\<lambda>_. 0) (\<lambda>_ _ _. True) p (ra_context (snd q))) (mr_aggregators s))
         (ps_loadProof st' 3) = Ok [Ok Proof_No_Precommit])"
  by code_simp

end
