(* ===== verification/Finalization_Voting.thy ===== *)
theory Finalization_Voting
  imports Finalization_Rounds Compare_Chains
begin

section \<open>Finalization: the votes of a node\<close>

text \<open>
  \<^verbatim>\<open>FinalizationMessageFactory.cpp\<close> and \<^verbatim>\<open>FinalizationOrchestrator.cpp\<close> of \<^verbatim>\<open>src/extensions/finalization/src/chain\<close>,
  \<^verbatim>\<open>VotingStatusFile.cpp\<close>, the facade that polls them in \<^verbatim>\<open>FinalizationOrchestratorService.cpp\<close>, and
  \<^verbatim>\<open>FinalizationProofSynchronizer.cpp\<close>.  The main results: the prevotes a node makes are never refused for their hashes or
  heights, and a node sends at most one prevote and one precommit per round, restarts included, except for the votes of
  polls that were cut off before the status was saved.
  The key tree of the node and the eligibility of its votes are parameters.
\<close>

subsection \<open>FinalizationMessageFactory\<close>

definition Clamp :: "64 word \<Rightarrow> 16 word \<Rightarrow> 16 word \<Rightarrow> 64 word" where
  "Clamp value multiple adjustment =
     (if 0 = value mod ucast multiple then value else (value div ucast multiple + ucast adjustment) * ucast multiple)"

text \<open>The number of hashes \<^verbatim>\<open>loadPrevoteHashChain\<close> asks for.\<close>

definition prevote_hashes_count :: "finalization_configuration \<Rightarrow> height \<Rightarrow> height \<Rightarrow> height \<Rightarrow> 64 word" where
  "prevote_hashes_count config chainHeight0 maxVotingSetHeight startHeight =
     (let multiple = ucast (cf_PrevoteBlocksMultiple config);
          maxPrevoteHashHeight = (if chainHeight0 \<ge> multiple then chainHeight0 - multiple else chainHeight0);
          maxPrevoteHashHeight' = (if maxPrevoteHashHeight > maxVotingSetHeight then maxVotingSetHeight else maxPrevoteHashHeight);
          clampedChainHeight = Clamp maxPrevoteHashHeight' (cf_PrevoteBlocksMultiple config) 0;
          numHashes = (if clampedChainHeight > startHeight then clampedChainHeight - startHeight + 1 else 1)
      in if numHashes > ucast (cf_MaxHashesPerPoint config)
         then numHashes - Clamp (numHashes - ucast (cf_MaxHashesPerPoint config)) (cf_PrevoteBlocksMultiple config) 1
         else numHashes)"

definition loadPrevoteHashChain :: "finalization_configuration \<Rightarrow> block_storage \<Rightarrow> finalization_round \<Rightarrow> height \<Rightarrow> hash256 list result" where
  "loadPrevoteHashChain config blocks round startHeight =
     map_result (\<lambda>maxVotingSetHeight.
       loadHashesFrom blocks startHeight (unat (prevote_hashes_count config (chainHeight blocks) maxVotingSetHeight startHeight)))
       (CalculateVotingSetEndHeight (rd_Epoch round) (cf_VotingSetGrouping config))"

text \<open>The key tree of the node: whether it can sign at an identifier, and what signing returns.\<close>

record 't signer =
  sg_canSign :: "'t \<Rightarrow> 64 word \<Rightarrow> bool"
  sg_sign :: "64 word \<Rightarrow> bytes \<Rightarrow> 't \<Rightarrow> bm_tree_signature \<times> 't"

definition createPrevote :: "'t signer \<Rightarrow> finalization_configuration \<Rightarrow> block_storage \<Rightarrow> finalization_statistics \<Rightarrow> finalization_round \<Rightarrow> 't
   \<Rightarrow> (finalization_message option \<times> 't) result" where
  "createPrevote g config blocks statistics round tree =
     map_result (\<lambda>hashes.
       PrepareMessage (sg_canSign g) (sg_sign g) (new_StepIdentifier (rd_Epoch round) (rd_Point round) Stage_Prevote)
         (fs_Height statistics) (if hashes = [] then [fs_Hash statistics] else hashes) tree)
       (loadPrevoteHashChain config blocks round (fs_Height statistics))"

definition createPrecommit :: "'t signer \<Rightarrow> finalization_round \<Rightarrow> height_hash_pair \<Rightarrow> 't \<Rightarrow> finalization_message option \<times> 't" where
  "createPrecommit g round target tree =
     PrepareMessage (sg_canSign g) (sg_sign g) (new_StepIdentifier (rd_Epoch round) (rd_Point round) Stage_Precommit)
       (hh_Height target) [hh_Hash target] tree"

subsection \<open>FinalizationOrchestrator\<close>

record voting_status =
  vs_Round :: finalization_round
  vs_HasSentPrevote :: bool
  vs_HasSentPrecommit :: bool

text \<open>The orchestrator with the key tree of its message factory and the messages it gave to its sink, the last first.\<close>

record 't orchestrator =
  or_status :: voting_status
  or_advancer :: "stage_advancer option"
  or_tree :: 't
  or_sent :: "finalization_message list"

definition new_FinalizationOrchestrator :: "voting_status \<Rightarrow> 't \<Rightarrow> finalization_message list \<Rightarrow> 't orchestrator" where
  "new_FinalizationOrchestrator status tree sent = \<lparr>or_status = status, or_advancer = None, or_tree = tree, or_sent = sent\<rparr>"

definition setEpoch :: "epoch \<Rightarrow> 't orchestrator \<Rightarrow> 't orchestrator result" where
  "setEpoch e x =
     (if e < rd_Epoch (vs_Round (or_status x)) then Err Invalid_Argument
      else if e = rd_Epoch (vs_Round (or_status x)) then Ok x
      else Ok (x\<lparr>or_status := \<lparr>vs_Round = Finalization_Round e 1, vs_HasSentPrevote = False, vs_HasSentPrecommit = False\<rparr>, or_advancer := None\<rparr>))"

definition startRound :: "finalization_configuration \<Rightarrow> 64 word \<Rightarrow> 't orchestrator \<Rightarrow> 't orchestrator" where
  "startRound config time x =
     x\<lparr>or_advancer := Some \<lparr>sa_round = vs_Round (or_status x), sa_startTime = time, sa_stepDuration = cf_StepDuration config\<rparr>\<rparr>"

text \<open>\<^verbatim>\<open>process\<close>: a message that was not made, or whose voter is not eligible, is not sent.\<close>

definition process_vote :: "(finalization_message \<Rightarrow> bool result) \<Rightarrow> finalization_message option \<Rightarrow> 't orchestrator \<Rightarrow> 't orchestrator result" where
  "process_vote eligible message x =
     (case message of
        None \<Rightarrow> Ok x
      | Some m \<Rightarrow> map_result (\<lambda>e. if e then x\<lparr>or_sent := m # or_sent x\<rparr> else x) (eligible m))"

definition poll_prevote :: "'t signer \<Rightarrow> finalization_configuration \<Rightarrow> (finalization_message \<Rightarrow> bool result) \<Rightarrow> block_storage \<Rightarrow> finalization_statistics
   \<Rightarrow> bool \<Rightarrow> 't orchestrator \<Rightarrow> 't orchestrator result" where
  "poll_prevote g config eligible blocks statistics can x =
     (if \<not> vs_HasSentPrevote (or_status x) \<and> can
      then bind_result (createPrevote g config blocks statistics (vs_Round (or_status x)) (or_tree x)) (\<lambda>(message, tree').
             map_result (\<lambda>y. y\<lparr>or_status := (or_status y)\<lparr>vs_HasSentPrevote := True\<rparr>\<rparr>)
               (process_vote eligible message (x\<lparr>or_tree := tree'\<rparr>)))
      else Ok x)"

definition poll_precommit :: "'t signer \<Rightarrow> (finalization_message \<Rightarrow> bool result) \<Rightarrow> height_hash_pair option \<Rightarrow> 't orchestrator \<Rightarrow> 't orchestrator result" where
  "poll_precommit g eligible can x =
     (if vs_HasSentPrecommit (or_status x) then Ok x
      else case can of
        None \<Rightarrow> Ok x
      | Some target \<Rightarrow>
          let (message, tree') = createPrecommit g (vs_Round (or_status x)) target (or_tree x) in
            map_result (\<lambda>y. y\<lparr>or_status := (or_status y)\<lparr>vs_HasSentPrecommit := True\<rparr>\<rparr>)
              (process_vote eligible message (x\<lparr>or_tree := tree'\<rparr>)))"

definition poll_round :: "finalization_configuration \<Rightarrow> 64 word \<Rightarrow> bool \<Rightarrow> 't orchestrator \<Rightarrow> 't orchestrator" where
  "poll_round config time can x =
     (if vs_HasSentPrecommit (or_status x) \<and> can
      then startRound config time (x\<lparr>or_status := \<lparr>vs_Round = round_add (vs_Round (or_status x)) 1, vs_HasSentPrevote = False, vs_HasSentPrecommit = False\<rparr>\<rparr>)
      else x)"

text \<open>
  \<^verbatim>\<open>poll\<close>.  The three questions to the stage advancer each take a view of the rounds, which other threads may have changed
  in between.
\<close>

definition orchestrator_poll :: "'t signer \<Rightarrow> finalization_configuration \<Rightarrow> (finalization_message \<Rightarrow> bool result) \<Rightarrow> block_storage \<Rightarrow> finalization_statistics
   \<Rightarrow> 64 word \<Rightarrow> multi_aggregator \<times> multi_aggregator \<times> multi_aggregator \<Rightarrow> 't orchestrator \<Rightarrow> 't orchestrator result" where
  "orchestrator_poll g config eligible blocks statistics time views x =
     (let x0 = (if or_advancer x = None then startRound config time x else x);
          advancer = the (or_advancer x0);
          (view1, view2, view3) = views
      in bind_result (poll_prevote g config eligible blocks statistics (canSendPrevote time view1 advancer) x0) (\<lambda>x1.
         map_result (poll_round config time (canStartNextRound view3 advancer))
           (poll_precommit g eligible (canSendPrecommit time view2 advancer) x1)))"

subsection \<open>VotingStatusFile\<close>

definition load_status :: "bytes option \<Rightarrow> voting_status result" where
  "load_status file =
     (case file of
        None \<Rightarrow> Ok \<lparr>vs_Round = Finalization_Round 2 1, vs_HasSentPrevote = False, vs_HasSentPrecommit = False\<rparr>
      | Some bs \<Rightarrow>
          bind_result (Read32 bs) (\<lambda>(e, bs1). bind_result (Read32 bs1) (\<lambda>(p, bs2).
          bind_result (Read8 bs2) (\<lambda>(v, bs3). map_result (\<lambda>(c, _).
            \<lparr>vs_Round = Finalization_Round e p, vs_HasSentPrevote = (v \<noteq> 0), vs_HasSentPrecommit = (c \<noteq> 0)\<rparr>) (Read8 bs3)))))"

text \<open>The status a node starts with.\<close>

definition boot_status :: "finalization_configuration \<Rightarrow> proof_storage \<Rightarrow> bytes option \<Rightarrow> voting_status result" where
  "boot_status config proofs file =
     (if cf_EnableRevoteOnBoot config
      then Ok \<lparr>vs_Round = round_add (fs_Round (ps_statistics proofs)) 1, vs_HasSentPrevote = False, vs_HasSentPrecommit = False\<rparr>
      else load_status file)"

definition save_status :: "voting_status \<Rightarrow> bytes" where
  "save_status v = Write32 (rd_Epoch (vs_Round v)) @ Write32 (rd_Point (vs_Round v))
     @ Write8 (if vs_HasSentPrevote v then 1 else 0) @ Write8 (if vs_HasSentPrecommit v then 1 else 0)"

subsection \<open>The polled service\<close>

datatype epoch_status = Epoch_Continue | Epoch_Wait | Epoch_Advance epoch

definition calculateEpochStatus :: "finalization_configuration \<Rightarrow> block_storage \<Rightarrow> finalization_statistics \<Rightarrow> epoch \<Rightarrow> epoch_status result" where
  "calculateEpochStatus config blocks statistics e =
     (let isStorageEpochAhead = rd_Epoch (fs_Round statistics) > e in
      map_result (\<lambda>votingSetEndHeight.
        if \<not> isStorageEpochAhead \<and> fs_Height statistics \<noteq> votingSetEndHeight then Epoch_Continue
        else if chainHeight blocks < fs_Height statistics then Epoch_Wait
        else if hd (loadHashesFrom blocks (fs_Height statistics) 1) \<noteq> fs_Hash statistics then Epoch_Wait
        else Epoch_Advance (rd_Epoch (fs_Round statistics) + 1))
        (CalculateVotingSetEndHeight e (cf_VotingSetGrouping config)))"

record 't voting_service =
  sv_orchestrator :: "'t orchestrator"
  sv_rounds :: multi_aggregator
  sv_proofs :: proof_storage
  sv_file :: "bytes option"

definition enter_epoch :: "epoch_status \<Rightarrow> 't orchestrator \<Rightarrow> 't orchestrator result" where
  "enter_epoch status x = (case status of Epoch_Advance e \<Rightarrow> setEpoch e x | _ \<Rightarrow> Ok x)"

text \<open>
  \<^verbatim>\<open>poll\<close> up to the voting: the orchestrator in its epoch and the rounds opened for it, or nothing when the node waits for
  blocks.  Then the votes, after which the status is saved; the views of the rounds are a function of the rounds opened.
  Last, the finalizer.
\<close>

definition service_enter :: "finalization_configuration \<Rightarrow> block_storage \<Rightarrow> 't voting_service \<Rightarrow> ('t orchestrator \<times> multi_aggregator) option result" where
  "service_enter config blocks v =
     bind_result (calculateEpochStatus config blocks (ps_statistics (sv_proofs v)) (rd_Epoch (vs_Round (or_status (sv_orchestrator v))))) (\<lambda>status.
       if status = Epoch_Wait then Ok None
       else bind_result (enter_epoch status (sv_orchestrator v)) (\<lambda>x.
         map_result (\<lambda>rounds. Some (x, rounds))
           (if vs_Round (or_status x) > mr_maxRound (sv_rounds v) then setMaxFinalizationRound (vs_Round (or_status x)) (sv_rounds v)
            else Ok (sv_rounds v))))"

definition service_vote :: "'t signer \<Rightarrow> finalization_configuration \<Rightarrow> (finalization_message \<Rightarrow> bool result) \<Rightarrow> block_storage
   \<Rightarrow> 64 word \<Rightarrow> (multi_aggregator \<Rightarrow> multi_aggregator \<times> multi_aggregator \<times> multi_aggregator) \<Rightarrow> 't voting_service \<Rightarrow> 't voting_service option result" where
  "service_vote g config eligible blocks time views v =
     bind_result (service_enter config blocks v) (\<lambda>entered. case entered of
         None \<Rightarrow> Ok None
       | Some (x, rounds) \<Rightarrow>
           map_result (\<lambda>y. Some (v\<lparr>sv_orchestrator := y, sv_rounds := rounds, sv_file := Some (save_status (or_status y))\<rparr>))
             (orchestrator_poll g config eligible blocks (ps_statistics (sv_proofs v)) time (views rounds) x))"

definition service_poll :: "'t signer \<Rightarrow> finalization_configuration \<Rightarrow> (finalization_message \<Rightarrow> bool result) \<Rightarrow> message_order \<Rightarrow> block_storage
   \<Rightarrow> 64 word \<Rightarrow> 't voting_service \<Rightarrow> 't voting_service result" where
  "service_poll g config eligible order blocks time v =
     bind_result (service_vote g config eligible blocks time (\<lambda>rounds. (rounds, rounds, rounds)) v) (\<lambda>voted. case voted of
         None \<Rightarrow> Ok v
       | Some v' \<Rightarrow> map_result (\<lambda>(rounds', proofs'). v'\<lparr>sv_rounds := rounds', sv_proofs := proofs'\<rparr>)
                      (finalizer order (sv_rounds v') (sv_proofs v')))"

text \<open>
  A poll that ends before the status is saved, by an exception, which nothing catches, or because the process is killed: what
  is left of it are the messages given to the sink until then.
\<close>

datatype poll_cut = Before_Prevote | After_Prevote | After_Precommit

definition interrupted_poll :: "'t signer \<Rightarrow> finalization_configuration \<Rightarrow> (finalization_message \<Rightarrow> bool result) \<Rightarrow> block_storage
   \<Rightarrow> 64 word \<Rightarrow> (multi_aggregator \<Rightarrow> multi_aggregator \<times> multi_aggregator \<times> multi_aggregator) \<Rightarrow> poll_cut
   \<Rightarrow> 't voting_service \<Rightarrow> finalization_message list result" where
  "interrupted_poll g config eligible blocks time views halt v =
     (if halt = Before_Prevote then Ok (or_sent (sv_orchestrator v))
      else bind_result (service_enter config blocks v) (\<lambda>entered. case entered of
          None \<Rightarrow> Ok (or_sent (sv_orchestrator v))
        | Some (x, rounds) \<Rightarrow>
            let x0 = (if or_advancer x = None then startRound config time x else x);
                advancer = the (or_advancer x0);
                (view1, view2, _) = views rounds
            in bind_result (poll_prevote g config eligible blocks (ps_statistics (sv_proofs v)) (canSendPrevote time view1 advancer) x0) (\<lambda>x1.
                 if halt = After_Prevote then Ok (or_sent x1)
                 else map_result or_sent (poll_precommit g eligible (canSendPrecommit time view2 advancer) x1))))"

subsection \<open>FinalizationProofSynchronizer\<close>

definition CalculateGroupedHeight :: "height \<Rightarrow> 64 word \<Rightarrow> height result" where
  "CalculateGroupedHeight h grouping =
     (if 0 = grouping then Err Invalid_Argument
      else let groupedHeight = (h - 1) div grouping * grouping in Ok (if groupedHeight < 1 then 1 else groupedHeight))"

definition calculateRequestEpoch :: "finalization_configuration \<Rightarrow> block_storage \<Rightarrow> height \<Rightarrow> epoch result" where
  "calculateRequestEpoch config blocks localFinalizedHeight =
     (let grouping = cf_VotingSetGrouping config; localChainHeight = chainHeight blocks in
      bind_result (CalculateGroupedHeight (localFinalizedHeight + grouping + 1) grouping) (\<lambda>nextProofHeight.
        if nextProofHeight < localChainHeight then CalculateFinalizationEpochForHeight nextProofHeight grouping
        else if 0 \<noteq> cf_UnfinalizedBlocksDuration config \<and> localChainHeight - localFinalizedHeight \<ge> cf_UnfinalizedBlocksDuration config
        then bind_result (CalculateFinalizationEpochForHeight localFinalizedHeight grouping) (\<lambda>e.
               map_result (\<lambda>endHeight. if endHeight \<noteq> localFinalizedHeight then e else e + 1) (CalculateVotingSetEndHeight e grouping))
        else Ok 0))"

text \<open>
  The pull of one proof from a peer, which is a function of what the peer answers: its statistics and its proof of an
  epoch.  The runtime errors of the answers and of the storage are caught; a file error is one of them.
\<close>

definition catch_pull_error :: "(interaction_result \<times> proof_storage) result \<Rightarrow> proof_storage \<Rightarrow> (interaction_result \<times> proof_storage) result" where
  "catch_pull_error r st =
     (case r of
        Err e \<Rightarrow> if e = Runtime_Error \<or> e = File_Io_Error then Ok (Interaction_Failure, st) else Err e
      | Ok x \<Rightarrow> Ok x)"

definition pull_proof :: "finalization_configuration \<Rightarrow> block_storage \<Rightarrow> finalization_statistics result \<Rightarrow> (epoch \<Rightarrow> finalization_proof result)
   \<Rightarrow> (finalization_proof \<Rightarrow> bool) \<Rightarrow> proof_storage \<Rightarrow> (interaction_result \<times> proof_storage) result" where
  "pull_proof config blocks peerStatistics peerProofAt proofValidator st =
     (let localFinalizedHeight = fs_Height (ps_statistics st) in
      bind_result (calculateRequestEpoch config blocks localFinalizedHeight) (\<lambda>requestEpoch.
        if 0 = requestEpoch then Ok (Interaction_Neutral, st)
        else catch_pull_error
          (bind_result (bind_result peerStatistics (\<lambda>remote.
             if requestEpoch \<le> rd_Epoch (fs_Round remote) \<and> localFinalizedHeight < fs_Height remote
             then map_result Some (peerProofAt requestEpoch) else Ok None)) (\<lambda>answer.
           case answer of
             None \<Rightarrow> Ok (Interaction_Neutral, st)
           | Some p \<Rightarrow>
               if requestEpoch \<noteq> rd_Epoch (fp_Round p) \<or> localFinalizedHeight \<ge> fp_Height p then Ok (Interaction_Failure, st)
               else if \<not> proofValidator p then Ok (Interaction_Failure, st)
               else map_result (\<lambda>saved. (Interaction_Success, fst saved)) (saveProof p st))) st))"

subsection \<open>At most one vote per step\<close>

text \<open>
  The runs of the service of a node: \<open>n\<close> polls whose status was saved and \<open>k\<close> polls that were cut off before, after which
  the node starts from the file of an earlier poll.  Between the polls, and within one, other tasks change the rounds and the
  proofs in any way, and the node restarts with any key tree; the finalizer changes only the rounds and the proofs, so a
  poll that ends, or one whose finalizer throws, is a run too.  Saving the status is one step.  The messages sent are those of all runs.
\<close>

inductive service_runs :: "'t signer \<Rightarrow> finalization_configuration \<Rightarrow> nat \<Rightarrow> nat \<Rightarrow> 't voting_service \<Rightarrow> bool" for g config where
  run_boot: "load_status None = Ok status
    \<Longrightarrow> service_runs g config 0 0 \<lparr>sv_orchestrator = new_FinalizationOrchestrator status tree [], sv_rounds = rounds, sv_proofs = proofs, sv_file = None\<rparr>"
| run_vote: "service_runs g config n k v \<Longrightarrow> service_vote g config eligible blocks time views v = Ok (Some v') \<Longrightarrow> service_runs g config (Suc n) k v'"
| run_other: "service_runs g config n k v \<Longrightarrow> service_runs g config n k (v\<lparr>sv_rounds := rounds, sv_proofs := proofs\<rparr>)"
| run_restart: "service_runs g config n k v \<Longrightarrow> boot_status config (sv_proofs v) (sv_file v) = Ok status
    \<Longrightarrow> service_runs g config n k (v\<lparr>sv_orchestrator := new_FinalizationOrchestrator status tree (or_sent (sv_orchestrator v))\<rparr>)"
| run_interrupted: "service_runs g config n k v \<Longrightarrow> interrupted_poll g config eligible blocks time views halt v = Ok sent
    \<Longrightarrow> boot_status config (sv_proofs v) (sv_file v) = Ok status
    \<Longrightarrow> service_runs g config n (Suc k) (v\<lparr>sv_orchestrator := new_FinalizationOrchestrator status tree sent\<rparr>)"

lemma service_poll_runs:
  assumes "service_runs g config n k v" "service_poll g config eligible order blocks time v = Ok v'"
  shows "\<exists>n'\<in>{n, Suc n}. service_runs g config n' k v'"
  using assms by (auto simp: service_poll_def split: option.splits prod.splits dest: run_vote intro: run_other)

lemma distinct_count_list: "(\<And>x. count_list xs x \<le> Suc 0) \<Longrightarrow> distinct xs"
proof (induction xs)
  case (Cons x xs)
  have "count_list xs y \<le> Suc 0" for y using Cons.prems [of y] by (auto split: if_splits)
  moreover have "count_list xs x = 0" using Cons.prems [of x] by simp
  ultimately show ?case using Cons.IH by (simp add: count_list_0_iff)
qed simp

lemma load_save_status: "load_status (Some (save_status v)) = Ok v"
proof -
  have "Read8 (Write8 d) = Ok (d, [])" for d using Read_Write(4) [of d "[]"] by simp
  then show ?thesis by (cases v; cases "vs_Round v") (simp add: load_status_def save_status_def)
qed

text \<open>
  The steps that a status counts as done, those of earlier rounds and those of its round with the flag set, have at most one
  more message than polls were cut off; the others at most as many.
\<close>

definition step_done :: "voting_status \<Rightarrow> step_identifier \<Rightarrow> bool" where
  "step_done status i \<longleftrightarrow> si_Round i < vs_Round status
     \<or> (si_Round i = vs_Round status \<and> (if si_Stage i = Stage_Prevote then vs_HasSentPrevote status else vs_HasSentPrecommit status))"

abbreviation votes_for :: "step_identifier \<Rightarrow> finalization_message list \<Rightarrow> nat" where
  "votes_for i sent \<equiv> count_list (map fm_StepIdentifier sent) i"

definition votes_inv :: "nat \<Rightarrow> voting_status \<Rightarrow> finalization_message list \<Rightarrow> bool" where
  "votes_inv k status sent \<longleftrightarrow> (\<forall>i. votes_for i sent \<le> k + of_bool (step_done status i))"

lemma votes_inv_mono:
  assumes "votes_inv k status sent" "\<And>i. step_done status i \<Longrightarrow> step_done status' i"
  shows "votes_inv k status' sent"
  unfolding votes_inv_def
proof
  fix i
  have "votes_for i sent \<le> k + of_bool (step_done status i)" using assms(1) by (simp add: votes_inv_def)
  also have "\<dots> \<le> k + of_bool (step_done status' i)" using assms(2) [of i] by (simp add: of_bool_def)
  finally show "votes_for i sent \<le> k + of_bool (step_done status' i)" .
qed

lemma votes_inv_later:
  assumes "votes_inv k status sent" "vs_Round status < vs_Round status'"
  shows "votes_inv k status' sent"
  by (rule votes_inv_mono [OF assms(1)]) (use assms(2) in \<open>auto simp: step_done_def\<close>)

lemma votes_inv_flags: "votes_inv k status sent \<Longrightarrow> votes_inv k (status\<lparr>vs_HasSentPrevote := True\<rparr>) sent"
  "votes_inv k status sent \<Longrightarrow> votes_inv k (status\<lparr>vs_HasSentPrecommit := True\<rparr>) sent"
  by (erule votes_inv_mono, auto simp: step_done_def split: if_splits)+

text \<open>The message of a step that is not done yet, and after which it is.\<close>

lemma votes_inv_sent:
  assumes "votes_inv k status sent" "\<not> step_done status (fm_StepIdentifier m)" "step_done status' (fm_StepIdentifier m)"
    and "votes_inv k status' sent"
  shows "votes_inv k status' (m # sent)"
  unfolding votes_inv_def
proof
  fix i
  have "votes_for (fm_StepIdentifier m) sent \<le> k" using assms(1,2) unfolding votes_inv_def by (metis add_0_right of_bool_eq(1))
  moreover have "votes_for i sent \<le> k + of_bool (step_done status' i)" using assms(4) by (simp add: votes_inv_def)
  ultimately show "votes_for i (m # sent) \<le> k + of_bool (step_done status' i)" using assms(3) by auto
qed

text \<open>Whatever the status is, no step has more messages than one and the polls cut off.\<close>

lemma votes_inv_any:
  assumes "votes_inv k status sent"
  shows "votes_for i sent \<le> Suc k" "votes_inv (Suc k) status' sent"
proof -
  have "votes_for i sent \<le> Suc k" for i
    using assms by (simp add: votes_inv_def) (metis Suc_eq_plus1 add_le_cancel_left le_trans of_bool_eq(1) of_bool_eq(2) of_bool_less_eq_one)
  then show "votes_for i sent \<le> Suc k" "votes_inv (Suc k) status' sent" by (auto simp: votes_inv_def le_SucI)
qed

lemma PrepareMessage_step: "PrepareMessage canSign sign i h hashes tree = (Some m, tree') \<Longrightarrow> fm_StepIdentifier m = i \<and> fm_Height m = h \<and> fm_Hashes m = hashes"
  by (auto simp: PrepareMessage_def Let_def split: if_splits prod.splits)

lemma process_vote_sent:
  "process_vote eligible message x = Ok y \<Longrightarrow> or_status y = or_status x \<and> or_advancer y = or_advancer x
     \<and> (or_sent y = or_sent x \<or> (\<exists>m. message = Some m \<and> or_sent y = m # or_sent x))"
  by (auto simp: process_vote_def split: option.splits)

abbreviation orch_inv :: "nat \<Rightarrow> 't orchestrator \<Rightarrow> bool" where
  "orch_inv k x \<equiv> votes_inv k (or_status x) (or_sent x)"

lemma poll_prevote_inv:
  assumes "poll_prevote g config eligible blocks statistics can x = Ok y" "orch_inv k x" "rd_Point (vs_Round (or_status x)) < 2 ^ 31"
  shows "orch_inv k y \<and> vs_Round (or_status y) = vs_Round (or_status x)"
proof (cases "\<not> vs_HasSentPrevote (or_status x) \<and> can")
  case True
  then obtain message tree' z where c: "createPrevote g config blocks statistics (vs_Round (or_status x)) (or_tree x) = Ok (message, tree')"
    and z: "process_vote eligible message (x\<lparr>or_tree := tree'\<rparr>) = Ok z" "y = z\<lparr>or_status := (or_status z)\<lparr>vs_HasSentPrevote := True\<rparr>\<rparr>"
    using assms(1) by (auto simp: poll_prevote_def)
  have step: "fm_StepIdentifier m = new_StepIdentifier (rd_Epoch (vs_Round (or_status x))) (rd_Point (vs_Round (or_status x))) Stage_Prevote" if "message = Some m" for m
    using c that by (auto simp: createPrevote_def dest!: PrepareMessage_step [OF sym])
  have prevote: "votes_inv k ((or_status x)\<lparr>vs_HasSentPrevote := True\<rparr>) (m # or_sent x)" if "message = Some m" for m
    by (rule votes_inv_sent [OF assms(2)])
      (use step [OF that] True assms(3) votes_inv_flags(1) [OF assms(2)] in \<open>simp_all add: step_done_def si_Round_new si_Stage_new Stage_Prevote_def\<close>)
  show ?thesis using process_vote_sent [OF z(1)] z(2) prevote votes_inv_flags(1) [OF assms(2)] by auto
qed (use assms in \<open>auto simp: poll_prevote_def split: if_splits\<close>)

lemma poll_precommit_inv:
  assumes "poll_precommit g eligible can x = Ok y" "orch_inv k x" "rd_Point (vs_Round (or_status x)) < 2 ^ 31"
  shows "orch_inv k y \<and> vs_Round (or_status y) = vs_Round (or_status x)"
proof (cases "vs_HasSentPrecommit (or_status x) \<or> can = None")
  case False
  then obtain target message tree' z where c: "createPrecommit g (vs_Round (or_status x)) target (or_tree x) = (message, tree')"
    and z: "process_vote eligible message (x\<lparr>or_tree := tree'\<rparr>) = Ok z" "y = z\<lparr>or_status := (or_status z)\<lparr>vs_HasSentPrecommit := True\<rparr>\<rparr>"
    using assms(1) by (auto simp: poll_precommit_def split: prod.splits)
  have step: "fm_StepIdentifier m = new_StepIdentifier (rd_Epoch (vs_Round (or_status x))) (rd_Point (vs_Round (or_status x))) Stage_Precommit" if "message = Some m" for m
    using c that by (auto simp: createPrecommit_def dest!: PrepareMessage_step)
  have precommit: "votes_inv k ((or_status x)\<lparr>vs_HasSentPrecommit := True\<rparr>) (m # or_sent x)" if "message = Some m" for m
    by (rule votes_inv_sent [OF assms(2)])
      (use step [OF that] False assms(3) votes_inv_flags(2) [OF assms(2)] in \<open>simp_all add: step_done_def si_Round_new si_Stage_new Stage_Prevote_def Stage_Precommit_def\<close>)
  show ?thesis using process_vote_sent [OF z(1)] z(2) precommit votes_inv_flags(2) [OF assms(2)] by auto
qed (use assms in \<open>auto simp: poll_precommit_def split: if_splits\<close>)

lemma round_add_later: "rd_Point r < 2 ^ 31 \<Longrightarrow> r < round_add r 1 \<and> unat (rd_Point (round_add r 1)) = Suc (unat (rd_Point r))"
  by (cases r) (simp add: round_add_def less_finalization_round_def round_less_def word_less_nat_alt unat_add_lem [THEN iffD1])

lemma orchestrator_poll_inv:
  assumes "orchestrator_poll g config eligible blocks statistics time views x = Ok y" "orch_inv k x" "rd_Point (vs_Round (or_status x)) < 2 ^ 31"
  shows "orch_inv k y \<and> unat (rd_Point (vs_Round (or_status y))) \<le> Suc (unat (rd_Point (vs_Round (or_status x))))"
proof -
  let ?x0 = "if or_advancer x = None then startRound config time x else x"
  have x0: "or_status ?x0 = or_status x" "or_sent ?x0 = or_sent x" by (simp_all add: startRound_def)
  obtain x1 x2 can1 can2 can3 where p: "poll_prevote g config eligible blocks statistics can1 ?x0 = Ok x1"
    "poll_precommit g eligible can2 x1 = Ok x2" "y = poll_round config time can3 x2"
    using assms(1) unfolding orchestrator_poll_def Let_def by (cases views) auto
  have 1: "orch_inv k x1" "vs_Round (or_status x1) = vs_Round (or_status x)"
    using poll_prevote_inv [OF p(1)] assms(2,3) unfolding x0 by auto
  have 2: "orch_inv k x2" "vs_Round (or_status x2) = vs_Round (or_status x)"
    using poll_precommit_inv [OF p(2)] 1 assms(3) by auto
  from round_add_later [OF assms(3)] show ?thesis
    using 2 p(3) votes_inv_later [OF 2(1)] by (auto simp: poll_round_def startRound_def)
qed

lemma setEpoch_inv:
  assumes "setEpoch e x = Ok y" "orch_inv k x"
  shows "orch_inv k y \<and> (or_status y = or_status x \<or> rd_Point (vs_Round (or_status y)) = 1)"
proof -
  have "rd_Epoch r < e \<Longrightarrow> r < Finalization_Round e 1" for r by (cases r) (auto simp: less_finalization_round_def round_less_def)
  with assms votes_inv_later [OF assms(2), of "\<lparr>vs_Round = Finalization_Round e 1, vs_HasSentPrevote = False, vs_HasSentPrecommit = False\<rparr>"]
  show ?thesis by (fastforce simp: setEpoch_def split: if_splits)
qed

definition service_inv :: "nat \<Rightarrow> nat \<Rightarrow> 't voting_service \<Rightarrow> bool" where
  "service_inv n k v \<longleftrightarrow> orch_inv k (sv_orchestrator v) \<and> load_status (sv_file v) = Ok (or_status (sv_orchestrator v))
     \<and> unat (rd_Point (vs_Round (or_status (sv_orchestrator v)))) \<le> Suc n"

lemma service_enter_inv:
  assumes "service_enter config blocks v = Ok (Some (x, rounds))" "service_inv n k v" "Suc n < 2 ^ 31"
  shows "orch_inv k x" "rd_Point (vs_Round (or_status x)) < 2 ^ 31" "unat (rd_Point (vs_Round (or_status x))) \<le> Suc n"
proof -
  from assms(1) obtain status where "enter_epoch status (sv_orchestrator v) = Ok x"
    by (auto simp: service_enter_def split: if_splits)
  then have x: "orch_inv k x" "unat (rd_Point (vs_Round (or_status x))) \<le> Suc n"
    using assms(2) by (auto simp: enter_epoch_def service_inv_def split: epoch_status.splits dest!: setEpoch_inv)
  then show "orch_inv k x" "rd_Point (vs_Round (or_status x)) < 2 ^ 31" "unat (rd_Point (vs_Round (or_status x))) \<le> Suc n"
    using assms(3) by (simp_all add: word_less_nat_alt)
qed

lemma service_vote_inv:
  assumes "service_vote g config eligible blocks time views v = Ok (Some v')" "service_inv n k v" "Suc n < 2 ^ 31"
  shows "service_inv (Suc n) k v'"
proof -
  from assms(1) obtain x rounds y where p: "service_enter config blocks v = Ok (Some (x, rounds))"
    "orchestrator_poll g config eligible blocks (ps_statistics (sv_proofs v)) time (views rounds) x = Ok y"
    "v' = v\<lparr>sv_orchestrator := y, sv_rounds := rounds, sv_file := Some (save_status (or_status y))\<rparr>"
    by (auto simp: service_vote_def split: option.splits)
  note x = service_enter_inv [OF p(1) assms(2,3)]
  from orchestrator_poll_inv [OF p(2) x(1,2)] show ?thesis using p(3) x(3) by (simp add: service_inv_def load_save_status)
qed

lemma interrupted_poll_inv:
  assumes "interrupted_poll g config eligible blocks time views halt v = Ok sent" "service_inv n k v" "Suc n < 2 ^ 31"
  shows "\<exists>status. votes_inv k status sent"
proof (cases "sent = or_sent (sv_orchestrator v)")
  case False
  with assms(1) obtain x rounds view1 view2 view3 where x: "service_enter config blocks v = Ok (Some (x, rounds))" and "views rounds = (view1, view2, view3)"
    by (cases "service_enter config blocks v"; cases "views (snd (the (the_ok (service_enter config blocks v))))")
      (auto simp: interrupted_poll_def split: option.splits if_splits)
  let ?x0 = "if or_advancer x = None then startRound config time x else x"
  have x0: "or_status ?x0 = or_status x" "or_sent ?x0 = or_sent x" by (simp_all add: startRound_def)
  obtain x1 can1 where p: "poll_prevote g config eligible blocks (ps_statistics (sv_proofs v)) can1 ?x0 = Ok x1"
    "sent = or_sent x1 \<or> (\<exists>can2 x2. poll_precommit g eligible can2 x1 = Ok x2 \<and> sent = or_sent x2)"
    using assms(1) x False unfolding interrupted_poll_def Let_def
    by (cases "views rounds") (auto split: if_splits)
  note inv = service_enter_inv [OF x assms(2,3)]
  have 1: "orch_inv k x1" "vs_Round (or_status x1) = vs_Round (or_status x)"
    using poll_prevote_inv [OF p(1)] inv(1,2) unfolding x0 by auto
  with p(2) inv(2) show ?thesis using poll_precommit_inv [where x = x1] by metis
qed (use assms(2) in \<open>auto simp: service_inv_def\<close>)

lemma service_runs_inv: "service_runs g config n k v \<Longrightarrow> \<not> cf_EnableRevoteOnBoot config \<Longrightarrow> n < 2 ^ 31 - 1 \<Longrightarrow> service_inv n k v"
proof (induction rule: service_runs.induct)
  case (run_vote n k v eligible blocks time views v')
  then show ?case using service_vote_inv [OF run_vote.hyps(2), of n k] by simp
next
  case (run_interrupted n k v eligible blocks time views halt sent status tree)
  then have v: "service_inv n k v" "Suc n < 2 ^ 31" by simp_all
  then obtain s where "votes_inv k s sent" using interrupted_poll_inv [OF run_interrupted.hyps(2)] by blast
  then have "votes_inv (Suc k) status sent" by (rule votes_inv_any(2))
  with run_interrupted.hyps(3) run_interrupted.prems(1) v(1) show ?case
    by (simp add: service_inv_def new_FinalizationOrchestrator_def boot_status_def)
qed (auto simp: service_inv_def votes_inv_def new_FinalizationOrchestrator_def load_status_def boot_status_def)

text \<open>
  C4: a node that does not revote on boot sends at most one message of each step, that is at most one prevote and one
  precommit in each round, and one more for each poll that was cut off, by an exception or the end of the process, between sending
  and saving the status.  This holds over its first 2147483646 polls that save the status, whatever the peers send in between, whatever
  proofs it saves and over any restarts.
\<close>

theorem votes_once:
  assumes "service_runs g config n k v" "\<not> cf_EnableRevoteOnBoot config" "n < 2 ^ 31 - 1"
  shows "(\<forall>i. count_list (map fm_StepIdentifier (or_sent (sv_orchestrator v))) i \<le> Suc k)
    \<and> (k = 0 \<longrightarrow> distinct (map fm_StepIdentifier (or_sent (sv_orchestrator v))))"
proof -
  have "orch_inv k (sv_orchestrator v)" using service_runs_inv [OF assms] by (simp add: service_inv_def)
  from votes_inv_any(1) [OF this] show ?thesis by (auto intro: distinct_count_list)
qed

definition sample_signer :: "unit signer" where
  "sample_signer = \<lparr>sg_canSign = \<lambda>_ _. True,
     sg_sign = \<lambda>_ _ _. (\<lparr>sig_RootPublicKey = 4, sig_RootSignature = 0, sig_BottomPublicKey = 0, sig_BottomSignature = 0\<rparr>, ())\<rparr>"

definition sample_blocks :: block_storage where
  "sample_blocks = \<lparr>chainHeight = 104, blockHash = \<lambda>h. ucast (h - 90)\<rparr>"

definition sample_service :: "unit voting_service" where
  "sample_service = \<lparr>sv_orchestrator = new_FinalizationOrchestrator (the_ok (load_status None)) () [],
     sv_rounds = sample_rounds, sv_proofs = sample_storage, sv_file = None\<rparr>"

definition sample_poll :: "64 word \<Rightarrow> unit voting_service \<Rightarrow> unit voting_service result" where
  "sample_poll = service_poll sample_signer sample_config (\<lambda>_. Ok True) rev sample_blocks"

definition sample_restart :: "finalization_message list \<Rightarrow> unit voting_service \<Rightarrow> unit voting_service result" where
  "sample_restart sent v = map_result (\<lambda>status. v\<lparr>sv_orchestrator := new_FinalizationOrchestrator status () sent\<rparr>)
     (boot_status sample_config (sv_proofs v) (sv_file v))"

text \<open>A poll cut off after its prevote, a restart, a complete poll, another restart and two more polls.\<close>

definition sample_run :: "unit voting_service result" where
  "sample_run =
     bind_result (interrupted_poll sample_signer sample_config (\<lambda>_. Ok True) sample_blocks 5000 (\<lambda>r. (r, r, r)) After_Prevote sample_service) (\<lambda>sent.
     bind_result (sample_restart sent sample_service) (\<lambda>v. bind_result (sample_poll 6000 v) (\<lambda>v.
     bind_result (sample_restart (or_sent (sv_orchestrator v)) v) (\<lambda>v. bind_result (sample_poll 7000 v) (sample_poll 8000)))))"

lemma sample_run_reached:
  assumes "sample_run = Ok v"
  shows "\<exists>n\<le>3. service_runs sample_signer sample_config n 1 v"
proof -
  obtain sent v1 v2 v3 v4 where v: "interrupted_poll sample_signer sample_config (\<lambda>_. Ok True) sample_blocks 5000 (\<lambda>r. (r, r, r)) After_Prevote sample_service = Ok sent"
    "sample_restart sent sample_service = Ok v1" "sample_poll 6000 v1 = Ok v2" "sample_restart (or_sent (sv_orchestrator v2)) v2 = Ok v3"
    "sample_poll 7000 v3 = Ok v4" "sample_poll 8000 v4 = Ok v"
    using assms by (auto simp: sample_run_def)
  have poll: "\<exists>n\<le>Suc m. service_runs sample_signer sample_config n 1 v'"
    if "\<exists>n\<le>m. service_runs sample_signer sample_config n 1 v" "sample_poll time v = Ok v'" for m v time v'
    using that service_poll_runs unfolding sample_poll_def by (metis Suc_le_mono insert_iff le_SucI singletonD)
  have "service_runs sample_signer sample_config 0 0 sample_service"
    unfolding sample_service_def by (rule run_boot) (simp add: load_status_def)
  from run_interrupted [OF this v(1)] v(2) have "service_runs sample_signer sample_config 0 1 v1" by (auto simp: sample_restart_def)
  then have "\<exists>n\<le>0. service_runs sample_signer sample_config n 1 v1" by blast
  from poll [OF this v(3)] v(4) have "\<exists>n\<le>Suc 0. service_runs sample_signer sample_config n 1 v3"
    by (auto simp: sample_restart_def intro: run_restart)
  from poll [OF poll [OF this v(5)] v(6)] show ?thesis by (simp add: numeral_3_eq_3)
qed

theorem votes_once_witness:
  "\<exists>v. sample_run = Ok v \<and> map fm_StepIdentifier (or_sent (sv_orchestrator v))
     = [\<lparr>si_Epoch = 3, si_PointStage = 4\<rparr>, \<lparr>si_Epoch = 3, si_PointStage = 3\<rparr>, \<lparr>si_Epoch = 3, si_PointStage = 2\<rparr>, \<lparr>si_Epoch = 3, si_PointStage = 2\<rparr>]
     \<and> (\<forall>i. count_list (map fm_StepIdentifier (or_sent (sv_orchestrator v))) i \<le> 2)"
proof -
  have "case sample_run of Ok v \<Rightarrow> map fm_StepIdentifier (or_sent (sv_orchestrator v))
     = [\<lparr>si_Epoch = 3, si_PointStage = 4\<rparr>, \<lparr>si_Epoch = 3, si_PointStage = 3\<rparr>, \<lparr>si_Epoch = 3, si_PointStage = 2\<rparr>, \<lparr>si_Epoch = 3, si_PointStage = 2\<rparr>]
     | Err _ \<Rightarrow> False"
    by code_simp
  then obtain v where v: "sample_run = Ok v" "map fm_StepIdentifier (or_sent (sv_orchestrator v))
     = [\<lparr>si_Epoch = 3, si_PointStage = 4\<rparr>, \<lparr>si_Epoch = 3, si_PointStage = 3\<rparr>, \<lparr>si_Epoch = 3, si_PointStage = 2\<rparr>, \<lparr>si_Epoch = 3, si_PointStage = 2\<rparr>]"
    by (auto split: result.splits)
  from sample_run_reached [OF v(1)] obtain n where n: "n \<le> 3" "service_runs sample_signer sample_config n 1 v" by blast
  then have "\<forall>i. count_list (map fm_StepIdentifier (or_sent (sv_orchestrator v))) i \<le> Suc 1"
    using votes_once [OF n(2)] by (simp add: sample_config_def)
  with v show ?thesis by (auto simp: numeral_2_eq_2)
qed

subsection \<open>The prevotes of a node are well formed\<close>

lemma unat_ucast_multiple: "unat (ucast w :: 64 word) = unat w" for w :: "16 word"
  using unsigned_less [of w, where 'a=nat] by (simp add: unsigned_ucast_eq take_bit_nat_eq_self)

lemma unat_Clamp:
  assumes "multiple \<noteq> 0" "unat value + unat multiple < 2 ^ 64" "unat adjustment \<le> 1"
  shows "unat (Clamp value multiple adjustment)
    = (if unat multiple dvd unat value then unat value else (unat value div unat multiple + unat adjustment) * unat multiple)"
proof -
  let ?q = "unat value div unat multiple + unat adjustment"
  have m: "0 < unat multiple" using assms(1) by (simp add: unat_gt_0)
  have dvd: "0 = value mod ucast multiple \<longleftrightarrow> unat multiple dvd unat value"
    unfolding eq_commute [of 0] unat_eq_zero [symmetric] unat_mod unat_ucast_multiple dvd_eq_mod_eq_0 ..
  have "?q * unat multiple = unat value div unat multiple * unat multiple + unat adjustment * unat multiple"
    by (rule add_mult_distrib)
  also have "\<dots> \<le> unat value + 1 * unat multiple"
    by (intro add_mono mult_le_mono1 assms(3) div_times_less_eq_dividend)
  finally have small: "?q * unat multiple < 2 ^ 64" using assms(2) by linarith
  have "?q * 1 \<le> ?q * unat multiple" using m by (intro mult_le_mono2) simp
  then have "?q < 2 ^ 64" using small unfolding mult_1_right by (rule le_less_trans)
  then have "unat (value div ucast multiple + ucast adjustment) = ?q"
    by (simp add: unat_add_lem [THEN iffD1] unat_div unat_ucast_multiple)
  with small have "unat ((value div ucast multiple + ucast adjustment) * ucast multiple) = ?q * unat multiple"
    by (subst unat_mult_lem [THEN iffD1]) (simp_all only: unat_ucast_multiple, simp)
  then show ?thesis unfolding Clamp_def dvd by simp
qed

lemma clamp_up:
  fixes x d k :: nat
  assumes "0 < d" "k = (if d dvd x then x else (x div d + 1) * d)"
  shows "x \<le> k" "k < x + d" "d dvd k"
proof -
  define q r where "q = x div d" and "r = x mod d"
  then have x: "x = d * q + r" "r < d" using assms(1) by simp_all
  have "k = (if r = 0 then x else d * q + d)" using assms(2) by (auto simp: dvd_eq_mod_eq_0 q_def r_def)
  with x show "x \<le> k" "k < x + d" "d dvd k" using assms(1) by (auto split: if_splits)
qed

text \<open>The chain of a prevote ends at a multiple, within the voting set, or is one block.\<close>

lemma prevote_hashes_count_bounds:
  assumes "cf_PrevoteBlocksMultiple config \<noteq> 0" "unat (cf_PrevoteBlocksMultiple config) \<le> unat (cf_MaxHashesPerPoint config)"
    "n = unat (prevote_hashes_count config H T h)" "H < 2 ^ 63" "h \<le> T"
  shows "0 < n" "n \<le> unat (cf_MaxHashesPerPoint config)" "unat h + n - 1 \<le> unat T"
    "n = 1 \<or> unat h + n - 1 \<le> unat H \<and> unat (cf_PrevoteBlocksMultiple config) dvd unat h + n - 1"
proof -
  let ?d = "unat (cf_PrevoteBlocksMultiple config)" and ?M = "unat (cf_MaxHashesPerPoint config)"
  have d: "0 < ?d" using assms(1) by (simp add: unat_gt_0)
  have H: "unat H < 2 ^ 63" using assms(4) by (simp add: word_less_nat_alt)
  have d16: "?d < 2 ^ 16" using unsigned_less [of "cf_PrevoteBlocksMultiple config", where 'a=nat] by simp
  define top where "top = (if H \<ge> ucast (cf_PrevoteBlocksMultiple config) then H - ucast (cf_PrevoteBlocksMultiple config) else H)"
  define top' where "top' = (if top > T then T else top)"
  define c where "c = Clamp top' (cf_PrevoteBlocksMultiple config) 0"
  define k where "k = (if c > h then c - h + 1 else 1)"
  have "top \<le> H" unfolding top_def by (auto simp: word_le_nat_alt unat_sub)
  then have top': "unat top' \<le> unat H" "unat top' \<le> unat T" by (auto simp: top'_def word_le_nat_alt word_less_nat_alt)
  then have "unat c = (if ?d dvd unat top' then unat top' else unat top' div ?d * ?d)"
    using unat_Clamp [OF assms(1), of top' 0] H d16 by (simp add: c_def)
  then have c: "unat c \<le> unat H" "unat c \<le> unat T" "?d dvd unat c"
    using top' order_trans [OF div_times_less_eq_dividend] by (auto split: if_splits)
  have k: "unat k = (if unat c > unat h then unat c - unat h + 1 else 1)"
    using c(1) H by (auto simp: k_def word_less_nat_alt unat_sub word_le_nat_alt unat_add_lem [THEN iffD1])
  have n: "n = unat (if k > ucast (cf_MaxHashesPerPoint config) then k - Clamp (k - ucast (cf_MaxHashesPerPoint config)) (cf_PrevoteBlocksMultiple config) 1 else k)"
    unfolding assms(3) prevote_hashes_count_def Let_def top_def [symmetric] top'_def [symmetric] c_def [symmetric] k_def [symmetric] ..
  have "0 < n \<and> n \<le> ?M \<and> unat h + n - 1 \<le> unat T \<and> (n = 1 \<or> unat h + n - 1 \<le> unat H \<and> ?d dvd unat h + n - 1)"
  proof (cases "?M < unat k")
    case True
    define q where "q = unat (Clamp (k - ucast (cf_MaxHashesPerPoint config)) (cf_PrevoteBlocksMultiple config) 1)"
    have x: "unat (k - ucast (cf_MaxHashesPerPoint config)) = unat k - ?M" using True by (simp add: unat_sub word_le_nat_alt unat_ucast_epoch)
    have "unat k \<le> 2 ^ 63" using k c(1) H by (auto split: if_splits)
    then have "q = (if ?d dvd unat k - ?M then unat k - ?M else ((unat k - ?M) div ?d + 1) * ?d)"
      using unat_Clamp [OF assms(1), of "k - ucast (cf_MaxHashesPerPoint config)" 1] d16 by (simp add: q_def x)
    note q = clamp_up [OF d this]
    have nq: "n = unat k - q"
      using n True q(2) assms(2) by (simp add: word_less_nat_alt unat_ucast_epoch q_def [symmetric] unat_sub word_le_nat_alt)
    have "unat h < unat c" using k True d assms(2) by (auto split: if_splits)
    with k nq q(2) True assms(2) have "unat h + n - 1 = unat c - q" "0 < n" "n \<le> ?M" using q(1) by auto
    with c q(3) show ?thesis by (auto intro: dvd_diff_nat)
  next
    case False
    with n have "n = unat k" by (simp add: word_less_nat_alt unat_ucast_epoch)
    with k c False assms(5) show ?thesis by (auto simp: word_le_nat_alt split: if_splits)
  qed
  then show "0 < n" "n \<le> ?M" "unat h + n - 1 \<le> unat T" "n = 1 \<or> unat h + n - 1 \<le> unat H \<and> ?d dvd unat h + n - 1" by blast+
qed

lemma length_loadHashesFrom:
  assumes "h \<noteq> 0" "h \<le> chainHeight blocks"
  shows "length (loadHashesFrom blocks h n) = min n (unat (chainHeight blocks) - unat h + 1)"
proof -
  have "unat (chainHeight blocks - h) = unat (chainHeight blocks) - unat h" using assms(2) by (simp add: unat_sub)
  moreover have "unat (chainHeight blocks) - unat h + 1 < 2 ^ 64"
    using assms unsigned_less [of "chainHeight blocks", where 'a=nat] unat_gt_0 [of h] by simp
  ultimately have "unat (chainHeight blocks - h + 1) = unat (chainHeight blocks) - unat h + 1" by (simp add: unat_add_lem [THEN iffD1])
  with assms show ?thesis by (simp add: loadHashesFrom_def Let_def not_less [symmetric])
qed

lemma createPrevote_hashes:
  assumes "createPrevote g config blocks statistics round tree = Ok (Some m, tree')"
    "CalculateVotingSetEndHeight (rd_Epoch round) (cf_VotingSetGrouping config) = Ok T"
  shows "fm_StepIdentifier m = new_StepIdentifier (rd_Epoch round) (rd_Point round) Stage_Prevote" "fm_Height m = fs_Height statistics"
    "fm_Hashes m = (let hashes = loadHashesFrom blocks (fs_Height statistics) (unat (prevote_hashes_count config (chainHeight blocks) T (fs_Height statistics)))
       in if hashes = [] then [fs_Hash statistics] else hashes)"
  using assms PrepareMessage_step [of "sg_canSign g" "sg_sign g" _ _ _ tree m tree']
  by (simp_all add: createPrevote_def loadPrevoteHashChain_def Let_def)

text \<open>
  C26: the prevote a node makes for its round passes every check that the aggregators of its peers put on heights and hashes
  (a nonempty chain of at most \<open>MaxHashesPerPoint\<close> hashes, inside the voting set of the epoch and reaching the height the
  context starts at).  It starts at the last finalized height, and either it has one hash only or it ends at a height that is a multiple of
  \<open>PrevoteBlocksMultiple\<close>.  Assumed are a multiple that is neither zero nor above the maximal number of hashes,
  a last finalized height in the range of the epoch, and a chain of fewer than \<open>2 ^ 63\<close> blocks.
\<close>

theorem prevote_accepted:
  assumes "createPrevote g config blocks statistics round tree = Ok (Some m, tree')"
    and "fc_config c = config" "CalculateVotingSetEndHeight (rd_Epoch round - 1) (cf_VotingSetGrouping config) = Ok (fc_height c)"
    and "CalculateVotingSetEndHeight (rd_Epoch round) (cf_VotingSetGrouping config) = Ok T"
    and "fc_height c \<le> fs_Height statistics" "fs_Height statistics \<le> T" "chainHeight blocks < 2 ^ 63"
    and "cf_PrevoteBlocksMultiple config \<noteq> 0" "unat (cf_PrevoteBlocksMultiple config) \<le> unat (cf_MaxHashesPerPoint config)"
  shows "round_guard c m \<and> fm_Height m = fs_Height statistics \<and> (length (fm_Hashes m) = 1
    \<or> unat (cf_PrevoteBlocksMultiple config) dvd unat (fm_Height m) + length (fm_Hashes m) - 1)"
proof -
  let ?h = "fs_Height statistics" and ?n = "unat (prevote_hashes_count config (chainHeight blocks) T (fs_Height statistics))"
  note m = createPrevote_hashes [OF assms(1,4)]
  note n = prevote_hashes_count_bounds [OF assms(8,9) refl assms(7,6)]
  have len: "0 < length (fm_Hashes m) \<and> length (fm_Hashes m) \<le> unat (cf_MaxHashesPerPoint config) \<and> unat ?h + length (fm_Hashes m) - 1 \<le> unat T
    \<and> (length (fm_Hashes m) = 1 \<or> unat (cf_PrevoteBlocksMultiple config) dvd unat ?h + length (fm_Hashes m) - 1)"
  proof (cases "?h = 0 \<or> chainHeight blocks < ?h")
    case True
    then have "length (fm_Hashes m) = 1" using m(3) by (auto simp: loadHashesFrom_def)
    then show ?thesis using n(1,2) assms(6) by (simp add: word_le_nat_alt)
  next
    case False
    then have h: "?h \<noteq> 0" "?h \<le> chainHeight blocks" by auto
    then have "?n \<le> unat (chainHeight blocks) - unat ?h + 1" using n(1,4) by (auto simp: word_le_nat_alt)
    then have "length (loadHashesFrom blocks ?h ?n) = ?n" using length_loadHashesFrom [OF h, of ?n] by simp
    then have "length (fm_Hashes m) = ?n" using m(3) n(1) by (auto simp: Let_def)
    then show ?thesis using n by auto
  qed
  then have "length (fm_Hashes m) < 2 ^ 32" using unsigned_less [of "cf_MaxHashesPerPoint config", where 'a=nat] by simp
  then have count: "unat (fm_HashesCount m) = length (fm_Hashes m)" by (simp add: fm_HashesCount_def unat_of_nat take_bit_nat_eq_self)
  then have "1 \<le> fm_HashesCount m" using len by (simp add: word_le_nat_alt Suc_le_eq)
  from unat_sub [OF this] have pred: "unat (fm_HashesCount m - 1) = length (fm_Hashes m) - 1" by (simp add: count)
  have pos: "1 \<le> length (fm_Hashes m)" using len by linarith
  then have pred': "unat ?h + (length (fm_Hashes m) - 1) = unat ?h + length (fm_Hashes m) - 1" by (rule diff_add_assoc [symmetric])
  have "unat ?h + length (fm_Hashes m) - 1 < 2 ^ 64"
    using len unsigned_less [of T, where 'a=nat] by (elim conjE) (erule le_less_trans, simp)
  note pred' = pred' this
  have last: "unat (fm_Height m + ucast (fm_HashesCount m - 1)) = unat ?h + length (fm_Hashes m) - 1"
    using pred' by (subst unat_add_lem [THEN iffD1]) (simp_all only: m(2) unat_ucast_epoch pred, simp)
  have "unat (fc_height c) \<le> unat ?h" using assms(5) by (simp add: word_le_nat_alt)
  then have bounds: "fm_Height m + ucast (fm_HashesCount m - 1) \<le> T" "fc_height c \<le> fm_Height m + ucast (fm_HashesCount m - 1)"
    unfolding word_le_nat_alt last using len pos by linarith+
  have "IsPrevote m" "si_Epoch (fm_StepIdentifier m) = rd_Epoch round" by (simp_all add: IsPrevote_def m(1) Stage_Prevote_def, simp add: new_StepIdentifier_def)
  then have "check_hashes (fc_config c) m (fm_Height m + ucast (fm_HashesCount m - 1)) = Ok True"
    using assms(2-6) bounds(1) by (simp add: check_hashes_def m(2) not_less)
  moreover have "0 \<noteq> fm_HashesCount m" "fm_HashesCount m \<le> cf_MaxHashesPerPoint (fc_config c)"
    using len pos count assms(2) by (auto simp: word_le_nat_alt)
  ultimately show ?thesis using len bounds(2) unfolding round_guard_def m(2) by blast
qed

theorem prevote_accepted_witness:
  "\<exists>m. createPrevote sample_signer (sample_config\<lparr>cf_PrevoteBlocksMultiple := 3\<rparr>) (sample_blocks\<lparr>chainHeight := 106\<rparr>)
        \<lparr>fs_Round = Finalization_Round 2 1, fs_Height = 100, fs_Hash = 10\<rparr> (Finalization_Round 3 1) () = Ok (Some m, ())
     \<and> fm_Hashes m = [10, 11, 12] \<and> round_guard (sample_context\<lparr>fc_config := sample_config\<lparr>cf_PrevoteBlocksMultiple := 3\<rparr>\<rparr>) m
     \<and> 3 dvd unat (fm_Height m) + length (fm_Hashes m) - 1"
proof -
  let ?config = "sample_config\<lparr>cf_PrevoteBlocksMultiple := 3\<rparr>"
  let ?f = "createPrevote sample_signer ?config (sample_blocks\<lparr>chainHeight := 106\<rparr>) \<lparr>fs_Round = Finalization_Round 2 1, fs_Height = 100, fs_Hash = 10\<rparr> (Finalization_Round 3 1) ()"
  have "case ?f of Ok (Some m, _) \<Rightarrow> fm_Hashes m = [10, 11, 12] | _ \<Rightarrow> False" by code_simp
  then obtain m where m: "?f = Ok (Some m, ())" "fm_Hashes m = [10, 11, 12]" by (auto split: result.splits option.splits prod.splits)
  have "round_guard (sample_context\<lparr>fc_config := ?config\<rparr>) m \<and> 3 dvd unat (fm_Height m) + length (fm_Hashes m) - 1"
    using prevote_accepted [OF m(1), of "sample_context\<lparr>fc_config := ?config\<rparr>" 200] m(2)
    by (simp add: sample_context_def sample_config_def sample_blocks_def CalculateVotingSetEndHeight_def CheckParameters_def)
  with m show ?thesis by blast
qed

text \<open>A pull changes the storage only by a proof of the requested epoch that was validated and that raises the finalized height.\<close>

lemma pull_proof_cases:
  assumes "pull_proof config blocks peerStatistics peerProofAt proofValidator st = Ok (r, st')" "st' \<noteq> st"
  obtains e p where "r = Interaction_Success" "calculateRequestEpoch config blocks (fs_Height (ps_statistics st)) = Ok e" "peerProofAt e = Ok p"
    "proofValidator p" "rd_Epoch (fp_Round p) = e" "fs_Height (ps_statistics st) < fp_Height p" "fs_Round (ps_statistics st) \<le> fp_Round p"
    "ps_statistics st' = \<lparr>fs_Round = fp_Round p, fs_Height = fp_Height p, fs_Hash = fp_Hash p\<rparr>" "ps_loadProof st' e = Ok p"
proof -
  have catch: "catch_pull_error x st = Ok (r, st') \<Longrightarrow> x = Ok (r, st')" for x
    using assms(2) by (auto simp: catch_pull_error_def split: result.splits if_splits)
  from assms obtain e where e: "calculateRequestEpoch config blocks (fs_Height (ps_statistics st)) = Ok e" "0 \<noteq> e"
    by (auto simp: pull_proof_def Let_def split: if_splits)
  with assms obtain p where p: "peerProofAt e = Ok p" "rd_Epoch (fp_Round p) = e" "fs_Height (ps_statistics st) < fp_Height p" "proofValidator p"
    "r = Interaction_Success" "\<exists>q. saveProof p st = Ok (st', q)"
    by (auto simp: pull_proof_def Let_def dest!: catch split: if_splits option.splits)
  then have "ps_statistics st' = \<lparr>fs_Round = fp_Round p, fs_Height = fp_Height p, fs_Hash = fp_Hash p\<rparr>"
    "ps_proofs st' = (ps_proofs st)(e \<mapsto> p)" "fs_Round (ps_statistics st) \<le> fp_Round p"
    using assms(2) by (auto simp: saveProof_def file_saveProof_def Let_def not_less split: if_splits)
  with e p that show ?thesis by (simp add: ps_loadProof_def)
qed

end
