(* ===== verification/Spec2Isabelle.thy ===== *)
theory Spec2Isabelle
  imports Account_State Patricia_Tree Multisig_Aggregate Locks Chain_Synchronizer Inflation Block_Hit
    Namespace_Plugin Namespace_Serializer Finalization_Voting
begin

text \<open>
  A verification development of the BitxorCore node: the account state, the caches over which blocks
  are executed, the state tree whose root every block commits to, the choice and the synchronization of
  chains, the votes that finalize blocks, and the transaction plugins of multisig accounts, locks and namespaces that
  change the caches.  A node executes a block by turning each transaction into notifications;
  validators inspect a notification against a cache delta, observers change the delta, and a rollback
  runs the observers backwards.  A cache delta is a delta set over a base set; when a block is
  accepted the delta is committed and the changes are applied to a Patricia tree.  Accounts with voting keys
  vote in rounds for blocks; a block with enough votes is final, and the votes are its proof.

  \<^bold>\<open>Theories and sources\<close> (paths below \<^verbatim>\<open>src/\<close>).
  \<^item> \<open>Prelude\<close>: results with the exceptions of the source, folds that stop at an exception, ordered
    association lists for \<^verbatim>\<open>std::map\<close> with the locale \<open>key_order\<close> of its key order, word lemmas.
  \<^item> \<open>Token_Map\<close>, \<open>Account_Balances\<close> (\<^verbatim>\<open>src/bitxorcore/state/CompactTokenMap\<close>, \<^verbatim>\<open>AccountBalances\<close>): the
    three-level map (one optimized token, a linked list of arrays, a tree) with its iterator, and
    credit and debit over it.  The locale of a token store states what the balances rely on and is
    interpreted on the compact map.
  \<^item> \<open>Height_History\<close>, \<open>Array_Stack\<close>, \<open>Account_State\<close> (\<^verbatim>\<open>HeightIndexedHistoryMap\<close>, \<^verbatim>\<open>CompactArrayStack\<close>,
    \<^verbatim>\<open>AccountImportanceSnapshots\<close>, \<^verbatim>\<open>AccountActivityBuckets\<close>, \<^verbatim>\<open>AccountPublicKeys\<close>, \<^verbatim>\<open>AccountState\<close>).
  \<^item> \<open>Delta_Set\<close>, \<open>Cache\<close> (\<^verbatim>\<open>src/bitxorcore/deltaset\<close>, \<^verbatim>\<open>cache/CacheMixins.h\<close>): base sets, deltas with added,
    removed and copied elements and generations, commit policies, and the cache interface; the locale
    \<open>cache_store\<close> states the interface and is interpreted on the delta set.
  \<^item> \<open>Tree_Path\<close>, \<open>Patricia_Tree\<close> (\<^verbatim>\<open>src/bitxorcore/tree\<close>): packed nibble paths, leaf and branch nodes with
    their hashes, set, unset, lookup and the data sources.
  \<^item> \<open>Multisig\<close>, \<open>Multisig_Graph\<close>, \<open>Multisig_Search\<close>, \<open>Multisig_Modification\<close>, \<open>Multisig_Aggregate\<close>
    (\<^verbatim>\<open>plugins/txes/multisig\<close>, \<^verbatim>\<open>chain/ProcessingNotificationSubscriber.cpp\<close>): the modification transaction
    from its notifications through validators and observers, forwards and back, and the two
    validators of aggregate cosignatures.
  \<^item> \<open>Lock_Cache\<close>, \<open>Locks\<close> (\<^verbatim>\<open>plugins/txes/lock_shared\<close>, \<^verbatim>\<open>lock_hash\<close>, \<^verbatim>\<open>lock_secret\<close>): lock histories with their
    height groups, and all validators and observers of the two lock plugins.
  \<^item> \<open>Compare_Chains\<close>, \<open>Chain_Synchronizer\<close> (\<^verbatim>\<open>chain/CompareChains.cpp\<close>, \<^verbatim>\<open>chain/ChainSynchronizer.cpp\<close>, the chain
    handlers and remote calls they use): the stages of the comparison of a local with a remote chain, the
    pulling of blocks from the common block, and the list of unprocessed elements of the synchronizer.
  \<^item> \<open>Inflation\<close>, \<open>Chain_Score\<close>, \<open>Block_Hit\<close> (\<^verbatim>\<open>model/InflationCalculator.cpp\<close>, \<^verbatim>\<open>cache_core/BlockStatisticCache\<close>,
    \<^verbatim>\<open>chain/BlockDifficultyScorer.cpp\<close>, \<^verbatim>\<open>chain/ChainUtils.cpp\<close>, \<^verbatim>\<open>model/ChainScore.h\<close>, \<^verbatim>\<open>chain/BlockScorer.cpp\<close>):
    block rewards and the total supply, difficulties over the window of past blocks, chain links and scores,
    the hit and the target of a block.
  \<^item> \<open>Namespace_State\<close>, \<open>Namespace_Cache\<close>, \<open>Namespace_Plugin\<close> (\<^verbatim>\<open>plugins/txes/namespace\<close>): root and child namespaces
    and their histories, the cache delta, and the registration and alias transactions from publication
    through validators and observers, forwards and back, with the resolvers.  Renewed roots share one
    container of children through a pointer, so a history is modelled over an explicit store of containers.
  \<^item> \<open>Byte_Stream\<close>, \<open>Namespace_Serializer\<close> (\<^verbatim>\<open>io/PodIoUtils.h\<close>, \<^verbatim>\<open>RootNamespaceHistorySerializer.cpp\<close>): integers,
    arrays and counted sequences as bytes; the locale \<open>serializer\<close> states the round trip of one element,
    is closed under counted sequences and is interpreted on integers and aliases.
  \<^item> \<open>Finalization_Model\<close> (\<^verbatim>\<open>model/VotingSet.cpp\<close>, \<^verbatim>\<open>model/FinalizationRound.cpp\<close>, \<^verbatim>\<open>extensions/finalization/src/model\<close>): epochs
    and voting sets, rounds and step identifiers, the weights of voters in a context, messages and their checks.
  \<^item> \<open>Finalization_Round\<close>, \<open>Finalization_Agreement\<close> (\<^verbatim>\<open>FinalizationHashTree.cpp\<close>, \<^verbatim>\<open>RoundContext.cpp\<close>,
    \<^verbatim>\<open>RoundMessageAggregator.cpp\<close> of \<^verbatim>\<open>extensions/finalization/src/chain\<close>): the tree of voted blocks, whose parent
    pointers are the keys of the parents, the weights of prevotes and precommits, and the votes of one round.
  \<^item> \<open>Finalization_Proof\<close> (\<^verbatim>\<open>FinalizationProofUtils.cpp\<close>, \<^verbatim>\<open>FinalizationProofVerifier.cpp\<close>): grouping of the votes of a round
    into a proof and its verification.
  \<^item> \<open>Finalization_Rounds\<close> (\<^verbatim>\<open>MultiRoundMessageAggregator.cpp\<close>, \<^verbatim>\<open>FinalizationStageAdvancer.cpp\<close>, \<^verbatim>\<open>FileProofStorage.cpp\<close>,
    \<^verbatim>\<open>AggregateProofStorage.cpp\<close>): the votes of all rounds of a node, the stages of a round, the stored proofs, and
    the finalizer that makes them.
  \<^item> \<open>Finalization_Voting\<close> (\<^verbatim>\<open>FinalizationMessageFactory.cpp\<close>, \<^verbatim>\<open>FinalizationOrchestrator.cpp\<close>, \<^verbatim>\<open>VotingStatusFile.cpp\<close>,
    \<^verbatim>\<open>FinalizationOrchestratorService.cpp\<close>, \<^verbatim>\<open>FinalizationProofSynchronizer.cpp\<close>): the votes a node makes, the service that
    polls for them with its status file, and the pull of proofs from peers.

  \<^bold>\<open>Conventions\<close>.  Machine integers are words of their width.  An exception is an \<open>Err\<close> of the type
  \<open>result\<close>; a C++ object changed in place is passed and returned.  Hash functions, resolvers of
  aliases, transaction registries, the iteration sequence of unordered sets, and the derivation of
  addresses are parameters; what is assumed of them is a hypothesis of the theorem that needs it.  So are
  how boost narrows a 128-bit integer to 64 bits (\<open>narrow\<close>) and the sequences in which an unordered
  container is enumerated (\<open>enum\<close>, \<open>order\<close>), the verification of voting signatures (\<open>verify\<close>), the hash of a message, the
  key tree a node signs with and the eligibility of its votes.

  \<^bold>\<open>Fuel\<close>.  The iterator of the token map, the searches of the multisig graph and of the cosignatories and
  the loops of the tree recurse over data that no type bounds.  They take fuel or return an option;
  the theorems prove that a result is returned: the searches need fuel above the maximal depth of
  the graph, which every accepted modification keeps.  The comparison of chains needs two stages per block
  above the last finalized one and four more, the pulling of blocks one request per block of the fork and one more; the
  normalization of a logarithm's argument shifts at most 32 times.  The walk along the parents in the tree of voted
  blocks takes at most as many steps as the tree has nodes.

  \<^bold>\<open>What is shown\<close>.  For each container: an invariant, that every operation keeps it, and the effect of
  each operation on the contents, exceptions included; canonicity of the tree (equal contents have
  equal roots); commit and rollback of delta sets.  For the plugins: that accepted transactions keep
  the state invariant, that rollbacks restore the state, that validators accept exactly what
  their purpose demands, and the inputs on which rollback or expiry goes wrong.  For the chain: which chain a
  comparison prefers, that the pulled blocks form the suffix of the remote chain, that the supply never
  exceeds its bound, that difficulties stay in their range.  For the serializers: what is written is read back.
  For finalization: the weights of a round are exactly those of its voters; two nodes never finalize conflicting
  blocks in a round unless enough weight votes twice; accepted proofs hold enough votes, and the proofs a node
  saves are accepted if its prevotes agree on the parents of blocks; a node votes once per step, over restarts too, and once
  more for each poll that was cut off between sending and saving its status; its prevotes are well
  formed.  Two results show where this fails: a threshold that overflows, and votes that count differently in
  different sequences.

  \<^bold>\<open>Not modelled\<close>.  Network and file input and output, threading, persistence in databases,
  cryptographic primitives (parameters), configuration loading, the MongoDB and ZeroMQ extensions, the tools and
  the SDK; of the plugins, the ones the theories above do not name; of the chain logic,
  harvesting; of finalization, the packet handlers and remote calls, the backups of votes and prevoted blocks on disk, and
  a crash in the middle of writing the status file; of the caches, their storage to disk.
\<close>

end
